(* ===== verification/Prelude.thy ===== *)
theory Prelude
  imports Main "HOL-Library.Word" "HOL-Library.Log_Nat"
begin

text \<open>
  Shared vocabulary of the development: the machine types of the C sources, the few
  routines of the C library whose result the program depends on (\<^verbatim>\<open>strncmp\<close> against 0,
  \<^verbatim>\<open>snprintf\<close> truncation, \<^verbatim>\<open>atoi\<close>, the conversion of a \<^verbatim>\<open>timespec\<close> to nanoseconds
  through \<^verbatim>\<open>double\<close>), mutex traces, and lemmas on lists and words that several
  components use.

  A pointer that may be NULL is an \<open>option\<close>. A C string is a \<open>string\<close> without its
  terminating NUL.
\<close>

unbundle bit_operations_syntax

section \<open>Machine types\<close>

type_synonym u16 = "16 word"
type_synonym u32 = "32 word"
type_synonym u64 = "64 word"

text \<open>Simplification rules of the components, collected by the component that proves them.\<close>

named_theorems table_simps \<open>laws of the hash tables\<close>
named_theorems counter_simps \<open>functional behaviour of the counter operations\<close>
named_theorems plugin_simps \<open>functional behaviour of the plugin manager\<close>
named_theorems ring_simps \<open>index arithmetic of the ring buffer\<close>

section \<open>C library routines\<close>

text \<open>\<^verbatim>\<open>strncmp(a, b, n) == 0\<close> for NUL-free strings.\<close>

definition strncmp_eq :: "string \<Rightarrow> string \<Rightarrow> nat \<Rightarrow> bool" where
  "strncmp_eq a b n \<longleftrightarrow> take n a = take n b"

text \<open>\<^verbatim>\<open>snprintf(buf, sz, "%s", s)\<close> leaves at most \<open>sz - 1\<close> characters in \<open>buf\<close>.\<close>

definition snprintf_s :: "nat \<Rightarrow> string \<Rightarrow> string" where
  "snprintf_s sz s = take (sz - 1) s"

lemma snprintf_s_fits [simp]: "length s < sz \<Longrightarrow> snprintf_s sz s = s"
  by (simp add: snprintf_s_def)

lemma length_snprintf_s: "length (snprintf_s sz s) \<le> sz - 1"
  by (simp add: snprintf_s_def)

lemma snprintf_s_neq: "0 < sz \<Longrightarrow> sz \<le> length s \<Longrightarrow> snprintf_s sz s \<noteq> s"
  by (auto simp: snprintf_s_def dest!: arg_cong [where f = length])

lemma strncmp_eq_prefix: "length b = n \<Longrightarrow> strncmp_eq (b @ s) b n"
  by (simp add: strncmp_eq_def)

lemma strncmp_eq_iff_prefix: "length b = n \<Longrightarrow> strncmp_eq a b n \<longleftrightarrow> (\<exists>s. a = b @ s)"
  by (auto simp: strncmp_eq_def) (metis append_take_drop_id)

text \<open>What C sees of a sequence of bytes as a string.\<close>

definition c_str :: "string \<Rightarrow> string" where
  "c_str b = takeWhile (\<lambda>c. c \<noteq> CHR 0x00) b"

text \<open>
  \<^verbatim>\<open>atoi\<close> as the C library computes it: white space, an optional sign, decimal digits up
  to the first other character, converted as \<^verbatim>\<open>strtol\<close> (64 bits, saturating) and then
  truncated to an \<^verbatim>\<open>int\<close>.
\<close>

definition c_isspace :: "char \<Rightarrow> bool" where
  "c_isspace c \<longleftrightarrow> c = CHR '' '' \<or> (9 \<le> (of_char c :: nat) \<and> (of_char c :: nat) \<le> 13)"

definition c_digit :: "char \<Rightarrow> nat option" where
  "c_digit c = (let n = (of_char c :: nat) in if 48 \<le> n \<and> n \<le> 57 then Some (n - 48) else None)"

fun c_digits :: "int \<Rightarrow> string \<Rightarrow> int" where
  "c_digits acc [] = acc"
| "c_digits acc (c # cs) =
     (case c_digit c of None \<Rightarrow> acc | Some d \<Rightarrow> c_digits (10 * acc + int d) cs)"

definition c_strtol :: "string \<Rightarrow> int" where
  "c_strtol s =
     (let t = dropWhile c_isspace s;
          v = (case t of
                 [] \<Rightarrow> 0
               | c # cs \<Rightarrow> if c = CHR ''-'' then - c_digits 0 cs
                          else if c = CHR ''+'' then c_digits 0 cs
                          else c_digits 0 t)
      in max (- (2 ^ 63)) (min (2 ^ 63 - 1) v))"

definition c_int :: "int \<Rightarrow> int" where
  "c_int v = signed_take_bit 31 v"

definition c_atoi :: "string \<Rightarrow> int" where
  "c_atoi s = c_int (c_strtol s)"

lemma c_int_range: "- (2 ^ 31) \<le> c_int v" "c_int v < 2 ^ 31"
  using signed_take_bit_int_greater_eq_minus_exp [of 31 v] signed_take_bit_int_less_exp [of 31 v]
  by (simp_all add: c_int_def)

lemma c_int_id [simp]: "- (2 ^ 31) \<le> v \<Longrightarrow> v < 2 ^ 31 \<Longrightarrow> c_int v = v"
  by (simp add: c_int_def signed_take_bit_int_eq_self_iff)

lemma unat_of_nat_small: "n < 2 ^ LENGTH('a) \<Longrightarrow> unat (of_nat n :: 'a::len word) = n"
  by (simp add: unat_of_nat)

lemma unat_of_nat_plus1:
  assumes "Suc n < 2 ^ LENGTH('a)"
  shows "unat (of_nat n + 1 :: 'a::len word) = Suc n"
proof -
  have "(of_nat n + 1 :: 'a word) = of_nat (Suc n)" by simp
  then show ?thesis using unat_of_nat_small [OF assms] by (simp only:)
qed

section \<open>Clock readings\<close>

text \<open>
  A \<^verbatim>\<open>struct timespec\<close> becomes a nanosecond count by \<^verbatim>\<open>ts.tv_sec * 1e9 + ts.tv_nsec\<close>,
  evaluated in IEEE double precision and converted to \<^verbatim>\<open>uint64_t\<close>. \<open>dbl_round\<close> is
  rounding to nearest, ties to even, on 53 significant bits.
\<close>

record timespec =
  tv_sec :: nat
  tv_nsec :: nat

definition dbl_round :: "nat \<Rightarrow> nat" where
  "dbl_round n =
     (let s = floorlog 2 n - 53; q = n div 2 ^ s; r = n mod 2 ^ s
      in if 2 * r < 2 ^ s \<or> (2 * r = 2 ^ s \<and> even q) then q * 2 ^ s else Suc q * 2 ^ s)"

definition ts_to_nsec :: "timespec \<Rightarrow> u64" where
  "ts_to_nsec t =
     of_nat (dbl_round (dbl_round (dbl_round (tv_sec t) * 10 ^ 9) + tv_nsec t))"

lemma dbl_round_exact:
  assumes "n < 2 ^ 53"
  shows "dbl_round n = n"
proof -
  have "floorlog 2 n \<le> 53"
  proof (cases "n = 0")
    case False
    then have "2 ^ (floorlog 2 n - 1) \<le> n"
      using floorlog_bounds [of n 2] by simp
    with assms have "(2::nat) ^ (floorlog 2 n - 1) < 2 ^ 53" by linarith
    then have "floorlog 2 n - 1 < 53" by (rule power_less_imp_less_exp [rotated]) simp
    then show ?thesis by simp
  qed (simp add: floorlog_def)
  then show ?thesis by (simp add: dbl_round_def)
qed

lemma ts_to_nsec_exact:
  assumes "tv_sec t * 10 ^ 9 + tv_nsec t < 2 ^ 53"
  shows "unat (ts_to_nsec t) = tv_sec t * 10 ^ 9 + tv_nsec t"
proof -
  from assms have "tv_sec t * 10 ^ 9 < 2 ^ 53" "tv_sec t < 2 ^ 53" by simp_all
  with assms have "dbl_round (dbl_round (dbl_round (tv_sec t) * 10 ^ 9) + tv_nsec t) =
      tv_sec t * 10 ^ 9 + tv_nsec t"
    by (simp add: dbl_round_exact)
  with assms show ?thesis
    unfolding ts_to_nsec_def by (subst unat_of_nat_small) simp_all
qed

section \<open>Mutex traces\<close>

text \<open>
  Operations that take locks also return the sequence of mutex calls they make.
  \<open>lock_run\<close> executes such a sequence on the set of mutexes the calling thread holds;
  it fails on the acquisition of a default (non-recursive) mutex the thread already
  holds, and on the release of one it does not hold.
\<close>

datatype 'm mtx_ev = Mtx_lock 'm | Mtx_unlock 'm

fun lock_run :: "'m list \<Rightarrow> 'm mtx_ev list \<Rightarrow> 'm list option" where
  "lock_run held [] = Some held"
| "lock_run held (Mtx_lock m # es) = (if m \<in> set held then None else lock_run (m # held) es)"
| "lock_run held (Mtx_unlock m # es) =
     (if m \<in> set held then lock_run (remove1 m held) es else None)"

definition lock_balanced :: "'m list \<Rightarrow> 'm mtx_ev list \<Rightarrow> bool" where
  "lock_balanced held es \<longleftrightarrow> lock_run held es = Some held"

lemma lock_run_append:
  "lock_run held (es @ es') = Option.bind (lock_run held es) (\<lambda>h. lock_run h es')"
  by (induction held es rule: lock_run.induct) auto

lemma lock_balanced_Nil [simp]: "lock_balanced held []"
  by (simp add: lock_balanced_def)

lemma lock_balanced_append:
  "lock_balanced held es \<Longrightarrow> lock_balanced held es' \<Longrightarrow> lock_balanced held (es @ es')"
  by (simp add: lock_balanced_def lock_run_append)

lemma lock_balanced_bracket:
  assumes "m \<notin> set held" and "lock_balanced (m # held) es"
  shows "lock_balanced held (Mtx_lock m # es @ [Mtx_unlock m])"
  using assms by (simp add: lock_balanced_def lock_run_append)

section \<open>Lists\<close>

lemma map_of_rev_distinct: "distinct (map fst xs) \<Longrightarrow> map_of (rev xs) = map_of xs"
  by (rule map_of_eqI) (auto simp: rev_map [symmetric] map_of_eq_Some_iff)

lemma fold_nth_upt: "fold (\<lambda>i. g (xs ! i)) [0..<length xs] = fold g xs"
proof -
  have "fold g (map ((!) xs) [0..<length xs]) = fold (\<lambda>i. g (xs ! i)) [0..<length xs]"
    by (simp add: fold_map o_def del: map_nth)
  then show ?thesis by (simp add: map_nth)
qed

lemma map_of_append_None: "map_of xs k = None \<Longrightarrow> map_of (xs @ ys) k = map_of ys k"
  by (simp add: map_add_def map_of_append [symmetric] split: option.split)

end
