(* ===== verification/Uthash.thy ===== *)
theory Uthash
  imports Prelude
begin

text \<open>
  The hash tables of \<^verbatim>\<open>src/src/include/uthash.h\<close> as every component uses them. A table is
  the application-order list of its elements (the \<^verbatim>\<open>hh.prev\<close>/\<^verbatim>\<open>hh.next\<close> chain that
  \<^verbatim>\<open>HASH_APPEND_LIST\<close> extends at the tail and \<^verbatim>\<open>HASH_ITER\<close> walks), each element being
  its key and the address of the structure. \<^verbatim>\<open>HASH_ADD\<close> does not look for an existing
  key, so a table may hold one key twice; which of the two \<^verbatim>\<open>HASH_FIND\<close> then meets depends on
  the bucket expansions in between (each reverses the chains). \<open>HASH_FIND\<close> below takes the
  newest, and no property of the development rests on that choice: they are about tables with
  distinct keys, or hold whichever is found. \<^verbatim>\<open>HASH_DEL\<close> unlinks one structure, by address.

  The buckets behind these operations are modelled in \<open>Uthash_impl\<close>, which proves that they
  implement them on tables with distinct keys.

  The interface \<open>keyed_table\<close> states what the clients rely on, and the two idioms they
  share (look up and add if absent; iterate and delete) are proved once over it.
\<close>

type_synonym ('k, 'p) uthash = "('k \<times> 'p) list"

definition HASH_FIND :: "('k, 'p) uthash \<Rightarrow> 'k \<Rightarrow> 'p option" where
  "HASH_FIND t k = map_of (rev t) k"

definition HASH_ADD :: "('k, 'p) uthash \<Rightarrow> 'k \<Rightarrow> 'p \<Rightarrow> ('k, 'p) uthash" where
  "HASH_ADD t k p = t @ [(k, p)]"

definition HASH_DEL :: "('k, 'p) uthash \<Rightarrow> 'p \<Rightarrow> ('k, 'p) uthash" where
  "HASH_DEL t p = filter (\<lambda>e. snd e \<noteq> p) t"

definition HASH_COUNT :: "('k, 'p) uthash \<Rightarrow> nat" where
  "HASH_COUNT t = length t"

definition HASH_CLEAR :: "('k, 'p) uthash \<Rightarrow> ('k, 'p) uthash" where
  "HASH_CLEAR t = []"

text \<open>\<^verbatim>\<open>HASH_ITER\<close> visits the elements in application order.\<close>

definition HASH_ITER :: "('k, 'p) uthash \<Rightarrow> 'p list" where
  "HASH_ITER t = map snd t"

text \<open>
  A well-formed table holds every key and every structure once.
\<close>

definition uthash_wf :: "('k, 'p) uthash \<Rightarrow> bool" where
  "uthash_wf t \<longleftrightarrow> distinct (map fst t) \<and> distinct (map snd t)"

section \<open>The interface\<close>

locale keyed_table =
  fixes find :: "'t \<Rightarrow> 'k \<Rightarrow> 'p option"
    and add :: "'t \<Rightarrow> 'k \<Rightarrow> 'p \<Rightarrow> 't"
    and del :: "'t \<Rightarrow> 'p \<Rightarrow> 't"
    and elems :: "'t \<Rightarrow> 'p list"
    and wf :: "'t \<Rightarrow> bool"
    and empty :: "'t"
  assumes wf_empty: "wf empty"
    and find_empty: "find empty k = None"
    and find_add: "wf t \<Longrightarrow> find t k = None \<Longrightarrow> p \<notin> set (elems t) \<Longrightarrow>
      find (add t k p) k' = (if k' = k then Some p else find t k')"
    and wf_add: "wf t \<Longrightarrow> find t k = None \<Longrightarrow> p \<notin> set (elems t) \<Longrightarrow> wf (add t k p)"
    and elems_add: "wf t \<Longrightarrow> elems (add t k p) = elems t @ [p]"
    and find_del: "wf t \<Longrightarrow> find t k = Some p \<Longrightarrow>
      find (del t p) k' = (if k' = k then None else find t k')"
    and wf_del: "wf t \<Longrightarrow> wf (del t p)"
    and elems_del: "wf t \<Longrightarrow> elems (del t p) = filter (\<lambda>q. q \<noteq> p) (elems t)"
    and find_elems: "wf t \<Longrightarrow> find t k = Some p \<Longrightarrow> p \<in> set (elems t)"
    and elems_distinct: "wf t \<Longrightarrow> distinct (elems t)"
    and elems_nil: "wf t \<Longrightarrow> elems t = [] \<Longrightarrow> t = empty"
begin

text \<open>The registration idiom: \<^verbatim>\<open>HASH_FIND\<close>, and \<^verbatim>\<open>HASH_ADD\<close> only when nothing was found.\<close>

definition register :: "'t \<Rightarrow> 'k \<Rightarrow> 'p \<Rightarrow> 't" where
  "register t k p = (case find t k of Some _ \<Rightarrow> t | None \<Rightarrow> add t k p)"

lemma register_wf:
  "wf t \<Longrightarrow> p \<notin> set (elems t) \<Longrightarrow> wf (register t k p)"
  by (simp add: register_def wf_add split: option.split)

lemma register_find:
  assumes "wf t" and "p \<notin> set (elems t)"
  shows "find (register t k p) k' =
    (if k' = k then Some (case find t k of Some q \<Rightarrow> q | None \<Rightarrow> p) else find t k')"
  using assms by (simp add: register_def find_add split: option.split)

lemma register_idem:
  assumes "wf t" and "p \<notin> set (elems t)"
  shows "register (register t k p) k q = register t k p"
  using register_find [OF assms, of k k] by (simp add: register_def [of "register t k p"])

lemma register_elems:
  assumes "wf t"
  shows "set (elems (register t k p)) \<subseteq> insert p (set (elems t))"
  using elems_add [OF assms, of k p] by (auto simp: register_def split: option.split)

text \<open>
  The teardown idiom: iterate over the table and delete every element met. The iteration
  is over the elements the table had at the start, as \<^verbatim>\<open>HASH_ITER\<close> saves the successor.
\<close>

definition drain :: "'t \<Rightarrow> 't" where
  "drain t = fold (\<lambda>p s. del s p) (elems t) t"

lemma fold_del:
  "wf t \<Longrightarrow> wf (fold (\<lambda>p s. del s p) ps t) \<and>
    elems (fold (\<lambda>p s. del s p) ps t) = filter (\<lambda>q. q \<notin> set ps) (elems t)"
  by (induction ps arbitrary: t) (auto simp: elems_del wf_del intro!: filter_cong)

lemma drain_empty: "wf t \<Longrightarrow> drain t = empty"
  using fold_del [of t "elems t"] unfolding drain_def by (intro elems_nil) (simp_all add: filter_empty_conv)

end

section \<open>The tables satisfy it\<close>

lemma HASH_FIND_empty: "HASH_FIND [] k = None"
  by (simp add: HASH_FIND_def)

lemma HASH_FIND_ADD: "HASH_FIND (HASH_ADD t k p) k' = (if k' = k then Some p else HASH_FIND t k')"
  by (simp add: HASH_FIND_def HASH_ADD_def)

lemma HASH_FIND_None_iff: "HASH_FIND t k = None \<longleftrightarrow> k \<notin> fst ` set t"
  by (simp add: HASH_FIND_def map_of_eq_None_iff)

lemma HASH_FIND_SomeD: "HASH_FIND t k = Some p \<Longrightarrow> (k, p) \<in> set t"
  by (auto simp: HASH_FIND_def dest: map_of_SomeD)

lemma HASH_FIND_wf_iff: "uthash_wf t \<Longrightarrow> HASH_FIND t k = Some p \<longleftrightarrow> (k, p) \<in> set t"
  by (simp add: HASH_FIND_def uthash_wf_def map_of_rev_distinct)

lemma HASH_FIND_DEL:
  assumes wf: "uthash_wf t" and found: "HASH_FIND t k = Some p"
  shows "HASH_FIND (HASH_DEL t p) k' = (if k' = k then None else HASH_FIND t k')"
proof -
  have wf': "uthash_wf (HASH_DEL t p)"
    using wf by (auto simp: uthash_wf_def HASH_DEL_def distinct_map_filter)
  have kp: "(k, p) \<in> set t" using found by (rule HASH_FIND_SomeD)
  have only: "k'' = k" if "(k'', p) \<in> set t" for k''
    using wf that kp by (fastforce simp: uthash_wf_def distinct_map inj_on_def)
  have only': "q = p" if "(k, q) \<in> set t" for q
    using wf that kp by (fastforce simp: uthash_wf_def distinct_map inj_on_def)
  show ?thesis
  proof (cases "k' = k")
    case True
    then show ?thesis
      using only' by (auto simp: HASH_FIND_None_iff HASH_DEL_def)
  next
    case False
    have "HASH_FIND (HASH_DEL t p) k' = Some q \<longleftrightarrow> HASH_FIND t k' = Some q" for q
      unfolding HASH_FIND_wf_iff [OF wf] HASH_FIND_wf_iff [OF wf']
      using False only by (auto simp: HASH_DEL_def)
    with False show ?thesis by (metis not_Some_eq)
  qed
qed

interpretation uth: keyed_table HASH_FIND HASH_ADD HASH_DEL HASH_ITER uthash_wf "[]"
proof unfold_locales
  fix t :: "('k, 'p) uthash" and k k' p
  show "uthash_wf ([] :: ('k, 'p) uthash)" by (simp add: uthash_wf_def)
  show "HASH_FIND ([] :: ('k, 'p) uthash) k = None" by (rule HASH_FIND_empty)
  show "uthash_wf t \<Longrightarrow> HASH_FIND t k = None \<Longrightarrow> p \<notin> set (HASH_ITER t) \<Longrightarrow>
      HASH_FIND (HASH_ADD t k p) k' = (if k' = k then Some p else HASH_FIND t k')"
    by (rule HASH_FIND_ADD)
  show "uthash_wf t \<Longrightarrow> HASH_FIND t k = None \<Longrightarrow> p \<notin> set (HASH_ITER t) \<Longrightarrow>
      uthash_wf (HASH_ADD t k p)"
    by (auto simp: uthash_wf_def HASH_FIND_None_iff HASH_ITER_def HASH_ADD_def)
  show "HASH_ITER (HASH_ADD t k p) = HASH_ITER t @ [p]"
    by (simp add: HASH_ITER_def HASH_ADD_def)
  show "uthash_wf t \<Longrightarrow> HASH_FIND t k = Some p \<Longrightarrow>
      HASH_FIND (HASH_DEL t p) k' = (if k' = k then None else HASH_FIND t k')"
    by (rule HASH_FIND_DEL)
  show "uthash_wf t \<Longrightarrow> uthash_wf (HASH_DEL t p)"
    by (auto simp: uthash_wf_def HASH_DEL_def distinct_map_filter)
  show "HASH_ITER (HASH_DEL t p) = filter (\<lambda>q. q \<noteq> p) (HASH_ITER t)"
    by (simp add: HASH_ITER_def HASH_DEL_def filter_map o_def)
  show "HASH_FIND t k = Some p \<Longrightarrow> p \<in> set (HASH_ITER t)"
    by (force simp: HASH_ITER_def dest: HASH_FIND_SomeD)
  show "uthash_wf t \<Longrightarrow> distinct (HASH_ITER t)"
    by (simp add: uthash_wf_def HASH_ITER_def)
  show "HASH_ITER t = [] \<Longrightarrow> t = []"
    by (simp add: HASH_ITER_def)
qed

text \<open>Iterating and deleting empties any table, with repeated keys or structures too.\<close>

lemma fold_HASH_DEL: "fold (\<lambda>p s. HASH_DEL s p) ps t = filter (\<lambda>e. snd e \<notin> set ps) t"
  by (induction ps arbitrary: t) (auto simp: HASH_DEL_def intro!: filter_cong)

lemma HASH_drain: "uth.drain t = []"
  by (auto simp: uth.drain_def fold_HASH_DEL HASH_ITER_def filter_empty_conv)

lemma HASH_ITER_ADD: "HASH_ITER (HASH_ADD t k p) = HASH_ITER t @ [p]"
  by (simp add: HASH_ITER_def HASH_ADD_def)

declare HASH_FIND_empty [table_simps] HASH_FIND_ADD [table_simps] HASH_ITER_ADD [table_simps]

end
