(* ===== verification/Uthash_impl.thy ===== *)
theory Uthash_impl
  imports Uthash
begin

text \<open>
  The buckets behind the hash tables: the macros of \<^verbatim>\<open>src/src/include/uthash.h\<close> that
  \<^verbatim>\<open>HASH_FIND\<close>, \<^verbatim>\<open>HASH_ADD_KEYPTR\<close> and \<^verbatim>\<open>HASH_DELETE\<close> expand to, and the proof that they
  implement the operations of \<open>Uthash\<close>.

  The hash function is an arbitrary argument \<open>hf\<close>: nothing below depends on which one it is.
  A bucket's chain is the list of its handles from \<^verbatim>\<open>hh_head\<close> on, and the application
  order is the list of handles from the head of the table to its \<^verbatim>\<open>tail\<close>. The counters of a
  table are natural numbers: they bound the sizes of arrays and lists in memory, and
  \<^verbatim>\<open>uthash_malloc\<close> ends the program (\<^verbatim>\<open>uthash_fatal\<close>) before \<^verbatim>\<open>num_buckets\<close> can wrap around.
\<close>

section \<open>Data\<close>

record ('k, 'p) ut_handle =
  hh_key :: 'k
  hh_hashv :: u32
  hh_elt :: 'p

record ('k, 'p) ut_bucket =
  bk_chain :: "('k, 'p) ut_handle list"
  bk_count :: nat
  bk_expand_mult :: nat

record ('k, 'p) ut_table =
  buckets :: "('k, 'p) ut_bucket list"
  num_buckets :: nat
  log2_num_buckets :: nat
  num_items :: nat
  app_order :: "('k, 'p) ut_handle list"
  ideal_chain_maxlen :: nat
  nonideal_items :: nat
  ineff_expands :: nat
  noexpand :: bool

text \<open>A table is reached through its first element; \<^verbatim>\<open>NULL\<close> is the empty table.\<close>

type_synonym ('k, 'p) ut_head = "('k, 'p) ut_table option"

section \<open>Operations\<close>

definition empty_bucket :: "('k, 'p) ut_bucket" where
  "empty_bucket = \<lparr>bk_chain = [], bk_count = 0, bk_expand_mult = 0\<rparr>"

definition HASH_MAKE_TABLE :: "('k, 'p) ut_handle \<Rightarrow> ('k, 'p) ut_table" where
  "HASH_MAKE_TABLE h = \<lparr>buckets = replicate 32 empty_bucket, num_buckets = 32, log2_num_buckets = 5,
     num_items = 0, app_order = [h], ideal_chain_maxlen = 0, nonideal_items = 0, ineff_expands = 0,
     noexpand = False\<rparr>"

text \<open>\<^verbatim>\<open>hashv & (num_bkts - 1)\<close>\<close>

definition HASH_TO_BKT :: "u32 \<Rightarrow> nat \<Rightarrow> nat" where
  "HASH_TO_BKT hashv num_bkts = unat hashv AND (num_bkts - 1)"

fun HASH_FIND_IN_BKT :: "('k, 'p) ut_handle list \<Rightarrow> 'k \<Rightarrow> u32 \<Rightarrow> 'p option" where
  "HASH_FIND_IN_BKT [] k hashv = None"
| "HASH_FIND_IN_BKT (h # hs) k hashv =
     (if hh_hashv h = hashv \<and> hh_key h = k then Some (hh_elt h) else HASH_FIND_IN_BKT hs k hashv)"

definition HASH_FIND_BKT :: "('k \<Rightarrow> u32) \<Rightarrow> ('k, 'p) ut_head \<Rightarrow> 'k \<Rightarrow> 'p option" where
  "HASH_FIND_BKT hf head k =
     (case head of
        None \<Rightarrow> None
      | Some t \<Rightarrow> HASH_FIND_IN_BKT (bk_chain (buckets t ! HASH_TO_BKT (hf k) (num_buckets t))) k (hf k))"

text \<open>One iteration of the inner loop of the expansion: the handle goes to the head of its new bucket.\<close>

definition rehash_step ::
  "nat \<Rightarrow> nat \<Rightarrow> ('k, 'p) ut_handle \<Rightarrow> ('k, 'p) ut_bucket list \<times> nat \<Rightarrow> ('k, 'p) ut_bucket list \<times> nat"
where
  "rehash_step nb2 ideal h s =
     (let (bs, nonideal) = s; i = HASH_TO_BKT (hh_hashv h) nb2; b = bs ! i; c = bk_count b + 1;
          nonideal' = (if c > ideal then nonideal + 1 else nonideal);
          em = (if c > ideal \<and> c > bk_expand_mult b * ideal then bk_expand_mult b + 1 else bk_expand_mult b)
      in (bs[i := \<lparr>bk_chain = h # bk_chain b, bk_count = c, bk_expand_mult = em\<rparr>], nonideal'))"

definition HASH_EXPAND_BUCKETS :: "('k, 'p) ut_table \<Rightarrow> ('k, 'p) ut_table" where
  "HASH_EXPAND_BUCKETS t =
     (let nb2 = num_buckets t * 2;
          ideal = drop_bit (log2_num_buckets t + 1) (num_items t) +
                  (if num_items t AND (nb2 - 1) \<noteq> 0 then 1 else 0);
          (bs, nonideal) = fold (\<lambda>b. fold (rehash_step nb2 ideal) (bk_chain b)) (buckets t)
                             (replicate nb2 empty_bucket, 0);
          ineff = (if nonideal > drop_bit 1 (num_items t) then ineff_expands t + 1 else 0)
      in t\<lparr>buckets := bs, num_buckets := nb2, log2_num_buckets := log2_num_buckets t + 1,
           ideal_chain_maxlen := ideal, nonideal_items := nonideal, ineff_expands := ineff,
           noexpand := (noexpand t \<or> ineff > 1)\<rparr>)"

definition HASH_ADD_TO_BKT :: "nat \<Rightarrow> ('k, 'p) ut_handle \<Rightarrow> ('k, 'p) ut_table \<Rightarrow> ('k, 'p) ut_table" where
  "HASH_ADD_TO_BKT i h t =
     (let b = buckets t ! i; b' = b\<lparr>bk_chain := h # bk_chain b, bk_count := bk_count b + 1\<rparr>;
          t' = t\<lparr>buckets := (buckets t)[i := b']\<rparr>
      in if bk_count b' \<ge> (bk_expand_mult b' + 1) * 10 \<and> \<not> noexpand t'
         then HASH_EXPAND_BUCKETS t' else t')"

definition HASH_ADD_TO_TABLE :: "('k, 'p) ut_handle \<Rightarrow> ('k, 'p) ut_table \<Rightarrow> ('k, 'p) ut_table" where
  "HASH_ADD_TO_TABLE h t =
     (let t' = t\<lparr>num_items := num_items t + 1\<rparr>
      in HASH_ADD_TO_BKT (HASH_TO_BKT (hh_hashv h) (num_buckets t')) h t')"

definition HASH_ADD_KEYPTR :: "('k \<Rightarrow> u32) \<Rightarrow> ('k, 'p) ut_head \<Rightarrow> 'k \<Rightarrow> 'p \<Rightarrow> ('k, 'p) ut_head" where
  "HASH_ADD_KEYPTR hf head k p =
     (let h = \<lparr>hh_key = k, hh_hashv = hf k, hh_elt = p\<rparr>;
          t = (case head of None \<Rightarrow> HASH_MAKE_TABLE h | Some t \<Rightarrow> t\<lparr>app_order := app_order t @ [h]\<rparr>)
      in Some (HASH_ADD_TO_TABLE h t))"

definition HASH_DEL_IN_BKT :: "'p \<Rightarrow> ('k, 'p) ut_bucket \<Rightarrow> ('k, 'p) ut_bucket" where
  "HASH_DEL_IN_BKT p b =
     b\<lparr>bk_count := bk_count b - 1, bk_chain := filter (\<lambda>h. hh_elt h \<noteq> p) (bk_chain b)\<rparr>"

text \<open>
  \<^verbatim>\<open>HASH_DELETE\<close> of the element at address \<open>p\<close>, which has to be in the table; its handle gives
  the bucket. The last element takes the table with it.
\<close>

definition HASH_DELETE_HH :: "('k, 'p) ut_head \<Rightarrow> 'p \<Rightarrow> ('k, 'p) ut_head" where
  "HASH_DELETE_HH head p =
     (case head of
        None \<Rightarrow> None
      | Some t \<Rightarrow>
        (case List.find (\<lambda>h. hh_elt h = p) (app_order t) of
           None \<Rightarrow> head
         | Some h \<Rightarrow>
             if length (app_order t) = 1 then None
             else let i = HASH_TO_BKT (hh_hashv h) (num_buckets t)
                  in Some (t\<lparr>app_order := filter (\<lambda>h. hh_elt h \<noteq> p) (app_order t),
                             buckets := (buckets t)[i := HASH_DEL_IN_BKT p (buckets t ! i)],
                             num_items := num_items t - 1\<rparr>)))"

definition HASH_ITER_BKT :: "('k, 'p) ut_head \<Rightarrow> 'p list" where
  "HASH_ITER_BKT head = (case head of None \<Rightarrow> [] | Some t \<Rightarrow> map hh_elt (app_order t))"

definition HASH_CNT :: "('k, 'p) ut_head \<Rightarrow> nat" where
  "HASH_CNT head = (case head of None \<Rightarrow> 0 | Some t \<Rightarrow> num_items t)"

section \<open>Invariant and abstraction\<close>

text \<open>Every bucket's chain holds exactly the elements whose hash selects it.\<close>

definition chains_ok :: "nat \<Rightarrow> ('k, 'p) ut_handle set \<Rightarrow> ('k, 'p) ut_bucket list \<Rightarrow> bool" where
  "chains_ok nb H bs \<longleftrightarrow> length bs = nb \<and>
     (\<forall>i < nb. set (bk_chain (bs ! i)) = {h \<in> H. HASH_TO_BKT (hh_hashv h) nb = i})"

definition table_inv :: "('k \<Rightarrow> u32) \<Rightarrow> ('k, 'p) ut_table \<Rightarrow> bool" where
  "table_inv hf t \<longleftrightarrow> num_buckets t = 2 ^ log2_num_buckets t \<and> num_items t = length (app_order t) \<and>
     app_order t \<noteq> [] \<and> (\<forall>h \<in> set (app_order t). hh_hashv h = hf (hh_key h)) \<and>
     chains_ok (num_buckets t) (set (app_order t)) (buckets t)"

definition head_inv :: "('k \<Rightarrow> u32) \<Rightarrow> ('k, 'p) ut_head \<Rightarrow> bool" where
  "head_inv hf head \<longleftrightarrow> (case head of None \<Rightarrow> True | Some t \<Rightarrow> table_inv hf t)"

definition ut_abs :: "('k, 'p) ut_head \<Rightarrow> ('k, 'p) uthash" where
  "ut_abs head = (case head of None \<Rightarrow> [] | Some t \<Rightarrow> map (\<lambda>h. (hh_key h, hh_elt h)) (app_order t))"

definition ut_wf :: "('k \<Rightarrow> u32) \<Rightarrow> ('k, 'p) ut_head \<Rightarrow> bool" where
  "ut_wf hf head \<longleftrightarrow> head_inv hf head \<and> uthash_wf (ut_abs head)"

lemma HASH_TO_BKT_less: "0 < nb \<Longrightarrow> HASH_TO_BKT v nb < nb"
proof -
  assume "0 < nb"
  have "int (unat v AND (nb - 1)) \<le> int (nb - 1)" by (simp add: of_nat_and_eq)
  with \<open>0 < nb\<close> show ?thesis by (simp add: HASH_TO_BKT_def)
qed

lemma HASH_FIND_IN_BKT_None:
  "HASH_FIND_IN_BKT hs k v = None \<longleftrightarrow> (\<forall>h \<in> set hs. \<not> (hh_hashv h = v \<and> hh_key h = k))"
  by (induction hs) auto

lemma HASH_FIND_IN_BKT_Some:
  "HASH_FIND_IN_BKT hs k v = Some p \<Longrightarrow> \<exists>h \<in> set hs. hh_hashv h = v \<and> hh_key h = k \<and> hh_elt h = p"
  by (induction hs) (auto split: if_splits)

section \<open>Every operation keeps the invariant\<close>

lemma chains_ok_empty: "chains_ok nb {} (replicate nb empty_bucket)"
  by (simp add: chains_ok_def empty_bucket_def)

lemma chains_ok_update:
  assumes "chains_ok nb H bs" and "i < nb"
    and "set (bk_chain b) = {h \<in> H'. HASH_TO_BKT (hh_hashv h) nb = i}"
    and "\<And>j. j < nb \<Longrightarrow> j \<noteq> i \<Longrightarrow>
      {h \<in> H'. HASH_TO_BKT (hh_hashv h) nb = j} = {h \<in> H. HASH_TO_BKT (hh_hashv h) nb = j}"
  shows "chains_ok nb H' (bs[i := b])"
  using assms unfolding chains_ok_def by (auto simp: nth_list_update)

lemma chains_ok_insert:
  assumes "chains_ok nb H bs" and "0 < nb" and "i = HASH_TO_BKT (hh_hashv h) nb"
    and "set (bk_chain b) = insert h (set (bk_chain (bs ! i)))"
  shows "chains_ok nb (insert h H) (bs[i := b])"
proof (rule chains_ok_update [OF assms(1)])
  show "i < nb" using HASH_TO_BKT_less [OF assms(2)] by (simp add: assms(3))
  with assms show "set (bk_chain b) = {h' \<in> insert h H. HASH_TO_BKT (hh_hashv h') nb = i}"
    by (auto simp: chains_ok_def)
qed (use assms(3) in auto)

lemma rehash_step_ok:
  assumes "chains_ok nb H (fst s)" and "0 < nb"
  shows "chains_ok nb (insert h H) (fst (rehash_step nb ideal h s))"
  using assms by (cases s) (auto simp: rehash_step_def Let_def intro!: chains_ok_insert)

lemma rehash_chain_ok:
  "chains_ok nb H (fst s) \<Longrightarrow> 0 < nb \<Longrightarrow>
    chains_ok nb (set hs \<union> H) (fst (fold (rehash_step nb ideal) hs s))"
proof (induction hs arbitrary: s H)
  case (Cons h hs)
  from Cons.IH [OF rehash_step_ok [OF Cons.prems]] Cons.prems(2) show ?case by simp
qed simp

lemma rehash_all_ok:
  "chains_ok nb H (fst s) \<Longrightarrow> 0 < nb \<Longrightarrow>
    chains_ok nb ((\<Union>b \<in> set bs. set (bk_chain b)) \<union> H)
      (fst (fold (\<lambda>b. fold (rehash_step nb ideal) (bk_chain b)) bs s))"
proof (induction bs arbitrary: s H)
  case (Cons b bs)
  from Cons.IH [OF rehash_chain_ok [OF Cons.prems, of "bk_chain b" ideal]] Cons.prems(2)
  show ?case by (simp add: Un_ac)
qed simp

lemma chains_ok_Union:
  assumes "chains_ok nb H bs" and "0 < nb"
  shows "(\<Union>b \<in> set bs. set (bk_chain b)) = H"
proof -
  have "(\<Union>b \<in> set bs. set (bk_chain b)) = (\<Union>i < nb. set (bk_chain (bs ! i)))"
    using assms(1) unfolding chains_ok_def set_conv_nth [of bs] by blast
  also have "\<dots> = (\<Union>i < nb. {h \<in> H. HASH_TO_BKT (hh_hashv h) nb = i})"
    using assms(1) by (simp add: chains_ok_def)
  also have "\<dots> = H" using HASH_TO_BKT_less [OF assms(2)] by auto
  finally show ?thesis .
qed

lemma HASH_EXPAND_BUCKETS_inv:
  assumes "table_inv hf t"
  shows "table_inv hf (HASH_EXPAND_BUCKETS t)" "app_order (HASH_EXPAND_BUCKETS t) = app_order t"
proof -
  let ?nb = "num_buckets t * 2"
  define ideal where "ideal = drop_bit (log2_num_buckets t + 1) (num_items t) +
    (if num_items t AND (?nb - 1) \<noteq> 0 then 1 else 0)"
  define r where "r = fold (\<lambda>b. fold (rehash_step ?nb ideal) (bk_chain b)) (buckets t) (replicate ?nb empty_bucket, 0)"
  from assms have pos: "0 < num_buckets t" and ch: "chains_ok (num_buckets t) (set (app_order t)) (buckets t)"
    unfolding table_inv_def by auto
  have "chains_ok ?nb ((\<Union>b \<in> set (buckets t). set (bk_chain b)) \<union> {}) (fst r)"
    unfolding r_def using pos by (intro rehash_all_ok) (simp_all add: chains_ok_empty)
  then have "chains_ok ?nb (set (app_order t)) (fst r)"
    by (simp add: chains_ok_Union [OF ch pos])
  moreover have "HASH_EXPAND_BUCKETS t = (let ineff = (if snd r > drop_bit 1 (num_items t) then ineff_expands t + 1 else 0) in
      t\<lparr>buckets := fst r, num_buckets := ?nb, log2_num_buckets := log2_num_buckets t + 1,
        ideal_chain_maxlen := ideal, nonideal_items := snd r, ineff_expands := ineff, noexpand := (noexpand t \<or> ineff > 1)\<rparr>)"
    unfolding HASH_EXPAND_BUCKETS_def ideal_def r_def by (simp add: Let_def split_beta)
  ultimately show "table_inv hf (HASH_EXPAND_BUCKETS t)" "app_order (HASH_EXPAND_BUCKETS t) = app_order t"
    using assms by (simp_all add: table_inv_def Let_def)
qed

lemma HASH_ADD_TO_TABLE_inv:
  assumes "num_buckets t = 2 ^ log2_num_buckets t" and "length (app_order t) = Suc (num_items t)"
    and "\<forall>h' \<in> set (app_order t). hh_hashv h' = hf (hh_key h')" and "set (app_order t) = insert h H"
    and "chains_ok (num_buckets t) H (buckets t)"
  shows "table_inv hf (HASH_ADD_TO_TABLE h t)" "app_order (HASH_ADD_TO_TABLE h t) = app_order t"
proof -
  let ?i = "HASH_TO_BKT (hh_hashv h) (num_buckets t)"
  let ?b = "(buckets t ! ?i)\<lparr>bk_chain := h # bk_chain (buckets t ! ?i), bk_count := bk_count (buckets t ! ?i) + 1\<rparr>"
  let ?t = "t\<lparr>num_items := num_items t + 1, buckets := (buckets t)[?i := ?b]\<rparr>"
  have "chains_ok (num_buckets t) (insert h H) ((buckets t)[?i := ?b])"
    using assms(1,5) by (intro chains_ok_insert) simp_all
  with assms have inv: "table_inv hf ?t" by (auto simp: table_inv_def)
  have "HASH_ADD_TO_TABLE h t = ?t \<or> HASH_ADD_TO_TABLE h t = HASH_EXPAND_BUCKETS ?t"
    by (simp add: HASH_ADD_TO_TABLE_def HASH_ADD_TO_BKT_def Let_def)
  with inv HASH_EXPAND_BUCKETS_inv [OF inv]
  show "table_inv hf (HASH_ADD_TO_TABLE h t)" "app_order (HASH_ADD_TO_TABLE h t) = app_order t" by auto
qed

lemma HASH_ADD_KEYPTR_inv:
  assumes "head_inv hf head"
  shows "head_inv hf (HASH_ADD_KEYPTR hf head k p)" "ut_abs (HASH_ADD_KEYPTR hf head k p) = HASH_ADD (ut_abs head) k p"
proof -
  let ?h = "\<lparr>hh_key = k, hh_hashv = hf k, hh_elt = p\<rparr>"
  define t where "t = (case head of None \<Rightarrow> HASH_MAKE_TABLE ?h | Some t \<Rightarrow> t\<lparr>app_order := app_order t @ [?h]\<rparr>)"
  define H where "H = (case head of None \<Rightarrow> {} | Some t \<Rightarrow> set (app_order t))"
  have t: "num_buckets t = 2 ^ log2_num_buckets t" "length (app_order t) = Suc (num_items t)"
    "\<forall>h' \<in> set (app_order t). hh_hashv h' = hf (hh_key h')" "set (app_order t) = insert ?h H"
    "chains_ok (num_buckets t) H (buckets t)"
    using assms chains_ok_empty [of 32]
    by (cases head; auto simp: t_def H_def HASH_MAKE_TABLE_def head_inv_def table_inv_def)+
  have "table_inv hf (HASH_ADD_TO_TABLE ?h t)" "app_order (HASH_ADD_TO_TABLE ?h t) = app_order t"
    by (rule HASH_ADD_TO_TABLE_inv [OF t])+
  moreover have "HASH_ADD_KEYPTR hf head k p = Some (HASH_ADD_TO_TABLE ?h t)"
    by (simp add: HASH_ADD_KEYPTR_def t_def Let_def)
  ultimately show "head_inv hf (HASH_ADD_KEYPTR hf head k p)"
    "ut_abs (HASH_ADD_KEYPTR hf head k p) = HASH_ADD (ut_abs head) k p"
    by (simp_all add: head_inv_def ut_abs_def HASH_ADD_def t_def HASH_MAKE_TABLE_def split: option.split)
qed

lemma HASH_DELETE_HH_inv:
  assumes "ut_wf hf head"
  shows "head_inv hf (HASH_DELETE_HH head p)" "ut_abs (HASH_DELETE_HH head p) = HASH_DEL (ut_abs head) p"
proof -
  have "head_inv hf (HASH_DELETE_HH head p) \<and> ut_abs (HASH_DELETE_HH head p) = HASH_DEL (ut_abs head) p"
  proof (cases head)
    case None
    then show ?thesis by (simp add: HASH_DELETE_HH_def head_inv_def ut_abs_def HASH_DEL_def)
  next
    case (Some t)
    with assms have inv: "table_inv hf t" and dist: "distinct (map hh_elt (app_order t))"
      by (simp_all add: ut_wf_def head_inv_def ut_abs_def uthash_wf_def o_def)
    show ?thesis
    proof (cases "List.find (\<lambda>h. hh_elt h = p) (app_order t)")
      case None
      then have "\<forall>h \<in> set (app_order t). hh_elt h \<noteq> p" by (simp add: find_None_iff)
      then have "filter (\<lambda>e. snd e \<noteq> p) (map (\<lambda>h. (hh_key h, hh_elt h)) (app_order t)) =
          map (\<lambda>h. (hh_key h, hh_elt h)) (app_order t)" by (simp add: filter_id_conv)
      with None Some inv show ?thesis by (simp add: HASH_DELETE_HH_def head_inv_def ut_abs_def HASH_DEL_def)
    next
      case f: (Some h)
      then have h: "h \<in> set (app_order t)" "hh_elt h = p" by (auto simp: find_Some_iff)
      have only: "h' = h" if "h' \<in> set (app_order t)" "hh_elt h' = p" for h'
        using dist that h by (auto simp: distinct_map inj_on_def)
      let ?i = "HASH_TO_BKT (hh_hashv h) (num_buckets t)"
      let ?rest = "filter (\<lambda>h. hh_elt h \<noteq> p) (app_order t)"
      have rest: "set ?rest = set (app_order t) - {h}" using h by (auto dest: only)
      show ?thesis
      proof (cases "length (app_order t) = 1")
        case True
        with h have "app_order t = [h]" by (cases "app_order t") auto
        with f Some h show ?thesis
          by (simp add: HASH_DELETE_HH_def head_inv_def ut_abs_def HASH_DEL_def)
      next
        case False
        have ne: "?rest \<noteq> []"
        proof
          assume "?rest = []"
          with rest h(1) have "set (app_order t) = {h}" by auto
          moreover have "distinct (app_order t)" using dist by (simp add: distinct_map)
          ultimately have "length (app_order t) = 1" using distinct_card [of "app_order t"] by simp
          with False show False ..
        qed
        have len: "length ?rest = length (app_order t) - 1"
        proof -
          have "distinct (app_order t)" using dist by (simp add: distinct_map)
          then have "length ?rest = card (set ?rest)" "length (app_order t) = card (set (app_order t))"
            using distinct_card [OF distinct_filter] distinct_card by metis+
          then show ?thesis unfolding rest using h(1) by simp
        qed
        have pos: "0 < num_buckets t" using inv by (simp add: table_inv_def)
        have "chains_ok (num_buckets t) (set (app_order t) - {h})
            ((buckets t)[?i := HASH_DEL_IN_BKT p (buckets t ! ?i)])"
        proof (rule chains_ok_update)
          show ch: "chains_ok (num_buckets t) (set (app_order t)) (buckets t)"
            using inv unfolding table_inv_def by blast
          show i: "?i < num_buckets t" by (rule HASH_TO_BKT_less [OF pos])
          from ch i have "set (bk_chain (buckets t ! ?i)) = {h' \<in> set (app_order t). HASH_TO_BKT (hh_hashv h') (num_buckets t) = ?i}"
            by (simp add: chains_ok_def)
          then show "set (bk_chain (HASH_DEL_IN_BKT p (buckets t ! ?i))) =
              {h' \<in> set (app_order t) - {h}. HASH_TO_BKT (hh_hashv h') (num_buckets t) = ?i}"
            using h by (auto simp: HASH_DEL_IN_BKT_def dest: only)
        qed auto
        with inv ne len rest f Some False show ?thesis
          by (simp add: HASH_DELETE_HH_def head_inv_def table_inv_def ut_abs_def HASH_DEL_def Let_def
              filter_map o_def)
      qed
    qed
  qed
  then show "head_inv hf (HASH_DELETE_HH head p)" "ut_abs (HASH_DELETE_HH head p) = HASH_DEL (ut_abs head) p"
    by simp_all
qed

lemma HASH_FIND_BKT_eq:
  assumes "ut_wf hf head"
  shows "HASH_FIND_BKT hf head k = HASH_FIND (ut_abs head) k"
proof (cases head)
  case None
  then show ?thesis by (simp add: HASH_FIND_BKT_def ut_abs_def HASH_FIND_empty)
next
  case (Some t)
  with assms have inv: "table_inv hf t" and wf: "uthash_wf (ut_abs (Some t))"
    by (simp_all add: ut_wf_def head_inv_def)
  let ?i = "HASH_TO_BKT (hf k) (num_buckets t)"
  have "?i < num_buckets t" using inv by (intro HASH_TO_BKT_less) (simp add: table_inv_def)
  then have ch: "set (bk_chain (buckets t ! ?i)) =
      {h \<in> set (app_order t). HASH_TO_BKT (hh_hashv h) (num_buckets t) = ?i}"
    using inv by (simp add: table_inv_def chains_ok_def)
  have hv: "hh_hashv h = hf (hh_key h)" if "h \<in> set (app_order t)" for h
    using inv that by (simp add: table_inv_def)
  show ?thesis
  proof (cases "HASH_FIND_IN_BKT (bk_chain (buckets t ! ?i)) k (hf k)")
    case None
    then have "\<forall>h \<in> set (app_order t). hh_key h \<noteq> k"
      using ch hv by (auto simp: HASH_FIND_IN_BKT_None)
    then have "HASH_FIND (ut_abs head) k = None"
      using Some by (auto simp: HASH_FIND_None_iff ut_abs_def)
    with None Some show ?thesis by (simp add: HASH_FIND_BKT_def)
  next
    case (Some p)
    with ch obtain h where "h \<in> set (app_order t)" "hh_key h = k" "hh_elt h = p"
      by (auto dest!: HASH_FIND_IN_BKT_Some)
    then have "(k, p) \<in> set (ut_abs (Some t))" by (auto simp: ut_abs_def)
    then have "HASH_FIND (ut_abs (Some t)) k = Some p" using HASH_FIND_wf_iff [OF wf] by blast
    with Some \<open>head = Some t\<close> show ?thesis by (simp add: HASH_FIND_BKT_def)
  qed
qed

section \<open>The buckets implement the tables\<close>

lemma HASH_ITER_BKT_abs: "HASH_ITER_BKT head = HASH_ITER (ut_abs head)"
  by (simp add: HASH_ITER_BKT_def HASH_ITER_def ut_abs_def o_def split: option.split)

lemma ut_wf_add:
  "ut_wf hf t \<Longrightarrow> HASH_FIND_BKT hf t k = None \<Longrightarrow> p \<notin> set (HASH_ITER_BKT t) \<Longrightarrow> ut_wf hf (HASH_ADD_KEYPTR hf t k p)"
  using uth.wf_add [of "ut_abs t" k p] HASH_FIND_BKT_eq [of hf t k]
  by (simp add: ut_wf_def HASH_ADD_KEYPTR_inv HASH_ITER_BKT_abs)

lemma ut_wf_del: "ut_wf hf t \<Longrightarrow> ut_wf hf (HASH_DELETE_HH t p)"
  using HASH_DELETE_HH_inv [of hf t p] uth.wf_del [of "ut_abs t" p] by (simp add: ut_wf_def)

interpretation bkt: keyed_table "HASH_FIND_BKT hf" "HASH_ADD_KEYPTR hf" HASH_DELETE_HH HASH_ITER_BKT "ut_wf hf" None
  for hf :: "'k \<Rightarrow> u32"
proof unfold_locales
  fix t :: "('k, 'p) ut_head" and k k' :: 'k and p :: 'p
  show "ut_wf hf (None :: ('k, 'p) ut_head)"
    by (simp add: ut_wf_def head_inv_def ut_abs_def uthash_wf_def)
  show "HASH_FIND_BKT hf (None :: ('k, 'p) ut_head) k = None" by (simp add: HASH_FIND_BKT_def)
  show add: "ut_wf hf t \<Longrightarrow> HASH_FIND_BKT hf t k = None \<Longrightarrow> p \<notin> set (HASH_ITER_BKT t) \<Longrightarrow> ut_wf hf (HASH_ADD_KEYPTR hf t k p)"
    by (rule ut_wf_add)
  show "ut_wf hf t \<Longrightarrow> HASH_FIND_BKT hf t k = None \<Longrightarrow> p \<notin> set (HASH_ITER_BKT t) \<Longrightarrow>
      HASH_FIND_BKT hf (HASH_ADD_KEYPTR hf t k p) k' = (if k' = k then Some p else HASH_FIND_BKT hf t k')"
    using HASH_ADD_KEYPTR_inv(2) [of hf t k p]
    by (simp add: HASH_FIND_BKT_eq [OF ut_wf_add] HASH_FIND_BKT_eq [of hf t] HASH_FIND_ADD ut_wf_def)
  show "ut_wf hf t \<Longrightarrow> HASH_ITER_BKT (HASH_ADD_KEYPTR hf t k p) = HASH_ITER_BKT t @ [p]"
    by (simp add: HASH_ITER_BKT_abs HASH_ADD_KEYPTR_inv ut_wf_def HASH_ITER_ADD)
  show "ut_wf hf t \<Longrightarrow> HASH_FIND_BKT hf t k = Some p \<Longrightarrow>
      HASH_FIND_BKT hf (HASH_DELETE_HH t p) k' = (if k' = k then None else HASH_FIND_BKT hf t k')"
    using HASH_DELETE_HH_inv(2) [of hf t p] HASH_FIND_DEL [of "ut_abs t" k p k']
    by (simp add: HASH_FIND_BKT_eq [OF ut_wf_del] HASH_FIND_BKT_eq [of hf t] ut_wf_def)
  show "ut_wf hf t \<Longrightarrow> ut_wf hf (HASH_DELETE_HH t p)" by (rule ut_wf_del)
  show "ut_wf hf t \<Longrightarrow> HASH_ITER_BKT (HASH_DELETE_HH t p) = filter (\<lambda>q. q \<noteq> p) (HASH_ITER_BKT t)"
    using HASH_DELETE_HH_inv(2) [of hf t p]
    by (simp add: HASH_ITER_BKT_abs HASH_ITER_def HASH_DEL_def filter_map o_def)
  show "ut_wf hf t \<Longrightarrow> HASH_FIND_BKT hf t k = Some p \<Longrightarrow> p \<in> set (HASH_ITER_BKT t)"
    using uth.find_elems [of "ut_abs t" k p] by (simp add: HASH_FIND_BKT_eq HASH_ITER_BKT_abs ut_wf_def)
  show "ut_wf hf t \<Longrightarrow> distinct (HASH_ITER_BKT t)"
    by (simp add: HASH_ITER_BKT_abs ut_wf_def uth.elems_distinct)
  show "ut_wf hf t \<Longrightarrow> HASH_ITER_BKT t = [] \<Longrightarrow> t = None"
    by (auto simp: HASH_ITER_BKT_def ut_wf_def head_inv_def table_inv_def split: option.splits)
qed

section \<open>Properties\<close>

text \<open>
  The buckets implement the tables, whatever the hash function: on a table with distinct
  keys a lookup through the buckets returns what the list of elements says; adding an
  element, with the doubling and redistribution of the buckets it may trigger, appends it to
  that list; deleting one removes it; and the bucket invariant (every chain holds exactly the
  elements whose hash selects it) is kept by each of them.
\<close>

theorem uthash_buckets_refine:
  assumes "ut_wf hf t"
  shows "HASH_FIND_BKT hf t k = HASH_FIND (ut_abs t) k \<and>
    ut_abs (HASH_ADD_KEYPTR hf t k p) = HASH_ADD (ut_abs t) k p \<and>
    ut_abs (HASH_DELETE_HH t p) = HASH_DEL (ut_abs t) p \<and>
    HASH_ITER_BKT t = HASH_ITER (ut_abs t) \<and> HASH_CNT t = HASH_COUNT (ut_abs t) \<and>
    (HASH_FIND_BKT hf t k = None \<and> p \<notin> set (HASH_ITER_BKT t) \<longrightarrow> ut_wf hf (HASH_ADD_KEYPTR hf t k p)) \<and>
    ut_wf hf (HASH_DELETE_HH t p)"
proof -
  have "HASH_CNT t = HASH_COUNT (ut_abs t)"
    using assms by (simp add: HASH_CNT_def HASH_COUNT_def ut_abs_def ut_wf_def head_inv_def table_inv_def
        split: option.splits)
  then show ?thesis
    using assms HASH_FIND_BKT_eq [OF assms] HASH_ADD_KEYPTR_inv(2) [of hf t k p] HASH_DELETE_HH_inv(2) [OF assms]
      ut_wf_add [OF assms, of k p] ut_wf_del [OF assms] HASH_ITER_BKT_abs [of t]
    by (simp add: ut_wf_def)
qed

lemma ut_wf_fold_add:
  "inj g \<Longrightarrow> distinct ks \<Longrightarrow> ut_wf hf t \<Longrightarrow>
    (\<forall>k \<in> set ks. HASH_FIND_BKT hf t k = None \<and> g k \<notin> set (HASH_ITER_BKT t)) \<Longrightarrow>
    ut_wf hf (fold (\<lambda>k t. HASH_ADD_KEYPTR hf t k (g k)) ks t)"
proof (induction ks arbitrary: t)
  case (Cons k ks)
  have "ut_wf hf (HASH_ADD_KEYPTR hf t k (g k))" using Cons.prems by (intro ut_wf_add) simp_all
  moreover have "\<forall>j \<in> set ks. HASH_FIND_BKT hf (HASH_ADD_KEYPTR hf t k (g k)) j = None \<and>
      g j \<notin> set (HASH_ITER_BKT (HASH_ADD_KEYPTR hf t k (g k)))"
    using Cons.prems by (auto simp: bkt.find_add bkt.elems_add inj_eq)
  ultimately show ?case using Cons.IH Cons.prems(1,2) by simp
qed simp

definition demo_table :: "(nat, nat) ut_head" where
  "demo_table = fold (\<lambda>k t. HASH_ADD_KEYPTR (\<lambda>_. 5) t k (100 + k)) [0..<12] None"

lemma uthash_buckets_refine_witness:
  "HASH_FIND_BKT (\<lambda>_. 5) demo_table 3 = HASH_FIND (ut_abs demo_table) 3 \<and>
   map_option num_buckets demo_table = Some 64"
proof -
  have "ut_wf (\<lambda>_. 5) demo_table"
    unfolding demo_table_def
    by (rule ut_wf_fold_add) (simp_all add: bkt.wf_empty bkt.find_empty HASH_ITER_BKT_def)
  from uthash_buckets_refine [OF this, of 3] have "HASH_FIND_BKT (\<lambda>_. 5) demo_table 3 = HASH_FIND (ut_abs demo_table) 3"
    by blast
  moreover have "map_option num_buckets demo_table = Some 64" by code_simp
  ultimately show ?thesis ..
qed

end
