(* ===== verification/Uthash_jen.thy ===== *)
theory Uthash_jen
  imports Uthash_impl
begin

text \<open>
  The hash function the tables of the program use: \<^verbatim>\<open>HASH_JEN\<close> of \<^verbatim>\<open>src/src/include/uthash.h\<close>, on strings.
  The bucket operations of \<open>Uthash_impl\<close> take it as their argument. Its mixing step is a permutation of the three
  words of its state, so that no block of a key loses what earlier blocks put there.
\<close>

section \<open>Definitions\<close>

definition HASH_JEN_MIX :: "u32 \<Rightarrow> u32 \<Rightarrow> u32 \<Rightarrow> u32 \<times> u32 \<times> u32" where
  "HASH_JEN_MIX a b c =
     (let a = (a - b - c) XOR drop_bit 13 c;
          b = (b - c - a) XOR push_bit 8 a;
          c = (c - a - b) XOR drop_bit 13 b;
          a = (a - b - c) XOR drop_bit 12 c;
          b = (b - c - a) XOR push_bit 16 a;
          c = (c - a - b) XOR drop_bit 5 b;
          a = (a - b - c) XOR drop_bit 3 c;
          b = (b - c - a) XOR push_bit 10 a;
          c = (c - a - b) XOR drop_bit 15 b
      in (a, b, c))"

text \<open>A byte of the key as an \<^verbatim>\<open>unsigned\<close>, and four of them from index \<open>i\<close>, the lowest first.\<close>

definition key_byte :: "string \<Rightarrow> nat \<Rightarrow> u32" where
  "key_byte k i = of_char (k ! i)"

definition key_word :: "string \<Rightarrow> nat \<Rightarrow> u32" where
  "key_word k i = key_byte k i + push_bit 8 (key_byte k (i + 1)) + push_bit 16 (key_byte k (i + 2)) +
     push_bit 24 (key_byte k (i + 3))"

text \<open>The loop over blocks of twelve bytes; what is left of the key is returned with the state.\<close>

function jen_blocks :: "u32 \<Rightarrow> u32 \<Rightarrow> u32 \<Rightarrow> string \<Rightarrow> (u32 \<times> u32 \<times> u32) \<times> string" where
  "jen_blocks i j h k =
     (if length k \<ge> 12 then
        case HASH_JEN_MIX (i + key_word k 0) (j + key_word k 4) (h + key_word k 8) of
          (i', j', h') \<Rightarrow> jen_blocks i' j' h' (drop 12 k)
      else ((i, j, h), k))"
  by pat_completeness auto
termination
  by (relation "measure (\<lambda>(i, j, h, k). length k)") auto

declare jen_blocks.simps [simp del]

text \<open>The cases of the switch fall through: each byte that is left is added at its place.\<close>

definition rest_byte :: "string \<Rightarrow> nat \<Rightarrow> nat \<Rightarrow> u32" where
  "rest_byte k i s = (if i < length k then push_bit s (key_byte k i) else 0)"

definition HASH_JEN :: "string \<Rightarrow> u32" where
  "HASH_JEN key =
     (let n = length key mod 2 ^ 32;
          ((i, j, h), k) = jen_blocks 0x9e3779b9 0x9e3779b9 0xfeedbeef (take n key);
          h1 = h + of_nat (length key) + rest_byte k 10 24 + rest_byte k 9 16 + rest_byte k 8 8;
          j1 = j + rest_byte k 7 24 + rest_byte k 6 16 + rest_byte k 5 8 + rest_byte k 4 0;
          i1 = i + rest_byte k 3 24 + rest_byte k 2 16 + rest_byte k 1 8 + rest_byte k 0 0
      in snd (snd (HASH_JEN_MIX i1 j1 h1)))"

section \<open>The mixing step is a permutation\<close>

definition mix_a :: "(u32 \<Rightarrow> u32) \<Rightarrow> u32 \<times> u32 \<times> u32 \<Rightarrow> u32 \<times> u32 \<times> u32" where
  "mix_a f = (\<lambda>(a, b, c). ((a - b - c) XOR f c, b, c))"

definition mix_b :: "(u32 \<Rightarrow> u32) \<Rightarrow> u32 \<times> u32 \<times> u32 \<Rightarrow> u32 \<times> u32 \<times> u32" where
  "mix_b f = (\<lambda>(a, b, c). (a, (b - c - a) XOR f a, c))"

definition mix_c :: "(u32 \<Rightarrow> u32) \<Rightarrow> u32 \<times> u32 \<times> u32 \<Rightarrow> u32 \<times> u32 \<times> u32" where
  "mix_c f = (\<lambda>(a, b, c). (a, b, (c - a - b) XOR f b))"

lemma xor_cancel_right: "x XOR z = y XOR z \<longleftrightarrow> x = y" for x y z :: u32
  by (metis xor.assoc xor.right_neutral xor_self_eq)

lemma inj_mix: "inj (mix_a f)" "inj (mix_b f)" "inj (mix_c f)"
  by (auto simp: inj_def mix_a_def mix_b_def mix_c_def xor_cancel_right)

lemma HASH_JEN_MIX_steps:
  "(\<lambda>(a, b, c). HASH_JEN_MIX a b c) =
    mix_c (drop_bit 15) \<circ> mix_b (push_bit 10) \<circ> mix_a (drop_bit 3) \<circ>
    mix_c (drop_bit 5) \<circ> mix_b (push_bit 16) \<circ> mix_a (drop_bit 12) \<circ>
    mix_c (drop_bit 13) \<circ> mix_b (push_bit 8) \<circ> mix_a (drop_bit 13)"
proof -
  have "HASH_JEN_MIX a b c = (mix_c (drop_bit 15) \<circ> mix_b (push_bit 10) \<circ> mix_a (drop_bit 3) \<circ>
    mix_c (drop_bit 5) \<circ> mix_b (push_bit 16) \<circ> mix_a (drop_bit 12) \<circ>
    mix_c (drop_bit 13) \<circ> mix_b (push_bit 8) \<circ> mix_a (drop_bit 13)) (a, b, c)" for a b c
  proof -
    define a1 where "a1 = (a - b - c) XOR drop_bit 13 c"
    define b1 where "b1 = (b - c - a1) XOR push_bit 8 a1"
    define c1 where "c1 = (c - a1 - b1) XOR drop_bit 13 b1"
    define a2 where "a2 = (a1 - b1 - c1) XOR drop_bit 12 c1"
    define b2 where "b2 = (b1 - c1 - a2) XOR push_bit 16 a2"
    define c2 where "c2 = (c1 - a2 - b2) XOR drop_bit 5 b2"
    define a3 where "a3 = (a2 - b2 - c2) XOR drop_bit 3 c2"
    define b3 where "b3 = (b2 - c2 - a3) XOR push_bit 10 a3"
    define c3 where "c3 = (c2 - a3 - b3) XOR drop_bit 15 b3"
    have "mix_a (drop_bit 13) (a, b, c) = (a1, b, c)" "mix_b (push_bit 8) (a1, b, c) = (a1, b1, c)"
      "mix_c (drop_bit 13) (a1, b1, c) = (a1, b1, c1)" "mix_a (drop_bit 12) (a1, b1, c1) = (a2, b1, c1)"
      "mix_b (push_bit 16) (a2, b1, c1) = (a2, b2, c1)" "mix_c (drop_bit 5) (a2, b2, c1) = (a2, b2, c2)"
      "mix_a (drop_bit 3) (a2, b2, c2) = (a3, b2, c2)" "mix_b (push_bit 10) (a3, b2, c2) = (a3, b3, c2)"
      "mix_c (drop_bit 15) (a3, b3, c2) = (a3, b3, c3)"
      by (simp_all only: mix_a_def mix_b_def mix_c_def prod.case a1_def b1_def c1_def a2_def b2_def c2_def a3_def b3_def c3_def)
    moreover have "HASH_JEN_MIX a b c = (a3, b3, c3)"
      unfolding HASH_JEN_MIX_def
      by (subst Let_def, fold a1_def, subst Let_def, fold b1_def, subst Let_def, fold c1_def,
          subst Let_def, fold a2_def, subst Let_def, fold b2_def, subst Let_def, fold c2_def,
          subst Let_def, fold a3_def, subst Let_def, fold b3_def, subst Let_def, fold c3_def, rule refl)
    ultimately show ?thesis by (simp only: comp_apply)
  qed
  then show ?thesis by (intro ext) (simp only: split_paired_all prod.case)
qed

lemma HASH_JEN_MIX_inj: "inj (\<lambda>(a, b, c). HASH_JEN_MIX a b c)"
  unfolding HASH_JEN_MIX_steps by (intro inj_compose inj_mix)

lemma HASH_JEN_MIX_bij: "bij (\<lambda>(a, b, c). HASH_JEN_MIX a b c)"
  using HASH_JEN_MIX_inj finite_UNIV_inj_surj [of "\<lambda>(a, b, c). HASH_JEN_MIX a b c"] finite by (auto simp: bij_def)

text \<open>The loop consumes whole blocks: what is left is the end of the key, shorter than a block.\<close>

lemma jen_blocks_rest: "snd (jen_blocks i j h k) = drop (length k div 12 * 12) k"
proof (induction i j h k rule: jen_blocks.induct)
  case (1 i j h k)
  show ?case
  proof (cases "length k \<ge> 12")
    case True
    obtain i' j' h' where m: "HASH_JEN_MIX (i + key_word k 0) (j + key_word k 4) (h + key_word k 8) = (i', j', h')"
      by (metis prod_cases3)
    have "12 + (length k - 12) div 12 * 12 = length k div 12 * 12" using True by (simp add: div_if)
    with True m 1 [OF True m [symmetric] refl] show ?thesis
      by (subst jen_blocks.simps) (simp add: add.commute)
  next
    case False
    then show ?thesis by (subst jen_blocks.simps) simp
  qed
qed

text \<open>Two keys of the same length that differ only after their whole blocks start the last step in the same state.\<close>

lemma jen_blocks_prefix:
  "length k = length k' \<Longrightarrow> take (length k div 12 * 12) k = take (length k div 12 * 12) k' \<Longrightarrow>
    fst (jen_blocks i j h k) = fst (jen_blocks i j h k')"
proof (induction i j h k arbitrary: k' rule: jen_blocks.induct)
  case (1 i j h k)
  show ?case
  proof (cases "length k \<ge> 12")
    case True
    have n: "length k div 12 * 12 = 12 + (length k - 12) div 12 * 12" using True by (simp add: div_if)
    have eq: "k ! x = k' ! x" if "x < 12" for x
    proof -
      have "x < length k div 12 * 12" using that n by linarith
      then show ?thesis using 1(3) by (metis nth_take)
    qed
    then have w: "key_word k' 0 = key_word k 0" "key_word k' 4 = key_word k 4" "key_word k' 8 = key_word k 8"
      by (simp_all add: key_word_def key_byte_def)
    obtain i' j' h' where m: "HASH_JEN_MIX (i + key_word k 0) (j + key_word k 4) (h + key_word k 8) = (i', j', h')"
      by (metis prod_cases3)
    have "take ((length k - 12) div 12 * 12) (drop 12 k) = take ((length k - 12) div 12 * 12) (drop 12 k')"
      using arg_cong [OF 1(3), of "drop 12"] unfolding n by (simp add: take_drop add.commute)
    then have "fst (jen_blocks i' j' h' (drop 12 k)) = fst (jen_blocks i' j' h' (drop 12 k'))"
      using 1(1) [OF True m [symmetric] refl, of "drop 12 k'"] 1(2) by simp
    moreover have "jen_blocks i j h k = jen_blocks i' j' h' (drop 12 k)" using True m by (subst jen_blocks.simps) simp
    moreover have "jen_blocks i j h k' = jen_blocks i' j' h' (drop 12 k')"
      using True m 1(2) w by (subst jen_blocks.simps) simp
    ultimately show ?thesis by simp
  next
    case False
    with 1(2) show ?thesis by (subst (1 2) jen_blocks.simps) simp
  qed
qed

end
