(* ===== verification/Uthash_srt.thy ===== *)
theory Uthash_srt
  imports Uthash_impl "HOL-Library.Multiset"
begin

text \<open>
  \<^verbatim>\<open>HASH_SRT\<close> of \<^verbatim>\<open>src/src/include/uthash.h\<close>: the bottom-up merge sort that relinks the application-order list
  of a table in place, over an explicit memory.

  A pointer is a number and \<^verbatim>\<open>NULL\<close> is 0. The memory gives the handle at each address; the \<^verbatim>\<open>prev\<close> and
  \<^verbatim>\<open>next\<close> of a handle are addresses of elements, \<open>hho\<close> bytes below the address of their handle. The run
  lengths \<^verbatim>\<open>_hs_psize\<close> and \<^verbatim>\<open>_hs_qsize\<close> never exceed \<^verbatim>\<open>_hs_insize\<close>, so they are natural numbers;
  \<^verbatim>\<open>_hs_insize\<close> and \<^verbatim>\<open>_hs_nmerges\<close> wrap around as the \<^verbatim>\<open>unsigned\<close> they are. The two outer loops are partial
  functions: with more elements than \<^verbatim>\<open>unsigned\<close> can count, \<^verbatim>\<open>_hs_insize\<close> would become 0 and the loop would
  not end.
\<close>

section \<open>Handles in memory\<close>

type_synonym ptr = nat

record ut_hh =
  hp_prev :: ptr
  hp_next :: ptr
  hp_hh_prev :: ptr
  hp_hh_next :: ptr
  hp_hashv :: u32

type_synonym hh_mem = "ptr \<Rightarrow> ut_hh"

definition ELMT_FROM_HH :: "nat \<Rightarrow> ptr \<Rightarrow> ptr" where
  "ELMT_FROM_HH hho h = h - hho"

definition HH_FROM_ELMT :: "nat \<Rightarrow> ptr \<Rightarrow> ptr" where
  "HH_FROM_ELMT hho e = e + hho"

definition set_next :: "ptr \<Rightarrow> ptr \<Rightarrow> hh_mem \<Rightarrow> hh_mem" where
  "set_next h e m = m(h := (m h)\<lparr>hp_next := e\<rparr>)"

definition set_prev :: "ptr \<Rightarrow> ptr \<Rightarrow> hh_mem \<Rightarrow> hh_mem" where
  "set_prev h e m = m(h := (m h)\<lparr>hp_prev := e\<rparr>)"

text \<open>\<^verbatim>\<open>(q->next != NULL) ? HH_FROM_ELMT(tbl, q->next) : NULL\<close>, and the element of a handle or \<^verbatim>\<open>NULL\<close>.\<close>

definition next_hh :: "nat \<Rightarrow> hh_mem \<Rightarrow> ptr \<Rightarrow> ptr" where
  "next_hh hho m h = (if hp_next (m h) \<noteq> 0 then HH_FROM_ELMT hho (hp_next (m h)) else 0)"

definition elmt_or_null :: "nat \<Rightarrow> ptr \<Rightarrow> ptr" where
  "elmt_or_null hho h = (if h \<noteq> 0 then ELMT_FROM_HH hho h else 0)"

section \<open>HASH_SRT\<close>

record srt_st =
  hs_m :: hh_mem
  hs_p :: ptr
  hs_q :: ptr
  hs_psize :: nat
  hs_qsize :: nat
  hs_list :: ptr
  hs_tail :: ptr

text \<open>The \<^verbatim>\<open>for\<close> loop that steps over a run: how many elements it has, and what follows it.\<close>

fun srt_skip :: "nat \<Rightarrow> hh_mem \<Rightarrow> nat \<Rightarrow> nat \<Rightarrow> ptr \<Rightarrow> nat \<times> ptr" where
  "srt_skip hho m 0 psize q = (psize, q)"
| "srt_skip hho m (Suc k) psize q =
     (let q' = next_hh hho m q in
      if q' = 0 then (psize + 1, q') else srt_skip hho m k (psize + 1) q')"

text \<open>Which element the merge takes next, and the pointers after it.\<close>

definition srt_take_p :: "nat \<Rightarrow> srt_st \<Rightarrow> ptr \<times> srt_st" where
  "srt_take_p hho s =
     (hs_p s, s\<lparr>hs_p := (if hs_p s \<noteq> 0 then next_hh hho (hs_m s) (hs_p s) else hs_p s), hs_psize := hs_psize s - 1\<rparr>)"

definition srt_take_q :: "nat \<Rightarrow> srt_st \<Rightarrow> ptr \<times> srt_st" where
  "srt_take_q hho s = (hs_q s, s\<lparr>hs_q := next_hh hho (hs_m s) (hs_q s), hs_qsize := hs_qsize s - 1\<rparr>)"

definition srt_take :: "nat \<Rightarrow> (ptr \<Rightarrow> ptr \<Rightarrow> int) \<Rightarrow> srt_st \<Rightarrow> ptr \<times> srt_st" where
  "srt_take hho cmpfcn s =
     (if hs_psize s = 0 then srt_take_q hho s
      else if hs_qsize s = 0 \<or> hs_q s = 0 then srt_take_p hho s
      else if cmpfcn (ELMT_FROM_HH hho (hs_p s)) (ELMT_FROM_HH hho (hs_q s)) \<le> 0 then srt_take_p hho s
      else srt_take_q hho s)"

text \<open>Linking the element taken behind \<^verbatim>\<open>_hs_tail\<close>.\<close>

definition srt_link :: "nat \<Rightarrow> ptr \<Rightarrow> srt_st \<Rightarrow> srt_st" where
  "srt_link hho e s =
     (let s1 = (if hs_tail s \<noteq> 0 then s\<lparr>hs_m := set_next (hs_tail s) (elmt_or_null hho e) (hs_m s)\<rparr>
                else s\<lparr>hs_list := e\<rparr>);
          s2 = (if e \<noteq> 0 then s1\<lparr>hs_m := set_prev e (elmt_or_null hho (hs_tail s1)) (hs_m s1)\<rparr> else s1)
      in s2\<lparr>hs_tail := e\<rparr>)"

definition srt_step :: "nat \<Rightarrow> (ptr \<Rightarrow> ptr \<Rightarrow> int) \<Rightarrow> srt_st \<Rightarrow> srt_st" where
  "srt_step hho cmpfcn s = (let (e, s') = srt_take hho cmpfcn s in srt_link hho e s')"

lemma srt_step_measure:
  "hs_psize s \<noteq> 0 \<or> hs_qsize s \<noteq> 0 \<and> hs_q s \<noteq> 0 \<Longrightarrow>
    hs_psize (srt_step hho cmpfcn s) + hs_qsize (srt_step hho cmpfcn s) < hs_psize s + hs_qsize s"
  by (auto simp: srt_step_def srt_take_def srt_take_p_def srt_take_q_def srt_link_def Let_def)

function srt_merge :: "nat \<Rightarrow> (ptr \<Rightarrow> ptr \<Rightarrow> int) \<Rightarrow> srt_st \<Rightarrow> srt_st" where
  "srt_merge hho cmpfcn s =
     (if hs_psize s \<noteq> 0 \<or> (hs_qsize s \<noteq> 0 \<and> hs_q s \<noteq> 0)
      then srt_merge hho cmpfcn (srt_step hho cmpfcn s) else s)"
  by pat_completeness auto
termination
  by (relation "measure (\<lambda>(hho, cmpfcn, s). hs_psize s + hs_qsize s)") (use srt_step_measure in auto)

declare srt_merge.simps [simp del]

text \<open>One pass over the list: runs of \<^verbatim>\<open>_hs_insize\<close> elements are merged two by two.\<close>

partial_function (option) srt_pass ::
  "nat \<Rightarrow> (ptr \<Rightarrow> ptr \<Rightarrow> int) \<Rightarrow> nat \<Rightarrow> nat \<Rightarrow> srt_st \<Rightarrow> (srt_st \<times> nat) option"
where
  [code]: "srt_pass hho cmpfcn insize nmerges s =
     (if hs_p s \<noteq> 0
      then let (psize, q) = srt_skip hho (hs_m s) insize 0 (hs_p s);
               s' = srt_merge hho cmpfcn (s\<lparr>hs_q := q, hs_psize := psize, hs_qsize := insize\<rparr>)
           in srt_pass hho cmpfcn insize ((nmerges + 1) mod 2 ^ 32) (s'\<lparr>hs_p := hs_q s'\<rparr>)
      else Some (s, nmerges))"

definition srt_end_pass :: "srt_st \<Rightarrow> srt_st" where
  "srt_end_pass s = (if hs_tail s \<noteq> 0 then s\<lparr>hs_m := set_next (hs_tail s) 0 (hs_m s)\<rparr> else s)"

partial_function (option) srt_loop :: "nat \<Rightarrow> (ptr \<Rightarrow> ptr \<Rightarrow> int) \<Rightarrow> nat \<Rightarrow> srt_st \<Rightarrow> srt_st option" where
  [code]: "srt_loop hho cmpfcn insize s =
     (case srt_pass hho cmpfcn insize 0 (s\<lparr>hs_p := hs_list s, hs_list := 0, hs_tail := 0\<rparr>) of
        None \<Rightarrow> None
      | Some (s', nmerges) \<Rightarrow>
          if nmerges \<le> 1 then Some (srt_end_pass s')
          else srt_loop hho cmpfcn (insize * 2 mod 2 ^ 32) (srt_end_pass s'))"

text \<open>The memory, the head and the \<^verbatim>\<open>tail\<close> of the table after \<^verbatim>\<open>HASH_SRT\<close>.\<close>

definition HASH_SRT ::
  "nat \<Rightarrow> (ptr \<Rightarrow> ptr \<Rightarrow> int) \<Rightarrow> hh_mem \<Rightarrow> ptr \<Rightarrow> ptr \<Rightarrow> (hh_mem \<times> ptr \<times> ptr) option"
where
  "HASH_SRT hho cmpfcn m head tail =
     (if head \<noteq> 0
      then map_option (\<lambda>s. (hs_m s, ELMT_FROM_HH hho (hs_list s), hs_tail s))
             (srt_loop hho cmpfcn 1
                \<lparr>hs_m = m, hs_p = 0, hs_q = 0, hs_psize = 0, hs_qsize = 0,
                 hs_list = HH_FROM_ELMT hho head, hs_tail = 0\<rparr>)
      else Some (m, head, tail))"

section \<open>The same sort on lists\<close>

fun mrg :: "('a \<Rightarrow> 'a \<Rightarrow> int) \<Rightarrow> 'a list \<Rightarrow> 'a list \<Rightarrow> 'a list" where
  "mrg cmp [] ys = ys"
| "mrg cmp (x # xs) [] = x # xs"
| "mrg cmp (x # xs) (y # ys) = (if cmp x y \<le> 0 then x # mrg cmp xs (y # ys) else y # mrg cmp (x # xs) ys)"

function mpass :: "('a \<Rightarrow> 'a \<Rightarrow> int) \<Rightarrow> nat \<Rightarrow> 'a list \<Rightarrow> 'a list" where
  "mpass cmp k xs =
     (if xs = [] \<or> k = 0 then []
      else mrg cmp (take k xs) (take k (drop k xs)) @ mpass cmp k (drop (2 * k) xs))"
  by pat_completeness auto
termination
  by (relation "measure (\<lambda>(cmp, k, xs). length xs)") auto

declare mpass.simps [simp del]

lemma mset_mrg [simp]: "mset (mrg cmp xs ys) = mset xs + mset ys"
  by (induction cmp xs ys rule: mrg.induct) auto

lemma set_mrg [simp]: "set (mrg cmp xs ys) = set xs \<union> set ys"
  by (metis mset_mrg set_mset_mset set_mset_union)

lemma length_mrg [simp]: "length (mrg cmp xs ys) = length xs + length ys"
  by (metis mset_mrg size_mset size_union)

lemma mset_mpass: "0 < k \<Longrightarrow> mset (mpass cmp k xs) = mset xs"
proof (induction cmp k xs rule: mpass.induct)
  case (1 cmp k xs)
  show ?case
  proof (cases "xs = []")
    case False
    with 1 have "mset (mpass cmp k xs) = mset (take k xs) + mset (take k (drop k xs)) + mset (drop (2 * k) xs)"
      by (simp add: mpass.simps [of cmp k xs])
    also have "\<dots> = mset (take k xs @ take k (drop k xs) @ drop k (drop k xs))"
      by (simp add: mult_2 add.assoc del: append_take_drop_id)
    also have "\<dots> = mset xs" by (simp del: drop_drop)
    finally show ?thesis .
  qed (simp add: mpass.simps)
qed

lemma length_mpass: "0 < k \<Longrightarrow> length (mpass cmp k xs) = length xs"
  by (metis mset_mpass size_mset)

function mloop :: "('a \<Rightarrow> 'a \<Rightarrow> int) \<Rightarrow> nat \<Rightarrow> 'a list \<Rightarrow> 'a list" where
  "mloop cmp k xs =
     (if k = 0 \<or> length xs \<le> 2 * k then mpass cmp k xs else mloop cmp (2 * k) (mpass cmp k xs))"
  by pat_completeness auto
termination
  by (relation "measure (\<lambda>(cmp, k, xs). length xs - k)") (auto simp: length_mpass)

declare mloop.simps [simp del]

section \<open>It sorts, and is stable\<close>

text \<open>What \<^verbatim>\<open>HASH_SRT\<close> needs of its comparison function: a total preorder.\<close>

definition cmp_total :: "('a \<Rightarrow> 'a \<Rightarrow> int) \<Rightarrow> bool" where
  "cmp_total cmp \<longleftrightarrow> (\<forall>x y. cmp x y \<le> 0 \<or> cmp y x \<le> 0) \<and> (\<forall>x y z. cmp x y \<le> 0 \<longrightarrow> cmp y z \<le> 0 \<longrightarrow> cmp x z \<le> 0)"

abbreviation cmp_sorted :: "('a \<Rightarrow> 'a \<Rightarrow> int) \<Rightarrow> 'a list \<Rightarrow> bool" where
  "cmp_sorted cmp \<equiv> sorted_wrt (\<lambda>x y. cmp x y \<le> 0)"

definition cmp_same :: "('a \<Rightarrow> 'a \<Rightarrow> int) \<Rightarrow> 'a \<Rightarrow> 'a \<Rightarrow> bool" where
  "cmp_same cmp x y \<longleftrightarrow> cmp x y \<le> 0 \<and> cmp y x \<le> 0"

text \<open>A stable sort of \<open>xs\<close>: ordered, and equal elements keep their order.\<close>

definition stable_sort_of :: "('a \<Rightarrow> 'a \<Rightarrow> int) \<Rightarrow> 'a list \<Rightarrow> 'a list \<Rightarrow> bool" where
  "stable_sort_of cmp xs ys \<longleftrightarrow> mset ys = mset xs \<and> cmp_sorted cmp ys \<and>
     (\<forall>x. filter (cmp_same cmp x) ys = filter (cmp_same cmp x) xs)"

lemma cmp_total_cases: "cmp_total cmp \<Longrightarrow> \<not> cmp x y \<le> 0 \<Longrightarrow> cmp y x \<le> 0"
  unfolding cmp_total_def by blast

lemma cmp_total_trans: "cmp_total cmp \<Longrightarrow> cmp x y \<le> 0 \<Longrightarrow> cmp y z \<le> 0 \<Longrightarrow> cmp x z \<le> 0"
  unfolding cmp_total_def by blast

lemma sorted_mrg:
  "cmp_total cmp \<Longrightarrow> cmp_sorted cmp xs \<Longrightarrow> cmp_sorted cmp ys \<Longrightarrow> cmp_sorted cmp (mrg cmp xs ys)"
proof (induction cmp xs ys rule: mrg.induct)
  case (3 cmp x xs y ys)
  show ?case
  proof (cases "cmp x y \<le> 0")
    case True
    then have "\<forall>z \<in> set (y # ys). cmp x z \<le> 0"
      using "3.prems" cmp_total_trans [OF "3.prems"(1) True] by auto
    with True 3 show ?thesis by auto
  next
    case False
    note yx = cmp_total_cases [OF "3.prems"(1) False]
    then have "\<forall>z \<in> set (x # xs). cmp y z \<le> 0"
      using "3.prems" cmp_total_trans [OF "3.prems"(1) yx] by auto
    with False 3 show ?thesis by auto
  qed
qed simp_all

lemma mrg_stable:
  "cmp_total cmp \<Longrightarrow> cmp_sorted cmp xs \<Longrightarrow>
    filter (cmp_same cmp a) (mrg cmp xs ys) = filter (cmp_same cmp a) xs @ filter (cmp_same cmp a) ys"
proof (induction cmp xs ys rule: mrg.induct)
  case (3 cmp x xs y ys)
  show ?case
  proof (cases "cmp x y \<le> 0")
    case True
    with 3 show ?thesis by simp
  next
    case False
    have "\<not> cmp_same cmp a z" if "z \<in> set (x # xs)" "cmp_same cmp a y" for z
    proof
      assume z: "cmp_same cmp a z"
      have "cmp x z \<le> 0" using that(1) "3.prems" by (auto simp: cmp_total_def)
      from cmp_total_trans [OF "3.prems"(1) this] z have "cmp x a \<le> 0" by (simp add: cmp_same_def)
      from cmp_total_trans [OF "3.prems"(1) this] that(2) have "cmp x y \<le> 0" by (simp add: cmp_same_def)
      with False show False by simp
    qed
    then have "cmp_same cmp a y \<Longrightarrow> filter (cmp_same cmp a) (x # xs) = []" by (auto simp: filter_empty_conv)
    with False 3 show ?thesis by auto
  qed
qed simp_all

text \<open>A list all of whose runs of length \<open>k\<close> are ordered.\<close>

function runs_ok :: "('a \<Rightarrow> 'a \<Rightarrow> int) \<Rightarrow> nat \<Rightarrow> 'a list \<Rightarrow> bool" where
  "runs_ok cmp k xs = (if xs = [] \<or> k = 0 then True else cmp_sorted cmp (take k xs) \<and> runs_ok cmp k (drop k xs))"
  by pat_completeness auto
termination
  by (relation "measure (\<lambda>(cmp, k, xs). length xs)") auto

declare runs_ok.simps [simp del]

lemma runs_ok_Nil [simp]: "runs_ok cmp k []"
  by (simp add: runs_ok.simps)

lemma runs_ok_take: "runs_ok cmp k xs \<Longrightarrow> 0 < k \<Longrightarrow> cmp_sorted cmp (take k xs)"
  by (cases "xs = []") (simp_all add: runs_ok.simps [of cmp k xs])

lemma runs_ok_drop: "runs_ok cmp k xs \<Longrightarrow> runs_ok cmp k (drop k xs)"
  by (cases "xs = []"; cases "k = 0") (simp_all add: runs_ok.simps [of cmp k xs])

lemma runs_ok_append:
  "length xs = k \<Longrightarrow> cmp_sorted cmp xs \<Longrightarrow> runs_ok cmp k ys \<Longrightarrow> runs_ok cmp k (xs @ ys)"
  using runs_ok.simps [of cmp k "xs @ ys"] by simp

lemma runs_ok_short: "length xs \<le> k \<Longrightarrow> cmp_sorted cmp xs \<Longrightarrow> runs_ok cmp k xs"
  using runs_ok.simps [of cmp k xs] by simp

lemma runs_ok_one: "runs_ok cmp 1 xs"
proof (induction xs)
  case (Cons x xs)
  then show ?case using runs_ok_append [of "[x]" 1 cmp xs] by simp
qed simp

lemma mpass_runs:
  "cmp_total cmp \<Longrightarrow> 0 < k \<Longrightarrow> runs_ok cmp k xs \<Longrightarrow> runs_ok cmp (2 * k) (mpass cmp k xs)"
proof (induction cmp k xs rule: mpass.induct)
  case (1 cmp k xs)
  show ?case
  proof (cases "xs = []")
    case True
    then show ?thesis by (simp add: mpass.simps [of cmp k "[]"])
  next
    case False
    let ?a = "mrg cmp (take k xs) (take k (drop k xs))"
    have sorted: "cmp_sorted cmp ?a"
      by (intro sorted_mrg "1.prems" runs_ok_take runs_ok_drop)
    have len: "length ?a = min k (length xs) + min k (length xs - k)"
      by (simp add: min.commute)
    have step: "mpass cmp k xs = ?a @ mpass cmp k (drop (2 * k) xs)"
      using False "1.prems"(2) by (simp add: mpass.simps [of cmp k xs])
    show ?thesis
    proof (cases "length xs \<le> 2 * k")
      case True
      then have "mpass cmp k xs = ?a" by (simp add: step mpass.simps [of cmp k "[]"])
      with sorted len True show ?thesis by (simp add: runs_ok_short)
    next
      case long: False
      have "drop k (drop k xs) = drop (2 * k) xs" by (simp add: mult_2)
      with runs_ok_drop [OF runs_ok_drop [OF "1.prems"(3)]] have "runs_ok cmp k (drop (2 * k) xs)" by simp
      with "1.IH" "1.prems" False have "runs_ok cmp (2 * k) (mpass cmp k (drop (2 * k) xs))" by simp
      moreover have "length ?a = 2 * k" using len long by simp
      ultimately show ?thesis unfolding step using sorted by (intro runs_ok_append)
    qed
  qed
qed

lemma mpass_stable:
  "cmp_total cmp \<Longrightarrow> 0 < k \<Longrightarrow> runs_ok cmp k xs \<Longrightarrow>
    filter (cmp_same cmp a) (mpass cmp k xs) = filter (cmp_same cmp a) xs"
proof (induction cmp k xs rule: mpass.induct)
  case (1 cmp k xs)
  show ?case
  proof (cases "xs = []")
    case True
    then show ?thesis by (simp add: mpass.simps)
  next
    case False
    have d: "drop k (drop k xs) = drop (2 * k) xs" by (simp add: mult_2)
    with runs_ok_drop [OF runs_ok_drop [OF "1.prems"(3)]] have "runs_ok cmp k (drop (2 * k) xs)" by simp
    with "1.IH" "1.prems" False have IH: "filter (cmp_same cmp a) (mpass cmp k (drop (2 * k) xs)) =
        filter (cmp_same cmp a) (drop (2 * k) xs)" by simp
    have "filter (cmp_same cmp a) (mpass cmp k xs) =
        filter (cmp_same cmp a) (take k xs @ take k (drop k xs) @ drop k (drop k xs))"
      using False "1.prems" mrg_stable [OF "1.prems"(1) runs_ok_take [OF "1.prems"(3,2)]]
      by (simp add: mpass.simps [of cmp k xs] IH d del: append_take_drop_id drop_drop)
    then show ?thesis by (simp del: drop_drop)
  qed
qed

lemma mloop_sorts:
  "cmp_total cmp \<Longrightarrow> 0 < k \<Longrightarrow> runs_ok cmp k xs \<Longrightarrow> stable_sort_of cmp xs (mloop cmp k xs)"
proof (induction cmp k xs rule: mloop.induct)
  case (1 cmp k xs)
  note pass = mpass_runs [OF "1.prems"] mpass_stable [OF "1.prems"] mset_mpass [OF "1.prems"(2)] length_mpass [OF "1.prems"(2)]
  show ?case
  proof (cases "length xs \<le> 2 * k")
    case True
    have "cmp_sorted cmp (mpass cmp k xs)"
      using runs_ok_take [OF pass(1)] True "1.prems"(2) pass(4) [of cmp xs] by simp
    with True pass show ?thesis by (simp add: mloop.simps [of cmp k xs] stable_sort_of_def)
  next
    case False
    with "1.IH" "1.prems" pass show ?thesis by (simp add: mloop.simps [of cmp k xs] stable_sort_of_def)
  qed
qed

section \<open>Lists in memory\<close>

text \<open>
  \<open>hpath hho m x hs y\<close>: following \<^verbatim>\<open>next\<close> from \<open>x\<close> visits the handles \<open>hs\<close> and arrives at \<open>y\<close>.
  \<open>hprevs hho m t hs\<close>: each handle's \<^verbatim>\<open>prev\<close> is the element of the one before it, the first one's that of \<open>t\<close>.
\<close>

fun hpath :: "nat \<Rightarrow> hh_mem \<Rightarrow> ptr \<Rightarrow> ptr list \<Rightarrow> ptr \<Rightarrow> bool" where
  "hpath hho m x [] y \<longleftrightarrow> x = y"
| "hpath hho m x (h # hs) y \<longleftrightarrow> x = h \<and> hho < h \<and> hpath hho m (next_hh hho m h) hs y"

fun hprevs :: "nat \<Rightarrow> hh_mem \<Rightarrow> ptr \<Rightarrow> ptr list \<Rightarrow> bool" where
  "hprevs hho m t [] \<longleftrightarrow> True"
| "hprevs hho m t (h # hs) \<longleftrightarrow> hp_prev (m h) = elmt_or_null hho t \<and> hprevs hho m h hs"

text \<open>The application-order list of a table: from the head to the tail, linked both ways.\<close>

definition app_list :: "nat \<Rightarrow> hh_mem \<Rightarrow> ptr \<Rightarrow> ptr \<Rightarrow> ptr list \<Rightarrow> bool" where
  "app_list hho m head tail es \<longleftrightarrow>
     (let hs = map (HH_FROM_ELMT hho) es in
      distinct es \<and> hpath hho m (if head \<noteq> 0 then HH_FROM_ELMT hho head else 0) hs 0 \<and> hprevs hho m 0 hs \<and>
      (es \<noteq> [] \<longrightarrow> tail = last hs))"

lemma next_hh_cong: "hp_next (m' h) = hp_next (m h) \<Longrightarrow> next_hh hho m' h = next_hh hho m h"
  by (simp add: next_hh_def)

lemma hpath_cong: "(\<And>h. h \<in> set hs \<Longrightarrow> hp_next (m' h) = hp_next (m h)) \<Longrightarrow> hpath hho m' x hs y \<longleftrightarrow> hpath hho m x hs y"
  by (induction hs arbitrary: x) (auto simp: next_hh_def)

lemma hprevs_cong: "(\<And>h. h \<in> set hs \<Longrightarrow> hp_prev (m' h) = hp_prev (m h)) \<Longrightarrow> hprevs hho m' t hs \<longleftrightarrow> hprevs hho m t hs"
  by (induction hs arbitrary: t) auto

lemma hpath_append: "hpath hho m x (as @ bs) z \<longleftrightarrow> (\<exists>y. hpath hho m x as y \<and> hpath hho m y bs z)"
  by (induction as arbitrary: x) auto

lemma hpath_end: "hpath hho m 0 hs y \<Longrightarrow> hs = [] \<and> y = 0"
  by (cases hs) auto

lemma hpath_nonnull: "hpath hho m x hs 0 \<Longrightarrow> x \<noteq> 0 \<longleftrightarrow> hs \<noteq> []"
  by (cases hs) auto

lemma hprevs_append: "hprevs hho m t (as @ bs) \<longleftrightarrow> hprevs hho m t as \<and> hprevs hho m (if as = [] then t else last as) bs"
  by (induction as arbitrary: t) auto

lemma next_set_next [simp]: "hp_next (set_next a e m h) = (if h = a then e else hp_next (m h))"
  by (simp add: set_next_def)

lemma prev_set_next [simp]: "hp_prev (set_next a e m h) = hp_prev (m h)"
  by (simp add: set_next_def)

lemma next_set_prev [simp]: "hp_next (set_prev a e m h) = hp_next (m h)"
  by (simp add: set_prev_def)

lemma prev_set_prev [simp]: "hp_prev (set_prev a e m h) = (if h = a then e else hp_prev (m h))"
  by (simp add: set_prev_def)

section \<open>The pointer program does the list program\<close>

text \<open>The part of the list built so far: linked up to \<open>tail\<close>, whose \<^verbatim>\<open>next\<close> is still the old one.\<close>

definition out_ok :: "nat \<Rightarrow> hh_mem \<Rightarrow> ptr \<Rightarrow> ptr \<Rightarrow> ptr list \<Rightarrow> bool" where
  "out_ok hho m l t out \<longleftrightarrow> hprevs hho m 0 out \<and>
     (if out = [] then l = 0 \<and> t = 0
      else hpath hho m l (butlast out) (last out) \<and> t = last out \<and> hho < t)"

text \<open>Nothing but the \<^verbatim>\<open>prev\<close> and \<^verbatim>\<open>next\<close> of the handles in \<open>H\<close> changes.\<close>

definition only_links :: "ptr set \<Rightarrow> hh_mem \<Rightarrow> hh_mem \<Rightarrow> bool" where
  "only_links H m m' \<longleftrightarrow> (\<forall>h. h \<notin> H \<longrightarrow> m' h = m h) \<and>
     (\<forall>h. (m' h)\<lparr>hp_prev := 0, hp_next := 0\<rparr> = (m h)\<lparr>hp_prev := 0, hp_next := 0\<rparr>)"

lemma only_links_refl [simp]: "only_links H m m"
  by (simp add: only_links_def)

lemma only_links_trans: "only_links H m m' \<Longrightarrow> only_links H' m' m'' \<Longrightarrow> only_links (H \<union> H') m m''"
  by (simp add: only_links_def)

lemma only_links_mono: "only_links H m m' \<Longrightarrow> H \<subseteq> H' \<Longrightarrow> only_links H' m m'"
  by (auto simp: only_links_def)

lemma only_links_set: "only_links {h} m (set_next h e m)" "only_links {h} m (set_prev h e m)"
  by (auto simp: only_links_def set_next_def set_prev_def)

lemma only_links_next: "only_links H m m' \<Longrightarrow> h \<notin> H \<Longrightarrow> hp_next (m' h) = hp_next (m h)"
  by (simp add: only_links_def)

lemma hpath_only_links: "only_links H m m' \<Longrightarrow> set hs \<inter> H = {} \<Longrightarrow> hpath hho m' x hs y \<longleftrightarrow> hpath hho m x hs y"
  by (intro hpath_cong only_links_next) auto

lemma srt_link_ok:
  assumes "out_ok hho (hs_m s) (hs_list s) (hs_tail s) out" and "e \<notin> set out" and "distinct out" and "hho < e"
  shows "out_ok hho (hs_m (srt_link hho e s)) (hs_list (srt_link hho e s)) (hs_tail (srt_link hho e s)) (out @ [e])"
    "only_links (insert e (set out)) (hs_m s) (hs_m (srt_link hho e s))"
    "h \<notin> set out \<Longrightarrow> hp_next (hs_m (srt_link hho e s) h) = hp_next (hs_m s h)"
proof -
  let ?s = "srt_link hho e s"
  have e: "e \<noteq> 0" using assms(4) by simp
  show "out_ok hho (hs_m ?s) (hs_list ?s) (hs_tail ?s) (out @ [e])"
  proof (cases "out = []")
    case True
    with assms e show ?thesis by (simp add: out_ok_def srt_link_def elmt_or_null_def Let_def)
  next
    case False
    let ?t = "last out"
    from assms(1) False have t: "hs_tail s = ?t" "hho < ?t" "?t \<noteq> 0" and l: "hpath hho (hs_m s) (hs_list s) (butlast out) ?t"
      and pv: "hprevs hho (hs_m s) 0 out" by (auto simp: out_ok_def)
    have m: "hs_m ?s = set_prev e (elmt_or_null hho ?t) (set_next ?t (elmt_or_null hho e) (hs_m s))"
      and ls: "hs_list ?s = hs_list s" "hs_tail ?s = e" using t e by (simp_all add: srt_link_def Let_def)
    have nt: "?t \<notin> set (butlast out)" using assms(3) False
      by (metis append_butlast_last_id distinct_append disjoint_iff list.set_intros(1))
    have "hpath hho (hs_m ?s) (hs_list s) (butlast out) ?t"
      using l nt by (subst hpath_cong [of _ _ "hs_m s"]) (auto simp: m)
    moreover have "next_hh hho (hs_m ?s) ?t = e"
      using t e assms(4) by (simp add: m next_hh_def elmt_or_null_def ELMT_FROM_HH_def HH_FROM_ELMT_def)
    ultimately have "hpath hho (hs_m ?s) (hs_list s) (butlast out @ [?t]) e" using t by (simp add: hpath_append)
    then have path: "hpath hho (hs_m ?s) (hs_list s) out e" using False by simp
    have "hprevs hho (hs_m ?s) 0 out"
      using pv assms(2) by (subst hprevs_cong [of _ _ "hs_m s"]) (auto simp: m)
    moreover have "hp_prev (hs_m ?s e) = elmt_or_null hho ?t" by (simp add: m)
    ultimately show ?thesis using path False assms(4) by (simp add: out_ok_def hprevs_append ls)
  qed
  show "only_links (insert e (set out)) (hs_m s) (hs_m ?s)"
  proof (cases "out = []")
    case True
    with assms e only_links_set [of e] show ?thesis by (simp add: out_ok_def srt_link_def Let_def)
  next
    case False
    with assms(1) have t: "hs_tail s = last out" "hs_tail s \<noteq> 0" "last out \<in> set out" by (auto simp: out_ok_def)
    have "hs_m ?s = set_prev e (elmt_or_null hho (hs_tail s)) (set_next (hs_tail s) (elmt_or_null hho e) (hs_m s))"
      using t e by (simp add: srt_link_def Let_def)
    then have "only_links ({hs_tail s} \<union> {e}) (hs_m s) (hs_m ?s)"
      by (simp only: only_links_trans [OF only_links_set(1) only_links_set(2)])
    then show ?thesis by (rule only_links_mono) (use t in auto)
  qed
  show "hp_next (hs_m ?s h) = hp_next (hs_m s h)" if "h \<notin> set out"
  proof (cases "out = []")
    case True
    with assms e show ?thesis by (simp add: out_ok_def srt_link_def Let_def)
  next
    case False
    with assms(1) that have "h \<noteq> hs_tail s" by (auto simp: out_ok_def)
    then show ?thesis by (auto simp: srt_link_def Let_def)
  qed
qed

text \<open>
  The state of the inner loop: what is left of the first run, the list from \<^verbatim>\<open>_hs_q\<close> on, and the part built.
\<close>

definition merge_ok :: "nat \<Rightarrow> srt_st \<Rightarrow> ptr list \<Rightarrow> ptr list \<Rightarrow> ptr list \<Rightarrow> bool" where
  "merge_ok hho s out ps qs \<longleftrightarrow> out_ok hho (hs_m s) (hs_list s) (hs_tail s) out \<and>
     (\<exists>z. hpath hho (hs_m s) (hs_p s) ps z) \<and> hs_psize s = length ps \<and>
     hpath hho (hs_m s) (hs_q s) qs 0 \<and> distinct (out @ ps @ qs)"

lemma srt_link_fields [simp]:
  "hs_p (srt_link hho e s) = hs_p s" "hs_q (srt_link hho e s) = hs_q s"
  "hs_psize (srt_link hho e s) = hs_psize s" "hs_qsize (srt_link hho e s) = hs_qsize s"
  by (simp_all add: srt_link_def Let_def)

lemma merge_ok_take_p:
  assumes "merge_ok hho s out (p # ps) qs"
  defines "s' \<equiv> srt_link hho p (snd (srt_take_p hho s))"
  shows "fst (srt_take_p hho s) = p" "merge_ok hho s' (out @ [p]) ps qs" "hs_qsize s' = hs_qsize s"
    "only_links (insert p (set out)) (hs_m s) (hs_m s')"
proof -
  let ?t = "snd (srt_take_p hho s)"
  from assms(1) obtain z where ok: "out_ok hho (hs_m s) (hs_list s) (hs_tail s) out" "hs_p s = p" "hho < p"
    "hpath hho (hs_m s) (next_hh hho (hs_m s) p) ps z" "hs_psize s = Suc (length ps)"
    "hpath hho (hs_m s) (hs_q s) qs 0" and dist: "distinct (out @ p # ps @ qs)"
    by (auto simp: merge_ok_def)
  show "fst (srt_take_p hho s) = p" by (simp add: srt_take_p_def ok)
  have t: "hs_m ?t = hs_m s" "hs_list ?t = hs_list s" "hs_tail ?t = hs_tail s" "hs_p ?t = next_hh hho (hs_m s) p"
    "hs_psize ?t = length ps" "hs_q ?t = hs_q s" "hs_qsize ?t = hs_qsize s"
    using ok by (simp_all add: srt_take_p_def)
  have link: "p \<notin> set out" "distinct out" using dist by auto
  note l = srt_link_ok [OF _ link ok(3), of ?t, unfolded t, OF ok(1), folded s'_def]
  have "hpath hho (hs_m s') x hs y \<longleftrightarrow> hpath hho (hs_m s) x hs y" if "set hs \<inter> set out = {}" for x hs y
    using that by (intro hpath_cong l(3)) auto
  moreover have "set ps \<inter> set out = {}" "set qs \<inter> set out = {}" using dist by auto
  ultimately have "hpath hho (hs_m s') (next_hh hho (hs_m s) p) ps z" "hpath hho (hs_m s') (hs_q s) qs 0" using ok(4,6) by simp_all
  with l(1) dist show "merge_ok hho s' (out @ [p]) ps qs" by (auto simp: merge_ok_def s'_def t)
  show "hs_qsize s' = hs_qsize s" by (simp add: s'_def t)
  show "only_links (insert p (set out)) (hs_m s) (hs_m s')" by (rule l(2))
qed

lemma merge_ok_take_q:
  assumes "merge_ok hho s out ps (q # qs)"
  defines "s' \<equiv> srt_link hho q (snd (srt_take_q hho s))"
  shows "fst (srt_take_q hho s) = q" "merge_ok hho s' (out @ [q]) ps qs" "hs_qsize s' = hs_qsize s - 1"
    "only_links (insert q (set out)) (hs_m s) (hs_m s')"
proof -
  let ?t = "snd (srt_take_q hho s)"
  from assms(1) obtain z where ok: "out_ok hho (hs_m s) (hs_list s) (hs_tail s) out" "hs_q s = q" "hho < q"
    "hpath hho (hs_m s) (hs_p s) ps z" "hs_psize s = length ps"
    "hpath hho (hs_m s) (next_hh hho (hs_m s) q) qs 0" and dist: "distinct (out @ ps @ q # qs)"
    by (auto simp: merge_ok_def)
  show "fst (srt_take_q hho s) = q" by (simp add: srt_take_q_def ok)
  have t: "hs_m ?t = hs_m s" "hs_list ?t = hs_list s" "hs_tail ?t = hs_tail s" "hs_q ?t = next_hh hho (hs_m s) q"
    "hs_psize ?t = length ps" "hs_p ?t = hs_p s" "hs_qsize ?t = hs_qsize s - 1"
    using ok by (simp_all add: srt_take_q_def)
  have link: "q \<notin> set out" "distinct out" using dist by auto
  note l = srt_link_ok [OF _ link ok(3), of ?t, unfolded t, OF ok(1), folded s'_def]
  have "hpath hho (hs_m s') x hs y \<longleftrightarrow> hpath hho (hs_m s) x hs y" if "set hs \<inter> set out = {}" for x hs y
    using that by (intro hpath_cong l(3)) auto
  moreover have "set ps \<inter> set out = {}" "set qs \<inter> set out = {}" using dist by auto
  ultimately have "hpath hho (hs_m s') (hs_p s) ps z" "hpath hho (hs_m s') (next_hh hho (hs_m s) q) qs 0" using ok(4,6) by simp_all
  with l(1) dist show "merge_ok hho s' (out @ [q]) ps qs" by (auto simp: merge_ok_def s'_def t)
  show "hs_qsize s' = hs_qsize s - 1" by (simp add: s'_def t)
  show "only_links (insert q (set out)) (hs_m s) (hs_m s')" by (rule l(2))
qed

text \<open>One step of the loop, by what is left of the two runs.\<close>

definition hcmp :: "nat \<Rightarrow> (ptr \<Rightarrow> ptr \<Rightarrow> int) \<Rightarrow> ptr \<Rightarrow> ptr \<Rightarrow> int" where
  "hcmp hho cmpfcn x y = cmpfcn (ELMT_FROM_HH hho x) (ELMT_FROM_HH hho y)"

lemma srt_merge_ok:
  "merge_ok hho s out ps qs \<Longrightarrow>
    let s' = srt_merge hho cmpfcn s; res = mrg (hcmp hho cmpfcn) ps (take (hs_qsize s) qs) in
    out_ok hho (hs_m s') (hs_list s') (hs_tail s') (out @ res) \<and>
    hpath hho (hs_m s') (hs_q s') (drop (hs_qsize s) qs) 0 \<and>
    only_links (set (out @ ps @ take (hs_qsize s) qs)) (hs_m s) (hs_m s')"
proof (induction "length ps + hs_qsize s" arbitrary: s out ps qs rule: less_induct)
  case less
  let ?n = "hs_qsize s"
  have sz: "hs_psize s = length ps" and q: "hs_q s \<noteq> 0 \<longleftrightarrow> qs \<noteq> []" and hq: "qs \<noteq> [] \<Longrightarrow> hs_q s = hd qs"
    and hp: "ps \<noteq> [] \<Longrightarrow> hs_p s = hd ps"
    using less.prems hpath_nonnull by (auto simp: merge_ok_def neq_Nil_conv)
  have take_p: ?case if ps: "ps = p # ps'" and sel: "srt_take hho cmpfcn s = srt_take_p hho s"
    and m: "mrg (hcmp hho cmpfcn) ps (take ?n qs) = p # mrg (hcmp hho cmpfcn) ps' (take ?n qs)" for p ps'
  proof -
    note t = merge_ok_take_p [OF less.prems [unfolded ps]]
    let ?s = "srt_step hho cmpfcn s" and ?r = "srt_merge hho cmpfcn (srt_step hho cmpfcn s)"
    have s: "?s = srt_link hho p (snd (srt_take_p hho s))" using t(1) by (simp add: srt_step_def sel split_beta)
    have "srt_merge hho cmpfcn s = srt_merge hho cmpfcn ?s" using sz ps by (simp add: srt_merge.simps [of hho cmpfcn s])
    moreover have IH: "out_ok hho (hs_m ?r) (hs_list ?r) (hs_tail ?r) (out @ p # mrg (hcmp hho cmpfcn) ps' (take ?n qs))"
      "hpath hho (hs_m ?r) (hs_q ?r) (drop ?n qs) 0"
      "only_links (set ((out @ [p]) @ ps' @ take ?n qs)) (hs_m ?s) (hs_m ?r)"
      using less.hyps [of ps' ?s "out @ [p]" qs] t(2,3) [folded s] ps by (simp_all add: Let_def)
    moreover have "only_links (set (out @ ps @ take ?n qs)) (hs_m s) (hs_m ?r)"
      by (rule only_links_mono [OF only_links_trans [OF t(4) [folded s] IH(3)]]) (auto simp: ps)
    ultimately show ?thesis using m by (simp add: Let_def)
  qed
  have take_q: ?case if qs: "qs = q # qs'" "0 < ?n" and sel: "srt_take hho cmpfcn s = srt_take_q hho s"
    and m: "mrg (hcmp hho cmpfcn) ps (take ?n qs) = q # mrg (hcmp hho cmpfcn) ps (take (?n - 1) qs')" for q qs'
  proof -
    note t = merge_ok_take_q [OF less.prems [unfolded qs]]
    let ?s = "srt_step hho cmpfcn s" and ?r = "srt_merge hho cmpfcn (srt_step hho cmpfcn s)"
    have s: "?s = srt_link hho q (snd (srt_take_q hho s))" using t(1) by (simp add: srt_step_def sel split_beta)
    have "srt_merge hho cmpfcn s = srt_merge hho cmpfcn ?s" using q qs by (simp add: srt_merge.simps [of hho cmpfcn s])
    moreover have IH: "out_ok hho (hs_m ?r) (hs_list ?r) (hs_tail ?r) (out @ q # mrg (hcmp hho cmpfcn) ps (take (?n - 1) qs'))"
      "hpath hho (hs_m ?r) (hs_q ?r) (drop (?n - 1) qs') 0"
      "only_links (set ((out @ [q]) @ ps @ take (?n - 1) qs')) (hs_m ?s) (hs_m ?r)"
      using less.hyps [of ps ?s "out @ [q]" qs'] t(2,3) [folded s] qs by (simp_all add: Let_def)
    moreover have "take ?n qs = q # take (?n - 1) qs'" "drop ?n qs = drop (?n - 1) qs'"
      using qs by (simp_all add: take_Cons' drop_Cons')
    moreover from this have "only_links (set (out @ ps @ take ?n qs)) (hs_m s) (hs_m ?r)"
      by (intro only_links_mono [OF only_links_trans [OF t(4) [folded s] IH(3)]]) auto
    ultimately show ?thesis using m by (simp add: Let_def)
  qed
  show ?case
  proof (cases ps)
    case Nil
    show ?thesis
    proof (cases "?n = 0 \<or> qs = []")
      case True
      with Nil sz q less.prems show ?thesis by (auto simp: srt_merge.simps [of hho cmpfcn s] merge_ok_def Let_def)
    next
      case False
      then obtain y ys n where "qs = y # ys" "?n = Suc n" by (cases qs; cases ?n) auto
      with Nil sz take_q [of y ys] show ?thesis by (simp add: srt_take_def)
    qed
  next
    case (Cons p ps')
    show ?thesis
    proof (cases "?n = 0 \<or> qs = []")
      case True
      then have "take ?n qs = []" by auto
      with Cons sz True q take_p [of p ps'] show ?thesis by (cases ps') (auto simp: srt_take_def)
    next
      case False
      then obtain y ys n where qs: "qs = y # ys" "?n = Suc n" by (cases qs; cases ?n) auto
      with Cons sz q hq hp take_p [of p ps'] take_q [of y ys] show ?thesis
        by (cases "cmpfcn (ELMT_FROM_HH hho p) (ELMT_FROM_HH hho y) \<le> 0") (simp_all add: srt_take_def hcmp_def)
    qed
  qed
qed

lemma srt_skip_ok:
  "hpath hho m q xs 0 \<Longrightarrow> xs \<noteq> [] \<Longrightarrow>
    \<exists>y. srt_skip hho m k n q = (n + length (take k xs), y) \<and> hpath hho m q (take k xs) y \<and> hpath hho m y (drop k xs) 0"
proof (induction k arbitrary: n q xs)
  case (Suc k)
  then obtain x xs' where xs: "xs = x # xs'" "q = x" "hho < x" "hpath hho m (next_hh hho m x) xs' 0" by (cases xs) auto
  show ?case
  proof (cases "next_hh hho m x = 0")
    case True
    with xs have "xs' = []" using hpath_end by metis
    with True xs show ?thesis by simp
  next
    case False
    with xs hpath_nonnull have "xs' \<noteq> []" by metis
    from Suc.IH [OF xs(4) this, of "n + 1"] False xs show ?thesis by auto
  qed
qed simp

definition merges :: "nat \<Rightarrow> nat \<Rightarrow> nat" where
  "merges k n = (n + 2 * k - 1) div (2 * k)"

lemma merges_0 [simp]: "0 < k \<Longrightarrow> merges k 0 = 0"
  by (simp add: merges_def)

lemma merges_step:
  assumes "0 < k" and "0 < n"
  shows "merges k n = Suc (merges k (n - 2 * k))"
proof (cases "n \<ge> 2 * k")
  case True
  then have "n + 2 * k - 1 = (n - 2 * k + 2 * k - 1) + 2 * k" using assms by simp
  moreover have "(x + 2 * k) div (2 * k) = Suc (x div (2 * k))" for x using assms(1) by simp
  ultimately show ?thesis unfolding merges_def by (simp only:)
next
  case False
  then have "(n + 2 * k - 1) div (2 * k) = 1" using assms by (intro div_nat_eqI) auto
  with False assms show ?thesis by (simp add: merges_def)
qed

lemma merges_le_1:
  assumes "0 < k"
  shows "merges k n \<le> 1 \<longleftrightarrow> n \<le> 2 * k"
proof (cases "n \<le> 2 * k")
  case True
  then have "merges k (n - 2 * k) = 0" using assms by simp
  with True merges_step [OF assms, of n] assms show ?thesis by (cases "n = 0") simp_all
next
  case False
  then have "0 < n" "0 < n - 2 * k" by simp_all
  with False show ?thesis using merges_step [OF assms, of n] merges_step [OF assms, of "n - 2 * k"] by simp
qed

lemma merges_half: "0 < k \<Longrightarrow> 2 * merges k n \<le> n + 1"
proof (induction n rule: less_induct)
  case (less n)
  show ?case
  proof (cases "n = 0")
    case False
    then have step: "merges k n = Suc (merges k (n - 2 * k))" using less.prems merges_step by simp
    show ?thesis
    proof (cases "2 * k \<le> n")
      case True
      with step less.IH [of "n - 2 * k"] less.prems False show ?thesis by simp
    next
      case short: False
      with step less.prems False show ?thesis by simp
    qed
  qed (use less.prems in simp)
qed

lemma srt_pass_ok:
  "0 < k \<Longrightarrow> nm < 2 ^ 32 \<Longrightarrow> hpath hho (hs_m s) (hs_p s) xs 0 \<Longrightarrow>
    out_ok hho (hs_m s) (hs_list s) (hs_tail s) out \<Longrightarrow> distinct (out @ xs) \<Longrightarrow>
    \<exists>s'. srt_pass hho cmpfcn k nm s = Some (s', (nm + merges k (length xs)) mod 2 ^ 32) \<and>
      out_ok hho (hs_m s') (hs_list s') (hs_tail s') (out @ mpass (hcmp hho cmpfcn) k xs) \<and>
      only_links (set (out @ xs)) (hs_m s) (hs_m s')"
proof (induction "length xs" arbitrary: nm s out xs rule: less_induct)
  case less
  note prems = less.prems
  show ?case
  proof (cases "xs = []")
    case True
    with prems have "hs_p s = 0" by simp
    with True prems show ?thesis by (simp add: srt_pass.simps [of hho cmpfcn k nm s] mpass.simps)
  next
    case False
    with prems(3) have p: "hs_p s \<noteq> 0" using hpath_nonnull by metis
    from srt_skip_ok [OF prems(3) False, of k 0] obtain y where y:
      "srt_skip hho (hs_m s) k 0 (hs_p s) = (length (take k xs), y)"
      "hpath hho (hs_m s) (hs_p s) (take k xs) y" "hpath hho (hs_m s) y (drop k xs) 0" by auto
    define s1 where "s1 = s\<lparr>hs_q := y, hs_psize := length (take k xs), hs_qsize := k\<rparr>"
    define s2 where "s2 = srt_merge hho cmpfcn s1"
    define s3 where "s3 = s2\<lparr>hs_p := hs_q s2\<rparr>"
    let ?res = "mrg (hcmp hho cmpfcn) (take k xs) (take k (drop k xs))"
    have "merge_ok hho s1 out (take k xs) (drop k xs)"
      using prems(4,5) y by (auto simp: merge_ok_def s1_def simp del: length_take)
    from srt_merge_ok [OF this, of cmpfcn, folded s2_def]
    have 2: "out_ok hho (hs_m s2) (hs_list s2) (hs_tail s2) (out @ ?res)"
      "hpath hho (hs_m s2) (hs_q s2) (drop (2 * k) xs) 0"
      "only_links (set (out @ take k xs @ take k (drop k xs))) (hs_m s) (hs_m s2)"
      by (simp_all add: Let_def s1_def mult_2)
    have res: "set ?res = set (take k xs @ take k (drop k xs))" by simp
    have parts: "mset xs = mset (?res @ drop (2 * k) xs)"
      by (metis append.assoc append_take_drop_id drop_drop mset_append mset_mrg mult_2)
    then have dist: "distinct (xs) \<longleftrightarrow> distinct (?res @ drop (2 * k) xs)" "set xs = set (?res @ drop (2 * k) xs)"
      by (metis mset_eq_imp_distinct_iff, metis set_mset_mset)
    have "distinct ((out @ ?res) @ drop (2 * k) xs)" using prems(5) dist by auto
    moreover have "length (drop (2 * k) xs) < length xs" using False prems(1) by simp
    moreover have "hs_p s3 = hs_q s2" "hs_m s3 = hs_m s2" "hs_list s3 = hs_list s2" "hs_tail s3 = hs_tail s2"
      by (simp_all add: s3_def)
    ultimately obtain s' where s': "srt_pass hho cmpfcn k ((nm + 1) mod 2 ^ 32) s3 =
        Some (s', ((nm + 1) mod 2 ^ 32 + merges k (length (drop (2 * k) xs))) mod 2 ^ 32)"
      "out_ok hho (hs_m s') (hs_list s') (hs_tail s') ((out @ ?res) @ mpass (hcmp hho cmpfcn) k (drop (2 * k) xs))"
      "only_links (set ((out @ ?res) @ drop (2 * k) xs)) (hs_m s2) (hs_m s')"
      using less.hyps [of "drop (2 * k) xs" "(nm + 1) mod 2 ^ 32" s3 "out @ ?res"] prems(1) 2 by auto
    have "srt_pass hho cmpfcn k nm s = srt_pass hho cmpfcn k ((nm + 1) mod 2 ^ 32) s3"
      using p y(1) by (subst srt_pass.simps) (simp add: s1_def s2_def s3_def Let_def)
    moreover have "(nm + merges k (length xs)) mod 2 ^ 32 =
        ((nm + 1) mod 2 ^ 32 + merges k (length (drop (2 * k) xs))) mod 2 ^ 32"
      using False prems(1) by (simp add: merges_step [of k "length xs"] mod_add_left_eq)
    moreover have "mpass (hcmp hho cmpfcn) k xs = ?res @ mpass (hcmp hho cmpfcn) k (drop (2 * k) xs)"
      using False prems(1) by (simp add: mpass.simps [of "hcmp hho cmpfcn" k xs])
    moreover have "only_links (set (out @ xs)) (hs_m s) (hs_m s')"
      by (rule only_links_mono [OF only_links_trans [OF 2(3) s'(3)]]) (use dist(2) res in auto)
    ultimately show ?thesis using s' by simp
  qed
qed

lemma out_ok_closed:
  assumes "out_ok hho (hs_m s) (hs_list s) (hs_tail s) out" and "distinct out"
  shows "hpath hho (hs_m (srt_end_pass s)) (hs_list (srt_end_pass s)) out 0"
    "hprevs hho (hs_m (srt_end_pass s)) 0 out" "hs_list (srt_end_pass s) = hs_list s" "hs_tail (srt_end_pass s) = hs_tail s"
    "only_links (set out) (hs_m s) (hs_m (srt_end_pass s))"
proof -
  let ?s = "srt_end_pass s"
  have "hpath hho (hs_m ?s) (hs_list ?s) out 0 \<and> hprevs hho (hs_m ?s) 0 out \<and> only_links (set out) (hs_m s) (hs_m ?s)"
  proof (cases "out = []")
    case True
    with assms show ?thesis by (simp add: out_ok_def srt_end_pass_def)
  next
    case False
    let ?t = "last out"
    from assms(1) False have t: "hs_tail s = ?t" "hho < ?t" and l: "hpath hho (hs_m s) (hs_list s) (butlast out) ?t"
      and pv: "hprevs hho (hs_m s) 0 out" by (auto simp: out_ok_def)
    then have m: "hs_m ?s = set_next ?t 0 (hs_m s)" "hs_list ?s = hs_list s" by (simp_all add: srt_end_pass_def)
    have nt: "?t \<notin> set (butlast out)" using assms(2) False
      by (metis append_butlast_last_id distinct_append disjoint_iff list.set_intros(1))
    have "hpath hho (hs_m ?s) (hs_list s) (butlast out) ?t"
      using l nt by (subst hpath_cong [of _ _ "hs_m s"]) (auto simp: m)
    moreover have "next_hh hho (hs_m ?s) ?t = 0" by (simp add: m next_hh_def)
    ultimately have "hpath hho (hs_m ?s) (hs_list s) (butlast out @ [?t]) 0" using t by (simp add: hpath_append)
    moreover have "hprevs hho (hs_m ?s) 0 out" using pv by (subst hprevs_cong [of _ _ "hs_m s"]) (auto simp: m)
    moreover have "only_links (set out) (hs_m s) (hs_m ?s)"
      unfolding m by (rule only_links_mono [OF only_links_set(1)]) (use False in simp)
    ultimately show ?thesis using False m by simp
  qed
  then show "hpath hho (hs_m ?s) (hs_list ?s) out 0" "hprevs hho (hs_m ?s) 0 out" "only_links (set out) (hs_m s) (hs_m ?s)"
    by blast+
  show "hs_list ?s = hs_list s" "hs_tail ?s = hs_tail s" by (simp_all add: srt_end_pass_def)
qed

lemma srt_loop_ok:
  assumes "length xs \<le> 2 ^ 32"
  shows "k = 2 ^ j \<Longrightarrow> k < 2 ^ 32 \<Longrightarrow> length ys = length xs \<Longrightarrow> distinct ys \<Longrightarrow> ys \<noteq> [] \<Longrightarrow>
    hpath hho (hs_m s) (hs_list s) ys 0 \<Longrightarrow>
    \<exists>s'. srt_loop hho cmpfcn k s = Some s' \<and> hpath hho (hs_m s') (hs_list s') (mloop (hcmp hho cmpfcn) k ys) 0 \<and>
      hprevs hho (hs_m s') 0 (mloop (hcmp hho cmpfcn) k ys) \<and> hs_tail s' = last (mloop (hcmp hho cmpfcn) k ys) \<and>
      only_links (set ys) (hs_m s) (hs_m s')"
proof (induction "length xs - k" arbitrary: k j ys s rule: less_induct)
  case less
  note prems = less.prems
  let ?cmp = "hcmp hho cmpfcn"
  have k: "0 < k" using prems(1) by simp
  let ?s0 = "s\<lparr>hs_p := hs_list s, hs_list := 0, hs_tail := 0\<rparr>"
  let ?zs = "mpass ?cmp k ys"
  have zs: "mset ?zs = mset ys" "length ?zs = length ys" using k by (simp_all add: mset_mpass length_mpass)
  then have dist: "distinct ?zs" "set ?zs = set ys" "?zs \<noteq> []"
    using prems(4,5) mset_eq_imp_distinct_iff set_mset_mset by (metis, metis, metis length_0_conv)
  from srt_pass_ok [OF k, of 0 hho ?s0 ys "[]" cmpfcn] prems obtain s1 where
    1: "srt_pass hho cmpfcn k 0 ?s0 = Some (s1, merges k (length ys) mod 2 ^ 32)"
    "out_ok hho (hs_m s1) (hs_list s1) (hs_tail s1) ?zs" "only_links (set ys) (hs_m s) (hs_m s1)"
    by (auto simp: out_ok_def)
  note c = out_ok_closed [OF 1(2) dist(1)]
  let ?s2 = "srt_end_pass s1"
  have links: "only_links (set ys) (hs_m s) (hs_m ?s2)"
    by (rule only_links_mono [OF only_links_trans [OF 1(3) c(5)]]) (simp add: dist)
  have tail: "hs_tail s1 = last ?zs" using 1(2) dist(3) by (simp add: out_ok_def)
  show ?case
  proof (cases "length ys \<le> 2 * k")
    case True
    then have "merges k (length ys) \<le> 1" using merges_le_1 [OF k, of "length ys"] by simp
    then have "srt_loop hho cmpfcn k s = Some ?s2" by (subst srt_loop.simps) (simp add: 1(1))
    moreover have "mloop ?cmp k ys = ?zs" using True by (simp add: mloop.simps [of ?cmp k ys])
    ultimately show ?thesis using c tail links by simp
  next
    case False
    have small: "2 * k < 2 ^ 32" using False prems(3) assms by simp
    have "merges k (length ys) < 2 ^ 32" using merges_half [OF k, of "length ys"] prems(3) assms by simp
    then have "merges k (length ys) mod 2 ^ 32 > 1" using merges_le_1 [OF k, of "length ys"] False by simp
    then have step: "srt_loop hho cmpfcn k s = srt_loop hho cmpfcn (2 * k) ?s2"
      using small by (subst srt_loop.simps) (simp add: 1(1) mult.commute)
    have "length xs - 2 * k < length xs - k" using k False prems(3) by simp
    moreover have "2 * k = 2 ^ Suc j" using prems(1) by simp
    moreover have "mloop ?cmp k ys = mloop ?cmp (2 * k) ?zs"
      using False k by (simp add: mloop.simps [of ?cmp k ys])
    moreover note less.hyps [of "2 * k" "Suc j" ?zs ?s2] c(1,3) dist zs(2) prems(3) small step
    ultimately show ?thesis using only_links_trans [OF links, of "set ys"] by (auto simp: dist(2))
  qed
qed

lemma mrg_map:
  assumes "\<And>x y. cmp' (f x) (f y) = cmp x y"
  shows "mrg cmp' (map f xs) (map f ys) = map f (mrg cmp xs ys)"
  using assms by (induction cmp xs ys rule: mrg.induct) simp_all

lemma mpass_map:
  assumes "\<And>x y. cmp' (f x) (f y) = cmp x y"
  shows "mpass cmp' k (map f xs) = map f (mpass cmp k xs)"
proof (induction "length xs" arbitrary: xs rule: less_induct)
  case less
  then show ?case
    using mrg_map [of cmp' f cmp "take k xs" "take k (drop k xs)", OF assms]
    by (cases "xs = [] \<or> k = 0")
      (auto simp: mpass.simps [of _ k xs] mpass.simps [of _ k "map f xs"] take_map drop_map)
qed

lemma mloop_map:
  assumes "\<And>x y. cmp' (f x) (f y) = cmp x y" and "0 < k"
  shows "mloop cmp' k (map f xs) = map f (mloop cmp k xs)"
  using assms(2)
proof (induction "length xs - k" arbitrary: k xs rule: less_induct)
  case less
  show ?case
  proof (cases "length xs \<le> 2 * k")
    case True
    then show ?thesis
      by (simp add: mloop.simps [of _ k xs] mloop.simps [of _ k "map f xs"] mpass_map [of cmp' f cmp, OF assms(1)])
  next
    case False
    with less.prems less.hyps [of "mpass cmp k xs" "2 * k"] show ?thesis
      by (simp add: mloop.simps [of _ k xs] mloop.simps [of _ k "map f xs"] mpass_map [of cmp' f cmp, OF assms(1)]
          length_mpass)
  qed
qed

section \<open>Result\<close>

lemma mset_mloop: "0 < k \<Longrightarrow> mset (mloop cmp k xs) = mset xs"
  by (induction cmp k xs rule: mloop.induct) (subst mloop.simps, auto simp: mset_mpass)

lemma HASH_SRT_result:
  assumes "app_list hho m head tail es" and "length es \<le> 2 ^ 32"
  shows "\<exists>m' head' tail'. HASH_SRT hho cmpfcn m head tail = Some (m', head', tail') \<and>
    app_list hho m' head' tail' (mloop cmpfcn 1 es) \<and> only_links (HH_FROM_ELMT hho ` set es) m m'"
proof (cases "es = []")
  case True
  with assms(1) have "head = 0" by (auto simp: app_list_def HH_FROM_ELMT_def split: if_splits)
  with True assms(1) have "HASH_SRT hho cmpfcn m head tail = Some (m, head, tail)"
    by (simp add: HASH_SRT_def)
  moreover have "mloop cmpfcn 1 es = []" using mset_mloop [of 1 cmpfcn es] True by simp
  ultimately show ?thesis using assms(1) True by simp
next
  case False
  let ?f = "HH_FROM_ELMT hho"
  let ?hs = "map ?f es" and ?es = "mloop cmpfcn 1 es"
  let ?s = "\<lparr>hs_m = m, hs_p = 0, hs_q = 0, hs_psize = 0, hs_qsize = 0, hs_list = ?f head, hs_tail = 0\<rparr>"
  from assms(1) False have head: "head \<noteq> 0" by (auto simp: app_list_def Let_def dest!: hpath_end split: if_splits)
  from assms(1) head have path: "hpath hho m (?f head) ?hs 0" and dist: "distinct es" by (simp_all add: app_list_def Let_def)
  have inj: "inj ?f" by (simp add: inj_def HH_FROM_ELMT_def)
  have hcmp: "hcmp hho cmpfcn (?f x) (?f y) = cmpfcn x y" for x y
    by (simp add: hcmp_def ELMT_FROM_HH_def HH_FROM_ELMT_def)
  have loop: "mloop (hcmp hho cmpfcn) 1 ?hs = map ?f ?es" by (rule mloop_map) (simp_all add: hcmp)
  have "distinct ?hs" using dist inj by (simp add: distinct_map inj_on_def inj_def)
  from srt_loop_ok [OF assms(2), of 1 0 ?hs hho ?s cmpfcn] this path False obtain s' where
    s': "srt_loop hho cmpfcn 1 ?s = Some s'" "hpath hho (hs_m s') (hs_list s') (map ?f ?es) 0"
    "hprevs hho (hs_m s') 0 (map ?f ?es)" "hs_tail s' = last (map ?f ?es)" "only_links (?f ` set es) m (hs_m s')"
    unfolding loop by auto
  have es: "mset ?es = mset es" by (simp add: mset_mloop)
  then have "distinct ?es" "?es \<noteq> []" using dist False mset_eq_imp_distinct_iff by (metis, metis mset_zero_iff)
  moreover from this s'(2) have "hs_list s' = ?f (hd ?es)" "hho < ?f (hd ?es)" by (cases ?es; simp)+
  ultimately have "app_list hho (hs_m s') (ELMT_FROM_HH hho (hs_list s')) (hs_tail s') ?es"
    using s'(2,3,4) by (auto simp: app_list_def Let_def ELMT_FROM_HH_def HH_FROM_ELMT_def)
  moreover have "HASH_SRT hho cmpfcn m head tail = Some (hs_m s', ELMT_FROM_HH hho (hs_list s'), hs_tail s')"
    using head s'(1) by (simp add: HASH_SRT_def)
  ultimately show ?thesis using s'(5) by blast
qed

text \<open>
  (C8) \<^verbatim>\<open>HASH_SRT\<close> (and so \<^verbatim>\<open>HASH_SORT\<close>) ends on every table that \<^verbatim>\<open>unsigned\<close> can count and leaves its
  application-order list stably sorted: the same elements, each before those that compare greater, equal
  ones in their old order, with \<^verbatim>\<open>next\<close>, \<^verbatim>\<open>prev\<close>, the head and the tail of the table all consistent. Nothing
  in memory but the \<^verbatim>\<open>prev\<close> and \<^verbatim>\<open>next\<close> fields of the table's handles changes, so the bucket chains stay as they are.
\<close>

theorem hash_srt_sorts:
  assumes "app_list hho m head tail es" and "length es \<le> 2 ^ 32" and "cmp_total cmpfcn"
  shows "\<exists>m' head' tail' es'. HASH_SRT hho cmpfcn m head tail = Some (m', head', tail') \<and>
    app_list hho m' head' tail' es' \<and> stable_sort_of cmpfcn es es' \<and>
    only_links (HH_FROM_ELMT hho ` set es) m m'"
proof -
  have "stable_sort_of cmpfcn es (mloop cmpfcn 1 es)" by (rule mloop_sorts [OF assms(3) _ runs_ok_one]) simp
  with HASH_SRT_result [OF assms(1,2), of cmpfcn] show ?thesis by blast
qed

definition srt_example :: hh_mem where
  "srt_example =
     (\<lambda>_. \<lparr>hp_prev = 0, hp_next = 0, hp_hh_prev = 0, hp_hh_next = 0, hp_hashv = 0\<rparr>)
       (14 := \<lparr>hp_prev = 0, hp_next = 20, hp_hh_prev = 0, hp_hh_next = 0, hp_hashv = 0\<rparr>,
        24 := \<lparr>hp_prev = 10, hp_next = 30, hp_hh_prev = 0, hp_hh_next = 0, hp_hashv = 0\<rparr>,
        34 := \<lparr>hp_prev = 20, hp_next = 0, hp_hh_prev = 0, hp_hh_next = 0, hp_hashv = 0\<rparr>)"

theorem hash_srt_sorts_witness:
  "\<exists>m' head' tail' es'. HASH_SRT 4 (\<lambda>x y. int y - int x) srt_example 10 34 = Some (m', head', tail') \<and>
     app_list 4 m' head' tail' es' \<and> stable_sort_of (\<lambda>x y. int y - int x) [10, 20, 30] es'"
proof -
  have "app_list 4 srt_example 10 34 [10, 20, 30]"
    by (simp add: app_list_def srt_example_def HH_FROM_ELMT_def next_hh_def elmt_or_null_def ELMT_FROM_HH_def)
  from hash_srt_sorts [OF this, of "\<lambda>x y. int y - int x"] show ?thesis
    by (force simp: cmp_total_def)
qed

end
