(* ===== verification/Uthash_ptr.thy ===== *)
theory Uthash_ptr
  imports Uthash_srt "HOL-Library.Monad_Syntax"
begin

text \<open>
  The hash tables of \<^verbatim>\<open>src/src/include/uthash.h\<close> as they are in memory: handles linked by \<^verbatim>\<open>prev\<close> and \<^verbatim>\<open>next\<close> in
  application order and by \<^verbatim>\<open>hh_prev\<close> and \<^verbatim>\<open>hh_next\<close> in their buckets, over the memory of \<open>Uthash_srt\<close>. The
  macros are written out pointer by pointer and proved to do what the bucket lists of \<open>Uthash_impl\<close> do.

  The state of a table holds the memory it works on, the head pointer of the user and the fields of
  \<^verbatim>\<open>UT_hash_table\<close>. A loop that follows pointers is a partial function: with a damaged list it may not end.

  The counters \<^verbatim>\<open>num_items\<close>, \<^verbatim>\<open>num_buckets\<close>, \<^verbatim>\<open>log2_num_buckets\<close>, \<^verbatim>\<open>ideal_chain_maxlen\<close>, \<^verbatim>\<open>nonideal_items\<close>,
  \<^verbatim>\<open>ineff_expands\<close> and the buckets' \<^verbatim>\<open>count\<close> and \<^verbatim>\<open>expand_mult\<close> are \<^verbatim>\<open>unsigned\<close> in the source and natural numbers here.
  They agree as long as a table has fewer than $2^{32}$ items and its bucket array fewer than $2^{32}$ buckets, which would take
  64 GiB; beyond that the source wraps around and the model does not. Hash values are 32-bit words.
\<close>

section \<open>Doubly linked lists\<close>

text \<open>
  \<open>dll nxt prv p x hs q y\<close>: from \<open>x\<close>, whose predecessor is \<open>p\<close>, \<open>nxt\<close> leads over \<open>hs\<close> to \<open>y\<close>, whose predecessor is
  \<open>q\<close>, and \<open>prv\<close> leads back.
\<close>

fun dll :: "(ptr \<Rightarrow> ptr) \<Rightarrow> (ptr \<Rightarrow> ptr) \<Rightarrow> ptr \<Rightarrow> ptr \<Rightarrow> ptr list \<Rightarrow> ptr \<Rightarrow> ptr \<Rightarrow> bool" where
  "dll nxt prv p x [] q y \<longleftrightarrow> q = p \<and> y = x"
| "dll nxt prv p x (h # hs) q y \<longleftrightarrow> x = h \<and> h \<noteq> 0 \<and> prv h = p \<and> dll nxt prv h (nxt h) hs q y"

lemma dll_append:
  "dll nxt prv p x (as @ bs) q y \<longleftrightarrow> (\<exists>r z. dll nxt prv p x as r z \<and> dll nxt prv r z bs q y)"
  by (induction as arbitrary: p x) auto

lemma dll_cong:
  "(\<And>h. h \<in> set hs \<Longrightarrow> nxt' h = nxt h \<and> prv' h = prv h) \<Longrightarrow>
    dll nxt' prv' p x hs q y \<longleftrightarrow> dll nxt prv p x hs q y"
  by (induction hs arbitrary: p x) auto

lemma dll_nonnull: "dll nxt prv p x hs q y \<Longrightarrow> 0 \<notin> set hs"
  by (induction hs arbitrary: p x) auto

lemma dll_ends: "dll nxt prv p x hs q y \<Longrightarrow> q = (if hs = [] then p else last hs) \<and> x = (if hs = [] then y else hd hs)"
  by (induction hs arbitrary: p x) auto

lemma dll_head: "dll nxt prv p x hs q 0 \<Longrightarrow> x = 0 \<longleftrightarrow> hs = []"
  by (cases hs) auto

lemma dll_last_nz: "dll nxt prv p x hs q y \<Longrightarrow> hs \<noteq> [] \<Longrightarrow> last hs \<noteq> 0"
  using dll_nonnull last_in_set by metis

lemma dll_prv_out: "dll nxt prv p x hs q y \<Longrightarrow> a \<notin> set hs \<Longrightarrow> dll (nxt(a := v)) (prv(a := w)) p x hs q y"
  by (subst dll_cong [of _ _ nxt _ prv]) auto

lemma last_disjoint: "as \<noteq> [] \<Longrightarrow> set as \<inter> set bs = {} \<Longrightarrow> last as \<notin> set bs"
  by (metis disjoint_iff last_in_set)

text \<open>Putting a node in front.\<close>

lemma dll_push:
  assumes "dll nxt prv 0 x hs q 0" and "distinct hs" and "a \<notin> set hs" and "a \<noteq> 0"
    and nxt': "nxt' a = x" "\<And>h. h \<in> set hs \<Longrightarrow> nxt' h = nxt h"
    and prv': "prv' a = 0" "\<And>h. h \<in> set hs \<Longrightarrow> prv' h = (if h = x then a else prv h)"
  shows "dll nxt' prv' 0 a (a # hs) (if hs = [] then a else q) 0"
proof (cases hs)
  case Nil
  with assms show ?thesis by simp
next
  case (Cons b bs)
  with assms(1) have b: "x = b" "b \<noteq> 0" "dll nxt prv b (nxt b) bs q 0" by auto
  have "dll nxt' prv' b (nxt b) bs q 0"
    using b(3) assms(2) nxt'(2) prv'(2) Cons b(1) by (subst dll_cong [of _ _ nxt _ prv]) auto
  with assms Cons b show ?thesis by simp
qed

text \<open>Unlinking a node.\<close>

lemma dll_delete:
  assumes "dll nxt prv 0 x (as @ d # bs) q 0" and "distinct (as @ d # bs)"
    and nxt': "\<And>h. h \<in> set (as @ bs) \<Longrightarrow> nxt' h = (if h = prv d then nxt d else nxt h)"
    and prv': "\<And>h. h \<in> set (as @ bs) \<Longrightarrow> prv' h = (if h = nxt d then prv d else prv h)"
  shows "dll nxt' prv' 0 (if prv d = 0 then nxt d else x) (as @ bs) (if nxt d = 0 then prv d else q) 0"
proof -
  from assms(1) obtain r where a: "dll nxt prv 0 x as r d" and d: "d \<noteq> 0" "prv d = r" and b: "dll nxt prv d (nxt d) bs q 0"
    by (auto simp: dll_append)
  have nd: "nxt d \<notin> set as" "nxt d \<noteq> 0 \<longrightarrow> bs \<noteq> [] \<and> nxt d = hd bs"
    using dll_ends [OF b] dll_nonnull [OF a] assms(2) by (auto split: if_splits)
  have rd: "r \<notin> set bs" "r \<noteq> 0 \<longrightarrow> as \<noteq> [] \<and> r = last as"
    using dll_ends [OF a] dll_nonnull [OF b] assms(2) last_disjoint [of as bs] by (auto split: if_splits)
  have "dll nxt' prv' r (nxt d) bs (if nxt d = 0 then r else q) 0"
  proof (cases bs)
    case Nil
    with b show ?thesis by simp
  next
    case (Cons c cs)
    with b have c: "nxt d = c" "c \<noteq> 0" "dll nxt prv c (nxt c) cs q 0" by auto
    have "dll nxt' prv' c (nxt c) cs q 0"
      using c(3) assms(2) rd(1) Cons d c(1) by (subst dll_cong [of _ _ nxt _ prv]) (auto simp: nxt' prv')
    moreover have "nxt' c = nxt c" "prv' c = r"
      using rd(1) Cons c(1) d(2) nxt' [of c] prv' [of c] by (auto simp: Cons)
    ultimately show ?thesis using c Cons by simp
  qed
  moreover have "dll nxt' prv' 0 (if r = 0 then nxt d else x) as r (nxt d)"
  proof (cases as rule: rev_cases)
    case Nil
    with a show ?thesis by simp
  next
    case (snoc es e)
    with a obtain s where e: "r = e" "e \<noteq> 0" "nxt e = d" "dll nxt prv 0 x es s e" "prv e = s" by (auto simp: dll_append)
    have "dll nxt' prv' 0 x es s e"
      using e(4) assms(2) nd(1) d snoc e(1)
      by (subst dll_cong [of _ _ nxt _ prv]) (auto simp: nxt' prv')
    moreover have "nxt' e = nxt d" "prv' e = prv e"
      using nd(1) d(2) e(1) snoc nxt' [of e] prv' [of e] by auto
    ultimately show ?thesis using snoc e by (auto simp: dll_append)
  qed
  ultimately show ?thesis unfolding dll_append d(2) by blast
qed

text \<open>Linking a node in front of another, or behind the last.\<close>

lemma dll_insert:
  assumes "dll nxt prv 0 x (as @ bs) q 0" and "distinct (as @ bs)" and "a \<notin> set (as @ bs)" and "a \<noteq> 0"
    and r: "r = (if as = [] then 0 else last as)" and z: "z = (if bs = [] then 0 else hd bs)"
    and nxt': "nxt' a = z" "\<And>h. h \<in> set (as @ bs) \<Longrightarrow> nxt' h = (if h = r then a else nxt h)"
    and prv': "prv' a = r" "\<And>h. h \<in> set (as @ bs) \<Longrightarrow> prv' h = (if h = z then a else prv h)"
  shows "dll nxt' prv' 0 (if as = [] then a else x) (as @ a # bs) (if bs = [] then a else q) 0"
proof -
  from assms(1) obtain r' z' where a: "dll nxt prv 0 x as r' z'" and b: "dll nxt prv r' z' bs q 0"
    by (auto simp: dll_append)
  with r z have [simp]: "r' = r" "z' = z" by (auto dest: dll_ends)
  have rb: "r \<notin> set bs" using dll_nonnull [OF b] assms(2) r last_disjoint [of as bs] by (cases "as = []") auto
  have za: "z \<notin> set as" using dll_nonnull [OF a] assms(2) z by (cases bs) auto
  have "dll nxt' prv' 0 (if as = [] then a else x) as r a"
  proof (cases as rule: rev_cases)
    case Nil
    with r show ?thesis by simp
  next
    case (snoc es e)
    with a r obtain s where e: "r = e" "e \<noteq> 0" "nxt e = z" "dll nxt prv 0 x es s e" "prv e = s" by (auto simp: dll_append)
    have "dll nxt' prv' 0 x es s e"
      using e(4) assms(2) za snoc e(1) by (subst dll_cong [of _ _ nxt _ prv]) (auto simp: nxt' prv')
    then show ?thesis using snoc e za by (auto simp: dll_append nxt' prv')
  qed
  moreover have "dll nxt' prv' a z bs (if bs = [] then a else q) 0"
  proof (cases bs)
    case Nil
    with z show ?thesis by simp
  next
    case (Cons c cs)
    with b z have c: "z = c" "c \<noteq> 0" "dll nxt prv c (nxt c) cs q 0" by auto
    have "dll nxt' prv' c (nxt c) cs q 0"
      using c(3) assms(2) rb Cons c(1) by (subst dll_cong [of _ _ nxt _ prv]) (auto simp: nxt' prv')
    then show ?thesis using c rb Cons by (auto simp: nxt' prv')
  qed
  ultimately show ?thesis using assms(4) nxt'(1) prv'(1) by (auto simp: dll_append)
qed

section \<open>Tables in memory\<close>

record pt_bucket =
  hh_head :: ptr
  pb_count :: nat
  pb_expand_mult :: nat

text \<open>\<open>pt_key\<close> is what the \<^verbatim>\<open>key\<close> pointer of a handle points at; \<open>pt_hho\<close> is the offset of the handle in its element.\<close>

record 'k pt_table =
  pt_mem :: hh_mem
  pt_key :: "ptr \<Rightarrow> 'k"
  pt_head :: ptr
  pt_hho :: nat
  pt_tail :: ptr
  pt_buckets :: "pt_bucket list"
  pt_num_buckets :: nat
  pt_log2 :: nat
  pt_items :: nat
  pt_ideal :: nat
  pt_nonideal :: nat
  pt_ineff :: nat
  pt_noexpand :: bool

definition set_hh_next :: "ptr \<Rightarrow> ptr \<Rightarrow> hh_mem \<Rightarrow> hh_mem" where
  "set_hh_next h v m = m(h := (m h)\<lparr>hp_hh_next := v\<rparr>)"

definition set_hh_prev :: "ptr \<Rightarrow> ptr \<Rightarrow> hh_mem \<Rightarrow> hh_mem" where
  "set_hh_prev h v m = m(h := (m h)\<lparr>hp_hh_prev := v\<rparr>)"

definition empty_pbucket :: pt_bucket where
  "empty_pbucket = \<lparr>hh_head = 0, pb_count = 0, pb_expand_mult = 0\<rparr>"

definition HASH_MAKE_TABLE_ptr :: "ptr \<Rightarrow> 'k pt_table \<Rightarrow> 'k pt_table" where
  "HASH_MAKE_TABLE_ptr add s =
     s\<lparr>pt_tail := HH_FROM_ELMT (pt_hho s) add, pt_num_buckets := 32, pt_log2 := 5, pt_items := 0,
       pt_buckets := replicate 32 empty_pbucket, pt_ideal := 0, pt_nonideal := 0, pt_ineff := 0, pt_noexpand := False\<rparr>"

definition HASH_APPEND_LIST :: "ptr \<Rightarrow> 'k pt_table \<Rightarrow> 'k pt_table" where
  "HASH_APPEND_LIST add s =
     (let ah = HH_FROM_ELMT (pt_hho s) add;
          m1 = set_next ah 0 (pt_mem s);
          m2 = set_prev ah (ELMT_FROM_HH (pt_hho s) (pt_tail s)) m1;
          m3 = set_next (pt_tail s) add m2
      in s\<lparr>pt_mem := m3, pt_tail := ah\<rparr>)"

text \<open>A handle becomes the first of its bucket, in front of the old first one \<open>x\<close>.\<close>

definition link_front :: "ptr \<Rightarrow> ptr \<Rightarrow> hh_mem \<Rightarrow> hh_mem" where
  "link_front h x m =
     (let m1 = set_hh_next h x m; m2 = set_hh_prev h 0 m1
      in if x \<noteq> 0 then set_hh_prev x h m2 else m2)"

text \<open>The body of the inner loop of the expansion, that loop, and the loop over the old buckets.\<close>

definition he_move :: "nat \<Rightarrow> nat \<Rightarrow> ptr \<Rightarrow> hh_mem \<times> pt_bucket list \<times> nat \<Rightarrow> hh_mem \<times> pt_bucket list \<times> nat" where
  "he_move nb2 ideal thh st =
     (let (m, bs, nonideal) = st; i = HASH_TO_BKT (hp_hashv (m thh)) nb2; b = bs ! i; c = pb_count b + 1;
          nonideal' = (if c > ideal then nonideal + 1 else nonideal);
          em = (if c > ideal \<and> c > pb_expand_mult b * ideal then pb_expand_mult b + 1 else pb_expand_mult b)
      in (link_front thh (hh_head b) m, bs[i := \<lparr>hh_head = thh, pb_count = c, pb_expand_mult = em\<rparr>], nonideal'))"

partial_function (option) he_chain ::
  "nat \<Rightarrow> nat \<Rightarrow> ptr \<Rightarrow> hh_mem \<times> pt_bucket list \<times> nat \<Rightarrow> (hh_mem \<times> pt_bucket list \<times> nat) option"
where
  [code]: "he_chain nb2 ideal thh st =
     (if thh \<noteq> 0 then he_chain nb2 ideal (hp_hh_next (fst st thh)) (he_move nb2 ideal thh st) else Some st)"

fun he_buckets ::
  "nat \<Rightarrow> nat \<Rightarrow> pt_bucket list \<Rightarrow> hh_mem \<times> pt_bucket list \<times> nat \<Rightarrow> (hh_mem \<times> pt_bucket list \<times> nat) option"
where
  "he_buckets nb2 ideal [] st = Some st"
| "he_buckets nb2 ideal (b # bs) st = Option.bind (he_chain nb2 ideal (hh_head b) st) (he_buckets nb2 ideal bs)"

definition HASH_EXPAND_BUCKETS_ptr :: "'k pt_table \<Rightarrow> 'k pt_table option" where
  "HASH_EXPAND_BUCKETS_ptr s =
     (let nb2 = pt_num_buckets s * 2;
          ideal = drop_bit (pt_log2 s + 1) (pt_items s) + (if pt_items s AND (nb2 - 1) \<noteq> 0 then 1 else 0)
      in map_option (\<lambda>(m, bs, nonideal).
           let ineff = (if nonideal > drop_bit 1 (pt_items s) then pt_ineff s + 1 else 0)
           in s\<lparr>pt_mem := m, pt_buckets := bs, pt_num_buckets := nb2, pt_log2 := pt_log2 s + 1, pt_ideal := ideal,
                pt_nonideal := nonideal, pt_ineff := ineff, pt_noexpand := (pt_noexpand s \<or> ineff > 1)\<rparr>)
         (he_buckets nb2 ideal (pt_buckets s) (pt_mem s, replicate nb2 empty_pbucket, 0)))"

definition HASH_ADD_TO_BKT_ptr :: "nat \<Rightarrow> ptr \<Rightarrow> 'k pt_table \<Rightarrow> 'k pt_table option" where
  "HASH_ADD_TO_BKT_ptr i ah s =
     (let b = pt_buckets s ! i; b' = b\<lparr>pb_count := pb_count b + 1, hh_head := ah\<rparr>;
          s' = s\<lparr>pt_mem := link_front ah (hh_head b) (pt_mem s), pt_buckets := (pt_buckets s)[i := b']\<rparr>
      in if pb_count b' \<ge> (pb_expand_mult b' + 1) * 10 \<and> \<not> pt_noexpand s'
         then HASH_EXPAND_BUCKETS_ptr s' else Some s')"

definition HASH_ADD_TO_TABLE_ptr :: "u32 \<Rightarrow> ptr \<Rightarrow> 'k pt_table \<Rightarrow> 'k pt_table option" where
  "HASH_ADD_TO_TABLE_ptr hashv add s =
     (let s' = s\<lparr>pt_items := pt_items s + 1\<rparr>
      in HASH_ADD_TO_BKT_ptr (HASH_TO_BKT hashv (pt_num_buckets s')) (HH_FROM_ELMT (pt_hho s) add) s')"

text \<open>The fields of the new handle that both insertions fill in first.\<close>

definition init_handle :: "'k \<Rightarrow> u32 \<Rightarrow> ptr \<Rightarrow> 'k pt_table \<Rightarrow> 'k pt_table" where
  "init_handle k hashv add s =
     (let ah = HH_FROM_ELMT (pt_hho s) add
      in s\<lparr>pt_mem := (pt_mem s)(ah := (pt_mem s ah)\<lparr>hp_hashv := hashv\<rparr>), pt_key := (pt_key s)(ah := k)\<rparr>)"

definition first_handle :: "ptr \<Rightarrow> 'k pt_table \<Rightarrow> 'k pt_table" where
  "first_handle add s =
     (let ah = HH_FROM_ELMT (pt_hho s) add
      in (HASH_MAKE_TABLE_ptr add (s\<lparr>pt_mem := set_prev ah 0 (set_next ah 0 (pt_mem s))\<rparr>))\<lparr>pt_head := add\<rparr>)"

definition HASH_ADD_KEYPTR_BYHASHVALUE :: "'k \<Rightarrow> u32 \<Rightarrow> ptr \<Rightarrow> 'k pt_table \<Rightarrow> 'k pt_table option" where
  "HASH_ADD_KEYPTR_BYHASHVALUE k hashv add s =
     (let s1 = init_handle k hashv add s;
          s2 = (if pt_head s1 = 0 then first_handle add s1 else HASH_APPEND_LIST add s1)
      in HASH_ADD_TO_TABLE_ptr hashv add s2)"

text \<open>Insertion in order: the first element that compares greater than the new one, or \<^verbatim>\<open>NULL\<close>.\<close>

partial_function (option) HASH_AKBI_INNER_LOOP :: "(ptr \<Rightarrow> ptr \<Rightarrow> int) \<Rightarrow> nat \<Rightarrow> hh_mem \<Rightarrow> ptr \<Rightarrow> ptr \<Rightarrow> ptr option" where
  [code]: "HASH_AKBI_INNER_LOOP cmpfcn hho m add iter =
     (if cmpfcn iter add > 0 then Some iter
      else if hp_next (m (HH_FROM_ELMT hho iter)) = 0 then Some 0
      else HASH_AKBI_INNER_LOOP cmpfcn hho m add (hp_next (m (HH_FROM_ELMT hho iter))))"

definition link_before :: "ptr \<Rightarrow> ptr \<Rightarrow> 'k pt_table \<Rightarrow> 'k pt_table" where
  "link_before add iter s =
     (let hho = pt_hho s; ah = HH_FROM_ELMT hho add; p = hp_prev (pt_mem s (HH_FROM_ELMT hho iter));
          m1 = set_prev ah p (set_next ah iter (pt_mem s));
          m2 = (if p \<noteq> 0 then set_next (HH_FROM_ELMT hho p) add m1 else m1);
          m3 = set_prev (HH_FROM_ELMT hho iter) add m2
      in s\<lparr>pt_mem := m3, pt_head := (if p \<noteq> 0 then pt_head s else add)\<rparr>)"

definition HASH_ADD_KEYPTR_BYHASHVALUE_INORDER ::
  "(ptr \<Rightarrow> ptr \<Rightarrow> int) \<Rightarrow> 'k \<Rightarrow> u32 \<Rightarrow> ptr \<Rightarrow> 'k pt_table \<Rightarrow> 'k pt_table option" where
  "HASH_ADD_KEYPTR_BYHASHVALUE_INORDER cmpfcn k hashv add s =
     (let s1 = init_handle k hashv add s in
      if pt_head s1 = 0 then HASH_ADD_TO_TABLE_ptr hashv add (first_handle add s1)
      else Option.bind (HASH_AKBI_INNER_LOOP cmpfcn (pt_hho s1) (pt_mem s1) add (pt_head s1)) (\<lambda>iter.
        HASH_ADD_TO_TABLE_ptr hashv add
          (if iter \<noteq> 0 then link_before add iter s1 else HASH_APPEND_LIST add s1)))"

partial_function (option) find_loop :: "nat \<Rightarrow> hh_mem \<Rightarrow> (ptr \<Rightarrow> 'k) \<Rightarrow> 'k \<Rightarrow> u32 \<Rightarrow> ptr \<Rightarrow> ptr option" where
  [code]: "find_loop hho m key k hashv out =
     (if out \<noteq> 0
      then if hp_hashv (m (HH_FROM_ELMT hho out)) = hashv \<and> key (HH_FROM_ELMT hho out) = k then Some out
           else find_loop hho m key k hashv (elmt_or_null hho (hp_hh_next (m (HH_FROM_ELMT hho out))))
      else Some 0)"

definition HASH_FIND_BYHASHVALUE :: "'k \<Rightarrow> u32 \<Rightarrow> 'k pt_table \<Rightarrow> ptr option" where
  "HASH_FIND_BYHASHVALUE k hashv s =
     (if pt_head s \<noteq> 0
      then find_loop (pt_hho s) (pt_mem s) (pt_key s) k hashv
             (elmt_or_null (pt_hho s) (hh_head (pt_buckets s ! HASH_TO_BKT hashv (pt_num_buckets s))))
      else Some 0)"

definition HASH_DEL_IN_BKT_ptr :: "nat \<Rightarrow> ptr \<Rightarrow> 'k pt_table \<Rightarrow> 'k pt_table" where
  "HASH_DEL_IN_BKT_ptr i dh s =
     (let b = pt_buckets s ! i; m = pt_mem s;
          b' = b\<lparr>pb_count := pb_count b - 1, hh_head := (if hh_head b = dh then hp_hh_next (m dh) else hh_head b)\<rparr>;
          m1 = (if hp_hh_prev (m dh) \<noteq> 0 then set_hh_next (hp_hh_prev (m dh)) (hp_hh_next (m dh)) m else m);
          m2 = (if hp_hh_next (m1 dh) \<noteq> 0 then set_hh_prev (hp_hh_next (m1 dh)) (hp_hh_prev (m1 dh)) m1 else m1)
      in s\<lparr>pt_mem := m2, pt_buckets := (pt_buckets s)[i := b']\<rparr>)"

definition unlink_app :: "ptr \<Rightarrow> 'k pt_table \<Rightarrow> 'k pt_table" where
  "unlink_app dh s =
     (let hho = pt_hho s; m = pt_mem s;
          tail' = (if dh = pt_tail s then HH_FROM_ELMT hho (hp_prev (m dh)) else pt_tail s);
          m1 = (if hp_prev (m dh) \<noteq> 0 then set_next (HH_FROM_ELMT hho (hp_prev (m dh))) (hp_next (m dh)) m else m);
          head' = (if hp_prev (m dh) \<noteq> 0 then pt_head s else hp_next (m dh));
          m2 = (if hp_next (m1 dh) \<noteq> 0 then set_prev (HH_FROM_ELMT hho (hp_next (m1 dh))) (hp_prev (m1 dh)) m1 else m1)
      in s\<lparr>pt_mem := m2, pt_head := head', pt_tail := tail'\<rparr>)"

definition HASH_DELETE_HH_ptr :: "ptr \<Rightarrow> 'k pt_table \<Rightarrow> 'k pt_table" where
  "HASH_DELETE_HH_ptr dh s =
     (if hp_prev (pt_mem s dh) = 0 \<and> hp_next (pt_mem s dh) = 0
      then s\<lparr>pt_head := 0, pt_buckets := []\<rparr>
      else let s1 = unlink_app dh s;
               s2 = HASH_DEL_IN_BKT_ptr (HASH_TO_BKT (hp_hashv (pt_mem s1 dh)) (pt_num_buckets s1)) dh s1
           in s2\<lparr>pt_items := pt_items s2 - 1\<rparr>)"

section \<open>Memory and bucket lists\<close>

abbreviation bdll :: "hh_mem \<Rightarrow> ptr \<Rightarrow> ptr \<Rightarrow> ptr list \<Rightarrow> ptr \<Rightarrow> ptr \<Rightarrow> bool" where
  "bdll m \<equiv> dll (\<lambda>h. hp_hh_next (m h)) (\<lambda>h. hp_hh_prev (m h))"

abbreviation adll :: "nat \<Rightarrow> hh_mem \<Rightarrow> ptr \<Rightarrow> ptr \<Rightarrow> ptr list \<Rightarrow> ptr \<Rightarrow> ptr \<Rightarrow> bool" where
  "adll hho m \<equiv> dll (\<lambda>e. hp_next (m (HH_FROM_ELMT hho e))) (\<lambda>e. hp_prev (m (HH_FROM_ELMT hho e)))"

definition handle_of :: "nat \<Rightarrow> ('k, ptr) ut_handle \<Rightarrow> ptr" where
  "handle_of hho h = HH_FROM_ELMT hho (hh_elt h)"

definition bkt_rel :: "nat \<Rightarrow> hh_mem \<Rightarrow> pt_bucket \<Rightarrow> ('k, ptr) ut_bucket \<Rightarrow> bool" where
  "bkt_rel hho m b B \<longleftrightarrow> (\<exists>q. bdll m 0 (hh_head b) (map (handle_of hho) (bk_chain B)) q 0) \<and>
     pb_count b = bk_count B \<and> pb_expand_mult b = bk_expand_mult B"

text \<open>The chains of a table, with every element in one place of one chain.\<close>

definition chains_wf :: "nat \<Rightarrow> ('k, ptr) ut_handle set \<Rightarrow> ('k, ptr) ut_bucket list \<Rightarrow> bool" where
  "chains_wf nb H BS \<longleftrightarrow> 0 < nb \<and> chains_ok nb H BS \<and> inj_on hh_elt H \<and>
     (\<forall>B \<in> set BS. distinct (bk_chain B) \<and> bk_count B = length (bk_chain B))"

lemma handle_of_0: "handle_of 0 = hh_elt"
  by (simp add: fun_eq_iff handle_of_def HH_FROM_ELMT_def)

lemma handle_of_eq: "handle_of hho h = handle_of hho h' \<longleftrightarrow> hh_elt h = hh_elt h'"
  by (simp add: handle_of_def HH_FROM_ELMT_def)

lemma chains_wf_set:
  "chains_wf nb H BS \<Longrightarrow> i < nb \<Longrightarrow> set (bk_chain (BS ! i)) = {h \<in> H. HASH_TO_BKT (hh_hashv h) nb = i}"
  and chains_wf_length: "chains_wf nb H BS \<Longrightarrow> length BS = nb"
  by (auto simp: chains_wf_def chains_ok_def)

lemma chains_wf_distinct:
  assumes "chains_wf nb H BS" and "i < nb"
  shows "distinct (map (handle_of hho) (bk_chain (BS ! i)))"
proof -
  have "distinct (bk_chain (BS ! i))" "set (bk_chain (BS ! i)) \<subseteq> H" "inj_on hh_elt H"
    using assms chains_wf_length [OF assms(1)] chains_wf_set [OF assms] by (auto simp: chains_wf_def)
  then show ?thesis
    by (auto simp: distinct_map inj_on_def handle_of_eq)
qed

lemma chains_wf_disjoint:
  assumes "chains_wf nb H BS" and "i < nb" and "j < nb" and "i \<noteq> j"
    and "h \<in> set (bk_chain (BS ! i))" and "h' \<in> set (bk_chain (BS ! j))"
  shows "handle_of hho h \<noteq> handle_of hho h'"
  using assms chains_wf_set [OF assms(1,2)] chains_wf_set [OF assms(1,3)]
  by (auto simp: handle_of_eq chains_wf_def inj_on_def)

lemma link_front_sel [simp]:
  "h \<noteq> x \<Longrightarrow> hp_hh_next (link_front h x m a) = (if a = h then x else hp_hh_next (m a))"
  "h \<noteq> x \<Longrightarrow> hp_hh_prev (link_front h x m a) = (if x \<noteq> 0 \<and> a = x then h else if a = h then 0 else hp_hh_prev (m a))"
  "hp_next (link_front h x m a) = hp_next (m a)" "hp_prev (link_front h x m a) = hp_prev (m a)"
  "hp_hashv (link_front h x m a) = hp_hashv (m a)"
  by (auto simp: link_front_def set_hh_next_def set_hh_prev_def Let_def)

lemma bkt_rel_cong:
  assumes "bkt_rel hho m b B"
    and "\<And>h. h \<in> set (bk_chain B) \<Longrightarrow> hp_hh_next (m' (handle_of hho h)) = hp_hh_next (m (handle_of hho h)) \<and>
      hp_hh_prev (m' (handle_of hho h)) = hp_hh_prev (m (handle_of hho h))"
  shows "bkt_rel hho m' b B"
proof -
  have "bdll m' 0 (hh_head b) (map (handle_of hho) (bk_chain B)) q 0 =
      bdll m 0 (hh_head b) (map (handle_of hho) (bk_chain B)) q 0" for q
    by (rule dll_cong) (use assms(2) in auto)
  then show ?thesis using assms(1) by (simp add: bkt_rel_def)
qed

lemma bkt_rel_head:
  "bkt_rel hho m b B \<Longrightarrow> hh_head b \<noteq> 0 \<Longrightarrow> bk_chain B \<noteq> [] \<and> hh_head b = handle_of hho (hd (bk_chain B))"
  by (auto simp: bkt_rel_def dest!: dll_ends split: if_splits) (simp add: hd_map)

lemma link_front_bkts:
  assumes bks: "list_all2 (bkt_rel hho m) bs BS" and wf: "chains_wf nb H BS" and new: "hh_elt h \<notin> hh_elt ` H"
    and i: "i < nb" and nz: "hh_elt h \<noteq> 0"
    and b': "hh_head b' = handle_of hho h" "pb_count b' = bk_count B'" "pb_expand_mult b' = bk_expand_mult B'"
      "bk_chain B' = h # bk_chain (BS ! i)"
  shows "list_all2 (bkt_rel hho (link_front (handle_of hho h) (hh_head (bs ! i)) m)) (bs[i := b']) (BS[i := B'])"
proof (rule list_all2_all_nthI)
  let ?x = "hh_head (bs ! i)" and ?ph = "handle_of hho h"
  let ?m = "link_front ?ph ?x m"
  have len: "length bs = nb" "length BS = nb" using chains_wf_length [OF wf] list_all2_lengthD [OF bks] by simp_all
  show "length (bs[i := b']) = length (BS[i := B'])" using len by simp
  have rel: "bkt_rel hho m (bs ! j) (BS ! j)" if "j < nb" for j using bks that len by (simp add: list_all2_conv_all_nth)
  have sub: "set (bk_chain (BS ! j)) \<subseteq> H" if "j < nb" for j using chains_wf_set [OF wf that] by auto
  have fresh: "handle_of hho h' \<noteq> ?ph" if "j < nb" "h' \<in> set (bk_chain (BS ! j))" for j h'
    using new sub [OF that(1)] that(2) unfolding handle_of_eq by (metis image_eqI subsetD)
  have x: "?x \<noteq> 0 \<Longrightarrow> bk_chain (BS ! i) \<noteq> [] \<and> ?x = handle_of hho (hd (bk_chain (BS ! i)))"
    using bkt_rel_head [OF rel [OF i]] by simp
  have xph: "?ph \<noteq> ?x"
    using x fresh [OF i, of "hd (bk_chain (BS ! i))"] nz by (cases "?x = 0") (auto simp: handle_of_def HH_FROM_ELMT_def)
  fix j assume "j < length (bs[i := b'])"
  then have j: "j < nb" using len by simp
  show "bkt_rel hho ?m (bs[i := b'] ! j) (BS[i := B'] ! j)"
  proof (cases "j = i")
    case True
    from rel [OF i] obtain q where q: "bdll m 0 ?x (map (handle_of hho) (bk_chain (BS ! i))) q 0" by (auto simp: bkt_rel_def)
    have new': "?ph \<notin> set (map (handle_of hho) (bk_chain (BS ! i)))" "?ph \<noteq> 0"
      using fresh [OF i] nz by (force, simp add: handle_of_def HH_FROM_ELMT_def)
    have "bdll ?m 0 ?ph (?ph # map (handle_of hho) (bk_chain (BS ! i)))
        (if map (handle_of hho) (bk_chain (BS ! i)) = [] then ?ph else q) 0"
      using q chains_wf_distinct [OF wf i] new' by (rule dll_push)
        (use new'(1) xph dll_nonnull [OF q] in \<open>auto simp del: set_map\<close>)
    then show ?thesis using True b' i len by (auto simp: bkt_rel_def)
  next
    case False
    have "bkt_rel hho ?m (bs ! j) (BS ! j)"
    proof (rule bkt_rel_cong [OF rel [OF j]])
      fix h' assume h': "h' \<in> set (bk_chain (BS ! j))"
      have "?x \<noteq> 0 \<Longrightarrow> handle_of hho h' \<noteq> ?x"
        using x chains_wf_disjoint [OF wf j i False h', of "hd (bk_chain (BS ! i))"] by auto
      with fresh [OF j h'] xph show "hp_hh_next (?m (handle_of hho h')) = hp_hh_next (m (handle_of hho h')) \<and>
          hp_hh_prev (?m (handle_of hho h')) = hp_hh_prev (m (handle_of hho h'))" by auto
    qed
    then show ?thesis using False by simp
  qed
qed

lemma chains_wf_push:
  assumes wf: "chains_wf nb H BS" and new: "hh_elt h \<notin> hh_elt ` H" and i: "i = HASH_TO_BKT (hh_hashv h) nb"
    and B': "bk_chain B' = h # bk_chain (BS ! i)" "bk_count B' = Suc (bk_count (BS ! i))"
  shows "chains_wf nb (insert h H) (BS[i := B'])"
proof -
  have pos: "0 < nb" and ch: "chains_ok nb H BS" and inj: "inj_on hh_elt H"
    and B: "\<forall>B \<in> set BS. distinct (bk_chain B) \<and> bk_count B = length (bk_chain B)"
    using wf by (simp_all add: chains_wf_def)
  have len: "i < nb" "length BS = nb" using HASH_TO_BKT_less [OF pos] i chains_wf_length [OF wf] by auto
  have "chains_ok nb (insert h H) (BS[i := B'])"
    using ch pos i by (rule chains_ok_insert) (simp add: B')
  moreover have "inj_on hh_elt (insert h H)" using inj new by auto
  moreover have "distinct (bk_chain B') \<and> bk_count B' = length (bk_chain B')"
  proof -
    have "h \<notin> set (bk_chain (BS ! i))" using chains_wf_set [OF wf len(1)] new by auto
    moreover have "BS ! i \<in> set BS" using len by simp
    ultimately show ?thesis using B B' by auto
  qed
  ultimately show ?thesis
    using pos B set_update_subset_insert [of BS i B'] by (auto simp: chains_wf_def)
qed

definition app_same :: "hh_mem \<Rightarrow> hh_mem \<Rightarrow> bool" where
  "app_same m m' \<longleftrightarrow> (\<forall>a. hp_next (m' a) = hp_next (m a) \<and> hp_prev (m' a) = hp_prev (m a) \<and> hp_hashv (m' a) = hp_hashv (m a))"

lemma app_same_link_front [simp]: "app_same m (link_front h x m)"
  by (simp add: app_same_def)

lemma app_same_refl [simp]: "app_same m m"
  and app_same_trans: "app_same m m' \<Longrightarrow> app_same m' m'' \<Longrightarrow> app_same m m''"
  by (simp_all add: app_same_def)

lemma he_move_ok:
  assumes bks: "list_all2 (bkt_rel hho m) bs BS" and wf: "chains_wf nb H BS" and new: "hh_elt h \<notin> hh_elt ` H"
    and nz: "hh_elt h \<noteq> 0" and hv: "hp_hashv (m (handle_of hho h)) = hh_hashv h"
    and mv: "he_move nb ideal (handle_of hho h) (m, bs, n) = (m', bs', n')"
    and rh: "rehash_step nb ideal h (BS, n) = (BS', N')"
  shows "list_all2 (bkt_rel hho m') bs' BS' \<and> n' = N' \<and> chains_wf nb (insert h H) BS' \<and> app_same m m' \<and>
    (\<forall>a. a \<notin> handle_of hho ` insert h H \<longrightarrow> m' a = m a)"
proof -
  let ?i = "HASH_TO_BKT (hh_hashv h) nb"
  have pos: "0 < nb" using wf by (simp add: chains_wf_def)
  have i: "?i < nb" by (rule HASH_TO_BKT_less [OF pos])
  have len: "length bs = nb" "length BS = nb" using chains_wf_length [OF wf] list_all2_lengthD [OF bks] by simp_all
  have rel: "bkt_rel hho m (bs ! ?i) (BS ! ?i)" using bks i len by (simp add: list_all2_conv_all_nth)
  then have cnt: "pb_count (bs ! ?i) = bk_count (BS ! ?i)" "pb_expand_mult (bs ! ?i) = bk_expand_mult (BS ! ?i)"
    by (simp_all add: bkt_rel_def)
  let ?m = "link_front (handle_of hho h) (hh_head (bs ! ?i)) m"
  have m': "m' = ?m" "n' = N'" using mv rh hv cnt by (auto simp: he_move_def rehash_step_def Let_def)
  have "list_all2 (bkt_rel hho m') bs' BS'"
    using mv rh hv cnt unfolding m'(1) he_move_def rehash_step_def
    by (auto simp: Let_def intro!: link_front_bkts [OF bks wf new i nz])
  moreover have "chains_wf nb (insert h H) BS'"
    using rh by (auto simp: rehash_step_def Let_def intro!: chains_wf_push [OF wf new])
  moreover have "m' a = m a" if "a \<notin> handle_of hho ` insert h H" for a
  proof -
    have "hh_head (bs ! ?i) \<noteq> 0 \<Longrightarrow> hh_head (bs ! ?i) \<in> handle_of hho ` H"
      using bkt_rel_head [OF rel] chains_wf_set [OF wf i] hd_in_set [of "bk_chain (BS ! ?i)"] by auto
    with that show ?thesis by (auto simp: m' link_front_def set_hh_next_def set_hh_prev_def Let_def)
  qed
  ultimately show ?thesis using m' by simp
qed

fun spath :: "hh_mem \<Rightarrow> ptr \<Rightarrow> ptr list \<Rightarrow> bool" where
  "spath m x [] \<longleftrightarrow> x = 0"
| "spath m x (h # hs) \<longleftrightarrow> x = h \<and> h \<noteq> 0 \<and> spath m (hp_hh_next (m h)) hs"

lemma spath_cong: "(\<And>h. h \<in> set hs \<Longrightarrow> m' h = m h) \<Longrightarrow> spath m' x hs \<longleftrightarrow> spath m x hs"
  by (induction hs arbitrary: x) auto

lemma dll_spath: "bdll m p x hs q 0 \<Longrightarrow> spath m x hs"
  by (induction hs arbitrary: p x) auto

lemma he_chain_ok:
  assumes "spath m x (map (handle_of hho) hs)" and "list_all2 (bkt_rel hho m) bs BS" and "chains_wf nb H BS"
    and "distinct (map hh_elt hs)" and "hh_elt ` set hs \<inter> hh_elt ` H = {}"
    and "\<forall>h \<in> set hs. hh_elt h \<noteq> 0 \<and> hp_hashv (m (handle_of hho h)) = hh_hashv h"
  shows "\<exists>m' bs'. he_chain nb ideal x (m, bs, n) = Some (m', bs', snd (fold (rehash_step nb ideal) hs (BS, n))) \<and>
    list_all2 (bkt_rel hho m') bs' (fst (fold (rehash_step nb ideal) hs (BS, n))) \<and>
    chains_wf nb (set hs \<union> H) (fst (fold (rehash_step nb ideal) hs (BS, n))) \<and> app_same m m' \<and>
    (\<forall>a. a \<notin> handle_of hho ` (set hs \<union> H) \<longrightarrow> m' a = m a)"
  using assms
proof (induction hs arbitrary: x m bs BS n H)
  case Nil
  then show ?case by (subst he_chain.simps) auto
next
  case (Cons h hs)
  let ?ph = "handle_of hho h"
  obtain m1 bs1 n1 where mv: "he_move nb ideal ?ph (m, bs, n) = (m1, bs1, n1)" by (metis prod.exhaust)
  obtain BS1 N1 where rh: "rehash_step nb ideal h (BS, n) = (BS1, N1)" by fastforce
  have "hh_elt h \<notin> hh_elt ` H" "hh_elt h \<noteq> 0" "hp_hashv (m ?ph) = hh_hashv h" using Cons.prems by auto
  from he_move_ok [OF Cons.prems(2,3) this mv rh]
  have st: "list_all2 (bkt_rel hho m1) bs1 BS1" "n1 = N1" "chains_wf nb (insert h H) BS1" "app_same m m1"
    "\<And>a. a \<notin> handle_of hho ` insert h H \<Longrightarrow> m1 a = m a" by simp_all
  have x: "x = ?ph" "?ph \<noteq> 0" "spath m (hp_hh_next (m ?ph)) (map (handle_of hho) hs)" using Cons.prems(1) by simp_all
  have "m1 a = m a" if "a \<in> set (map (handle_of hho) hs)" for a
  proof (rule st(5))
    from that obtain h' where "h' \<in> set hs" "a = handle_of hho h'" by auto
    moreover have "hh_elt h' \<in> hh_elt ` set hs" using \<open>h' \<in> set hs\<close> by simp
    then have "hh_elt h' \<noteq> hh_elt h" "hh_elt h' \<notin> hh_elt ` H"
      using Cons.prems(4,5) by (metis distinct.simps(2) list.simps(9) set_map, auto)
    ultimately show "a \<notin> handle_of hho ` insert h H" by (auto simp: handle_of_eq)
  qed
  then have sp: "spath m1 (hp_hh_next (m ?ph)) (map (handle_of hho) hs)"
    using x(3) spath_cong [of "map (handle_of hho) hs" m1 m] by simp
  have rest: "distinct (map hh_elt hs)" "hh_elt ` set hs \<inter> hh_elt ` insert h H = {}"
    "\<forall>h \<in> set hs. hh_elt h \<noteq> 0 \<and> hp_hashv (m1 (handle_of hho h)) = hh_hashv h"
    using Cons.prems st(4) by (auto simp: app_same_def)
  from Cons.IH [OF sp st(1,3) rest, of n1] obtain m' bs' where ih: "he_chain nb ideal (hp_hh_next (m ?ph)) (m1, bs1, n1) =
        Some (m', bs', snd (fold (rehash_step nb ideal) hs (BS1, n1)))"
      "list_all2 (bkt_rel hho m') bs' (fst (fold (rehash_step nb ideal) hs (BS1, n1)))"
      "chains_wf nb (set hs \<union> insert h H) (fst (fold (rehash_step nb ideal) hs (BS1, n1)))" "app_same m1 m'"
      "\<forall>a. a \<notin> handle_of hho ` (set hs \<union> insert h H) \<longrightarrow> m' a = m1 a"
    by (elim exE conjE)
  have "he_chain nb ideal x (m, bs, n) = he_chain nb ideal (hp_hh_next (m ?ph)) (m1, bs1, n1)"
    using x mv by (subst he_chain.simps) simp
  then have "he_chain nb ideal x (m, bs, n) = Some (m', bs', snd (fold (rehash_step nb ideal) (h # hs) (BS, n)))"
    using ih(1) st(2) rh by simp
  moreover have "app_same m m'" using st(4) ih(4) by (rule app_same_trans)
  moreover have "\<forall>a. a \<notin> handle_of hho ` (set (h # hs) \<union> H) \<longrightarrow> m' a = m a" using ih(5) st(5) by (simp add: image_Un)
  ultimately show ?case using ih(2,3) st(2) rh by (intro exI [of _ m'] exI [of _ bs']) simp
qed

lemma he_buckets_ok:
  assumes "list_all2 (\<lambda>b B. spath m (hh_head b) (map (handle_of hho) (bk_chain B))) obs OBS"
    and "list_all2 (bkt_rel hho m) bs BS" and "chains_wf nb H BS"
    and "distinct (concat (map (\<lambda>B. map hh_elt (bk_chain B)) OBS))"
    and "\<forall>B \<in> set OBS. hh_elt ` set (bk_chain B) \<inter> hh_elt ` H = {}"
    and "\<forall>B \<in> set OBS. \<forall>h \<in> set (bk_chain B). hh_elt h \<noteq> 0 \<and> hp_hashv (m (handle_of hho h)) = hh_hashv h"
  shows "\<exists>m' bs'. he_buckets nb ideal obs (m, bs, n) =
      Some (m', bs', snd (fold (\<lambda>B. fold (rehash_step nb ideal) (bk_chain B)) OBS (BS, n))) \<and>
    list_all2 (bkt_rel hho m') bs' (fst (fold (\<lambda>B. fold (rehash_step nb ideal) (bk_chain B)) OBS (BS, n))) \<and>
    chains_wf nb ((\<Union>B \<in> set OBS. set (bk_chain B)) \<union> H)
      (fst (fold (\<lambda>B. fold (rehash_step nb ideal) (bk_chain B)) OBS (BS, n))) \<and> app_same m m' \<and>
    (\<forall>a. a \<notin> handle_of hho ` ((\<Union>B \<in> set OBS. set (bk_chain B)) \<union> H) \<longrightarrow> m' a = m a)"
  using assms
proof (induction OBS arbitrary: obs m bs BS n H rule: list.induct)
  case Nil
  then have "obs = []" by simp
  with Nil show ?case by (intro exI [of _ m] exI [of _ bs]) simp
next
  case (Cons B OBS)
  then obtain b obs' where obs: "obs = b # obs'" and b: "spath m (hh_head b) (map (handle_of hho) (bk_chain B))"
    and rest: "list_all2 (\<lambda>b B. spath m (hh_head b) (map (handle_of hho) (bk_chain B))) obs' OBS"
    by (auto simp: list_all2_Cons2)
  have B: "distinct (map hh_elt (bk_chain B))" "hh_elt ` set (bk_chain B) \<inter> hh_elt ` H = {}"
    "\<forall>h \<in> set (bk_chain B). hh_elt h \<noteq> 0 \<and> hp_hashv (m (handle_of hho h)) = hh_hashv h"
    using Cons.prems by simp_all
  let ?R = "fold (rehash_step nb ideal) (bk_chain B) (BS, n)"
  obtain m1 bs1 where st: "he_chain nb ideal (hh_head b) (m, bs, n) = Some (m1, bs1, snd ?R)"
    "list_all2 (bkt_rel hho m1) bs1 (fst ?R)" "chains_wf nb (set (bk_chain B) \<union> H) (fst ?R)" "app_same m m1"
    "\<forall>a. a \<notin> handle_of hho ` (set (bk_chain B) \<union> H) \<longrightarrow> m1 a = m a"
    using he_chain_ok [OF b Cons.prems(2,3) B, of ideal n] by (elim exE conjE)
  have later: "hh_elt ` set (bk_chain B) \<inter> (\<Union>B' \<in> set OBS. hh_elt ` set (bk_chain B')) = {}"
    using Cons.prems(4) by simp
  have dis: "hh_elt ` set (bk_chain B') \<inter> hh_elt ` (set (bk_chain B) \<union> H) = {}" if "B' \<in> set OBS" for B'
  proof -
    have "hh_elt ` set (bk_chain B') \<inter> hh_elt ` set (bk_chain B) = {}"
      using later UN_upper [OF that, of "\<lambda>B'. hh_elt ` set (bk_chain B')"] by (meson disjoint_iff subsetD)
    then show ?thesis using Cons.prems(5) that by (simp add: image_Un Int_Un_distrib)
  qed
  have keep: "m1 (handle_of hho h) = m (handle_of hho h)" if "B' \<in> set OBS" "h \<in> set (bk_chain B')" for B' h
  proof -
    have "hh_elt h \<notin> hh_elt ` (set (bk_chain B) \<union> H)" using dis [OF that(1)] that(2) by blast
    then have "handle_of hho h \<notin> handle_of hho ` (set (bk_chain B) \<union> H)" by (auto simp: handle_of_eq)
    with st(5) show ?thesis by simp
  qed
  have "list_all2 (\<lambda>b B. spath m1 (hh_head b) (map (handle_of hho) (bk_chain B))) obs' OBS"
    using rest
  proof (rule list.rel_mono_strong)
    fix b' B' assume "B' \<in> set OBS" and "spath m (hh_head b') (map (handle_of hho) (bk_chain B'))"
    then show "spath m1 (hh_head b') (map (handle_of hho) (bk_chain B'))"
      using spath_cong [of "map (handle_of hho) (bk_chain B')" m1 m] keep by auto
  qed
  moreover have "distinct (concat (map (\<lambda>B. map hh_elt (bk_chain B)) OBS))" using Cons.prems(4) by simp
  moreover have "\<forall>B' \<in> set OBS. hh_elt ` set (bk_chain B') \<inter> hh_elt ` (set (bk_chain B) \<union> H) = {}" using dis by blast
  moreover have "\<forall>B' \<in> set OBS. \<forall>h \<in> set (bk_chain B'). hh_elt h \<noteq> 0 \<and> hp_hashv (m1 (handle_of hho h)) = hh_hashv h"
    using Cons.prems(6) keep by simp
  ultimately obtain m' bs' where ih: "he_buckets nb ideal obs' (m1, bs1, snd ?R) =
      Some (m', bs', snd (fold (\<lambda>B. fold (rehash_step nb ideal) (bk_chain B)) OBS (fst ?R, snd ?R)))"
    "list_all2 (bkt_rel hho m') bs' (fst (fold (\<lambda>B. fold (rehash_step nb ideal) (bk_chain B)) OBS (fst ?R, snd ?R)))"
    "chains_wf nb ((\<Union>B \<in> set OBS. set (bk_chain B)) \<union> (set (bk_chain B) \<union> H))
      (fst (fold (\<lambda>B. fold (rehash_step nb ideal) (bk_chain B)) OBS (fst ?R, snd ?R)))" "app_same m1 m'"
    "\<forall>a. a \<notin> handle_of hho ` ((\<Union>B \<in> set OBS. set (bk_chain B)) \<union> (set (bk_chain B) \<union> H)) \<longrightarrow> m' a = m1 a"
    using Cons.IH [OF _ st(2,3), of obs' "snd ?R"] by (elim meta_impE exE conjE)
  have "app_same m m'" using st(4) ih(4) by (rule app_same_trans)
  moreover have "\<forall>a. a \<notin> handle_of hho ` ((\<Union>B \<in> set (B # OBS). set (bk_chain B)) \<union> H) \<longrightarrow> m' a = m a"
    using ih(5) st(5) by (simp add: image_Un)
  ultimately show ?case
    using ih(1-3) st(1) obs by (intro exI [of _ m'] exI [of _ bs']) (simp add: Un_ac)
qed

lemma distinct_concat_nth:
  "(\<And>i. i < length xss \<Longrightarrow> distinct (xss ! i)) \<Longrightarrow>
    (\<And>i j. i < length xss \<Longrightarrow> j < length xss \<Longrightarrow> i \<noteq> j \<Longrightarrow> set (xss ! i) \<inter> set (xss ! j) = {}) \<Longrightarrow> distinct (concat xss)"
proof (induction xss)
  case (Cons xs xss)
  have "distinct (concat xss)"
  proof (rule Cons.IH)
    show "distinct (xss ! i)" if "i < length xss" for i using Cons.prems(1) [of "Suc i"] that by simp
    show "set (xss ! i) \<inter> set (xss ! j) = {}" if "i < length xss" "j < length xss" "i \<noteq> j" for i j
      using Cons.prems(2) [of "Suc i" "Suc j"] that by simp
  qed
  moreover have "set xs \<inter> set ys = {}" if "ys \<in> set xss" for ys
    using that Cons.prems(2) [of 0 "Suc _"] by (auto simp: in_set_conv_nth)
  ultimately show ?case using Cons.prems(1) [of 0] by auto
qed simp

lemma chains_wf_concat:
  assumes "chains_wf nb H BS"
  shows "distinct (concat (map (\<lambda>B. map hh_elt (bk_chain B)) BS))"
proof (rule distinct_concat_nth)
  have len: "length BS = nb" by (rule chains_wf_length [OF assms])
  have elt: "map hh_elt (bk_chain B) = map (handle_of 0) (bk_chain B)" for B :: "('a, ptr) ut_bucket"
    by (simp add: handle_of_def HH_FROM_ELMT_def)
  show "distinct (map (\<lambda>B. map hh_elt (bk_chain B)) BS ! i)" if "i < length (map (\<lambda>B. map hh_elt (bk_chain B)) BS)" for i
    using chains_wf_distinct [OF assms, of i 0] that len by (simp add: elt)
  show "set (map (\<lambda>B. map hh_elt (bk_chain B)) BS ! i) \<inter> set (map (\<lambda>B. map hh_elt (bk_chain B)) BS ! j) = {}"
    if "i < length (map (\<lambda>B. map hh_elt (bk_chain B)) BS)" "j < length (map (\<lambda>B. map hh_elt (bk_chain B)) BS)" "i \<noteq> j" for i j
    using chains_wf_disjoint [OF assms, of i j _ _ 0] that len by (auto simp: handle_of_def HH_FROM_ELMT_def)
qed

lemma chains_wf_empty: "0 < nb \<Longrightarrow> chains_wf nb {} (replicate nb empty_bucket)"
  by (simp add: chains_wf_def chains_ok_empty) (simp add: empty_bucket_def)

lemma empty_bkts_rel: "list_all2 (bkt_rel hho m) (replicate n empty_pbucket) (replicate n empty_bucket)"
  by (simp add: list_all2_conv_all_nth bkt_rel_def empty_pbucket_def empty_bucket_def)

section \<open>The operations in memory do what they do on the bucket lists\<close>

definition table_ok :: "('k \<Rightarrow> u32) \<Rightarrow> ('k, ptr) ut_table \<Rightarrow> bool" where
  "table_ok hf T \<longleftrightarrow> table_inv hf T \<and> chains_wf (num_buckets T) (set (app_order T)) (buckets T) \<and>
     distinct (map hh_elt (app_order T))"

definition same_counts :: "'k pt_table \<Rightarrow> ('k, ptr) ut_table \<Rightarrow> bool" where
  "same_counts s T \<longleftrightarrow> pt_num_buckets s = num_buckets T \<and> pt_log2 s = log2_num_buckets T \<and> pt_items s = num_items T \<and>
     pt_ideal s = ideal_chain_maxlen T \<and> pt_nonideal s = nonideal_items T \<and> pt_ineff s = ineff_expands T \<and>
     pt_noexpand s = noexpand T"

definition app_rel :: "'k pt_table \<Rightarrow> ('k, ptr) ut_handle list \<Rightarrow> bool" where
  "app_rel s hs \<longleftrightarrow>
     (\<exists>q. adll (pt_hho s) (pt_mem s) 0 (pt_head s) (map hh_elt hs) q 0 \<and> pt_tail s = HH_FROM_ELMT (pt_hho s) q) \<and>
     (\<forall>h \<in> set hs. hp_hashv (pt_mem s (handle_of (pt_hho s) h)) = hh_hashv h \<and> pt_key s (handle_of (pt_hho s) h) = hh_key h)"

definition pt_rel :: "'k pt_table \<Rightarrow> ('k, ptr) ut_table \<Rightarrow> bool" where
  "pt_rel s T \<longleftrightarrow> app_rel s (app_order T) \<and> list_all2 (bkt_rel (pt_hho s) (pt_mem s)) (pt_buckets s) (buckets T) \<and> same_counts s T"

lemma app_rel_same:
  "app_rel s hs \<Longrightarrow> app_same (pt_mem s) m' \<Longrightarrow> app_rel (s\<lparr>pt_mem := m'\<rparr>) hs"
  by (simp add: app_rel_def app_same_def)

lemma app_rel_nz: "app_rel s hs \<Longrightarrow> h \<in> set hs \<Longrightarrow> hh_elt h \<noteq> 0"
  unfolding app_rel_def using dll_nonnull by (metis image_eqI set_map)

lemma app_rel_fields:
  "app_rel s hs \<Longrightarrow> pt_mem s' = pt_mem s \<Longrightarrow> pt_key s' = pt_key s \<Longrightarrow> pt_head s' = pt_head s \<Longrightarrow> pt_hho s' = pt_hho s \<Longrightarrow>
    pt_tail s' = pt_tail s \<Longrightarrow> app_rel s' hs"
  by (simp add: app_rel_def)

lemma HASH_EXPAND_BUCKETS_refine:
  assumes rel: "pt_rel s T" and ok: "table_ok hf T"
  shows "\<exists>s'. HASH_EXPAND_BUCKETS_ptr s = Some s' \<and> pt_rel s' (HASH_EXPAND_BUCKETS T) \<and> table_ok hf (HASH_EXPAND_BUCKETS T) \<and>
    pt_hho s' = pt_hho s"
proof -
  let ?nb = "num_buckets T * 2" and ?hho = "pt_hho s"
  define ideal where "ideal = drop_bit (log2_num_buckets T + 1) (num_items T) + (if num_items T AND (?nb - 1) \<noteq> 0 then 1 else 0)"
  define R where "R = fold (\<lambda>B. fold (rehash_step ?nb ideal) (bk_chain B)) (buckets T) (replicate ?nb empty_bucket, 0)"
  have wf: "chains_wf (num_buckets T) (set (app_order T)) (buckets T)" and inv: "table_inv hf T"
    using ok by (simp_all add: table_ok_def)
  have bks: "list_all2 (bkt_rel ?hho (pt_mem s)) (pt_buckets s) (buckets T)" and cnt: "same_counts s T"
    and app: "app_rel s (app_order T)" using rel by (simp_all add: pt_rel_def)
  have pos: "0 < num_buckets T" using wf by (simp add: chains_wf_def)
  have un: "(\<Union>B \<in> set (buckets T). set (bk_chain B)) = set (app_order T)"
    using wf by (intro chains_ok_Union [of "num_buckets T"]) (simp_all add: chains_wf_def)
  have sp: "list_all2 (\<lambda>b B. spath (pt_mem s) (hh_head b) (map (handle_of ?hho) (bk_chain B))) (pt_buckets s) (buckets T)"
    using bks by (rule list_all2_mono) (auto simp: bkt_rel_def intro: dll_spath)
  have hv: "\<forall>B \<in> set (buckets T). \<forall>h \<in> set (bk_chain B). hh_elt h \<noteq> 0 \<and> hp_hashv (pt_mem s (handle_of ?hho h)) = hh_hashv h"
  proof -
    have "\<forall>h \<in> set (app_order T). hh_elt h \<noteq> 0 \<and> hp_hashv (pt_mem s (handle_of ?hho h)) = hh_hashv h"
      using app app_rel_nz [OF app] by (simp add: app_rel_def)
    then show ?thesis unfolding un [symmetric] by blast
  qed
  have new: "\<forall>B \<in> set (buckets T). hh_elt ` set (bk_chain B) \<inter> hh_elt ` {} = {}" and pos2: "0 < ?nb" using pos by simp_all
  obtain m' bs' where st: "he_buckets ?nb ideal (pt_buckets s) (pt_mem s, replicate ?nb empty_pbucket, 0) = Some (m', bs', snd R)"
    "list_all2 (bkt_rel ?hho m') bs' (fst R)" "chains_wf ?nb (set (app_order T)) (fst R)" "app_same (pt_mem s) m'"
    using he_buckets_ok [OF sp empty_bkts_rel chains_wf_empty [OF pos2] chains_wf_concat [OF wf] new hv, of ideal 0]
    unfolding R_def [symmetric] Un_empty_right un by (elim exE conjE)
  define s' where "s' = (let ineff = (if snd R > drop_bit 1 (pt_items s) then pt_ineff s + 1 else 0)
    in s\<lparr>pt_mem := m', pt_buckets := bs', pt_num_buckets := ?nb, pt_log2 := pt_log2 s + 1, pt_ideal := ideal,
         pt_nonideal := snd R, pt_ineff := ineff, pt_noexpand := (pt_noexpand s \<or> ineff > 1)\<rparr>)"
  have "HASH_EXPAND_BUCKETS_ptr s = Some s'"
    using st(1) cnt unfolding HASH_EXPAND_BUCKETS_ptr_def s'_def ideal_def same_counts_def by (simp add: Let_def)
  moreover have T': "HASH_EXPAND_BUCKETS T = (let ineff = (if snd R > drop_bit 1 (num_items T) then ineff_expands T + 1 else 0) in
      T\<lparr>buckets := fst R, num_buckets := ?nb, log2_num_buckets := log2_num_buckets T + 1,
        ideal_chain_maxlen := ideal, nonideal_items := snd R, ineff_expands := ineff, noexpand := (noexpand T \<or> ineff > 1)\<rparr>)"
    unfolding HASH_EXPAND_BUCKETS_def ideal_def R_def by (simp add: Let_def split_beta)
  moreover have "app_rel s' (app_order T)"
    by (rule app_rel_fields [OF app_rel_same [OF app st(4)]]) (simp_all add: s'_def Let_def)
  then have "pt_rel s' (HASH_EXPAND_BUCKETS T)"
    using st(2) cnt unfolding T' by (simp add: pt_rel_def same_counts_def s'_def Let_def)
  moreover have "table_ok hf (HASH_EXPAND_BUCKETS T)"
    using HASH_EXPAND_BUCKETS_inv(1) [OF inv] ok st(3) unfolding T' by (simp add: table_ok_def Let_def)
  ultimately show ?thesis by (auto simp: s'_def Let_def)
qed

text \<open>
  What insertion into a bucket does to the chains alone, whatever the application order and the item count are:
  \<open>chained s H\<close> says that the chains of \<open>s\<close> hold exactly the handles \<open>H\<close>.
\<close>

definition chained :: "'k pt_table \<Rightarrow> ('k, ptr) ut_handle set \<Rightarrow> bool" where
  "chained s H \<longleftrightarrow> (\<exists>BS. list_all2 (bkt_rel (pt_hho s) (pt_mem s)) (pt_buckets s) BS \<and> chains_wf (pt_num_buckets s) H BS)"

definition fields_ok :: "'k pt_table \<Rightarrow> ('k, ptr) ut_handle set \<Rightarrow> bool" where
  "fields_ok s H \<longleftrightarrow> (\<forall>h \<in> H. hh_elt h \<noteq> 0 \<and> hp_hashv (pt_mem s (handle_of (pt_hho s) h)) = hh_hashv h \<and>
     pt_key s (handle_of (pt_hho s) h) = hh_key h)"

definition outside_same :: "nat \<Rightarrow> ('k, ptr) ut_handle set \<Rightarrow> hh_mem \<Rightarrow> hh_mem \<Rightarrow> bool" where
  "outside_same hho H m m' \<longleftrightarrow> app_same m m' \<and> (\<forall>a. a \<notin> handle_of hho ` H \<longrightarrow> m' a = m a)"

definition same_list :: "'k pt_table \<Rightarrow> 'k pt_table \<Rightarrow> bool" where
  "same_list s s' \<longleftrightarrow> pt_head s' = pt_head s \<and> pt_tail s' = pt_tail s \<and> pt_hho s' = pt_hho s \<and> pt_key s' = pt_key s \<and>
     pt_items s' = pt_items s"

lemma outside_same_trans:
  "outside_same hho H m m' \<Longrightarrow> outside_same hho H m' m'' \<Longrightarrow> outside_same hho H m m''"
  unfolding outside_same_def using app_same_trans by auto

lemma expand_chained:
  assumes ch: "chained s H" and fo: "fields_ok s H"
  shows "\<exists>s'. HASH_EXPAND_BUCKETS_ptr s = Some s' \<and> chained s' H \<and> outside_same (pt_hho s) H (pt_mem s) (pt_mem s') \<and> same_list s s'"
proof -
  obtain BS where bks: "list_all2 (bkt_rel (pt_hho s) (pt_mem s)) (pt_buckets s) BS" and wf: "chains_wf (pt_num_buckets s) H BS"
    using ch by (auto simp: chained_def)
  let ?nb = "pt_num_buckets s * 2"
  define ideal where "ideal = drop_bit (pt_log2 s + 1) (pt_items s) + (if pt_items s AND (?nb - 1) \<noteq> 0 then 1 else 0)"
  have un: "(\<Union>B \<in> set BS. set (bk_chain B)) = H"
    using wf by (intro chains_ok_Union [of "pt_num_buckets s"]) (simp_all add: chains_wf_def)
  have sp: "list_all2 (\<lambda>b B. spath (pt_mem s) (hh_head b) (map (handle_of (pt_hho s)) (bk_chain B))) (pt_buckets s) BS"
    using bks by (rule list_all2_mono) (auto simp: bkt_rel_def intro: dll_spath)
  have hv: "\<forall>B \<in> set BS. \<forall>h \<in> set (bk_chain B). hh_elt h \<noteq> 0 \<and> hp_hashv (pt_mem s (handle_of (pt_hho s) h)) = hh_hashv h"
    using fo unfolding fields_ok_def un [symmetric] by blast
  have new: "\<forall>B \<in> set BS. hh_elt ` set (bk_chain B) \<inter> hh_elt ` {} = {}" and pos: "0 < ?nb"
    using wf by (simp_all add: chains_wf_def)
  let ?R = "fold (\<lambda>B. fold (rehash_step ?nb ideal) (bk_chain B)) BS (replicate ?nb empty_bucket, 0)"
  obtain m' bs' where st: "he_buckets ?nb ideal (pt_buckets s) (pt_mem s, replicate ?nb empty_pbucket, 0) = Some (m', bs', snd ?R)"
    "list_all2 (bkt_rel (pt_hho s) m') bs' (fst ?R)" "chains_wf ?nb H (fst ?R)" "app_same (pt_mem s) m'"
    "\<forall>a. a \<notin> handle_of (pt_hho s) ` H \<longrightarrow> m' a = pt_mem s a"
    using he_buckets_ok [OF sp empty_bkts_rel chains_wf_empty [OF pos] chains_wf_concat [OF wf] new hv, of ideal 0]
    unfolding Un_empty_right un by (elim exE conjE)
  define s' where "s' = (let ineff = (if snd ?R > drop_bit 1 (pt_items s) then pt_ineff s + 1 else 0)
    in s\<lparr>pt_mem := m', pt_buckets := bs', pt_num_buckets := ?nb, pt_log2 := pt_log2 s + 1, pt_ideal := ideal,
         pt_nonideal := snd ?R, pt_ineff := ineff, pt_noexpand := (pt_noexpand s \<or> ineff > 1)\<rparr>)"
  have "HASH_EXPAND_BUCKETS_ptr s = Some s'"
    using st(1) unfolding HASH_EXPAND_BUCKETS_ptr_def s'_def ideal_def by (simp add: Let_def)
  moreover have "pt_mem s' = m'" "pt_buckets s' = bs'" "pt_num_buckets s' = ?nb" "same_list s s'"
    by (simp_all add: s'_def Let_def same_list_def)
  ultimately show ?thesis
    using st(2-5) by (auto simp: chained_def outside_same_def same_list_def)
qed

lemma add_to_bkt_chained:
  assumes ch: "chained s H" and new: "hh_elt h \<notin> hh_elt ` H" and fo: "fields_ok s (insert h H)"
    and i: "i = HASH_TO_BKT (hh_hashv h) (pt_num_buckets s)"
  shows "\<exists>s'. HASH_ADD_TO_BKT_ptr i (handle_of (pt_hho s) h) s = Some s' \<and> chained s' (insert h H) \<and>
    outside_same (pt_hho s) (insert h H) (pt_mem s) (pt_mem s') \<and> same_list s s'"
proof -
  obtain BS where bks: "list_all2 (bkt_rel (pt_hho s) (pt_mem s)) (pt_buckets s) BS" and wf: "chains_wf (pt_num_buckets s) H BS"
    using ch by (auto simp: chained_def)
  let ?hho = "pt_hho s"
  let ?b = "pt_buckets s ! i" and ?B = "BS ! i"
  let ?b' = "?b\<lparr>pb_count := pb_count ?b + 1, hh_head := handle_of ?hho h\<rparr>"
  let ?B' = "?B\<lparr>bk_chain := h # bk_chain ?B, bk_count := bk_count ?B + 1\<rparr>"
  let ?m = "link_front (handle_of ?hho h) (hh_head ?b) (pt_mem s)"
  let ?s = "s\<lparr>pt_mem := ?m, pt_buckets := (pt_buckets s)[i := ?b']\<rparr>"
  have il: "i < pt_num_buckets s" unfolding i using wf by (intro HASH_TO_BKT_less) (simp add: chains_wf_def)
  have nz: "hh_elt h \<noteq> 0" using fo by (simp add: fields_ok_def)
  have rel: "bkt_rel ?hho (pt_mem s) ?b ?B"
    using bks il chains_wf_length [OF wf] by (simp add: list_all2_conv_all_nth)
  have "list_all2 (bkt_rel ?hho ?m) ((pt_buckets s)[i := ?b']) (BS[i := ?B'])"
    by (rule link_front_bkts [OF bks wf new il nz]) (use rel in \<open>simp_all add: bkt_rel_def\<close>)
  moreover have "chains_wf (pt_num_buckets s) (insert h H) (BS[i := ?B'])"
    by (rule chains_wf_push [OF wf new i]) simp_all
  ultimately have ch': "chained ?s (insert h H)" by (auto simp: chained_def)
  have "hh_head ?b \<noteq> 0 \<Longrightarrow> hh_head ?b \<in> handle_of ?hho ` H"
    using bkt_rel_head [OF rel] chains_wf_set [OF wf il] hd_in_set [of "bk_chain ?B"] by auto
  then have out: "outside_same ?hho (insert h H) (pt_mem s) ?m"
    by (auto simp: outside_same_def link_front_def set_hh_next_def set_hh_prev_def Let_def app_same_def)
  have same: "same_list s ?s" by (simp add: same_list_def)
  have fo': "fields_ok ?s (insert h H)" using fo by (simp add: fields_ok_def)
  let ?c = "pb_count ?b + 1 \<ge> (pb_expand_mult ?b + 1) * 10 \<and> \<not> pt_noexpand s"
  have ptr: "HASH_ADD_TO_BKT_ptr i (handle_of ?hho h) s = (if ?c then HASH_EXPAND_BUCKETS_ptr ?s else Some ?s)"
    by (simp add: HASH_ADD_TO_BKT_ptr_def Let_def)
  show ?thesis
  proof (cases ?c)
    case True
    obtain s' where s': "HASH_EXPAND_BUCKETS_ptr ?s = Some s'" "chained s' (insert h H)"
      "outside_same (pt_hho ?s) (insert h H) (pt_mem ?s) (pt_mem s')" "same_list ?s s'"
      using expand_chained [OF ch' fo'] by (elim exE conjE)
    have "outside_same ?hho (insert h H) (pt_mem s) (pt_mem s')"
      using outside_same_trans [OF out] s'(3) by simp
    then show ?thesis
      unfolding ptr if_P [OF True] using s' by (intro exI [of _ s'] conjI) (simp_all add: same_list_def)
  next
    case False
    show ?thesis unfolding ptr if_not_P [OF False] using ch' out same by (intro exI [of _ ?s] conjI) simp_all
  qed
qed

lemma HASH_ADD_TO_TABLE_refine:
  assumes app: "app_rel s (app_order T)" and bks: "list_all2 (bkt_rel (pt_hho s) (pt_mem s)) (pt_buckets s) (buckets T)"
    and cnt: "same_counts s T" and nb: "num_buckets T = 2 ^ log2_num_buckets T" and len: "length (app_order T) = Suc (num_items T)"
    and hv: "\<forall>h' \<in> set (app_order T). hh_hashv h' = hf (hh_key h')" and H: "set (app_order T) = insert h H"
    and wf: "chains_wf (num_buckets T) H (buckets T)" and new: "hh_elt h \<notin> hh_elt ` H" and dist: "distinct (map hh_elt (app_order T))"
  shows "\<exists>s'. HASH_ADD_TO_TABLE_ptr (hh_hashv h) (hh_elt h) s = Some s' \<and> pt_rel s' (HASH_ADD_TO_TABLE h T) \<and>
    table_ok hf (HASH_ADD_TO_TABLE h T) \<and> pt_hho s' = pt_hho s"
proof -
  let ?i = "HASH_TO_BKT (hh_hashv h) (num_buckets T)" and ?hho = "pt_hho s"
  let ?b = "pt_buckets s ! ?i" and ?B = "buckets T ! ?i"
  let ?b' = "?b\<lparr>pb_count := pb_count ?b + 1, hh_head := handle_of ?hho h\<rparr>"
  let ?B' = "?B\<lparr>bk_chain := h # bk_chain ?B, bk_count := bk_count ?B + 1\<rparr>"
  let ?m = "link_front (handle_of ?hho h) (hh_head ?b) (pt_mem s)"
  let ?s = "s\<lparr>pt_items := pt_items s + 1, pt_mem := ?m, pt_buckets := (pt_buckets s)[?i := ?b']\<rparr>"
  let ?T = "T\<lparr>num_items := num_items T + 1, buckets := (buckets T)[?i := ?B']\<rparr>"
  have pos: "0 < num_buckets T" using wf by (simp add: chains_wf_def)
  have i: "?i < num_buckets T" by (rule HASH_TO_BKT_less [OF pos])
  have nz: "hh_elt h \<noteq> 0" using app_rel_nz [OF app] H by blast
  have rel: "bkt_rel ?hho (pt_mem s) ?b ?B"
    using bks i chains_wf_length [OF wf] by (simp add: list_all2_conv_all_nth)
  have "list_all2 (bkt_rel ?hho ?m) ((pt_buckets s)[?i := ?b']) ((buckets T)[?i := ?B'])"
    by (rule link_front_bkts [OF bks wf new i nz]) (use rel in \<open>simp_all add: bkt_rel_def\<close>)
  moreover have "app_rel ?s (app_order T)"
    by (rule app_rel_fields [OF app_rel_same [OF app app_same_link_front]]) simp_all
  ultimately have prel: "pt_rel ?s ?T" using cnt by (simp add: pt_rel_def same_counts_def)
  have wf': "chains_wf (num_buckets T) (insert h H) ((buckets T)[?i := ?B'])"
    by (rule chains_wf_push [OF wf new]) simp_all
  then have tok: "table_ok hf ?T"
    using nb len hv H dist by (auto simp: table_ok_def table_inv_def chains_wf_def)
  have count: "pb_count ?b = bk_count ?B" "pb_expand_mult ?b = bk_expand_mult ?B" using rel by (simp_all add: bkt_rel_def)
  have ptr: "HASH_ADD_TO_TABLE_ptr (hh_hashv h) (hh_elt h) s =
      (if bk_count ?B + 1 \<ge> (bk_expand_mult ?B + 1) * 10 \<and> \<not> noexpand T then HASH_EXPAND_BUCKETS_ptr ?s else Some ?s)"
    using cnt count by (simp add: HASH_ADD_TO_TABLE_ptr_def HASH_ADD_TO_BKT_ptr_def same_counts_def handle_of_def Let_def)
  have lst: "HASH_ADD_TO_TABLE h T =
      (if bk_count ?B + 1 \<ge> (bk_expand_mult ?B + 1) * 10 \<and> \<not> noexpand T then HASH_EXPAND_BUCKETS ?T else ?T)"
    by (simp add: HASH_ADD_TO_TABLE_def HASH_ADD_TO_BKT_def Let_def)
  show ?thesis
  proof (cases "bk_count ?B + 1 \<ge> (bk_expand_mult ?B + 1) * 10 \<and> \<not> noexpand T")
    case True
    obtain s' where "HASH_EXPAND_BUCKETS_ptr ?s = Some s'" "pt_rel s' (HASH_EXPAND_BUCKETS ?T)"
      "table_ok hf (HASH_EXPAND_BUCKETS ?T)" "pt_hho s' = pt_hho ?s"
      using HASH_EXPAND_BUCKETS_refine [OF prel tok] by (elim exE conjE)
    then show ?thesis unfolding ptr lst if_P [OF True] by (intro exI [of _ s'] conjI) simp_all
  next
    case False
    show ?thesis unfolding ptr lst if_not_P [OF False] using prel tok by (intro exI [of _ ?s] conjI) simp_all
  qed
qed

text \<open>Changes of \<^verbatim>\<open>next\<close>, \<^verbatim>\<open>prev\<close> and \<^verbatim>\<open>hashv\<close> leave the chains alone.\<close>

definition bkt_same :: "hh_mem \<Rightarrow> hh_mem \<Rightarrow> bool" where
  "bkt_same m m' \<longleftrightarrow> (\<forall>a. hp_hh_next (m' a) = hp_hh_next (m a) \<and> hp_hh_prev (m' a) = hp_hh_prev (m a))"

lemma bkts_rel_same: "list_all2 (bkt_rel hho m) bs BS \<Longrightarrow> bkt_same m m' \<Longrightarrow> list_all2 (bkt_rel hho m') bs BS"
  by (erule list_all2_mono) (simp add: bkt_rel_def bkt_same_def)

lemma bkt_same_set [simp]:
  "bkt_same m m" "bkt_same m (m'(a := (m' a)\<lparr>hp_hashv := v\<rparr>)) \<longleftrightarrow> bkt_same m m'"
  "bkt_same m (set_next a e m') \<longleftrightarrow> bkt_same m m'" "bkt_same m (set_prev a e m') \<longleftrightarrow> bkt_same m m'"
  by (auto simp: bkt_same_def set_next_def set_prev_def)

lemma hashv_set [simp]: "hp_hashv (set_next a e m h) = hp_hashv (m h)" "hp_hashv (set_prev a e m h) = hp_hashv (m h)"
  by (simp_all add: set_next_def set_prev_def)

text \<open>Filling in a handle that is in no list.\<close>

lemma init_handle_app:
  assumes "app_rel s hs" and "add \<notin> hh_elt ` set hs"
  shows "app_rel (init_handle k v add s) hs"
proof -
  let ?m = "(pt_mem s)(HH_FROM_ELMT (pt_hho s) add := (pt_mem s (HH_FROM_ELMT (pt_hho s) add))\<lparr>hp_hashv := v\<rparr>)"
  have fresh: "handle_of (pt_hho s) h \<noteq> HH_FROM_ELMT (pt_hho s) add" if "h \<in> set hs" for h
    using assms(2) that by (auto simp: handle_of_def HH_FROM_ELMT_def)
  have "hp_next (?m a) = hp_next (pt_mem s a)" "hp_prev (?m a) = hp_prev (pt_mem s a)" for a by simp_all
  with assms(1) fresh show ?thesis
    unfolding app_rel_def init_handle_def by (simp add: Let_def)
qed

lemma init_handle_sel [simp]:
  "pt_hho (init_handle k v add s) = pt_hho s" "pt_head (init_handle k v add s) = pt_head s"
  "pt_tail (init_handle k v add s) = pt_tail s" "pt_buckets (init_handle k v add s) = pt_buckets s"
  "hp_hashv (pt_mem (init_handle k v add s) (HH_FROM_ELMT (pt_hho s) add)) = v"
  "pt_key (init_handle k v add s) (HH_FROM_ELMT (pt_hho s) add) = k"
  "bkt_same (pt_mem s) (pt_mem (init_handle k v add s))" "same_counts (init_handle k v add s) T \<longleftrightarrow> same_counts s T"
  by (simp_all add: init_handle_def Let_def same_counts_def)

text \<open>Linking an element into the application order between \<open>as\<close> and \<open>bs\<close>.\<close>

lemma app_rel_insert:
  assumes app: "app_rel s (as @ bs)" and dist: "distinct (map hh_elt (as @ bs))" and new: "hh_elt h \<notin> hh_elt ` set (as @ bs)"
    and nz: "hh_elt h \<noteq> 0" and r: "r = (if as = [] then 0 else hh_elt (last as))" and z: "z = (if bs = [] then 0 else hh_elt (hd bs))"
    and hho: "pt_hho s' = pt_hho s" "pt_key s' = pt_key s"
    and nxt: "\<And>e. hp_next (pt_mem s' (HH_FROM_ELMT (pt_hho s) e)) =
      (if e = hh_elt h then z else if r \<noteq> 0 \<and> e = r then hh_elt h else hp_next (pt_mem s (HH_FROM_ELMT (pt_hho s) e)))"
    and prv: "\<And>e. hp_prev (pt_mem s' (HH_FROM_ELMT (pt_hho s) e)) =
      (if e = hh_elt h then r else if z \<noteq> 0 \<and> e = z then hh_elt h else hp_prev (pt_mem s (HH_FROM_ELMT (pt_hho s) e)))"
    and hv: "\<And>a. hp_hashv (pt_mem s' a) = hp_hashv (pt_mem s a)"
    and h: "hp_hashv (pt_mem s (handle_of (pt_hho s) h)) = hh_hashv h" "pt_key s (handle_of (pt_hho s) h) = hh_key h"
    and ends: "pt_head s' = (if as = [] then hh_elt h else pt_head s)"
      "pt_tail s' = (if bs = [] then handle_of (pt_hho s) h else pt_tail s)"
  shows "app_rel s' (as @ h # bs)"
proof -
  let ?E = "\<lambda>hs. map hh_elt hs"
  obtain q where q: "adll (pt_hho s) (pt_mem s) 0 (pt_head s) (?E as @ ?E bs) q 0" "pt_tail s = HH_FROM_ELMT (pt_hho s) q"
    using app by (auto simp: app_rel_def)
  have new': "hh_elt h \<notin> set (?E as @ ?E bs)" using new by (simp add: image_Un)
  have "adll (pt_hho s) (pt_mem s') 0 (if ?E as = [] then hh_elt h else pt_head s) (?E as @ hh_elt h # ?E bs) (if ?E bs = [] then hh_elt h else q) 0"
  proof (rule dll_insert [OF q(1), where r = r and z = z])
    show "distinct (?E as @ ?E bs)" using dist by simp
    show "hh_elt h \<notin> set (?E as @ ?E bs)" by (rule new')
    show "r = (if ?E as = [] then 0 else last (?E as))" using r by (simp add: last_map)
    show "z = (if ?E bs = [] then 0 else hd (?E bs))" using z by (simp add: hd_map)
  qed (use nz new' dll_nonnull [OF q(1)] in \<open>auto simp: nxt prv simp del: set_map\<close>)
  then show ?thesis
    using app q(2) hv h hho ends unfolding app_rel_def by (auto simp: handle_of_def)
qed

lemma app_rel_tail: "app_rel s hs \<Longrightarrow> hs \<noteq> [] \<Longrightarrow> pt_tail s = HH_FROM_ELMT (pt_hho s) (hh_elt (last hs))"
  and app_rel_head: "app_rel s hs \<Longrightarrow> pt_head s = 0 \<longleftrightarrow> hs = []"
  by (auto simp: app_rel_def last_map dest: dll_ends dll_head)

lemma HH_FROM_ELMT_eq [simp]: "HH_FROM_ELMT hho a = HH_FROM_ELMT hho b \<longleftrightarrow> a = b"
  by (simp add: HH_FROM_ELMT_def)

lemma ELMT_FROM_HH_FROM [simp]: "ELMT_FROM_HH hho (HH_FROM_ELMT hho a) = a"
  by (simp add: HH_FROM_ELMT_def ELMT_FROM_HH_def)

lemma append_app:
  assumes app: "app_rel s hs" and "hs \<noteq> []" and dist: "distinct (map hh_elt hs)" and new: "hh_elt h \<notin> hh_elt ` set hs"
    and nz: "hh_elt h \<noteq> 0"
    and h: "hp_hashv (pt_mem s (handle_of (pt_hho s) h)) = hh_hashv h" "pt_key s (handle_of (pt_hho s) h) = hh_key h"
  shows "app_rel (HASH_APPEND_LIST (hh_elt h) s) (hs @ [h])"
proof -
  let ?r = "hh_elt (last hs)"
  have t: "pt_tail s = HH_FROM_ELMT (pt_hho s) ?r" by (rule app_rel_tail [OF app assms(2)])
  have r: "?r \<noteq> 0" "?r \<noteq> hh_elt h"
    using app_rel_nz [OF app] new assms(2) by (auto, metis image_eqI last_in_set)
  show ?thesis
    by (rule app_rel_insert [where s = s and as = hs and bs = "[]" and r = ?r and z = 0])
      (use app dist new nz h r assms(2) in \<open>auto simp: HASH_APPEND_LIST_def t Let_def handle_of_def\<close>)
qed

lemma link_before_app:
  assumes app: "app_rel s (as @ g # bs)" and dist: "distinct (map hh_elt (as @ g # bs))" and new: "hh_elt h \<notin> hh_elt ` set (as @ g # bs)"
    and nz: "hh_elt h \<noteq> 0"
    and h: "hp_hashv (pt_mem s (handle_of (pt_hho s) h)) = hh_hashv h" "pt_key s (handle_of (pt_hho s) h) = hh_key h"
  shows "app_rel (link_before (hh_elt h) (hh_elt g) s) (as @ h # g # bs)"
proof -
  let ?r = "if as = [] then 0 else hh_elt (last as)"
  obtain q where "adll (pt_hho s) (pt_mem s) 0 (pt_head s) (map hh_elt as @ hh_elt g # map hh_elt bs) q 0"
    using app by (auto simp: app_rel_def)
  then have p: "hp_prev (pt_mem s (HH_FROM_ELMT (pt_hho s) (hh_elt g))) = ?r"
    by (auto simp: dll_append last_map dest!: dll_ends)
  have r: "as \<noteq> [] \<Longrightarrow> hh_elt (last as) \<noteq> 0" "as \<noteq> [] \<Longrightarrow> hh_elt (last as) \<noteq> hh_elt h" "hh_elt g \<noteq> hh_elt h" "hh_elt g \<noteq> 0"
    using app_rel_nz [OF app] new by (auto, metis image_eqI last_in_set UnCI)
  show ?thesis
    by (rule app_rel_insert [where s = s and as = as and bs = "g # bs" and r = ?r and z = "hh_elt g"])
      (use app dist new nz h r in \<open>auto simp: link_before_def p Let_def handle_of_def split: if_splits\<close>)
qed

lemma HASH_AKBI_INNER_LOOP_ok:
  assumes "adll hho m p x (map hh_elt hs) q 0" and "hs \<noteq> []"
  shows "HASH_AKBI_INNER_LOOP cmpfcn hho m add x =
    Some (case dropWhile (\<lambda>g. \<not> cmpfcn (hh_elt g) add > 0) hs of [] \<Rightarrow> 0 | g # gs \<Rightarrow> hh_elt g)"
  using assms
proof (induction hs arbitrary: p x)
  case (Cons g gs)
  then have x: "x = hh_elt g" and rest: "adll hho m x (hp_next (m (HH_FROM_ELMT hho x))) (map hh_elt gs) q 0" by auto
  show ?case
  proof (cases gs)
    case Nil
    with rest have "hp_next (m (HH_FROM_ELMT hho x)) = 0" by simp
    with Nil x show ?thesis by (subst HASH_AKBI_INNER_LOOP.simps) simp
  next
    case (Cons g' gs')
    with rest have nz: "hp_next (m (HH_FROM_ELMT hho x)) \<noteq> 0" by auto
    from Cons have "gs \<noteq> []" by simp
    from Cons.IH [OF rest this] nz x show ?thesis by (subst HASH_AKBI_INNER_LOOP.simps) simp
  qed
qed simp

text \<open>Insertion in order on the bucket lists.\<close>

definition insert_inorder :: "(ptr \<Rightarrow> ptr \<Rightarrow> int) \<Rightarrow> ('k, ptr) ut_handle \<Rightarrow> ('k, ptr) ut_handle list \<Rightarrow> ('k, ptr) ut_handle list" where
  "insert_inorder cmpfcn h hs =
     takeWhile (\<lambda>g. \<not> cmpfcn (hh_elt g) (hh_elt h) > 0) hs @ h # dropWhile (\<lambda>g. \<not> cmpfcn (hh_elt g) (hh_elt h) > 0) hs"

definition HASH_ADD_INORDER_BKT ::
  "(ptr \<Rightarrow> ptr \<Rightarrow> int) \<Rightarrow> ('k \<Rightarrow> u32) \<Rightarrow> ('k, ptr) ut_head \<Rightarrow> 'k \<Rightarrow> ptr \<Rightarrow> ('k, ptr) ut_head" where
  "HASH_ADD_INORDER_BKT cmpfcn hf head k p =
     (let h = \<lparr>hh_key = k, hh_hashv = hf k, hh_elt = p\<rparr>;
          t = (case head of None \<Rightarrow> HASH_MAKE_TABLE h | Some t \<Rightarrow> t\<lparr>app_order := insert_inorder cmpfcn h (app_order t)\<rparr>)
      in Some (HASH_ADD_TO_TABLE h t))"

definition head_rel :: "('k \<Rightarrow> u32) \<Rightarrow> 'k pt_table \<Rightarrow> ('k, ptr) ut_head \<Rightarrow> bool" where
  "head_rel hf s head \<longleftrightarrow> (case head of None \<Rightarrow> pt_head s = 0 | Some T \<Rightarrow> pt_rel s T \<and> table_ok hf T)"

lemma first_handle_ok:
  assumes "hh_elt h \<noteq> 0" and s1: "s1 = init_handle (hh_key h) (hh_hashv h) (hh_elt h) s"
  shows "app_rel (first_handle (hh_elt h) s1) [h]" "same_counts (first_handle (hh_elt h) s1) (HASH_MAKE_TABLE h)"
    "list_all2 (bkt_rel hho m) (pt_buckets (first_handle (hh_elt h) s1)) (buckets (HASH_MAKE_TABLE h))"
    "pt_hho (first_handle (hh_elt h) s1) = pt_hho s"
proof -
  have s: "hp_hashv (pt_mem s1 (handle_of (pt_hho s1) h)) = hh_hashv h" "pt_key s1 (handle_of (pt_hho s1) h) = hh_key h"
    "pt_hho s1 = pt_hho s"
    by (simp_all add: s1 handle_of_def)
  then show "app_rel (first_handle (hh_elt h) s1) [h]" "pt_hho (first_handle (hh_elt h) s1) = pt_hho s"
    using assms(1)
    by (auto simp: app_rel_def first_handle_def HASH_MAKE_TABLE_ptr_def Let_def handle_of_def)
  show "same_counts (first_handle (hh_elt h) s1) (HASH_MAKE_TABLE h)"
    by (simp add: same_counts_def first_handle_def HASH_MAKE_TABLE_ptr_def HASH_MAKE_TABLE_def Let_def)
  show "list_all2 (bkt_rel hho m) (pt_buckets (first_handle (hh_elt h) s1)) (buckets (HASH_MAKE_TABLE h))"
    by (simp add: first_handle_def HASH_MAKE_TABLE_ptr_def HASH_MAKE_TABLE_def Let_def empty_bkts_rel)
qed

lemma add_at_refine:
  assumes rel: "pt_rel s T" and ok: "table_ok hf T" and ord: "app_order T = as @ bs"
    and new: "hh_elt h \<notin> hh_elt ` set (app_order T)" and hv: "hh_hashv h = hf (hh_key h)"
    and s2: "app_rel s2 (as @ h # bs)" "pt_buckets s2 = pt_buckets s" "bkt_same (pt_mem s) (pt_mem s2)" "pt_hho s2 = pt_hho s"
      "same_counts s2 T"
  shows "\<exists>s'. HASH_ADD_TO_TABLE_ptr (hh_hashv h) (hh_elt h) s2 = Some s' \<and>
    pt_rel s' (HASH_ADD_TO_TABLE h (T\<lparr>app_order := as @ h # bs\<rparr>)) \<and>
    table_ok hf (HASH_ADD_TO_TABLE h (T\<lparr>app_order := as @ h # bs\<rparr>)) \<and> pt_hho s' = pt_hho s"
proof -
  let ?T = "T\<lparr>app_order := as @ h # bs\<rparr>"
  have inv: "table_inv hf T" "chains_wf (num_buckets T) (set (app_order T)) (buckets T)" "distinct (map hh_elt (app_order T))"
    using ok by (simp_all add: table_ok_def)
  have bks: "list_all2 (bkt_rel (pt_hho s2) (pt_mem s2)) (pt_buckets s2) (buckets ?T)"
    using rel bkts_rel_same [OF _ s2(3), of "pt_hho s" "pt_buckets s" "buckets T"] by (simp add: pt_rel_def s2)
  have cnt: "same_counts s2 ?T" using s2(5) by (simp add: same_counts_def)
  have tb: "num_buckets ?T = 2 ^ log2_num_buckets ?T" "length (app_order ?T) = Suc (num_items ?T)"
    "\<forall>h' \<in> set (app_order ?T). hh_hashv h' = hf (hh_key h')" "set (app_order ?T) = insert h (set (app_order T))"
    using inv(1) hv ord by (auto simp: table_inv_def)
  have dist: "distinct (map hh_elt (app_order ?T))" using inv(3) new ord by (auto simp: image_Un)
  have "app_rel s2 (app_order ?T)" "chains_wf (num_buckets ?T) (set (app_order T)) (buckets ?T)" using s2(1) inv(2) by simp_all
  from HASH_ADD_TO_TABLE_refine [OF this(1) bks cnt tb this(2) new dist] show ?thesis unfolding s2(4) .
qed

lemma add_first_refine:
  assumes "hh_elt h \<noteq> 0" and "hh_hashv h = hf (hh_key h)" and s1: "s1 = init_handle (hh_key h) (hh_hashv h) (hh_elt h) s"
  shows "\<exists>s'. HASH_ADD_TO_TABLE_ptr (hh_hashv h) (hh_elt h) (first_handle (hh_elt h) s1) = Some s' \<and>
    pt_rel s' (HASH_ADD_TO_TABLE h (HASH_MAKE_TABLE h)) \<and> table_ok hf (HASH_ADD_TO_TABLE h (HASH_MAKE_TABLE h)) \<and> pt_hho s' = pt_hho s"
proof -
  have "app_order (HASH_MAKE_TABLE h) = [h]" "num_buckets (HASH_MAKE_TABLE h) = 32" "log2_num_buckets (HASH_MAKE_TABLE h) = 5"
    "num_items (HASH_MAKE_TABLE h) = 0" "buckets (HASH_MAKE_TABLE h) = replicate 32 empty_bucket"
    by (simp_all add: HASH_MAKE_TABLE_def)
  then show ?thesis
    using HASH_ADD_TO_TABLE_refine [of "first_handle (hh_elt h) s1" "HASH_MAKE_TABLE h" hf h "{}"]
      first_handle_ok [OF assms(1) s1] assms(2) chains_wf_empty [of 32] by simp
qed

lemma init_handle_fields:
  assumes "h = \<lparr>hh_key = k, hh_hashv = hf k, hh_elt = add\<rparr>" and "s1 = init_handle k (hf k) add s"
  shows "hp_hashv (pt_mem s1 (handle_of (pt_hho s1) h)) = hh_hashv h" "pt_key s1 (handle_of (pt_hho s1) h) = hh_key h"
  using assms by (simp_all add: handle_of_def)

lemma HASH_APPEND_LIST_sel [simp]:
  "pt_buckets (HASH_APPEND_LIST add s) = pt_buckets s" "pt_hho (HASH_APPEND_LIST add s) = pt_hho s"
  "same_counts (HASH_APPEND_LIST add s) T \<longleftrightarrow> same_counts s T" "bkt_same m (pt_mem (HASH_APPEND_LIST add s)) \<longleftrightarrow> bkt_same m (pt_mem s)"
  by (simp_all add: HASH_APPEND_LIST_def same_counts_def Let_def)

lemma link_before_sel [simp]:
  "pt_buckets (link_before add iter s) = pt_buckets s" "pt_hho (link_before add iter s) = pt_hho s"
  "same_counts (link_before add iter s) T \<longleftrightarrow> same_counts s T" "bkt_same m (pt_mem (link_before add iter s)) \<longleftrightarrow> bkt_same m (pt_mem s)"
  by (simp_all add: link_before_def same_counts_def Let_def)

lemma HASH_ADD_refine:
  assumes rel: "head_rel hf s head" and new: "add \<notin> set (HASH_ITER_BKT head)" and nz: "add \<noteq> 0"
  shows "\<exists>s'. HASH_ADD_KEYPTR_BYHASHVALUE k (hf k) add s = Some s' \<and> head_rel hf s' (HASH_ADD_KEYPTR hf head k add) \<and>
    pt_hho s' = pt_hho s"
proof -
  let ?h = "\<lparr>hh_key = k, hh_hashv = hf k, hh_elt = add\<rparr>" and ?s1 = "init_handle k (hf k) add s"
  show ?thesis
  proof (cases head)
    case None
    then have "pt_head s = 0" using rel by (simp add: head_rel_def)
    then show ?thesis
      using add_first_refine [of ?h hf ?s1 s] nz None
      by (simp add: HASH_ADD_KEYPTR_BYHASHVALUE_def HASH_ADD_KEYPTR_def head_rel_def Let_def)
  next
    case (Some T)
    then have T: "pt_rel s T" "table_ok hf T" and fresh: "add \<notin> hh_elt ` set (app_order T)"
      using rel new by (simp_all add: head_rel_def HASH_ITER_BKT_def)
    have app: "app_rel s (app_order T)" and ne: "app_order T \<noteq> []" and dist: "distinct (map hh_elt (app_order T))"
      using T by (simp_all add: pt_rel_def table_ok_def table_inv_def)
    have app1: "app_rel ?s1 (app_order T)" by (rule init_handle_app [OF app fresh])
    have "app_rel (HASH_APPEND_LIST (hh_elt ?h) ?s1) (app_order T @ [?h])"
      by (rule append_app [OF app1 ne dist]) (use fresh nz in \<open>simp_all add: handle_of_def\<close>)
    then have "\<exists>s'. HASH_ADD_TO_TABLE_ptr (hh_hashv ?h) (hh_elt ?h) (HASH_APPEND_LIST add ?s1) = Some s' \<and>
        pt_rel s' (HASH_ADD_TO_TABLE ?h (T\<lparr>app_order := app_order T @ [?h]\<rparr>)) \<and>
        table_ok hf (HASH_ADD_TO_TABLE ?h (T\<lparr>app_order := app_order T @ [?h]\<rparr>)) \<and> pt_hho s' = pt_hho s"
      using T fresh by (intro add_at_refine [where bs = "[]"]) (simp_all add: pt_rel_def)
    moreover have "pt_head s \<noteq> 0" using app_rel_head [OF app] ne by simp
    ultimately show ?thesis
      using Some by (simp add: HASH_ADD_KEYPTR_BYHASHVALUE_def HASH_ADD_KEYPTR_def head_rel_def Let_def)
  qed
qed

lemma HASH_ADD_INORDER_refine:
  assumes rel: "head_rel hf s head" and new: "add \<notin> set (HASH_ITER_BKT head)" and nz: "add \<noteq> 0"
  shows "\<exists>s'. HASH_ADD_KEYPTR_BYHASHVALUE_INORDER cmpfcn k (hf k) add s = Some s' \<and>
    head_rel hf s' (HASH_ADD_INORDER_BKT cmpfcn hf head k add) \<and> pt_hho s' = pt_hho s"
proof -
  let ?h = "\<lparr>hh_key = k, hh_hashv = hf k, hh_elt = add\<rparr>" and ?s1 = "init_handle k (hf k) add s"
  show ?thesis
  proof (cases head)
    case None
    then have "pt_head s = 0" using rel by (simp add: head_rel_def)
    then show ?thesis
      using add_first_refine [of ?h hf ?s1 s] nz None
      by (simp add: HASH_ADD_KEYPTR_BYHASHVALUE_INORDER_def HASH_ADD_INORDER_BKT_def head_rel_def Let_def)
  next
    case (Some T)
    then have T: "pt_rel s T" "table_ok hf T" and fresh: "add \<notin> hh_elt ` set (app_order T)"
      using rel new by (simp_all add: head_rel_def HASH_ITER_BKT_def)
    have app: "app_rel s (app_order T)" and ne: "app_order T \<noteq> []" and dist: "distinct (map hh_elt (app_order T))"
      using T by (simp_all add: pt_rel_def table_ok_def table_inv_def)
    have app1: "app_rel ?s1 (app_order T)" by (rule init_handle_app [OF app fresh])
    let ?P = "\<lambda>g. \<not> cmpfcn (hh_elt g) add > 0"
    let ?as = "takeWhile ?P (app_order T)" and ?bs = "dropWhile ?P (app_order T)"
    let ?iter = "case ?bs of [] \<Rightarrow> 0 | g # gs \<Rightarrow> hh_elt g"
    obtain q where "adll (pt_hho ?s1) (pt_mem ?s1) 0 (pt_head ?s1) (map hh_elt (app_order T)) q 0"
      using app1 by (auto simp: app_rel_def)
    from HASH_AKBI_INNER_LOOP_ok [OF this ne, of cmpfcn add]
    have loop: "HASH_AKBI_INNER_LOOP cmpfcn (pt_hho ?s1) (pt_mem ?s1) add (pt_head ?s1) = Some ?iter" .
    let ?s2 = "if ?iter \<noteq> 0 then link_before add ?iter ?s1 else HASH_APPEND_LIST add ?s1"
    have s2: "app_rel ?s2 (?as @ ?h # ?bs)"
    proof (cases ?bs)
      case Nil
      then have as: "?as = app_order T" by (metis append_Nil2 takeWhile_dropWhile_id)
      have "app_rel (HASH_APPEND_LIST (hh_elt ?h) ?s1) (app_order T @ [?h])"
        by (rule append_app [OF app1 ne dist]) (use fresh nz in \<open>simp_all add: handle_of_def\<close>)
      then show ?thesis unfolding Nil as by simp
    next
      case (Cons g gs)
      then have split: "app_order T = ?as @ g # gs" by (metis takeWhile_dropWhile_id)
      have "hh_elt g \<noteq> 0" using app_rel_nz [OF app, of g] split by (metis in_set_conv_decomp)
      moreover have "app_rel (link_before (hh_elt ?h) (hh_elt g) ?s1) (?as @ ?h # g # gs)"
        by (rule link_before_app) (use app1 dist fresh nz split in \<open>simp_all add: handle_of_def\<close>)
      ultimately show ?thesis unfolding Cons by simp
    qed
    have "\<exists>s'. HASH_ADD_TO_TABLE_ptr (hh_hashv ?h) (hh_elt ?h) ?s2 = Some s' \<and>
        pt_rel s' (HASH_ADD_TO_TABLE ?h (T\<lparr>app_order := ?as @ ?h # ?bs\<rparr>)) \<and>
        table_ok hf (HASH_ADD_TO_TABLE ?h (T\<lparr>app_order := ?as @ ?h # ?bs\<rparr>)) \<and> pt_hho s' = pt_hho s"
      by (rule add_at_refine [OF T _ _ _ s2]) (use T fresh in \<open>simp_all add: pt_rel_def\<close>)
    moreover have "pt_head s \<noteq> 0" using app_rel_head [OF app] ne by simp
    ultimately show ?thesis
      using Some loop
      by (simp add: HASH_ADD_KEYPTR_BYHASHVALUE_INORDER_def HASH_ADD_INORDER_BKT_def insert_inorder_def head_rel_def Let_def)
  qed
qed

section \<open>Lookup and deletion\<close>

lemma find_loop_ok:
  assumes "bdll m p x (map (handle_of hho) hs) q 0"
    and "\<forall>h \<in> set hs. hh_elt h \<noteq> 0 \<and> hp_hashv (m (handle_of hho h)) = hh_hashv h \<and> key (handle_of hho h) = hh_key h"
  shows "find_loop hho m key k v (elmt_or_null hho x) = Some (case HASH_FIND_IN_BKT hs k v of None \<Rightarrow> 0 | Some e \<Rightarrow> e)"
  using assms
proof (induction hs arbitrary: p x)
  case Nil
  then show ?case by (subst find_loop.simps) (simp add: elmt_or_null_def)
next
  case (Cons h hs)
  have x: "x = handle_of hho h" "x \<noteq> 0" "hh_elt h \<noteq> 0" "elmt_or_null hho x = hh_elt h"
    using Cons.prems by (auto simp: handle_of_def elmt_or_null_def)
  have "bdll m x (hp_hh_next (m x)) (map (handle_of hho) hs) q 0" using Cons.prems(1) x(1) by simp
  from Cons.IH [OF this] Cons.prems(2) x show ?case
    by (subst find_loop.simps) (auto simp: handle_of_def)
qed

lemma pt_rel_fields:
  "pt_rel s T \<Longrightarrow> h \<in> set (app_order T) \<Longrightarrow> hh_elt h \<noteq> 0 \<and>
    hp_hashv (pt_mem s (handle_of (pt_hho s) h)) = hh_hashv h \<and> pt_key s (handle_of (pt_hho s) h) = hh_key h"
  using app_rel_nz by (auto simp: pt_rel_def app_rel_def)

lemma HASH_FIND_refine:
  assumes rel: "head_rel hf s head"
  shows "HASH_FIND_BYHASHVALUE k (hf k) s = Some (case HASH_FIND_BKT hf head k of None \<Rightarrow> 0 | Some e \<Rightarrow> e)"
proof (cases head)
  case None
  then show ?thesis using rel by (simp add: HASH_FIND_BYHASHVALUE_def HASH_FIND_BKT_def head_rel_def)
next
  case (Some T)
  then have T: "pt_rel s T" "table_ok hf T" using rel by (simp_all add: head_rel_def)
  let ?i = "HASH_TO_BKT (hf k) (num_buckets T)"
  have wf: "chains_wf (num_buckets T) (set (app_order T)) (buckets T)" using T(2) by (simp add: table_ok_def)
  then have i: "?i < num_buckets T" by (intro HASH_TO_BKT_less) (simp add: chains_wf_def)
  have "bkt_rel (pt_hho s) (pt_mem s) (pt_buckets s ! ?i) (buckets T ! ?i)"
    using T(1) i chains_wf_length [OF wf] by (simp add: pt_rel_def list_all2_conv_all_nth)
  then obtain q where q: "bdll (pt_mem s) 0 (hh_head (pt_buckets s ! ?i)) (map (handle_of (pt_hho s)) (bk_chain (buckets T ! ?i))) q 0"
    by (auto simp: bkt_rel_def)
  have "\<forall>h \<in> set (bk_chain (buckets T ! ?i)). hh_elt h \<noteq> 0 \<and>
      hp_hashv (pt_mem s (handle_of (pt_hho s) h)) = hh_hashv h \<and> pt_key s (handle_of (pt_hho s) h) = hh_key h"
    using pt_rel_fields [OF T(1)] chains_wf_set [OF wf i] by simp
  moreover have "pt_head s \<noteq> 0" "pt_num_buckets s = num_buckets T"
    using T app_rel_head [of s "app_order T"] by (auto simp: pt_rel_def table_ok_def table_inv_def same_counts_def)
  ultimately show ?thesis
    using find_loop_ok [OF q, of "pt_key s" k "hf k"] Some by (simp add: HASH_FIND_BYHASHVALUE_def HASH_FIND_BKT_def)
qed

lemma unlink_app_ok:
  assumes app: "app_rel s (as @ h # bs)" and dist: "distinct (map hh_elt (as @ h # bs))" and "as \<noteq> [] \<or> bs \<noteq> []"
  shows "app_rel (unlink_app (handle_of (pt_hho s) h) s) (as @ bs)"
proof -
  let ?hho = "pt_hho s" and ?m = "pt_mem s" and ?dh = "handle_of (pt_hho s) h"
  let ?E = "\<lambda>hs. map hh_elt hs"
  let ?p = "hp_prev (?m ?dh)" and ?n = "hp_next (?m ?dh)"
  obtain q where q: "adll ?hho ?m 0 (pt_head s) (?E as @ hh_elt h # ?E bs) q 0" "pt_tail s = HH_FROM_ELMT ?hho q"
    using app by (auto simp: app_rel_def)
  then obtain z where a: "adll ?hho ?m 0 (pt_head s) (?E as) ?p (hh_elt h)" and b: "adll ?hho ?m (hh_elt h) ?n (?E bs) q 0"
    and nz: "hh_elt h \<noteq> 0"
    by (auto simp: dll_append handle_of_def)
  have p: "?p = (if as = [] then 0 else hh_elt (last as))" and n: "?n = (if bs = [] then 0 else hh_elt (hd bs))"
    using dll_ends [OF a] dll_ends [OF b] by (simp_all add: last_map hd_map)
  have lb: "bs \<noteq> [] \<Longrightarrow> hh_elt (last bs) \<noteq> hh_elt h" using dist by (auto, metis image_eqI last_in_set)
  have qn: "q = hh_elt h \<longleftrightarrow> ?n = 0" "?n \<noteq> 0 \<longleftrightarrow> bs \<noteq> []" "?p \<noteq> 0 \<longleftrightarrow> as \<noteq> []"
    using dll_ends [OF b] lb p n dll_nonnull [OF q(1)] by (auto simp: last_map split: if_splits)
  let ?s = "unlink_app ?dh s"
  let ?m1 = "if ?p \<noteq> 0 then set_next (HH_FROM_ELMT ?hho ?p) ?n ?m else ?m"
  have pd: "?p \<noteq> hh_elt h" "?n \<noteq> hh_elt h"
    using p n dist nz by (auto, metis image_eqI last_in_set, metis hd_in_set image_eqI)
  have m1: "?m1 ?dh = ?m ?dh" using pd by (auto simp: set_next_def handle_of_def)
  have mem: "pt_mem ?s = (if ?n \<noteq> 0 then set_prev (HH_FROM_ELMT ?hho ?n) ?p ?m1 else ?m1)"
    and hd: "pt_head ?s = (if ?p \<noteq> 0 then pt_head s else ?n)"
    and tl: "pt_tail ?s = (if ?dh = pt_tail s then HH_FROM_ELMT ?hho ?p else pt_tail s)"
    and rest: "pt_hho ?s = ?hho" "pt_key ?s = pt_key s"
    using m1 unfolding unlink_app_def by (simp_all add: Let_def del: fun_upd_apply)
  have "adll ?hho (pt_mem ?s) 0 (if ?p = 0 then ?n else pt_head s) (?E as @ ?E bs) (if ?n = 0 then ?p else q) 0"
  proof (rule dll_delete [where d = "hh_elt h" and nxt = "\<lambda>e. hp_next (?m (HH_FROM_ELMT ?hho e))"
        and prv = "\<lambda>e. hp_prev (?m (HH_FROM_ELMT ?hho e))", folded handle_of_def])
    show "adll ?hho ?m 0 (pt_head s) (?E as @ hh_elt h # ?E bs) q 0" by (rule q(1))
    show "distinct (?E as @ hh_elt h # ?E bs)" using dist by simp
  qed (use dll_nonnull [OF q(1)] in \<open>auto simp: mem simp del: set_map\<close>)
  moreover have "?dh = pt_tail s \<longleftrightarrow> ?n = 0" using qn(1) q(2) by (auto simp: handle_of_def)
  then have "pt_tail ?s = HH_FROM_ELMT ?hho (if ?n = 0 then ?p else q)" using tl q(2) by simp
  moreover have "hp_hashv (pt_mem ?s a) = hp_hashv (?m a)" for a by (simp add: mem)
  moreover have "pt_head ?s = (if ?p = 0 then ?n else pt_head s)" using hd by simp
  ultimately show ?thesis using app unfolding app_rel_def rest by (auto simp del: set_map)
qed

lemma filter_neq_split:
  assumes "distinct (map f (as @ d # bs))"
  shows "filter (\<lambda>g. f g \<noteq> f d) (as @ d # bs) = as @ bs"
proof -
  have "f d \<notin> f ` set (as @ bs)" using assms by (auto simp: image_Un)
  then have "\<forall>g \<in> set (as @ bs). f g \<noteq> f d" by (metis imageI)
  then show ?thesis by (simp add: filter_id_conv)
qed

lemma HASH_DEL_IN_BKT_ok:
  assumes bks: "list_all2 (bkt_rel (pt_hho s) (pt_mem s)) (pt_buckets s) (buckets T)"
    and wf: "chains_wf (num_buckets T) (set (app_order T)) (buckets T)" and h: "h \<in> set (app_order T)"
    and i: "i = HASH_TO_BKT (hh_hashv h) (num_buckets T)"
  shows "list_all2 (bkt_rel (pt_hho s) (pt_mem (HASH_DEL_IN_BKT_ptr i (handle_of (pt_hho s) h) s)))
      (pt_buckets (HASH_DEL_IN_BKT_ptr i (handle_of (pt_hho s) h) s))
      ((buckets T)[i := HASH_DEL_IN_BKT (hh_elt h) (buckets T ! i)])"
    "app_same (pt_mem s) (pt_mem (HASH_DEL_IN_BKT_ptr i (handle_of (pt_hho s) h) s))"
proof -
  let ?hho = "pt_hho s" and ?m = "pt_mem s" and ?dh = "handle_of (pt_hho s) h" and ?B = "buckets T ! i"
  let ?s = "HASH_DEL_IN_BKT_ptr i ?dh s"
  have il: "i < num_buckets T" unfolding i using wf by (intro HASH_TO_BKT_less) (simp add: chains_wf_def)
  have len: "length (pt_buckets s) = num_buckets T" "length (buckets T) = num_buckets T"
    using chains_wf_length [OF wf] list_all2_lengthD [OF bks] by simp_all
  have rel: "bkt_rel ?hho ?m (pt_buckets s ! j) (buckets T ! j)" if "j < num_buckets T" for j
    using bks that len by (simp add: list_all2_conv_all_nth)
  have "h \<in> set (bk_chain ?B)" using chains_wf_set [OF wf il] h i by simp
  then obtain cs ds where ch: "bk_chain ?B = cs @ h # ds" by (metis split_list)
  let ?E = "\<lambda>hs. map (handle_of ?hho) hs"
  have dist: "distinct (?E cs @ ?dh # ?E ds)" using chains_wf_distinct [OF wf il, of ?hho] ch by simp
  obtain q where q: "bdll ?m 0 (hh_head (pt_buckets s ! i)) (?E cs @ ?dh # ?E ds) q 0"
    using rel [OF il] ch by (auto simp: bkt_rel_def)
  let ?p = "hp_hh_prev (?m ?dh)" and ?n = "hp_hh_next (?m ?dh)"
  have a: "bdll ?m 0 (hh_head (pt_buckets s ! i)) (?E cs) ?p ?dh" and b: "bdll ?m ?dh ?n (?E ds) q 0"
    using q by (auto simp: dll_append)
  have p: "?p = (if cs = [] then 0 else last (?E cs))" and n: "?n = (if ds = [] then 0 else hd (?E ds))"
    using dll_ends [OF a] dll_ends [OF b] by simp_all
  have pin: "?p \<noteq> 0 \<Longrightarrow> ?p \<in> set (?E cs)" "?n \<noteq> 0 \<Longrightarrow> ?n \<in> set (?E ds)"
    using p n last_in_set [of "?E cs"] hd_in_set [of "?E ds"] by (auto simp del: set_map split: if_splits)
  have pd: "?p \<noteq> ?dh" "?n \<noteq> ?dh"
    using pin dist dll_nonnull [OF q] by (cases "?p = 0"; cases "?n = 0"; auto simp del: set_map)+
  let ?m1 = "if ?p \<noteq> 0 then set_hh_next ?p ?n ?m else ?m"
  have m1: "?m1 ?dh = ?m ?dh" using pd by (auto simp: set_hh_next_def)
  have mem: "pt_mem ?s = (if ?n \<noteq> 0 then set_hh_prev ?n ?p ?m1 else ?m1)"
    and bs: "pt_buckets ?s = (pt_buckets s)[i := (pt_buckets s ! i)\<lparr>pb_count := pb_count (pt_buckets s ! i) - 1,
      hh_head := (if hh_head (pt_buckets s ! i) = ?dh then ?n else hh_head (pt_buckets s ! i))\<rparr>]"
    using m1 unfolding HASH_DEL_IN_BKT_ptr_def by (simp_all add: Let_def del: fun_upd_apply)
  show "app_same ?m (pt_mem ?s)" by (auto simp: mem app_same_def set_hh_next_def set_hh_prev_def)
  have hd: "hh_head (pt_buckets s ! i) = ?dh \<longleftrightarrow> ?p = 0"
  proof -
    have "hh_head (pt_buckets s ! i) = (if cs = [] then ?dh else hd (?E cs))" using dll_ends [OF a] by simp
    moreover have "?dh \<notin> set (?E cs)" using dist by simp
    then have "cs \<noteq> [] \<Longrightarrow> hd (?E cs) \<noteq> ?dh" by (metis hd_in_set map_is_Nil_conv)
    moreover have "cs \<noteq> [] \<Longrightarrow> last (?E cs) \<noteq> 0" using dll_nonnull [OF a] by (metis last_in_set map_is_Nil_conv)
    ultimately show ?thesis using p by auto
  qed
  have new: "bdll (pt_mem ?s) 0 (if ?p = 0 then ?n else hh_head (pt_buckets s ! i)) (?E cs @ ?E ds) (if ?n = 0 then ?p else q) 0"
    by (rule dll_delete [OF q dist]) (use dll_nonnull [OF q] in \<open>auto simp: mem set_hh_next_def set_hh_prev_def simp del: set_map\<close>)
  have fil: "filter (\<lambda>g. hh_elt g \<noteq> hh_elt h) (bk_chain ?B) = cs @ ds"
    using filter_neq_split [of "handle_of ?hho" cs h ds] dist by (simp add: ch handle_of_eq)
  show "list_all2 (bkt_rel ?hho (pt_mem ?s)) (pt_buckets ?s) ((buckets T)[i := HASH_DEL_IN_BKT (hh_elt h) ?B])"
  proof (rule list_all2_all_nthI)
    show "length (pt_buckets ?s) = length ((buckets T)[i := HASH_DEL_IN_BKT (hh_elt h) ?B])" by (simp add: bs len)
    fix j assume "j < length (pt_buckets ?s)"
    then have j: "j < num_buckets T" by (simp add: bs len)
    show "bkt_rel ?hho (pt_mem ?s) (pt_buckets ?s ! j) ((buckets T)[i := HASH_DEL_IN_BKT (hh_elt h) ?B] ! j)"
    proof (cases "j = i")
      case True
      then show ?thesis
        using new rel [OF il] il len fil hd by (auto simp: bkt_rel_def bs HASH_DEL_IN_BKT_def)
    next
      case False
      have "bkt_rel ?hho (pt_mem ?s) (pt_buckets s ! j) (buckets T ! j)"
      proof (rule bkt_rel_cong [OF rel [OF j]])
        fix g assume g: "g \<in> set (bk_chain (buckets T ! j))"
        have "handle_of ?hho g \<notin> set (?E (bk_chain ?B))"
          using chains_wf_disjoint [OF wf j il False g] by fastforce
        then have "?p \<noteq> 0 \<Longrightarrow> handle_of ?hho g \<noteq> ?p" "?n \<noteq> 0 \<Longrightarrow> handle_of ?hho g \<noteq> ?n"
          using pin ch by (auto simp del: set_map)
        then show "hp_hh_next (pt_mem ?s (handle_of ?hho g)) = hp_hh_next (?m (handle_of ?hho g)) \<and>
            hp_hh_prev (pt_mem ?s (handle_of ?hho g)) = hp_hh_prev (?m (handle_of ?hho g))"
          by (auto simp: mem set_hh_next_def set_hh_prev_def)
      qed
      then show ?thesis using False by (simp add: bs)
    qed
  qed
qed

lemma unlink_app_sel [simp]:
  "pt_hho (unlink_app dh s) = pt_hho s" "pt_buckets (unlink_app dh s) = pt_buckets s"
  "pt_num_buckets (unlink_app dh s) = pt_num_buckets s" "same_counts (unlink_app dh s) T \<longleftrightarrow> same_counts s T"
  "bkt_same (pt_mem s) (pt_mem (unlink_app dh s))" "hp_hashv (pt_mem (unlink_app dh s) a) = hp_hashv (pt_mem s a)"
  by (simp_all add: unlink_app_def same_counts_def Let_def)

lemma HASH_DELETE_refine:
  assumes rel: "head_rel hf s head" and wf: "ut_wf hf head" and e: "e \<in> set (HASH_ITER_BKT head)"
  shows "head_rel hf (HASH_DELETE_HH_ptr (HH_FROM_ELMT (pt_hho s) e) s) (HASH_DELETE_HH head e) \<and>
    pt_hho (HASH_DELETE_HH_ptr (HH_FROM_ELMT (pt_hho s) e) s) = pt_hho s"
proof -
  from e obtain T where head: "head = Some T" by (cases head) (auto simp: HASH_ITER_BKT_def)
  with rel e have T: "pt_rel s T" "table_ok hf T" and "e \<in> hh_elt ` set (app_order T)"
    by (simp_all add: head_rel_def HASH_ITER_BKT_def)
  then obtain h as bs where h: "e = hh_elt h" and ord: "app_order T = as @ h # bs" by (metis (no_types) imageE split_list)
  have inv: "table_inv hf T" and chw: "chains_wf (num_buckets T) (set (app_order T)) (buckets T)"
    and dist: "distinct (map hh_elt (app_order T))" using T(2) by (simp_all add: table_ok_def)
  have app: "app_rel s (as @ h # bs)" and bks: "list_all2 (bkt_rel (pt_hho s) (pt_mem s)) (pt_buckets s) (buckets T)"
    and cnt: "same_counts s T" using T(1) ord by (simp_all add: pt_rel_def)
  let ?dh = "handle_of (pt_hho s) h"
  obtain q where q: "adll (pt_hho s) (pt_mem s) 0 (pt_head s) (map hh_elt as @ hh_elt h # map hh_elt bs) q 0"
    using app by (auto simp: app_rel_def)
  then have a: "adll (pt_hho s) (pt_mem s) 0 (pt_head s) (map hh_elt as) (hp_prev (pt_mem s ?dh)) (hh_elt h)"
    and b: "adll (pt_hho s) (pt_mem s) (hh_elt h) (hp_next (pt_mem s ?dh)) (map hh_elt bs) q 0"
    by (auto simp: dll_append handle_of_def)
  have ends: "hp_prev (pt_mem s ?dh) = 0 \<longleftrightarrow> as = []" "hp_next (pt_mem s ?dh) = 0 \<longleftrightarrow> bs = []"
    using dll_ends [OF a] dll_last_nz [OF a] dll_head [OF b] by (auto split: if_splits)
  have fnd: "List.find (\<lambda>g. hh_elt g = e) (app_order T) = Some h"
  proof -
    have "hh_elt h \<notin> hh_elt ` set as" using dist by (simp add: ord)
    then have "\<forall>g \<in> set as. hh_elt g \<noteq> e" unfolding h by (metis imageI)
    then show ?thesis unfolding ord by (induction as) (simp_all add: h)
  qed
  have len: "length (app_order T) = 1 \<longleftrightarrow> as = [] \<and> bs = []" by (simp add: ord)
  show ?thesis
  proof (cases "as = [] \<and> bs = []")
    case True
    then show ?thesis
      using ends fnd len by (simp add: HASH_DELETE_HH_ptr_def HASH_DELETE_HH_def head head_rel_def h handle_of_def)
  next
    case False
    let ?i = "HASH_TO_BKT (hh_hashv h) (num_buckets T)" and ?s1 = "unlink_app ?dh s"
    let ?s2 = "HASH_DEL_IN_BKT_ptr ?i ?dh ?s1"
    let ?T = "T\<lparr>app_order := filter (\<lambda>g. hh_elt g \<noteq> e) (app_order T),
      buckets := (buckets T)[?i := HASH_DEL_IN_BKT e (buckets T ! ?i)], num_items := num_items T - 1\<rparr>"
    have hv: "hp_hashv (pt_mem s ?dh) = hh_hashv h" using app by (simp add: app_rel_def)
    have nb: "pt_num_buckets s = num_buckets T" using cnt by (simp add: same_counts_def)
    have ptr: "HASH_DELETE_HH_ptr (HH_FROM_ELMT (pt_hho s) e) s = ?s2\<lparr>pt_items := pt_items ?s2 - 1\<rparr>"
      using False ends hv nb by (auto simp: HASH_DELETE_HH_ptr_def h handle_of_def Let_def)
    have lst: "HASH_DELETE_HH head e = Some ?T"
      using False fnd len by (simp add: HASH_DELETE_HH_def head Let_def)
    have fil: "filter (\<lambda>g. hh_elt g \<noteq> e) (app_order T) = as @ bs"
      using filter_neq_split [of hh_elt as h bs] dist by (simp add: ord h)
    have app1: "app_rel ?s1 (as @ bs)" by (rule unlink_app_ok [OF app]) (use dist ord False in auto)
    have bks1: "list_all2 (bkt_rel (pt_hho ?s1) (pt_mem ?s1)) (pt_buckets ?s1) (buckets T)"
      using bkts_rel_same [OF bks unlink_app_sel(5)] by simp
    have hin: "h \<in> set (app_order T)" by (simp add: ord)
    note del = HASH_DEL_IN_BKT_ok [OF bks1 chw hin refl]
    have "app_rel ?s2 (as @ bs)"
      by (rule app_rel_fields [OF app_rel_same [OF app1 del(2)]]) (simp_all add: HASH_DEL_IN_BKT_ptr_def Let_def)
    moreover have "same_counts (?s2\<lparr>pt_items := pt_items ?s2 - 1\<rparr>) ?T" "pt_hho ?s2 = pt_hho s"
      using cnt by (simp_all add: same_counts_def HASH_DEL_IN_BKT_ptr_def unlink_app_def Let_def)
    ultimately have prel: "pt_rel (?s2\<lparr>pt_items := pt_items ?s2 - 1\<rparr>) ?T"
      using del(1) fil h by (simp add: pt_rel_def app_rel_def)
    have inv': "table_inv hf ?T" using HASH_DELETE_HH_inv(1) [OF wf, of e] unfolding lst by (simp add: head_inv_def)
    have il: "?i < num_buckets T" using chw by (intro HASH_TO_BKT_less) (simp add: chains_wf_def)
    have B: "distinct (bk_chain B) \<and> bk_count B = length (bk_chain B)" if "B \<in> set (buckets T)" for B
      using chw that by (simp add: chains_wf_def)
    have "h \<in> set (bk_chain (buckets T ! ?i))" using chains_wf_set [OF chw il] hin by simp
    then obtain cs ds where ch: "bk_chain (buckets T ! ?i) = cs @ h # ds" by (metis split_list)
    have "distinct (map hh_elt (cs @ h # ds))"
      using chains_wf_distinct [OF chw il, of 0] by (simp add: ch handle_of_0)
    from filter_neq_split [OF this] have "bk_chain (HASH_DEL_IN_BKT e (buckets T ! ?i)) = cs @ ds"
      by (simp add: HASH_DEL_IN_BKT_def ch h)
    then have B': "distinct (bk_chain (HASH_DEL_IN_BKT e (buckets T ! ?i))) \<and>
        bk_count (HASH_DEL_IN_BKT e (buckets T ! ?i)) = length (bk_chain (HASH_DEL_IN_BKT e (buckets T ! ?i)))"
      using B [OF nth_mem, of ?i] il chains_wf_length [OF chw] by (simp add: ch HASH_DEL_IN_BKT_def)
    have "inj_on hh_elt (set (app_order ?T))" using chw by (auto simp: chains_wf_def intro: inj_on_subset)
    moreover have "chains_ok (num_buckets ?T) (set (app_order ?T)) (buckets ?T)" "0 < num_buckets ?T"
      using inv' by (auto simp: table_inv_def)
    moreover have "\<forall>B \<in> set (buckets ?T). distinct (bk_chain B) \<and> bk_count B = length (bk_chain B)"
      using B B' set_update_subset_insert [of "buckets T" ?i "HASH_DEL_IN_BKT e (buckets T ! ?i)"] by auto
    ultimately have "chains_wf (num_buckets ?T) (set (app_order ?T)) (buckets ?T)" unfolding chains_wf_def by blast
    moreover have "distinct (map hh_elt (app_order ?T))" using dist by (simp add: fil) (simp add: ord)
    ultimately have "table_ok hf ?T" using inv' by (simp add: table_ok_def)
    then show ?thesis
      using prel \<open>pt_hho ?s2 = pt_hho s\<close> unfolding ptr lst by (simp add: head_rel_def)
  qed
qed

section \<open>The consistency check\<close>

text \<open>
  \<^verbatim>\<open>HASH_FSCK\<close>, compiled in with \<^verbatim>\<open>HASH_DEBUG\<close>: its loops count what they find; \<open>Some None\<close> and \<open>Some False\<close> stand for
  \<^verbatim>\<open>HASH_OOPS\<close>, which ends the program.
\<close>

partial_function (option) fsck_chain :: "hh_mem \<Rightarrow> ptr \<Rightarrow> ptr \<Rightarrow> nat \<Rightarrow> nat option option" where
  [code]: "fsck_chain m prev thh n =
     (if thh \<noteq> 0
      then if prev \<noteq> hp_hh_prev (m thh) then Some None else fsck_chain m thh (hp_hh_next (m thh)) (n + 1)
      else Some (Some n))"

fun fsck_buckets :: "hh_mem \<Rightarrow> pt_bucket list \<Rightarrow> nat \<Rightarrow> nat option option" where
  "fsck_buckets m [] n = Some (Some n)"
| "fsck_buckets m (b # bs) n =
     Option.bind (fsck_chain m 0 (hh_head b) 0) (\<lambda>r. case r of
       None \<Rightarrow> Some None
     | Some c \<Rightarrow> if pb_count b \<noteq> c then Some None else fsck_buckets m bs (n + c))"

partial_function (option) fsck_app :: "nat \<Rightarrow> hh_mem \<Rightarrow> ptr \<Rightarrow> ptr \<Rightarrow> nat \<Rightarrow> nat option option" where
  [code]: "fsck_app hho m prev thh n =
     (if thh \<noteq> 0
      then if prev \<noteq> hp_prev (m thh) then Some None
           else fsck_app hho m (ELMT_FROM_HH hho thh) (next_hh hho m thh) (n + 1)
      else Some (Some n))"

definition HASH_FSCK :: "'k pt_table \<Rightarrow> bool option" where
  "HASH_FSCK s =
     (if pt_head s \<noteq> 0
      then Option.bind (fsck_buckets (pt_mem s) (pt_buckets s) 0) (\<lambda>r.
             if r \<noteq> Some (pt_items s) then Some False
             else Option.bind (fsck_app (pt_hho s) (pt_mem s) 0 (HH_FROM_ELMT (pt_hho s) (pt_head s)) 0) (\<lambda>r.
                    Some (r = Some (pt_items s))))
      else Some True)"

lemma fsck_chain_ok: "bdll m p x hs q 0 \<Longrightarrow> fsck_chain m p x n = Some (Some (n + length hs))"
proof (induction hs arbitrary: p x n)
  case Nil
  then show ?case by (subst fsck_chain.simps) simp
next
  case (Cons h hs)
  then have "x = h" "h \<noteq> 0" "hp_hh_prev (m h) = p" "bdll m h (hp_hh_next (m h)) hs q 0" by simp_all
  with Cons.IH [of h "hp_hh_next (m h)" "n + 1"] show ?case by (subst fsck_chain.simps) simp
qed

lemma fsck_buckets_ok:
  assumes "list_all2 (bkt_rel hho m) bs BS" and "\<forall>B \<in> set BS. bk_count B = length (bk_chain B)"
  shows "fsck_buckets m bs n = Some (Some (n + (\<Sum>B \<leftarrow> BS. length (bk_chain B))))"
  using assms
proof (induction BS arbitrary: bs n rule: list.induct)
  case (Cons B BS)
  then obtain b bs' where bs: "bs = b # bs'" and b: "bkt_rel hho m b B" and rest: "list_all2 (bkt_rel hho m) bs' BS"
    by (auto simp: list_all2_Cons2)
  from b obtain q where "bdll m 0 (hh_head b) (map (handle_of hho) (bk_chain B)) q 0" "pb_count b = bk_count B"
    by (auto simp: bkt_rel_def)
  from fsck_chain_ok [OF this(1), of 0] this(2) Cons.IH [OF rest] Cons.prems(2) bs show ?case by simp
qed simp

lemma fsck_app_ok:
  assumes "adll hho m p x es q 0"
  shows "fsck_app hho m p (if x = 0 then 0 else HH_FROM_ELMT hho x) n = Some (Some (n + length es))"
  using assms
proof (induction es arbitrary: p x n)
  case Nil
  then show ?case by (subst fsck_app.simps) simp
next
  case (Cons e es)
  let ?h = "HH_FROM_ELMT hho e"
  from Cons.prems have e: "x = e" "e \<noteq> 0" "hp_prev (m ?h) = p" "adll hho m e (hp_next (m ?h)) es q 0" by simp_all
  have nx: "next_hh hho m ?h = (if hp_next (m ?h) = 0 then 0 else HH_FROM_ELMT hho (hp_next (m ?h)))"
    by (simp add: next_hh_def)
  have "?h \<noteq> 0" using e(2) by (simp add: HH_FROM_ELMT_def)
  with Cons.IH [OF e(4), of "n + 1"] e nx show ?case by (subst fsck_app.simps) simp
qed

lemma chains_wf_count:
  assumes "chains_wf nb H BS"
  shows "(\<Sum>B \<leftarrow> BS. length (bk_chain B)) = card H"
proof -
  let ?es = "concat (map (\<lambda>B. map hh_elt (bk_chain B)) BS)"
  have "(\<Union>B \<in> set BS. set (bk_chain B)) = H"
    using assms by (intro chains_ok_Union [of nb]) (simp_all add: chains_wf_def)
  then have "set ?es = hh_elt ` H" by auto
  then have "card (hh_elt ` H) = length ?es" using distinct_card [OF chains_wf_concat [OF assms]] by metis
  moreover have "card (hh_elt ` H) = card H" using assms by (intro card_image) (simp add: chains_wf_def)
  ultimately show ?thesis by (simp add: length_concat o_def)
qed

lemma HASH_FSCK_ok:
  assumes "head_rel hf s head"
  shows "HASH_FSCK s = Some True"
proof (cases head)
  case None
  then show ?thesis using assms by (simp add: head_rel_def HASH_FSCK_def)
next
  case (Some T)
  then have T: "pt_rel s T" "table_ok hf T" using assms by (simp_all add: head_rel_def)
  have chw: "chains_wf (num_buckets T) (set (app_order T)) (buckets T)" and dist: "distinct (map hh_elt (app_order T))"
    and items: "num_items T = length (app_order T)" "app_order T \<noteq> []"
    using T(2) unfolding table_ok_def table_inv_def by blast+
  have app: "app_rel s (app_order T)" and bks: "list_all2 (bkt_rel (pt_hho s) (pt_mem s)) (pt_buckets s) (buckets T)"
    and n: "pt_items s = num_items T" using T(1) by (simp_all add: pt_rel_def same_counts_def)
  have "distinct (app_order T)" using dist by (simp add: distinct_map)
  then have "card (set (app_order T)) = num_items T" using items(1) distinct_card by metis
  moreover have "\<forall>B \<in> set (buckets T). bk_count B = length (bk_chain B)" using chw by (simp add: chains_wf_def)
  ultimately have "fsck_buckets (pt_mem s) (pt_buckets s) 0 = Some (Some (pt_items s))"
    using fsck_buckets_ok [OF bks, of 0] chains_wf_count [OF chw] n by simp
  moreover obtain q where "adll (pt_hho s) (pt_mem s) 0 (pt_head s) (map hh_elt (app_order T)) q 0"
    using app by (auto simp: app_rel_def)
  from fsck_app_ok [OF this, of 0] have "fsck_app (pt_hho s) (pt_mem s) 0 (HH_FROM_ELMT (pt_hho s) (pt_head s)) 0 = Some (Some (pt_items s))"
    using app_rel_head [OF app] items n by simp
  ultimately show ?thesis by (simp add: HASH_FSCK_def)
qed

end
