(* ===== verification/Uthash_run.thy ===== *)
theory Uthash_run
  imports Uthash_ptr
begin

text \<open>
  Whole programs over the hash tables in memory: the operations of \<^verbatim>\<open>src/src/include/uthash.h\<close> that are built from those of
  \<open>Uthash_ptr\<close> (replacement, clearing), and every sequence of insertions, insertions in order,
  replacements, deletions, sorts and clearings, from the empty table on, against lists of entries.
\<close>

section \<open>Replacing, clearing, sorting\<close>

text \<open>The element that was replaced (or \<^verbatim>\<open>NULL\<close>), and the table.\<close>

definition HASH_REPLACE_BYHASHVALUE :: "'k \<Rightarrow> u32 \<Rightarrow> ptr \<Rightarrow> 'k pt_table \<Rightarrow> (ptr \<times> 'k pt_table) option" where
  "HASH_REPLACE_BYHASHVALUE k hashv add s =
     Option.bind (HASH_FIND_BYHASHVALUE k hashv s) (\<lambda>replaced.
       map_option (Pair replaced)
         (HASH_ADD_KEYPTR_BYHASHVALUE k hashv add
            (if replaced \<noteq> 0 then HASH_DELETE_HH_ptr (HH_FROM_ELMT (pt_hho s) replaced) s else s)))"

definition HASH_REPLACE_BYHASHVALUE_INORDER ::
  "(ptr \<Rightarrow> ptr \<Rightarrow> int) \<Rightarrow> 'k \<Rightarrow> u32 \<Rightarrow> ptr \<Rightarrow> 'k pt_table \<Rightarrow> (ptr \<times> 'k pt_table) option" where
  "HASH_REPLACE_BYHASHVALUE_INORDER cmpfcn k hashv add s =
     Option.bind (HASH_FIND_BYHASHVALUE k hashv s) (\<lambda>replaced.
       map_option (Pair replaced)
         (HASH_ADD_KEYPTR_BYHASHVALUE_INORDER cmpfcn k hashv add
            (if replaced \<noteq> 0 then HASH_DELETE_HH_ptr (HH_FROM_ELMT (pt_hho s) replaced) s else s)))"

text \<open>The forms that compute the hash of the key themselves.\<close>

definition HASH_FIND_ptr :: "('k \<Rightarrow> u32) \<Rightarrow> 'k \<Rightarrow> 'k pt_table \<Rightarrow> ptr option" where
  "HASH_FIND_ptr hf k s = (if pt_head s \<noteq> 0 then HASH_FIND_BYHASHVALUE k (hf k) s else Some 0)"

definition HASH_ADD_KEYPTR_ptr :: "('k \<Rightarrow> u32) \<Rightarrow> 'k \<Rightarrow> ptr \<Rightarrow> 'k pt_table \<Rightarrow> 'k pt_table option" where
  "HASH_ADD_KEYPTR_ptr hf k add s = (let hashv = hf k in HASH_ADD_KEYPTR_BYHASHVALUE k hashv add s)"

definition HASH_ADD_KEYPTR_INORDER ::
  "('k \<Rightarrow> u32) \<Rightarrow> (ptr \<Rightarrow> ptr \<Rightarrow> int) \<Rightarrow> 'k \<Rightarrow> ptr \<Rightarrow> 'k pt_table \<Rightarrow> 'k pt_table option" where
  "HASH_ADD_KEYPTR_INORDER hf cmpfcn k add s = (let hashv = hf k in HASH_ADD_KEYPTR_BYHASHVALUE_INORDER cmpfcn k hashv add s)"

definition HASH_REPLACE :: "('k \<Rightarrow> u32) \<Rightarrow> 'k \<Rightarrow> ptr \<Rightarrow> 'k pt_table \<Rightarrow> (ptr \<times> 'k pt_table) option" where
  "HASH_REPLACE hf k add s = (let hashv = hf k in HASH_REPLACE_BYHASHVALUE k hashv add s)"

definition HASH_REPLACE_INORDER ::
  "('k \<Rightarrow> u32) \<Rightarrow> (ptr \<Rightarrow> ptr \<Rightarrow> int) \<Rightarrow> 'k \<Rightarrow> ptr \<Rightarrow> 'k pt_table \<Rightarrow> (ptr \<times> 'k pt_table) option" where
  "HASH_REPLACE_INORDER hf cmpfcn k add s = (let hashv = hf k in HASH_REPLACE_BYHASHVALUE_INORDER cmpfcn k hashv add s)"

definition HASH_CLEAR_ptr :: "'k pt_table \<Rightarrow> 'k pt_table" where
  "HASH_CLEAR_ptr s = (if pt_head s \<noteq> 0 then s\<lparr>pt_buckets := [], pt_head := 0\<rparr> else s)"

definition HASH_SRT_table :: "(ptr \<Rightarrow> ptr \<Rightarrow> int) \<Rightarrow> 'k pt_table \<Rightarrow> 'k pt_table option" where
  "HASH_SRT_table cmpfcn s =
     map_option (\<lambda>(m, head, tail). s\<lparr>pt_mem := m, pt_head := head, pt_tail := tail\<rparr>)
       (HASH_SRT (pt_hho s) cmpfcn (pt_mem s) (pt_head s) (pt_tail s))"

section \<open>Operations and their meaning on lists of entries\<close>

datatype 'k hash_op =
    Op_add 'k ptr
  | Op_add_inorder "ptr \<Rightarrow> ptr \<Rightarrow> int" 'k ptr
  | Op_replace 'k ptr
  | Op_replace_inorder "ptr \<Rightarrow> ptr \<Rightarrow> int" 'k ptr
  | Op_del ptr
  | Op_sort "ptr \<Rightarrow> ptr \<Rightarrow> int"
  | Op_clear

fun hash_exec :: "('k \<Rightarrow> u32) \<Rightarrow> 'k hash_op \<Rightarrow> 'k pt_table \<Rightarrow> 'k pt_table option" where
  "hash_exec hf (Op_add k e) s = HASH_ADD_KEYPTR_ptr hf k e s"
| "hash_exec hf (Op_add_inorder cmpfcn k e) s = HASH_ADD_KEYPTR_INORDER hf cmpfcn k e s"
| "hash_exec hf (Op_replace k e) s = map_option snd (HASH_REPLACE hf k e s)"
| "hash_exec hf (Op_replace_inorder cmpfcn k e) s = map_option snd (HASH_REPLACE_INORDER hf cmpfcn k e s)"
| "hash_exec hf (Op_del e) s = Some (HASH_DELETE_HH_ptr (HH_FROM_ELMT (pt_hho s) e) s)"
| "hash_exec hf (Op_sort cmpfcn) s = HASH_SRT_table cmpfcn s"
| "hash_exec hf Op_clear s = Some (HASH_CLEAR_ptr s)"

text \<open>
  What a caller has to see to: elements are not in the table yet and not \<^verbatim>\<open>NULL\<close>, keys are new unless they are
  replaced, only elements of the table are deleted, and comparison functions are total preorders.
\<close>

fun op_ok :: "'k hash_op \<Rightarrow> ('k, ptr) uthash \<Rightarrow> bool" where
  "op_ok (Op_add k e) t = (HASH_FIND t k = None \<and> e \<notin> set (HASH_ITER t) \<and> e \<noteq> 0)"
| "op_ok (Op_add_inorder cmpfcn k e) t = (HASH_FIND t k = None \<and> e \<notin> set (HASH_ITER t) \<and> e \<noteq> 0)"
| "op_ok (Op_replace k e) t = (e \<notin> set (HASH_ITER t) \<and> e \<noteq> 0)"
| "op_ok (Op_replace_inorder cmpfcn k e) t = (e \<notin> set (HASH_ITER t) \<and> e \<noteq> 0)"
| "op_ok (Op_del e) t = (e \<in> set (HASH_ITER t))"
| "op_ok (Op_sort cmpfcn) t = (cmp_total cmpfcn \<and> length t \<le> 2 ^ 32)"
| "op_ok Op_clear t = True"

definition add_inorder :: "(ptr \<Rightarrow> ptr \<Rightarrow> int) \<Rightarrow> ('k, ptr) uthash \<Rightarrow> 'k \<Rightarrow> ptr \<Rightarrow> ('k, ptr) uthash" where
  "add_inorder cmpfcn t k e =
     takeWhile (\<lambda>(_, g). \<not> cmpfcn g e > 0) t @ (k, e) # dropWhile (\<lambda>(_, g). \<not> cmpfcn g e > 0) t"

definition without_key :: "('k, ptr) uthash \<Rightarrow> 'k \<Rightarrow> ('k, ptr) uthash" where
  "without_key t k = (case HASH_FIND t k of None \<Rightarrow> t | Some r \<Rightarrow> HASH_DEL t r)"

fun op_spec :: "'k hash_op \<Rightarrow> ('k, ptr) uthash \<Rightarrow> ('k, ptr) uthash \<Rightarrow> bool" where
  "op_spec (Op_add k e) t t' = (t' = HASH_ADD t k e)"
| "op_spec (Op_add_inorder cmpfcn k e) t t' = (t' = add_inorder cmpfcn t k e)"
| "op_spec (Op_replace k e) t t' = (t' = HASH_ADD (without_key t k) k e)"
| "op_spec (Op_replace_inorder cmpfcn k e) t t' = (t' = add_inorder cmpfcn (without_key t k) k e)"
| "op_spec (Op_del e) t t' = (t' = HASH_DEL t e)"
| "op_spec (Op_sort cmpfcn) t t' = stable_sort_of (\<lambda>a b. cmpfcn (snd a) (snd b)) t t'"
| "op_spec Op_clear t t' = (t' = HASH_CLEAR t)"

text \<open>The states a program reaches, each with the list of entries it should hold.\<close>

inductive hash_reach :: "('k \<Rightarrow> u32) \<Rightarrow> 'k pt_table \<Rightarrow> ('k, ptr) uthash \<Rightarrow> bool" for hf where
  empty: "pt_head s = 0 \<Longrightarrow> hash_reach hf s []"
| step: "hash_reach hf s t \<Longrightarrow> op_ok x t \<Longrightarrow> hash_exec hf x s = Some s' \<Longrightarrow> op_spec x t t' \<Longrightarrow> hash_reach hf s' t'"

section \<open>Each operation\<close>

definition run_rel :: "('k \<Rightarrow> u32) \<Rightarrow> 'k pt_table \<Rightarrow> ('k, ptr) uthash \<Rightarrow> bool" where
  "run_rel hf s t \<longleftrightarrow> (\<exists>head. head_rel hf s head \<and> ut_wf hf head \<and> ut_abs head = t)"

lemma run_relI: "head_rel hf s head \<Longrightarrow> uthash_wf (ut_abs head) \<Longrightarrow> run_rel hf s (ut_abs head)"
  unfolding run_rel_def
  by (intro exI [of _ head]) (auto simp: ut_wf_def head_inv_def head_rel_def table_ok_def split: option.splits)

lemma run_add:
  assumes "run_rel hf s t" and "HASH_FIND t k = None" and "e \<notin> set (HASH_ITER t)" and "e \<noteq> 0"
  shows "\<exists>s'. HASH_ADD_KEYPTR_BYHASHVALUE k (hf k) e s = Some s' \<and> run_rel hf s' (HASH_ADD t k e)"
proof -
  obtain head where h: "head_rel hf s head" "ut_wf hf head" "ut_abs head = t" using assms(1) by (auto simp: run_rel_def)
  have e: "e \<notin> set (HASH_ITER_BKT head)" using assms(3) by (simp add: HASH_ITER_BKT_abs h(3))
  have "HASH_FIND_BKT hf head k = None" using assms(2) by (simp add: HASH_FIND_BKT_eq [OF h(2)] h(3))
  from ut_wf_add [OF h(2) this e] have wf: "ut_wf hf (HASH_ADD_KEYPTR hf head k e)" .
  have "ut_abs (HASH_ADD_KEYPTR hf head k e) = HASH_ADD t k e"
    using HASH_ADD_KEYPTR_inv(2) [of hf head k e] h by (simp add: ut_wf_def)
  with HASH_ADD_refine [OF h(1) e assms(4), of k] wf show ?thesis by (auto simp: run_rel_def)
qed

lemma app_order_ADD_TO_TABLE [simp]: "app_order (HASH_ADD_TO_TABLE h t) = app_order t"
  by (simp add: HASH_ADD_TO_TABLE_def HASH_ADD_TO_BKT_def HASH_EXPAND_BUCKETS_def Let_def split_beta)

lemma ut_abs_inorder: "ut_abs (HASH_ADD_INORDER_BKT cmpfcn hf head k e) = add_inorder cmpfcn (ut_abs head) k e"
  by (auto simp: ut_abs_def HASH_ADD_INORDER_BKT_def add_inorder_def insert_inorder_def HASH_MAKE_TABLE_def Let_def
      takeWhile_map dropWhile_map o_def split: option.split)

lemma mset_insert_at: "mset (takeWhile P t @ x # dropWhile P t) = mset (t @ [x])"
  by (induction t) simp_all

lemma uthash_wf_inorder:
  assumes "uthash_wf t" and "HASH_FIND t k = None" and "e \<notin> set (HASH_ITER t)"
  shows "uthash_wf (add_inorder cmpfcn t k e)"
proof -
  have "mset (add_inorder cmpfcn t k e) = mset (HASH_ADD t k e)"
    unfolding add_inorder_def HASH_ADD_def by (rule mset_insert_at)
  then have m: "mset (map fst (add_inorder cmpfcn t k e)) = mset (map fst (HASH_ADD t k e))"
    "mset (map snd (add_inorder cmpfcn t k e)) = mset (map snd (HASH_ADD t k e))"
    unfolding mset_map by simp_all
  have "uthash_wf (HASH_ADD t k e)" using uth.wf_add [OF assms] .
  then show ?thesis unfolding uthash_wf_def mset_eq_imp_distinct_iff [OF m(1)] mset_eq_imp_distinct_iff [OF m(2)] .
qed

lemma run_add_inorder:
  assumes "run_rel hf s t" and "HASH_FIND t k = None" and "e \<notin> set (HASH_ITER t)" and "e \<noteq> 0"
  shows "\<exists>s'. HASH_ADD_KEYPTR_BYHASHVALUE_INORDER cmpfcn k (hf k) e s = Some s' \<and> run_rel hf s' (add_inorder cmpfcn t k e)"
proof -
  obtain head where h: "head_rel hf s head" "ut_wf hf head" "ut_abs head = t" using assms(1) by (auto simp: run_rel_def)
  have e: "e \<notin> set (HASH_ITER_BKT head)" using assms(3) by (simp add: HASH_ITER_BKT_abs h(3))
  obtain s' where s': "HASH_ADD_KEYPTR_BYHASHVALUE_INORDER cmpfcn k (hf k) e s = Some s'"
    "head_rel hf s' (HASH_ADD_INORDER_BKT cmpfcn hf head k e)"
    using HASH_ADD_INORDER_refine [OF h(1) e assms(4)] by blast
  have "uthash_wf (ut_abs (HASH_ADD_INORDER_BKT cmpfcn hf head k e))"
    using uthash_wf_inorder [OF _ assms(2,3)] h by (simp add: ut_abs_inorder ut_wf_def)
  from run_relI [OF s'(2) this] s'(1) h(3) show ?thesis by (simp add: ut_abs_inorder)
qed

lemma run_find:
  "run_rel hf s t \<Longrightarrow> HASH_FIND_BYHASHVALUE k (hf k) s = Some (case HASH_FIND t k of None \<Rightarrow> 0 | Some e \<Rightarrow> e)"
  using HASH_FIND_refine HASH_FIND_BKT_eq by (fastforce simp: run_rel_def)

lemma run_find_ptr: "run_rel hf s t \<Longrightarrow> HASH_FIND_ptr hf k s = Some (case HASH_FIND t k of None \<Rightarrow> 0 | Some e \<Rightarrow> e)"
  using run_find [of hf s t k] by (auto simp: HASH_FIND_ptr_def HASH_FIND_BYHASHVALUE_def)

lemma run_del:
  assumes "run_rel hf s t" and "e \<in> set (HASH_ITER t)"
  shows "run_rel hf (HASH_DELETE_HH_ptr (HH_FROM_ELMT (pt_hho s) e) s) (HASH_DEL t e)"
proof -
  obtain head where h: "head_rel hf s head" "ut_wf hf head" "ut_abs head = t" using assms(1) by (auto simp: run_rel_def)
  have "e \<in> set (HASH_ITER_BKT head)" using assms(2) by (simp add: HASH_ITER_BKT_abs h(3))
  from HASH_DELETE_refine [OF h(1,2) this] ut_wf_del [OF h(2), of e] HASH_DELETE_HH_inv(2) [OF h(2), of e] h(3)
  show ?thesis by (auto simp: run_rel_def)
qed

lemma run_nz: "run_rel hf s t \<Longrightarrow> e \<in> set (HASH_ITER t) \<Longrightarrow> e \<noteq> 0"
proof -
  assume "run_rel hf s t" and e: "e \<in> set (HASH_ITER t)"
  then obtain head where h: "head_rel hf s head" "ut_abs head = t" by (auto simp: run_rel_def)
  with e obtain T where T: "head = Some T" "e \<in> hh_elt ` set (app_order T)"
    by (cases head) (auto simp: ut_abs_def HASH_ITER_def image_image)
  with h(1) have "app_rel s (app_order T)" by (simp add: head_rel_def pt_rel_def)
  with T(2) show "e \<noteq> 0" using app_rel_nz by blast
qed

lemma run_wf: "run_rel hf s t \<Longrightarrow> uthash_wf t"
  by (auto simp: run_rel_def ut_wf_def)

lemma run_without:
  assumes "run_rel hf s t" and "HASH_FIND_BYHASHVALUE k (hf k) s = Some r"
  shows "run_rel hf (if r \<noteq> 0 then HASH_DELETE_HH_ptr (HH_FROM_ELMT (pt_hho s) r) s else s) (without_key t k)"
    "HASH_FIND (without_key t k) k = None" "set (HASH_ITER (without_key t k)) \<subseteq> set (HASH_ITER t)"
proof -
  have r: "r = (case HASH_FIND t k of None \<Rightarrow> 0 | Some e \<Rightarrow> e)" using run_find [OF assms(1), of k] assms(2) by simp
  have wf: "uthash_wf t" by (rule run_wf [OF assms(1)])
  have in_t: "e \<in> set (HASH_ITER t)" if "HASH_FIND t k = Some e" for e using uth.find_elems [OF wf that] .
  show "run_rel hf (if r \<noteq> 0 then HASH_DELETE_HH_ptr (HH_FROM_ELMT (pt_hho s) r) s else s) (without_key t k)"
    using assms(1) run_del [OF assms(1) in_t] run_nz [OF assms(1) in_t]
    by (auto simp: r without_key_def split: option.split)
  show "HASH_FIND (without_key t k) k = None"
    using uth.find_del [OF wf] by (auto simp: without_key_def split: option.split)
  show "set (HASH_ITER (without_key t k)) \<subseteq> set (HASH_ITER t)"
    by (auto simp: without_key_def HASH_ITER_def HASH_DEL_def split: option.split)
qed

lemma elmt_or_null_simps: "elmt_or_null hho 0 = 0" "p \<noteq> 0 \<Longrightarrow> elmt_or_null hho (HH_FROM_ELMT hho p) = p"
  by (simp_all add: elmt_or_null_def) (simp add: HH_FROM_ELMT_def)

lemma hpath_adll:
  "hpath hho m (if x \<noteq> 0 then HH_FROM_ELMT hho x else 0) (map (HH_FROM_ELMT hho) es) 0 \<and>
   hprevs hho m (if p \<noteq> 0 then HH_FROM_ELMT hho p else 0) (map (HH_FROM_ELMT hho) es) \<longleftrightarrow> (\<exists>q. adll hho m p x es q 0)"
proof (induction es arbitrary: x p)
  case Nil
  then show ?case by (auto simp: HH_FROM_ELMT_def)
next
  case (Cons e es)
  let ?h = "HH_FROM_ELMT hho e"
  have x: "(if x \<noteq> 0 then HH_FROM_ELMT hho x else 0) = ?h \<and> hho < ?h \<longleftrightarrow> x = e \<and> e \<noteq> 0"
    by (auto simp: HH_FROM_ELMT_def)
  have nx: "next_hh hho m ?h = (if hp_next (m ?h) \<noteq> 0 then HH_FROM_ELMT hho (hp_next (m ?h)) else 0)"
    by (simp add: next_hh_def)
  from Cons.IH [of "hp_next (m ?h)" e] show ?case
    using x by (auto simp: nx elmt_or_null_simps)
qed

lemma app_list_adll:
  "app_list hho m head tail es \<longleftrightarrow>
    distinct es \<and> (\<exists>q. adll hho m 0 head es q 0 \<and> (es \<noteq> [] \<longrightarrow> tail = HH_FROM_ELMT hho q))"
proof -
  have "app_list hho m head tail es \<longleftrightarrow> distinct es \<and> (\<exists>q. adll hho m 0 head es q 0) \<and> (es \<noteq> [] \<longrightarrow> tail = HH_FROM_ELMT hho (last es))"
    using hpath_adll [of hho m head es 0] unfolding app_list_def Let_def by (cases "head = 0"; cases "es = []") (auto simp: last_map)
  then show ?thesis using dll_ends by (metis (no_types, lifting))
qed

lemma run_sort:
  assumes rel: "run_rel hf s t" and cmp: "cmp_total cmpfcn" and len: "length t \<le> 2 ^ 32"
  shows "\<exists>s' t'. HASH_SRT_table cmpfcn s = Some s' \<and> run_rel hf s' t' \<and> stable_sort_of (\<lambda>a b. cmpfcn (snd a) (snd b)) t t'"
proof -
  let ?ec = "\<lambda>a b. cmpfcn (snd a) (snd b)"
  obtain head where h: "head_rel hf s head" "ut_wf hf head" "ut_abs head = t" using rel by (auto simp: run_rel_def)
  show ?thesis
  proof (cases head)
    case None
    then have "pt_head s = 0" "t = []" using h by (simp_all add: head_rel_def ut_abs_def)
    then show ?thesis
      using rel by (intro exI [of _ s] exI [of _ "[]"]) (simp add: HASH_SRT_table_def HASH_SRT_def stable_sort_of_def)
  next
    case (Some T)
    then have T: "pt_rel s T" "table_ok hf T" and t: "t = map (\<lambda>g. (hh_key g, hh_elt g)) (app_order T)"
      using h by (simp_all add: head_rel_def ut_abs_def)
    let ?hs = "app_order T"
    define hs' where "hs' = mloop (\<lambda>g g'. cmpfcn (hh_elt g) (hh_elt g')) 1 (app_order T)"
    have app: "app_rel s ?hs" and dist: "distinct (map hh_elt ?hs)" using T by (simp_all add: pt_rel_def table_ok_def)
    then have "app_list (pt_hho s) (pt_mem s) (pt_head s) (pt_tail s) (map hh_elt ?hs)"
      by (auto simp: app_list_adll app_rel_def)
    moreover have "length (map hh_elt ?hs) \<le> 2 ^ 32" using len by (simp add: t)
    ultimately obtain m' head' tail' where srt: "HASH_SRT (pt_hho s) cmpfcn (pt_mem s) (pt_head s) (pt_tail s) = Some (m', head', tail')"
      "app_list (pt_hho s) m' head' tail' (mloop cmpfcn 1 (map hh_elt ?hs))" "only_links (HH_FROM_ELMT (pt_hho s) ` set (map hh_elt ?hs)) (pt_mem s) m'"
      using HASH_SRT_result by blast
    let ?s' = "s\<lparr>pt_mem := m', pt_head := head', pt_tail := tail'\<rparr>" and ?T' = "T\<lparr>app_order := hs'\<rparr>"
    have ms: "mset hs' = mset ?hs" by (simp add: hs'_def mset_mloop)
    then have perm: "set hs' = set ?hs" "length hs' = length ?hs" by (metis set_mset_mset, metis size_mset)
    have elts: "map hh_elt hs' = mloop cmpfcn 1 (map hh_elt ?hs)" unfolding hs'_def by (rule mloop_map [symmetric]) simp_all
    have ents: "map (\<lambda>g. (hh_key g, hh_elt g)) hs' = mloop ?ec 1 t" unfolding t hs'_def by (rule mloop_map [symmetric]) simp_all
    have "distinct (map hh_elt hs')" using dist ms by (metis mset_map mset_eq_imp_distinct_iff)
    moreover have inv: "table_inv hf T" using T(2) by (simp add: table_ok_def)
    then have "?hs \<noteq> []" by (simp add: table_inv_def)
    then have ne: "hs' \<noteq> []" using perm(2) by (metis length_0_conv)
    have "table_inv hf ?T'" using inv ne unfolding table_inv_def by (auto simp: perm)
    ultimately have ok: "table_ok hf ?T'" using T(2) perm by (simp add: table_ok_def)
    have keep: "hp_hashv (m' a) = hp_hashv (pt_mem s a)" "bkt_same (pt_mem s) m'" for a
    proof -
      have *: "(m' a)\<lparr>hp_prev := 0, hp_next := 0\<rparr> = (pt_mem s a)\<lparr>hp_prev := 0, hp_next := 0\<rparr>" for a
        using srt(3) by (simp add: only_links_def)
      show "hp_hashv (m' a) = hp_hashv (pt_mem s a)" using arg_cong [OF *, of hp_hashv a] by simp
      have "hp_hh_next (m' a) = hp_hh_next (pt_mem s a)" "hp_hh_prev (m' a) = hp_hh_prev (pt_mem s a)" for a
        using arg_cong [OF *, of hp_hh_next a] arg_cong [OF *, of hp_hh_prev a] by simp_all
      then show "bkt_same (pt_mem s) m'" by (simp add: bkt_same_def)
    qed
    have "app_rel ?s' hs'"
    proof -
      have "app_list (pt_hho s) m' head' tail' (map hh_elt hs')" unfolding elts by (rule srt(2))
      then have "\<exists>q. adll (pt_hho s) m' 0 head' (map hh_elt hs') q 0 \<and> tail' = HH_FROM_ELMT (pt_hho s) q"
        using ne unfolding app_list_adll by simp
      moreover have "\<forall>g \<in> set hs'. hp_hashv (m' (handle_of (pt_hho s) g)) = hh_hashv g \<and> pt_key s (handle_of (pt_hho s) g) = hh_key g"
        using app by (simp add: app_rel_def perm keep(1))
      ultimately show ?thesis by (simp add: app_rel_def)
    qed
    then have "pt_rel ?s' ?T'"
      using T(1) bkts_rel_same [OF _ keep(2)] by (auto simp: pt_rel_def same_counts_def)
    then have "head_rel hf ?s' (Some ?T')" using ok by (simp add: head_rel_def)
    moreover have sorted: "stable_sort_of ?ec t (mloop ?ec 1 t)"
      using cmp by (intro mloop_sorts runs_ok_one) (auto simp: cmp_total_def)
    moreover have "uthash_wf (mloop ?ec 1 t)"
    proof -
      have "mset (mloop ?ec 1 t) = mset t" by (simp add: mset_mloop)
      then have m: "mset (map fst (mloop ?ec 1 t)) = mset (map fst t)" "mset (map snd (mloop ?ec 1 t)) = mset (map snd t)"
        unfolding mset_map by simp_all
      show ?thesis
        using run_wf [OF rel] unfolding uthash_wf_def mset_eq_imp_distinct_iff [OF m(1)] mset_eq_imp_distinct_iff [OF m(2)] .
    qed
    ultimately have "run_rel hf ?s' (mloop ?ec 1 t)"
      using run_relI [of hf ?s' "Some ?T'"] ents by (simp add: ut_abs_def)
    moreover have "HASH_SRT_table cmpfcn s = Some ?s'" using srt(1) by (simp add: HASH_SRT_table_def)
    ultimately show ?thesis using sorted by blast
  qed
qed

text \<open>There is only one stable sort of a list.\<close>

lemma cmp_same_refl: "cmp_total cmp \<Longrightarrow> cmp_same cmp x x"
  unfolding cmp_total_def cmp_same_def by blast

lemma sorted_filters_unique:
  assumes "cmp_total cmp"
  shows "cmp_sorted cmp ys \<Longrightarrow> cmp_sorted cmp zs \<Longrightarrow> (\<And>x. filter (cmp_same cmp x) ys = filter (cmp_same cmp x) zs) \<Longrightarrow> ys = zs"
proof (induction ys arbitrary: zs)
  case Nil
  have "z \<notin> set zs" for z using Nil(3) [of z] cmp_same_refl [OF assms] by (metis filter.simps(1) filter_empty_conv)
  then show ?case by (cases zs) auto
next
  case (Cons y ys)
  have mem: "w \<in> set (y # ys) \<longleftrightarrow> w \<in> set zs" for w
  proof -
    have "w \<in> set us \<longleftrightarrow> w \<in> set (filter (cmp_same cmp w) us)" for us using cmp_same_refl [OF assms, of w] by simp
    then show ?thesis using Cons.prems(3) [of w] by metis
  qed
  then obtain z zs' where zs: "zs = z # zs'" by (cases zs) auto
  have "cmp y z \<le> 0" using mem [of z] Cons.prems(1) cmp_same_refl [OF assms, of y] by (auto simp: zs cmp_same_def)
  moreover have "cmp z y \<le> 0" using mem [of y] Cons.prems(2) cmp_same_refl [OF assms, of y] by (auto simp: zs cmp_same_def)
  ultimately have "cmp_same cmp y z" by (simp add: cmp_same_def)
  with Cons.prems(3) [of y] cmp_same_refl [OF assms, of y] have yz: "y = z" by (simp add: zs)
  have "filter (cmp_same cmp x) ys = filter (cmp_same cmp x) zs'" for x
    using Cons.prems(3) [of x] by (simp add: zs yz split: if_splits)
  with Cons.IH [of zs'] Cons.prems(1,2) show ?case by (simp add: zs yz)
qed

lemma stable_sort_unique:
  assumes "cmp_total cmp" and "stable_sort_of cmp xs ys" and "stable_sort_of cmp xs zs"
  shows "ys = zs"
proof (rule sorted_filters_unique [OF assms(1)])
  show "cmp_sorted cmp ys" "cmp_sorted cmp zs" using assms(2,3) by (simp_all add: stable_sort_of_def)
  show "filter (cmp_same cmp x) ys = filter (cmp_same cmp x) zs" for x using assms(2,3) by (simp add: stable_sort_of_def)
qed

section \<open>All programs\<close>

lemma run_step:
  assumes rel: "run_rel hf s t" and ok: "op_ok x t"
  shows "\<exists>s'. hash_exec hf x s = Some s' \<and> (\<exists>t'. op_spec x t t') \<and> (\<forall>t'. op_spec x t t' \<longrightarrow> run_rel hf s' t')"
proof (cases x)
  case (Op_add k e)
  then show ?thesis using run_add [OF rel, of k e] ok by (auto simp: HASH_ADD_KEYPTR_ptr_def)
next
  case (Op_add_inorder cmpfcn k e)
  then show ?thesis using run_add_inorder [OF rel, of k e cmpfcn] ok by (auto simp: HASH_ADD_KEYPTR_INORDER_def)
next
  case (Op_replace k e)
  obtain r where r: "HASH_FIND_BYHASHVALUE k (hf k) s = Some r" using run_find [OF rel] by blast
  note w = run_without [OF rel r]
  have "e \<notin> set (HASH_ITER (without_key t k))" "e \<noteq> 0" using w(3) ok Op_replace by auto
  from run_add [OF w(1,2) this] show ?thesis using r by (auto simp: Op_replace HASH_REPLACE_def HASH_REPLACE_BYHASHVALUE_def)
next
  case (Op_replace_inorder cmpfcn k e)
  obtain r where r: "HASH_FIND_BYHASHVALUE k (hf k) s = Some r" using run_find [OF rel] by blast
  note w = run_without [OF rel r]
  have "e \<notin> set (HASH_ITER (without_key t k))" "e \<noteq> 0" using w(3) ok Op_replace_inorder by auto
  from run_add_inorder [OF w(1,2) this, of cmpfcn] show ?thesis
    using r by (auto simp: Op_replace_inorder HASH_REPLACE_INORDER_def HASH_REPLACE_BYHASHVALUE_INORDER_def)
next
  case (Op_del e)
  then show ?thesis using run_del [OF rel, of e] ok by simp
next
  case (Op_sort cmpfcn)
  then obtain s' u where s': "HASH_SRT_table cmpfcn s = Some s'" "run_rel hf s' u"
    "stable_sort_of (\<lambda>a b. cmpfcn (snd a) (snd b)) t u"
    using run_sort [OF rel, of cmpfcn] ok by auto
  have "cmp_total (\<lambda>a b :: 'a \<times> ptr. cmpfcn (snd a) (snd b))" using ok Op_sort by (auto simp: cmp_total_def)
  with s' show ?thesis using stable_sort_unique by (auto simp: Op_sort)
next
  case Op_clear
  have "head_rel hf (HASH_CLEAR_ptr s) None" by (simp add: head_rel_def HASH_CLEAR_ptr_def)
  from run_relI [OF this] Op_clear show ?thesis by (simp add: HASH_CLEAR_def ut_abs_def uthash_wf_def)
qed

lemma hash_reach_rel: "hash_reach hf s t \<Longrightarrow> run_rel hf s t"
proof (induction rule: hash_reach.induct)
  case (empty s)
  then have "head_rel hf s None" by (simp add: head_rel_def)
  from run_relI [OF this] show ?case by (simp add: ut_abs_def uthash_wf_def)
next
  case (step s t x s' t')
  then show ?case using run_step [OF step.IH step.hyps(2)] by simp
qed

lemma hash_reach_next:
  assumes "hash_reach hf s t" and "op_ok x t"
  shows "\<exists>s' t'. op_spec x t t' \<and> hash_reach hf s' t'"
  using run_step [OF hash_reach_rel [OF assms(1)] assms(2)] hash_reach.step [OF assms] by blast

text \<open>
  (C7) The hash tables as they are in memory, with their two doubly linked lists, bucket expansions and in-place sort,
  implement lists of entries. After any sequence of insertions, insertions in order, replacements, deletions, sorts
  and clearings from an empty table, every next operation returns; a lookup finds exactly what the list of
  entries holds; following \<^verbatim>\<open>next\<close> from the head visits the entries in the order of the list, with \<^verbatim>\<open>prev\<close> and the
  tail consistent; the number of items is right; and the consistency check \<^verbatim>\<open>HASH_FSCK\<close> passes.
\<close>

theorem uthash_in_memory:
  assumes "hash_reach hf s t"
  shows "(\<forall>x. op_ok x t \<longrightarrow> (\<exists>s' t'. hash_exec hf x s = Some s' \<and> op_spec x t t')) \<and>
    (\<forall>k. HASH_FIND_ptr hf k s = Some (case HASH_FIND t k of None \<Rightarrow> 0 | Some e \<Rightarrow> e)) \<and>
    app_list (pt_hho s) (pt_mem s) (pt_head s) (pt_tail s) (HASH_ITER t) \<and>
    (t \<noteq> [] \<longrightarrow> pt_items s = HASH_COUNT t) \<and>
    HASH_FSCK s = Some True"
proof -
  have rel: "run_rel hf s t" by (rule hash_reach_rel [OF assms])
  then obtain head where h: "head_rel hf s head" "ut_wf hf head" "ut_abs head = t" by (auto simp: run_rel_def)
  have "app_list (pt_hho s) (pt_mem s) (pt_head s) (pt_tail s) (HASH_ITER t) \<and> (t \<noteq> [] \<longrightarrow> pt_items s = HASH_COUNT t)"
  proof (cases head)
    case None
    then show ?thesis using h by (auto simp: head_rel_def ut_abs_def app_list_adll HASH_ITER_def)
  next
    case (Some T)
    then have T: "pt_rel s T" "table_ok hf T" "HASH_ITER t = map hh_elt (app_order T)" "HASH_COUNT t = length (app_order T)"
      using h by (auto simp: head_rel_def ut_abs_def HASH_ITER_def HASH_COUNT_def o_def)
    then show ?thesis
      by (auto simp: pt_rel_def table_ok_def table_inv_def app_rel_def app_list_adll same_counts_def)
  qed
  with run_step [OF rel] run_find_ptr [OF rel] HASH_FSCK_ok [OF h(1)] show ?thesis by meson
qed

definition null_table :: "string pt_table" where
  "null_table = \<lparr>pt_mem = (\<lambda>_. \<lparr>hp_prev = 0, hp_next = 0, hp_hh_prev = 0, hp_hh_next = 0, hp_hashv = 0\<rparr>), pt_key = (\<lambda>_. ''''),
     pt_head = 0, pt_hho = 8, pt_tail = 0, pt_buckets = [], pt_num_buckets = 0, pt_log2 = 0, pt_items = 0, pt_ideal = 0,
     pt_nonideal = 0, pt_ineff = 0, pt_noexpand = False\<rparr>"

theorem uthash_in_memory_witness:
  "\<exists>s. hash_reach (\<lambda>_. 5) s [(''a'', 100), (''b'', 200)] \<and> HASH_FIND_ptr (\<lambda>_. 5) ''b'' s = Some 200 \<and>
    HASH_FIND_ptr (\<lambda>_. 5) ''c'' s = Some 0 \<and> app_list (pt_hho s) (pt_mem s) (pt_head s) (pt_tail s) [100, 200] \<and>
    HASH_FSCK s = Some True"
proof -
  have "hash_reach (\<lambda>_. 5) null_table []" by (rule hash_reach.empty) (simp add: null_table_def)
  from hash_reach_next [OF this, of "Op_add ''b'' 200"] obtain s1 where "hash_reach (\<lambda>_. 5) s1 [(''b'', 200)]"
    by (auto simp: HASH_FIND_def HASH_ITER_def HASH_ADD_def)
  from hash_reach_next [OF this, of "Op_add_inorder (\<lambda>x y. int x - int y) ''a'' 100"] obtain s2
    where s2: "hash_reach (\<lambda>_. 5) s2 [(''a'', 100), (''b'', 200)]"
    by (auto simp: HASH_FIND_def HASH_ITER_def add_inorder_def)
  have ht: "HASH_FIND [(''a'', 100), (''b'', 200)] ''b'' = Some 200" "HASH_FIND [(''a'', 100), (''b'', 200)] ''c'' = None"
    "HASH_ITER [(''a'', 100), (''b'', 200)] = [100, 200]" by (simp_all add: HASH_FIND_def HASH_ITER_def)
  note r = uthash_in_memory [OF s2]
  have "HASH_FIND_ptr (\<lambda>_. 5) ''b'' s2 = Some (case HASH_FIND [(''a'', 100), (''b'', 200)] ''b'' of None \<Rightarrow> 0 | Some e \<Rightarrow> e)"
    "HASH_FIND_ptr (\<lambda>_. 5) ''c'' s2 = Some (case HASH_FIND [(''a'', 100), (''b'', 200)] ''c'' of None \<Rightarrow> 0 | Some e \<Rightarrow> e)"
    "app_list (pt_hho s2) (pt_mem s2) (pt_head s2) (pt_tail s2) (HASH_ITER [(''a'', 100), (''b'', 200)])"
    "HASH_FSCK s2 = Some True" using r by blast+
  then show ?thesis using s2 unfolding ht by auto
qed

end
