(* ===== verification/Uthash_select.thy ===== *)
theory Uthash_select
  imports Uthash_run
begin

text \<open>
  \<^verbatim>\<open>HASH_SELECT\<close> of \<^verbatim>\<open>src/src/include/uthash.h\<close>: the elements of one table that satisfy a condition are added to a
  second table through a second handle that every element has. Both tables live in the same memory: the handles of the
  source are at offset \<open>pt_hho src\<close> of their elements, those of the destination at \<open>pt_hho d\<close>.
\<close>

section \<open>The macro\<close>

text \<open>The body of its inner loop; \<open>last_elt\<close> and \<open>last_hh\<close> are \<^verbatim>\<open>_last_elt\<close> and \<^verbatim>\<open>_last_elt_hh\<close>.\<close>

definition sel_elt ::
  "(ptr \<Rightarrow> bool) \<Rightarrow> nat \<Rightarrow> (ptr \<Rightarrow> 'k) \<Rightarrow> ptr \<Rightarrow> ptr \<times> ptr \<times> 'k pt_table \<Rightarrow> (ptr \<times> ptr \<times> 'k pt_table) option"
where
  "sel_elt cond hho_src key_src src_hh st =
     (let (last_elt, last_hh, d) = st; elt = ELMT_FROM_HH hho_src src_hh in
      if cond elt then
        let dh = HH_FROM_ELMT (pt_hho d) elt; m = pt_mem d; hashv = hp_hashv (m src_hh);
            m1 = m(dh := (m dh)\<lparr>hp_hashv := hashv, hp_prev := last_elt, hp_next := 0\<rparr>);
            m2 = (if last_hh \<noteq> 0 then set_next last_hh elt m1 else m1);
            d1 = d\<lparr>pt_mem := m2, pt_key := (pt_key d)(dh := key_src src_hh)\<rparr>;
            d2 = (if pt_head d1 = 0 then HASH_MAKE_TABLE_ptr elt (d1\<lparr>pt_head := elt\<rparr>) else d1)
        in map_option (\<lambda>d3. (elt, dh, d3\<lparr>pt_items := pt_items d3 + 1\<rparr>))
             (HASH_ADD_TO_BKT_ptr (HASH_TO_BKT hashv (pt_num_buckets d2)) dh d2)
      else Some st)"

partial_function (option) sel_chain ::
  "(ptr \<Rightarrow> bool) \<Rightarrow> nat \<Rightarrow> (ptr \<Rightarrow> 'k) \<Rightarrow> ptr \<Rightarrow> ptr \<times> ptr \<times> 'k pt_table \<Rightarrow> (ptr \<times> ptr \<times> 'k pt_table) option"
where
  [code]: "sel_chain cond hho_src key_src src_hh st =
     (if src_hh \<noteq> 0
      then Option.bind (sel_elt cond hho_src key_src src_hh st) (\<lambda>st'.
             sel_chain cond hho_src key_src (hp_hh_next (pt_mem (snd (snd st')) src_hh)) st')
      else Some st)"

fun sel_buckets ::
  "(ptr \<Rightarrow> bool) \<Rightarrow> nat \<Rightarrow> (ptr \<Rightarrow> 'k) \<Rightarrow> pt_bucket list \<Rightarrow> ptr \<times> ptr \<times> 'k pt_table \<Rightarrow> (ptr \<times> ptr \<times> 'k pt_table) option"
where
  "sel_buckets cond hho_src key_src [] st = Some st"
| "sel_buckets cond hho_src key_src (b # bs) st =
     Option.bind (sel_chain cond hho_src key_src (hh_head b) st) (sel_buckets cond hho_src key_src bs)"

text \<open>The destination holds the memory both tables share.\<close>

definition HASH_SELECT :: "(ptr \<Rightarrow> bool) \<Rightarrow> 'k pt_table \<Rightarrow> 'k pt_table \<Rightarrow> 'k pt_table option" where
  "HASH_SELECT cond src d =
     (if pt_head src \<noteq> 0
      then map_option (\<lambda>(_, _, d'). d') (sel_buckets cond (pt_hho src) (pt_key src) (pt_buckets src) (0, 0, d))
      else Some d)"

section \<open>What it builds\<close>

lemma app_same_adll: "app_same m m' \<Longrightarrow> adll hho m' p x es q y \<longleftrightarrow> adll hho m p x es q y"
  by (simp add: app_same_def)

lemma fields_ok_same: "fields_ok s H \<Longrightarrow> app_same (pt_mem s) (pt_mem s') \<Longrightarrow> pt_hho s' = pt_hho s \<Longrightarrow> pt_key s' = pt_key s \<Longrightarrow> fields_ok s' H"
  by (simp add: fields_ok_def app_same_def)

lemma chained_same:
  "chained s H \<Longrightarrow> bkt_same (pt_mem s) (pt_mem s') \<Longrightarrow> pt_hho s' = pt_hho s \<Longrightarrow> pt_buckets s' = pt_buckets s \<Longrightarrow>
    pt_num_buckets s' = pt_num_buckets s \<Longrightarrow> chained s' H"
  unfolding chained_def using bkts_rel_same by fastforce

lemma chained_make_table: "chained (HASH_MAKE_TABLE_ptr e s) {}"
  unfolding chained_def HASH_MAKE_TABLE_ptr_def
  by (intro exI [of _ "replicate 32 empty_bucket"]) (simp add: empty_bkts_rel chains_wf_empty)

text \<open>
  The table built from the handles \<open>sel\<close>, in this order. \<^verbatim>\<open>HASH_MAKE_TABLE\<close> sets the tail to the first element, and
  nothing in \<^verbatim>\<open>HASH_SELECT\<close> moves it.
\<close>

definition sel_list :: "'k pt_table \<Rightarrow> ('k, ptr) ut_handle list \<Rightarrow> ptr \<Rightarrow> bool" where
  "sel_list d sel last_elt \<longleftrightarrow> fields_ok d (set sel) \<and> adll (pt_hho d) (pt_mem d) 0 (pt_head d) (map hh_elt sel) last_elt 0 \<and>
     (sel \<noteq> [] \<longrightarrow> pt_tail d = handle_of (pt_hho d) (hd sel) \<and> pt_items d = length sel \<and> chained d (set sel))"

definition sel_inv :: "hh_mem \<Rightarrow> ptr set \<Rightarrow> nat \<Rightarrow> ('k, ptr) ut_handle list \<Rightarrow> ptr \<times> ptr \<times> 'k pt_table \<Rightarrow> bool" where
  "sel_inv m0 E hho sel st \<longleftrightarrow> (case st of (last_elt, last_hh, d) \<Rightarrow>
     pt_hho d = hho \<and> last_hh = (if sel = [] then 0 else HH_FROM_ELMT hho last_elt) \<and> sel_list d sel last_elt \<and>
     (\<forall>a. a \<notin> HH_FROM_ELMT hho ` E \<longrightarrow> pt_mem d a = m0 a))"

text \<open>The new handle is linked behind the last one.\<close>

lemma sel_link:
  assumes inv: "sel_list d sel last_elt" and dist: "distinct (map hh_elt sel)" and new: "hh_elt h \<notin> hh_elt ` set sel"
    and nz: "hh_elt h \<noteq> 0" and hh: "last_hh = (if sel = [] then 0 else HH_FROM_ELMT (pt_hho d) last_elt)"
    and dh: "dh = handle_of (pt_hho d) h"
    and m1: "m1 = (pt_mem d)(dh := (pt_mem d dh)\<lparr>hp_hashv := hh_hashv h, hp_prev := last_elt, hp_next := 0\<rparr>)"
    and m2: "m2 = (if last_hh \<noteq> 0 then set_next last_hh (hh_elt h) m1 else m1)"
    and d1: "d1 = d\<lparr>pt_mem := m2, pt_key := (pt_key d)(dh := hh_key h)\<rparr>"
  shows "adll (pt_hho d) m2 0 (if sel = [] then hh_elt h else pt_head d) (map hh_elt (sel @ [h])) (hh_elt h) 0"
    "fields_ok d1 (set (sel @ [h]))" "bkt_same (pt_mem d) m2"
    "a \<noteq> dh \<Longrightarrow> a \<notin> HH_FROM_ELMT (pt_hho d) ` hh_elt ` set sel \<Longrightarrow> m2 a = pt_mem d a"
proof -
  let ?hho = "pt_hho d"
  let ?E = "map hh_elt sel"
  have app: "adll ?hho (pt_mem d) 0 (pt_head d) (?E @ []) last_elt 0" and fo: "fields_ok d (set sel)"
    using inv by (simp_all add: sel_list_def)
  have le: "last_elt = (if ?E = [] then 0 else last ?E)" using dll_ends [OF app] by simp
  have lnz: "sel \<noteq> [] \<Longrightarrow> last_elt \<noteq> 0" using dll_last_nz [OF app] le by auto
  have last_hh: "last_hh \<noteq> 0 \<longleftrightarrow> sel \<noteq> []" using hh lnz by (auto simp: HH_FROM_ELMT_def)
  have m2': "m2 = (if sel \<noteq> [] then set_next (HH_FROM_ELMT ?hho last_elt) (hh_elt h) m1 else m1)"
    using m2 last_hh hh by (cases "sel = []") simp_all
  have new': "hh_elt h \<notin> set ?E" using new by simp
  have lnew: "sel \<noteq> [] \<Longrightarrow> last_elt \<noteq> hh_elt h" using le new' last_in_set [of ?E] by (metis map_is_Nil_conv)
  have nx: "hp_next (m2 (HH_FROM_ELMT ?hho e)) = (if e = hh_elt h then 0 else if sel \<noteq> [] \<and> e = last_elt then hh_elt h
      else hp_next (pt_mem d (HH_FROM_ELMT ?hho e)))" for e
    using lnew by (auto simp: m2' m1 dh handle_of_def)
  have pv: "hp_prev (m2 (HH_FROM_ELMT ?hho e)) = (if e = hh_elt h then last_elt else hp_prev (pt_mem d (HH_FROM_ELMT ?hho e)))" for e
    by (auto simp: m2' m1 dh handle_of_def)
  have "adll ?hho m2 0 (if ?E = [] then hh_elt h else pt_head d) (?E @ hh_elt h # []) (if ([] :: ptr list) = [] then hh_elt h else last_elt) 0"
    by (rule dll_insert [OF app, where r = last_elt and z = 0])
      (use dist new' nz le dll_nonnull [OF app] in \<open>auto simp: nx pv simp del: set_map\<close>)
  then show "adll ?hho m2 0 (if sel = [] then hh_elt h else pt_head d) (map hh_elt (sel @ [h])) (hh_elt h) 0" by simp
  have hv: "hp_hashv (m2 a) = (if a = dh then hh_hashv h else hp_hashv (pt_mem d a))" for a by (simp add: m2' m1)
  have fresh: "handle_of ?hho g \<noteq> dh" if "g \<in> set sel" for g
    using new that unfolding dh handle_of_eq by (metis imageI)
  then show "fields_ok d1 (set (sel @ [h]))"
    using fo nz by (auto simp: fields_ok_def d1 hv dh)
  show "bkt_same (pt_mem d) m2" by (simp add: m2' m1) (simp add: bkt_same_def)
  show "m2 a = pt_mem d a" if "a \<noteq> dh" "a \<notin> HH_FROM_ELMT ?hho ` hh_elt ` set sel"
  proof -
    have "sel \<noteq> [] \<Longrightarrow> last_elt \<in> hh_elt ` set sel" using le last_in_set [of ?E] by (metis map_is_Nil_conv set_map)
    then show ?thesis using that by (auto simp: m2' m1 set_next_def)
  qed
qed

lemma same_list_sel:
  assumes "same_list d2 d3" and "app_same (pt_mem d2) (pt_mem d3)" and "fields_ok d2 H"
  shows "pt_head d3 = pt_head d2" "pt_tail d3 = pt_tail d2" "pt_hho d3 = pt_hho d2" "pt_items d3 = pt_items d2" "fields_ok d3 H"
  using assms fields_ok_same [OF assms(3,2)] by (simp_all add: same_list_def)

lemma sel_elt_ok:
  assumes inv: "sel_inv m0 E hho sel (last_elt, last_hh, d)" and dist: "distinct (map hh_elt sel)" and new: "hh_elt h \<notin> hh_elt ` set sel"
    and E: "hh_elt ` set sel \<subseteq> E" "hh_elt h \<in> E" and nz: "hh_elt h \<noteq> 0"
    and src: "hp_hashv (m0 (handle_of hho_src h)) = hh_hashv h" "key_src (handle_of hho_src h) = hh_key h"
    and apart: "handle_of hho_src h \<notin> HH_FROM_ELMT hho ` E"
  shows "\<exists>st'. sel_elt cond hho_src key_src (handle_of hho_src h) (last_elt, last_hh, d) = Some st' \<and>
    sel_inv m0 E hho (sel @ (if cond (hh_elt h) then [h] else [])) st'"
proof (cases "cond (hh_elt h)")
  case False
  then show ?thesis using inv by (simp add: sel_elt_def handle_of_def)
next
  case True
  define dh where "dh = handle_of (pt_hho d) h"
  define m1 where "m1 = (pt_mem d)(dh := (pt_mem d dh)\<lparr>hp_hashv := hh_hashv h, hp_prev := last_elt, hp_next := 0\<rparr>)"
  define m2 where "m2 = (if last_hh \<noteq> 0 then set_next last_hh (hh_elt h) m1 else m1)"
  define d1 where "d1 = d\<lparr>pt_mem := m2, pt_key := (pt_key d)(dh := hh_key h)\<rparr>"
  define d2 where "d2 = (if pt_head d1 = 0 then HASH_MAKE_TABLE_ptr (hh_elt h) (d1\<lparr>pt_head := hh_elt h\<rparr>) else d1)"
  have hho: "pt_hho d = hho" and hh: "last_hh = (if sel = [] then 0 else HH_FROM_ELMT (pt_hho d) last_elt)" and sl: "sel_list d sel last_elt"
    and out: "\<forall>a. a \<notin> HH_FROM_ELMT hho ` E \<longrightarrow> pt_mem d a = m0 a" using inv by (auto simp: sel_inv_def)
  note link = sel_link [OF sl dist new nz hh dh_def m1_def m2_def d1_def]
  have head: "pt_head d = 0 \<longleftrightarrow> sel = []" using sl dll_head [of _ _ _ "pt_head d" "map hh_elt sel"] by (auto simp: sel_list_def)
  have d2: "pt_mem d2 = m2" "pt_hho d2 = hho" "pt_key d2 = pt_key d1" "pt_head d2 = (if sel = [] then hh_elt h else pt_head d)"
    "pt_tail d2 = (if sel = [] then dh else pt_tail d)" "pt_items d2 = (if sel = [] then 0 else length sel)"
    using hho head sl by (simp_all add: d2_def d1_def HASH_MAKE_TABLE_ptr_def sel_list_def dh_def handle_of_def)
  have ch: "chained d2 (set sel)"
  proof (cases "sel = []")
    case True
    then show ?thesis using head chained_make_table by (simp add: d2_def d1_def)
  next
    case False
    then have "chained d (set sel)" using sl by (simp add: sel_list_def)
    then show ?thesis by (rule chained_same) (use link(3) False head in \<open>simp_all add: d2_def d1_def\<close>)
  qed
  have fo: "fields_ok d2 (insert h (set sel))"
    using link(2) d2(2) hho by (simp add: fields_ok_def d2) (simp add: d1_def)
  have dh: "handle_of hho h = dh" by (simp add: dh_def hho)
  from add_to_bkt_chained [OF ch new fo refl] obtain d3 where
    d3: "HASH_ADD_TO_BKT_ptr (HASH_TO_BKT (hh_hashv h) (pt_num_buckets d2)) dh d2 = Some d3" "chained d3 (insert h (set sel))"
      "outside_same hho (insert h (set sel)) m2 (pt_mem d3)" "same_list d2 d3"
    unfolding d2(1,2) dh by (elim exE conjE)
  have as: "app_same m2 (pt_mem d3)" using d3(3) by (simp add: outside_same_def)
  note s3 = same_list_sel [OF d3(4), unfolded d2(1), OF as fo]
  let ?d = "d3\<lparr>pt_items := pt_items d3 + 1\<rparr>"
  have mem_src: "pt_mem d (handle_of hho_src h) = m0 (handle_of hho_src h)" using out apart by simp
  have elt: "ELMT_FROM_HH hho_src (handle_of hho_src h) = hh_elt h" by (simp add: handle_of_def)
  have "sel_elt cond hho_src key_src (handle_of hho_src h) (last_elt, last_hh, d) =
      map_option (\<lambda>d3. (hh_elt h, dh, d3\<lparr>pt_items := pt_items d3 + 1\<rparr>))
        (HASH_ADD_TO_BKT_ptr (HASH_TO_BKT (hh_hashv h) (pt_num_buckets d2)) dh d2)"
    unfolding d2_def d1_def m2_def m1_def dh_def handle_of_def [of "pt_hho d"] sel_elt_def Let_def split_conv elt mem_src src
      if_P [OF True] ..
  then have "sel_elt cond hho_src key_src (handle_of hho_src h) (last_elt, last_hh, d) = Some (hh_elt h, dh, ?d)"
    using d3(1) by simp
  moreover have "sel_inv m0 E hho (sel @ [h]) (hh_elt h, dh, ?d)"
    unfolding sel_inv_def split_conv
  proof (intro conjI allI impI)
    show "pt_hho ?d = hho" using s3(3) d2(2) by simp
    show "dh = (if sel @ [h] = [] then 0 else HH_FROM_ELMT hho (hh_elt h))" by (simp add: dh_def hho handle_of_def)
    have "adll hho (pt_mem d3) 0 (pt_head d3) (map hh_elt (sel @ [h])) (hh_elt h) 0"
      using link(1) app_same_adll [OF as] s3(1) d2(4) hho by simp
    moreover have "fields_ok ?d (set (sel @ [h]))" using s3(5) by (simp add: fields_ok_def)
    moreover have "pt_tail ?d = handle_of hho (hd (sel @ [h]))"
      using s3(2) d2(5) sl hho by (cases sel) (simp_all add: dh_def sel_list_def)
    moreover have "pt_items ?d = length (sel @ [h])" using s3(4) d2(6) by simp
    moreover have "chained ?d (set (sel @ [h]))" using d3(2) by (simp add: chained_def)
    ultimately show "sel_list ?d (sel @ [h]) (hh_elt h)" using s3(3) d2(2) by (simp add: sel_list_def)
    fix a assume a: "a \<notin> HH_FROM_ELMT hho ` E"
    have ne: "a \<noteq> dh" "a \<notin> HH_FROM_ELMT hho ` hh_elt ` set sel" using a E by (auto simp: dh_def hho handle_of_def)
    then have "a \<notin> handle_of hho ` insert h (set sel)" by (auto simp: dh_def hho handle_of_def)
    then show "pt_mem ?d a = m0 a" using d3(3) link(4) [of a] ne out a by (simp add: outside_same_def hho)
  qed
  ultimately show ?thesis using True by auto
qed

lemma sel_chain_ok:
  assumes "sel_inv m0 E hho sel st" and "spath m0 x (map (handle_of hho_src) hs)" and "distinct (map hh_elt (sel @ hs))"
    and "hh_elt ` set (sel @ hs) \<subseteq> E" and "\<forall>h \<in> set hs. handle_of hho_src h \<notin> HH_FROM_ELMT hho ` E \<and> hh_elt h \<noteq> 0 \<and>
      hp_hashv (m0 (handle_of hho_src h)) = hh_hashv h \<and> key_src (handle_of hho_src h) = hh_key h"
  shows "\<exists>st'. sel_chain cond hho_src key_src x st = Some st' \<and> sel_inv m0 E hho (sel @ filter (\<lambda>h. cond (hh_elt h)) hs) st'"
  using assms
proof (induction hs arbitrary: sel st x)
  case Nil
  then show ?case by (subst sel_chain.simps) simp
next
  case (Cons h hs)
  obtain last_elt last_hh d where st: "st = (last_elt, last_hh, d)" by (metis prod.exhaust)
  have x: "x = handle_of hho_src h" "x \<noteq> 0" "spath m0 (hp_hh_next (m0 x)) (map (handle_of hho_src) hs)" using Cons.prems(2) by auto
  let ?sel = "sel @ (if cond (hh_elt h) then [h] else [])"
  have new: "hh_elt h \<notin> hh_elt ` set sel" "distinct (map hh_elt sel)" using Cons.prems(3) by auto
  have sub: "hh_elt ` set sel \<subseteq> E" "hh_elt h \<in> E" using Cons.prems(4) by auto
  have h: "hh_elt h \<noteq> 0" "hp_hashv (m0 (handle_of hho_src h)) = hh_hashv h" "key_src (handle_of hho_src h) = hh_key h"
    "handle_of hho_src h \<notin> HH_FROM_ELMT hho ` E" using Cons.prems(5) by simp_all
  obtain st' where st': "sel_elt cond hho_src key_src x st = Some st'" "sel_inv m0 E hho ?sel st'"
    using sel_elt_ok [where key_src = key_src and h = h, OF Cons.prems(1) [unfolded st] new(2,1) sub h, of cond] unfolding st x(1) by blast
  have "pt_mem (snd (snd st')) x = m0 x" using st'(2) Cons.prems(5) x(1) by (cases st') (auto simp: sel_inv_def)
  then have step: "sel_chain cond hho_src key_src x st = sel_chain cond hho_src key_src (hp_hh_next (m0 x)) st'"
    using x(2) st'(1) by (subst sel_chain.simps) simp
  have "distinct (map hh_elt (?sel @ hs))" "hh_elt ` set (?sel @ hs) \<subseteq> E" using Cons.prems(3,4) by auto
  from Cons.IH [OF st'(2) x(3) this] Cons.prems(5) show ?case unfolding step by (cases "cond (hh_elt h)") simp_all
qed

lemma distinct_map_filter_mid: "distinct (map f (xs @ ys @ zs)) \<Longrightarrow> distinct (map f (xs @ filter P ys @ zs))"
  unfolding distinct_map by (auto elim: inj_on_subset)

lemma sel_buckets_ok:
  assumes "list_all2 (\<lambda>b B. spath m0 (hh_head b) (map (handle_of hho_src) (bk_chain B))) bs BS"
    and "sel_inv m0 E hho sel st" and "distinct (map hh_elt (sel @ concat (map bk_chain BS)))"
    and "hh_elt ` set (sel @ concat (map bk_chain BS)) \<subseteq> E"
    and "\<forall>B \<in> set BS. \<forall>h \<in> set (bk_chain B). handle_of hho_src h \<notin> HH_FROM_ELMT hho ` E \<and> hh_elt h \<noteq> 0 \<and>
      hp_hashv (m0 (handle_of hho_src h)) = hh_hashv h \<and> key_src (handle_of hho_src h) = hh_key h"
  shows "\<exists>st'. sel_buckets cond hho_src key_src bs st = Some st' \<and>
    sel_inv m0 E hho (sel @ filter (\<lambda>h. cond (hh_elt h)) (concat (map bk_chain BS))) st'"
  using assms
proof (induction BS arbitrary: bs sel st rule: list.induct)
  case Nil
  then show ?case by simp
next
  case (Cons B BS)
  obtain b bs' where bs: "bs = b # bs'" "spath m0 (hh_head b) (map (handle_of hho_src) (bk_chain B))"
    "list_all2 (\<lambda>b B. spath m0 (hh_head b) (map (handle_of hho_src) (bk_chain B))) bs' BS"
    using Cons.prems(1) by (auto simp: list_all2_Cons2)
  let ?f = "filter (\<lambda>h. cond (hh_elt h))"
  have "distinct (map hh_elt (sel @ bk_chain B))" "hh_elt ` set (sel @ bk_chain B) \<subseteq> E"
    using Cons.prems(3,4) by (auto simp: image_Un)
  moreover have "\<forall>h \<in> set (bk_chain B). handle_of hho_src h \<notin> HH_FROM_ELMT hho ` E \<and> hh_elt h \<noteq> 0 \<and>
      hp_hashv (m0 (handle_of hho_src h)) = hh_hashv h \<and> key_src (handle_of hho_src h) = hh_key h"
    using Cons.prems(5) by simp
  ultimately obtain st' where st': "sel_chain cond hho_src key_src (hh_head b) st = Some st'" "sel_inv m0 E hho (sel @ ?f (bk_chain B)) st'"
    using sel_chain_ok [OF Cons.prems(2) bs(2), where key_src = key_src and cond = cond] by blast
  have "distinct (map hh_elt ((sel @ ?f (bk_chain B)) @ concat (map bk_chain BS)))"
    using distinct_map_filter_mid [OF Cons.prems(3) [unfolded list.map concat.simps]] unfolding append_assoc .
  moreover have "hh_elt ` set ((sel @ ?f (bk_chain B)) @ concat (map bk_chain BS)) \<subseteq> E" using Cons.prems(4) by auto
  ultimately obtain st'' where "sel_buckets cond hho_src key_src bs' st' = Some st''"
    "sel_inv m0 E hho ((sel @ ?f (bk_chain B)) @ ?f (concat (map bk_chain BS))) st''"
    using Cons.IH [OF bs(3) st'(2)] Cons.prems(5) by auto
  then show ?case using st'(1) bs(1) by simp
qed

lemma fsck_chained:
  assumes "chained s (set hs)" and "adll (pt_hho s) (pt_mem s) 0 (pt_head s) (map hh_elt hs) q 0" and "distinct hs"
    and "pt_items s = length hs"
  shows "HASH_FSCK s = Some True"
proof (cases "hs = []")
  case True
  then show ?thesis using assms(2) by (simp add: HASH_FSCK_def)
next
  case False
  then have head: "pt_head s \<noteq> 0" using assms(2) dll_head by fastforce
  obtain BS where bks: "list_all2 (bkt_rel (pt_hho s) (pt_mem s)) (pt_buckets s) BS" and wf: "chains_wf (pt_num_buckets s) (set hs) BS"
    using assms(1) by (auto simp: chained_def)
  have "\<forall>B \<in> set BS. bk_count B = length (bk_chain B)" using wf by (simp add: chains_wf_def)
  then have "fsck_buckets (pt_mem s) (pt_buckets s) 0 = Some (Some (pt_items s))"
    using fsck_buckets_ok [OF bks, of 0] chains_wf_count [OF wf] distinct_card [OF assms(3)] assms(4) by simp
  then show ?thesis using fsck_app_ok [OF assms(2), of 0] head assms(4) by (simp add: HASH_FSCK_def)
qed

text \<open>A table depends on the memory of its own handles only.\<close>

lemma bkt_rel_mem:
  "bkt_rel hho m0 b B \<Longrightarrow> (\<And>h. h \<in> set (bk_chain B) \<Longrightarrow> m (handle_of hho h) = m0 (handle_of hho h)) \<Longrightarrow> bkt_rel hho m b B"
  unfolding bkt_rel_def by (subst dll_cong [of _ _ "\<lambda>h. hp_hh_next (m0 h)" _ "\<lambda>h. hp_hh_prev (m0 h)"]) auto

lemma pt_rel_mem:
  assumes rel: "pt_rel s T" and ok: "table_ok hf T"
    and same: "\<And>h. h \<in> set (app_order T) \<Longrightarrow> m (handle_of (pt_hho s) h) = pt_mem s (handle_of (pt_hho s) h)"
  shows "pt_rel (s\<lparr>pt_mem := m\<rparr>) T"
proof -
  have wf: "chains_wf (num_buckets T) (set (app_order T)) (buckets T)" using ok by (simp add: table_ok_def)
  have un: "(\<Union>B \<in> set (buckets T). set (bk_chain B)) = set (app_order T)"
    using wf by (intro chains_ok_Union [of "num_buckets T"]) (simp_all add: chains_wf_def)
  have "app_rel (s\<lparr>pt_mem := m\<rparr>) (app_order T)"
  proof -
    have "adll (pt_hho s) m 0 (pt_head s) (map hh_elt (app_order T)) q 0 \<longleftrightarrow>
        adll (pt_hho s) (pt_mem s) 0 (pt_head s) (map hh_elt (app_order T)) q 0" for q
      by (rule dll_cong) (use same in \<open>auto simp: handle_of_def\<close>)
    then show ?thesis using rel same by (simp add: pt_rel_def app_rel_def)
  qed
  moreover have "list_all2 (bkt_rel (pt_hho s) m) (pt_buckets s) (buckets T)"
    using rel unfolding pt_rel_def
    by (elim conjE list.rel_mono_strong) (rule bkt_rel_mem, assumption, rule same, use un in blast)
  ultimately show ?thesis using rel by (simp add: pt_rel_def same_counts_def)
qed

text \<open>Elements that occur in the chains of a table, in the order in which \<^verbatim>\<open>HASH_SELECT\<close> meets them.\<close>

definition chain_elts :: "('k, ptr) ut_table \<Rightarrow> ('k, ptr) ut_handle list" where
  "chain_elts T = concat (map bk_chain (buckets T))"

text \<open>The handles at the two offsets are different pieces of memory.\<close>

definition handles_apart :: "nat \<Rightarrow> nat \<Rightarrow> ptr set \<Rightarrow> bool" where
  "handles_apart hho hho' E \<longleftrightarrow> HH_FROM_ELMT hho ` E \<inter> HH_FROM_ELMT hho' ` E = {}"

lemma HASH_SELECT_ok:
  assumes rel: "pt_rel src T" and ok: "table_ok hf T" and mem: "pt_mem d = pt_mem src" and empty: "pt_head d = 0"
    and apart: "handles_apart (pt_hho src) (pt_hho d) (hh_elt ` set (app_order T))"
    and sel: "sel = filter (\<lambda>h. cond (hh_elt h)) (chain_elts T)"
  shows "\<exists>d' q. HASH_SELECT cond src d = Some d' \<and> sel_list d' sel q \<and> pt_hho d' = pt_hho d \<and> pt_rel (src\<lparr>pt_mem := pt_mem d'\<rparr>) T"
proof -
  let ?E = "hh_elt ` set (app_order T)" and ?m = "pt_mem src"
  have app: "app_rel src (app_order T)" and bks: "list_all2 (bkt_rel (pt_hho src) ?m) (pt_buckets src) (buckets T)"
    using rel by (simp_all add: pt_rel_def)
  have wf: "chains_wf (num_buckets T) (set (app_order T)) (buckets T)" using ok by (simp add: table_ok_def)
  have un: "set (chain_elts T) = set (app_order T)"
    using wf chains_ok_Union [of "num_buckets T" "set (app_order T)" "buckets T"] by (simp add: chains_wf_def chain_elts_def)
  have sp: "list_all2 (\<lambda>b B. spath ?m (hh_head b) (map (handle_of (pt_hho src)) (bk_chain B))) (pt_buckets src) (buckets T)"
    using bks by (rule list_all2_mono) (auto simp: bkt_rel_def intro: dll_spath)
  have inv: "sel_inv ?m ?E (pt_hho d) [] (0, 0, d)" using empty mem by (simp add: sel_inv_def sel_list_def fields_ok_def)
  have dist: "distinct (map hh_elt ([] @ concat (map bk_chain (buckets T))))"
    using chains_wf_concat [OF wf] by (simp add: map_concat o_def)
  have sub: "hh_elt ` set ([] @ concat (map bk_chain (buckets T))) \<subseteq> ?E" using un by (simp add: chain_elts_def)
  have fields: "\<forall>B \<in> set (buckets T). \<forall>h \<in> set (bk_chain B). handle_of (pt_hho src) h \<notin> HH_FROM_ELMT (pt_hho d) ` ?E \<and>
      hh_elt h \<noteq> 0 \<and> hp_hashv (?m (handle_of (pt_hho src) h)) = hh_hashv h \<and> pt_key src (handle_of (pt_hho src) h) = hh_key h"
  proof (intro ballI)
    fix B h assume "B \<in> set (buckets T)" "h \<in> set (bk_chain B)"
    then have h: "h \<in> set (app_order T)" unfolding un [symmetric] by (auto simp: chain_elts_def)
    then have "handle_of (pt_hho src) h \<in> HH_FROM_ELMT (pt_hho src) ` ?E" by (simp add: handle_of_def)
    then show "handle_of (pt_hho src) h \<notin> HH_FROM_ELMT (pt_hho d) ` ?E \<and> hh_elt h \<noteq> 0 \<and>
        hp_hashv (?m (handle_of (pt_hho src) h)) = hh_hashv h \<and> pt_key src (handle_of (pt_hho src) h) = hh_key h"
      using apart h app app_rel_nz [OF app h] by (auto simp: handles_apart_def app_rel_def)
  qed
  obtain q q' d' where st: "sel_buckets cond (pt_hho src) (pt_key src) (pt_buckets src) (0, 0, d) = Some (q, q', d')"
    "sel_inv ?m ?E (pt_hho d) sel (q, q', d')"
    using sel_buckets_ok [OF sp inv dist sub fields, of cond] unfolding append.append_Nil chain_elts_def [symmetric] sel [symmetric]
    by (metis prod_cases3)
  have src: "pt_head src \<noteq> 0" using app ok dll_head by (fastforce simp: app_rel_def table_ok_def table_inv_def)
  have same: "pt_mem d' a = ?m a" if "a \<in> HH_FROM_ELMT (pt_hho src) ` ?E" for a
    using st(2) apart that unfolding sel_inv_def handles_apart_def split_conv by (metis disjoint_iff)
  have "pt_rel (src\<lparr>pt_mem := pt_mem d'\<rparr>) T"
    by (rule pt_rel_mem [OF rel ok]) (simp add: same handle_of_def)
  then show ?thesis using st src by (intro exI [of _ d'] exI [of _ q]) (simp add: HASH_SELECT_def sel_inv_def)
qed

lemma find_chained:
  assumes ch: "chained s H" and fo: "fields_ok s H" and head: "pt_head s \<noteq> 0"
  shows "\<exists>r. HASH_FIND_BYHASHVALUE k v s = Some r \<and> (r = 0 \<longleftrightarrow> \<not> (\<exists>h \<in> H. hh_key h = k \<and> hh_hashv h = v)) \<and>
    (r \<noteq> 0 \<longrightarrow> (\<exists>h \<in> H. hh_key h = k \<and> hh_hashv h = v \<and> hh_elt h = r))"
proof -
  obtain BS where bks: "list_all2 (bkt_rel (pt_hho s) (pt_mem s)) (pt_buckets s) BS" and wf: "chains_wf (pt_num_buckets s) H BS"
    using ch by (auto simp: chained_def)
  let ?i = "HASH_TO_BKT v (pt_num_buckets s)"
  let ?C = "bk_chain (BS ! ?i)"
  have i: "?i < pt_num_buckets s" using wf by (intro HASH_TO_BKT_less) (simp add: chains_wf_def)
  then obtain q where q: "bdll (pt_mem s) 0 (hh_head (pt_buckets s ! ?i)) (map (handle_of (pt_hho s)) ?C) q 0"
    using bks chains_wf_length [OF wf] by (auto simp: list_all2_conv_all_nth bkt_rel_def)
  have C: "set ?C = {h \<in> H. HASH_TO_BKT (hh_hashv h) (pt_num_buckets s) = ?i}" by (rule chains_wf_set [OF wf i])
  then have "\<forall>h \<in> set ?C. hh_elt h \<noteq> 0 \<and> hp_hashv (pt_mem s (handle_of (pt_hho s) h)) = hh_hashv h \<and>
      pt_key s (handle_of (pt_hho s) h) = hh_key h" using fo by (simp add: fields_ok_def)
  then have find: "HASH_FIND_BYHASHVALUE k v s = Some (case HASH_FIND_IN_BKT ?C k v of None \<Rightarrow> 0 | Some e \<Rightarrow> e)"
    using find_loop_ok [OF q, of "pt_key s" k v] head by (simp add: HASH_FIND_BYHASHVALUE_def)
  show ?thesis
  proof (cases "HASH_FIND_IN_BKT ?C k v")
    case None
    then have "\<not> (\<exists>h \<in> H. hh_key h = k \<and> hh_hashv h = v)" using C HASH_FIND_IN_BKT_None [of ?C k v] by blast
    then show ?thesis using find None by simp
  next
    case (Some e)
    then obtain h where h: "h \<in> H" "hh_hashv h = v" "hh_key h = k" "hh_elt h = e" using HASH_FIND_IN_BKT_Some C by fastforce
    then have "e \<noteq> 0" using fo by (auto simp: fields_ok_def)
    then show ?thesis using find Some h by auto
  qed
qed

text \<open>
  What \<^verbatim>\<open>HASH_SELECT\<close> builds, from a table and an empty destination: the destination holds exactly the selected
  elements, in the order of the chains of the source, linked in both directions and found by their keys, with the right
  number of items, and the source is unchanged. The check \<^verbatim>\<open>HASH_FSCK\<close>, with which the macro ends, passes. But the tail of the new table is
  its first element.
\<close>

theorem hash_select_result:
  assumes rel: "pt_rel src T" and ok: "table_ok hf T" and mem: "pt_mem d = pt_mem src" and empty: "pt_head d = 0"
    and apart: "handles_apart (pt_hho src) (pt_hho d) (hh_elt ` set (app_order T))"
    and es: "es = filter cond (map hh_elt (chain_elts T))"
  shows "\<exists>d'. HASH_SELECT cond src d = Some d' \<and> pt_rel (src\<lparr>pt_mem := pt_mem d'\<rparr>) T \<and> HASH_FSCK d' = Some True \<and>
    (es \<noteq> [] \<longrightarrow> app_list (pt_hho d) (pt_mem d') (pt_head d') (HH_FROM_ELMT (pt_hho d) (last es)) es \<and>
       pt_items d' = length es \<and> pt_tail d' = HH_FROM_ELMT (pt_hho d) (hd es) \<and>
       (\<forall>k. \<exists>r. HASH_FIND_ptr hf k d' = Some r \<and> (r \<noteq> 0 \<longleftrightarrow> (\<exists>h \<in> set (app_order T). hh_key h = k \<and> cond (hh_elt h))) \<and>
         (r \<noteq> 0 \<longrightarrow> (\<exists>h \<in> set (app_order T). hh_key h = k \<and> cond (hh_elt h) \<and> hh_elt h = r))))"
proof -
  define sel where "sel = filter (\<lambda>h. cond (hh_elt h)) (chain_elts T)"
  obtain d' q where d': "HASH_SELECT cond src d = Some d'" "sel_list d' sel q" "pt_hho d' = pt_hho d" "pt_rel (src\<lparr>pt_mem := pt_mem d'\<rparr>) T"
    using HASH_SELECT_ok [OF rel ok mem empty apart sel_def] by blast
  have wf: "chains_wf (num_buckets T) (set (app_order T)) (buckets T)" and hv: "\<forall>h \<in> set (app_order T). hh_hashv h = hf (hh_key h)"
    using ok unfolding table_ok_def table_inv_def by blast+
  have un: "set (chain_elts T) = set (app_order T)"
    using wf chains_ok_Union [of "num_buckets T" "set (app_order T)" "buckets T"] by (simp add: chains_wf_def chain_elts_def)
  have dist: "distinct (map hh_elt sel)"
    using chains_wf_concat [OF wf] unfolding sel_def chain_elts_def by (simp add: map_concat o_def distinct_map_filter)
  have es': "es = map hh_elt sel" by (simp add: es sel_def filter_map o_def)
  have ad: "adll (pt_hho d') (pt_mem d') 0 (pt_head d') (map hh_elt sel) q 0" using d'(2) by (simp add: sel_list_def)
  show ?thesis
  proof (cases "sel = []")
    case True
    then have "pt_head d' = 0" using ad by simp
    then show ?thesis using d' es' True by (intro exI [of _ d']) (simp add: HASH_FSCK_def)
  next
    case False
    have sl: "pt_tail d' = handle_of (pt_hho d') (hd sel)" "pt_items d' = length sel" "chained d' (set sel)" "fields_ok d' (set sel)"
      using d'(2) False by (simp_all add: sel_list_def)
    have head: "pt_head d' \<noteq> 0" using dll_head [OF ad] False by simp
    have "app_list (pt_hho d') (pt_mem d') (pt_head d') (HH_FROM_ELMT (pt_hho d') (last es)) es"
      using ad dll_ends [OF ad] dist False unfolding app_list_adll es' by auto
    moreover have "HASH_FSCK d' = Some True"
      by (rule fsck_chained [OF sl(3) ad]) (use dist sl(2) in \<open>simp_all add: distinct_map\<close>)
    moreover have "\<exists>r. HASH_FIND_ptr hf k d' = Some r \<and> (r \<noteq> 0 \<longleftrightarrow> (\<exists>h \<in> set (app_order T). hh_key h = k \<and> cond (hh_elt h))) \<and>
         (r \<noteq> 0 \<longrightarrow> (\<exists>h \<in> set (app_order T). hh_key h = k \<and> cond (hh_elt h) \<and> hh_elt h = r))" for k
    proof -
      obtain r where r: "HASH_FIND_BYHASHVALUE k (hf k) d' = Some r" "r = 0 \<longleftrightarrow> \<not> (\<exists>h \<in> set sel. hh_key h = k \<and> hh_hashv h = hf k)"
        "r \<noteq> 0 \<longrightarrow> (\<exists>h \<in> set sel. hh_key h = k \<and> hh_hashv h = hf k \<and> hh_elt h = r)"
        using find_chained [OF sl(3,4) head, of k "hf k"] by (elim exE conjE)
      have mem: "h \<in> set sel \<longleftrightarrow> h \<in> set (app_order T) \<and> cond (hh_elt h)" for h using un by (auto simp: sel_def)
      show ?thesis
      proof (intro exI [of _ r] conjI)
        show "HASH_FIND_ptr hf k d' = Some r" using r(1) head by (simp add: HASH_FIND_ptr_def)
        show "r \<noteq> 0 \<longleftrightarrow> (\<exists>h \<in> set (app_order T). hh_key h = k \<and> cond (hh_elt h))" using r(2) mem hv by blast
        show "r \<noteq> 0 \<longrightarrow> (\<exists>h \<in> set (app_order T). hh_key h = k \<and> cond (hh_elt h) \<and> hh_elt h = r)" using r(3) mem by blast
      qed
    qed
    ultimately show ?thesis
      using d' sl(1,2) es' False by (intro exI [of _ d']) (simp add: handle_of_def hd_map)
  qed
qed

lemma fields_ok_append:
  assumes "fields_ok d (set sel)" and "hh_elt h \<notin> hh_elt ` set sel" and "hh_elt h \<noteq> 0"
  shows "fields_ok (HASH_APPEND_LIST (hh_elt h) (init_handle (hh_key h) (hh_hashv h) (hh_elt h) d)) (insert h (set sel))"
proof -
  have "handle_of (pt_hho d) g \<noteq> HH_FROM_ELMT (pt_hho d) (hh_elt h)" if "g \<in> set sel" for g
    using assms(2) that unfolding handle_of_def HH_FROM_ELMT_eq by (metis imageI)
  then show ?thesis
    using assms(1,3) by (auto simp: fields_ok_def HASH_APPEND_LIST_def init_handle_def Let_def handle_of_def)
qed

text \<open>An insertion after a selection: the list that starts at the head then consists of the first selected and the new element.\<close>

lemma add_after_select:
  fixes h :: "('k, ptr) ut_handle"
  assumes sl: "sel_list d sel q" and ne: "sel \<noteq> []" and new: "hh_elt h \<notin> hh_elt ` set sel" and nz: "hh_elt h \<noteq> 0"
  shows "\<exists>d'. HASH_ADD_KEYPTR_BYHASHVALUE (hh_key h) (hh_hashv h) (hh_elt h) d = Some d' \<and> pt_items d' = length sel + 1 \<and>
    chained d' (insert h (set sel)) \<and> pt_hho d' = pt_hho d \<and>
    app_list (pt_hho d) (pt_mem d') (pt_head d') (pt_tail d') [hh_elt (hd sel), hh_elt h]"
proof -
  let ?f = "hh_elt (hd sel)" and ?hho = "pt_hho d"
  define s1 where "s1 = init_handle (hh_key h) (hh_hashv h) (hh_elt h) d"
  define s2 where "s2 = HASH_APPEND_LIST (hh_elt h) s1"
  define s3 where "s3 = s2\<lparr>pt_items := pt_items s2 + 1\<rparr>"
  have ad: "adll ?hho (pt_mem d) 0 (pt_head d) (map hh_elt sel) q 0" and fo: "fields_ok d (set sel)" and ch: "chained d (set sel)"
    and tail: "pt_tail d = HH_FROM_ELMT ?hho ?f" and items: "pt_items d = length sel"
    using sl ne by (simp_all add: sel_list_def handle_of_def)
  have f: "pt_head d = ?f" "?f \<noteq> 0" "hp_prev (pt_mem d (HH_FROM_ELMT ?hho ?f)) = 0" "?f \<noteq> hh_elt h"
    using ad ne new by (cases sel; simp)+
  have s3: "pt_hho s3 = ?hho" "pt_head s3 = ?f" "pt_tail s3 = HH_FROM_ELMT ?hho (hh_elt h)" "pt_items s3 = length sel + 1"
    "pt_num_buckets s3 = pt_num_buckets d" "pt_buckets s3 = pt_buckets d" "pt_head s1 \<noteq> 0"
    using f items by (simp_all add: s3_def s2_def s1_def HASH_APPEND_LIST_def init_handle_def Let_def)
  have "adll ?hho (pt_mem s3) 0 ?f [?f, hh_elt h] (hh_elt h) 0"
    using f nz tail by (simp add: s3_def s2_def s1_def HASH_APPEND_LIST_def init_handle_def Let_def)
  then have al: "app_list ?hho (pt_mem s3) ?f (pt_tail s3) [?f, hh_elt h]" using f(4) s3(3) unfolding app_list_adll by auto
  have "bkt_same (pt_mem d) (pt_mem s3)" by (simp add: s3_def s2_def s1_def)
  then have "chained s3 (set sel)" by (rule chained_same [OF ch]) (use s3 in simp_all)
  moreover have "fields_ok s3 (insert h (set sel))"
    using fields_ok_append [OF fo new nz] by (simp add: s3_def s2_def s1_def fields_ok_def)
  ultimately obtain s4 where s4: "HASH_ADD_TO_BKT_ptr (HASH_TO_BKT (hh_hashv h) (pt_num_buckets s3)) (handle_of (pt_hho s3) h) s3 = Some s4"
    "chained s4 (insert h (set sel))" "outside_same (pt_hho s3) (insert h (set sel)) (pt_mem s3) (pt_mem s4)" "same_list s3 s4"
    using add_to_bkt_chained [OF _ new _ refl, of s3] by blast
  have "HASH_ADD_KEYPTR_BYHASHVALUE (hh_key h) (hh_hashv h) (hh_elt h) d = Some s4"
    using s4(1) s3(1,7) unfolding HASH_ADD_KEYPTR_BYHASHVALUE_def HASH_ADD_TO_TABLE_ptr_def s1_def [symmetric]
    by (simp add: s2_def [symmetric] s3_def [symmetric] handle_of_def s3_def Let_def)
  moreover have "app_list ?hho (pt_mem s4) (pt_head s4) (pt_tail s4) [?f, hh_elt h]"
    using al s4(3,4) s3(2) unfolding app_list_adll by (simp add: outside_same_def app_same_def same_list_def)
  ultimately show ?thesis using s4(2,4) s3(1,4) by (auto simp: same_list_def)
qed

text \<open>
  So with two elements or more selected, an element that is added to the new table takes the place of all but the first one
  in its list, while the table counts them all; \<^verbatim>\<open>HASH_FSCK\<close> notices only now.
\<close>

theorem hash_select_then_add:
  fixes h :: "('k, ptr) ut_handle"
  assumes "pt_rel src T" and "table_ok hf T" and "pt_mem d = pt_mem src" and "pt_head d = 0"
    and "handles_apart (pt_hho src) (pt_hho d) (hh_elt ` set (app_order T))"
    and es: "es = filter cond (map hh_elt (chain_elts T))" and two: "length es \<ge> 2"
    and new: "hh_elt h \<notin> set es" "hh_elt h \<noteq> 0"
  shows "\<exists>d1 d2. HASH_SELECT cond src d = Some d1 \<and>
    HASH_ADD_KEYPTR_BYHASHVALUE (hh_key h) (hh_hashv h) (hh_elt h) d1 = Some d2 \<and> pt_items d2 = length es + 1 \<and>
    app_list (pt_hho d) (pt_mem d2) (pt_head d2) (pt_tail d2) [hd es, hh_elt h] \<and> HASH_FSCK d2 = Some False"
proof -
  define sel where "sel = filter (\<lambda>h. cond (hh_elt h)) (chain_elts T)"
  have es': "es = map hh_elt sel" by (simp add: es sel_def filter_map o_def)
  then have ne: "sel \<noteq> []" and ns: "hh_elt h \<notin> hh_elt ` set sel" using two new by auto
  obtain d1 q where d1: "HASH_SELECT cond src d = Some d1" "sel_list d1 sel q" "pt_hho d1 = pt_hho d"
    using HASH_SELECT_ok [OF assms(1-5) sel_def] by blast
  obtain d2 where d2: "HASH_ADD_KEYPTR_BYHASHVALUE (hh_key h) (hh_hashv h) (hh_elt h) d1 = Some d2" "pt_items d2 = length sel + 1"
    "chained d2 (insert h (set sel))" "pt_hho d2 = pt_hho d1"
    "app_list (pt_hho d1) (pt_mem d2) (pt_head d2) (pt_tail d2) [hh_elt (hd sel), hh_elt h]"
    using add_after_select [OF d1(2) ne ns new(2)] by blast
  obtain BS where bks: "list_all2 (bkt_rel (pt_hho d2) (pt_mem d2)) (pt_buckets d2) BS" and wf: "chains_wf (pt_num_buckets d2) (insert h (set sel)) BS"
    using d2(3) by (auto simp: chained_def)
  have "\<forall>B \<in> set BS. bk_count B = length (bk_chain B)" using wf by (simp add: chains_wf_def)
  note buckets = fsck_buckets_ok [OF bks this, of 0]
  obtain q' where ad: "adll (pt_hho d2) (pt_mem d2) 0 (pt_head d2) [hh_elt (hd sel), hh_elt h] q' 0"
    using d2(4,5) unfolding app_list_adll by auto
  then have head: "pt_head d2 \<noteq> 0" by auto
  have "HASH_FSCK d2 = Some False"
    using fsck_app_ok [OF ad, of 0] buckets head d2(2) two es' by (simp add: HASH_FSCK_def)
  then show ?thesis
    using d1 d2 es' ne by (intro exI [of _ d1] exI [of _ d2]) (simp add: hd_map)
qed

end
