(* ===== verification/Uthash_oom.thy ===== *)
theory Uthash_oom
  imports Uthash_run
begin

text \<open>
  Insertion in \<^verbatim>\<open>src/src/include/uthash.h\<close> when it is compiled with \<^verbatim>\<open>HASH_NONFATAL_OOM\<close>: a lack of memory is not the end of the
  program, the insertion is undone. Which allocations succeed is an argument: that of the table with its buckets, and
  that of the new buckets of an expansion.
\<close>

section \<open>The macros\<close>

text \<open>The first part of \<^verbatim>\<open>HASH_ADD_TO_BKT\<close>, and the whole macro with the flag \<^verbatim>\<open>oomed\<close> it leaves.\<close>

definition link_bkt :: "nat \<Rightarrow> ptr \<Rightarrow> 'k pt_table \<Rightarrow> 'k pt_table" where
  "link_bkt i ah s =
     (let b = pt_buckets s ! i
      in s\<lparr>pt_mem := link_front ah (hh_head b) (pt_mem s),
           pt_buckets := (pt_buckets s)[i := b\<lparr>pb_count := pb_count b + 1, hh_head := ah\<rparr>]\<rparr>)"

definition HASH_ADD_TO_BKT_oom :: "bool \<Rightarrow> nat \<Rightarrow> ptr \<Rightarrow> 'k pt_table \<Rightarrow> (bool \<times> 'k pt_table) option" where
  "HASH_ADD_TO_BKT_oom mem i ah s =
     (let s' = link_bkt i ah s; b' = pt_buckets s' ! i
      in if pb_count b' \<ge> (pb_expand_mult b' + 1) * 10 \<and> \<not> pt_noexpand s'
         then if mem then map_option (Pair False) (HASH_EXPAND_BUCKETS_ptr s')
              else Some (True, HASH_DEL_IN_BKT_ptr i ah s')
         else Some (False, s'))"

definition HASH_ROLLBACK_BKT :: "ptr \<Rightarrow> 'k pt_table \<Rightarrow> 'k pt_table" where
  "HASH_ROLLBACK_BKT item s =
     (let i = HASH_TO_BKT (hp_hashv (pt_mem s item)) (pt_num_buckets s); b = pt_buckets s ! i
      in s\<lparr>pt_buckets := (pt_buckets s)[i := b\<lparr>pb_count := pb_count b + 1\<rparr>],
           pt_mem := set_hh_prev item 0 (set_hh_next item 0 (pt_mem s))\<rparr>)"

definition HASH_ADD_TO_TABLE_oom :: "bool \<Rightarrow> u32 \<Rightarrow> ptr \<Rightarrow> bool \<times> 'k pt_table \<Rightarrow> (bool \<times> 'k pt_table) option" where
  "HASH_ADD_TO_TABLE_oom mem hashv add st =
     (let (oomed, s) = st; ah = HH_FROM_ELMT (pt_hho s) add
      in if \<not> oomed then
           let s' = s\<lparr>pt_items := pt_items s + 1\<rparr>
           in map_option (\<lambda>(oomed', s1). (oomed', if oomed' then HASH_DELETE_HH_ptr ah (HASH_ROLLBACK_BKT ah s1) else s1))
                (HASH_ADD_TO_BKT_oom mem (HASH_TO_BKT hashv (pt_num_buckets s')) ah s')
         else Some st)"

text \<open>\<open>tmem\<close>: the allocations of \<^verbatim>\<open>HASH_MAKE_TABLE\<close> succeed.\<close>

definition first_handle_oom :: "bool \<Rightarrow> ptr \<Rightarrow> 'k pt_table \<Rightarrow> bool \<times> 'k pt_table" where
  "first_handle_oom tmem add s =
     (let ah = HH_FROM_ELMT (pt_hho s) add; s' = s\<lparr>pt_mem := set_prev ah 0 (set_next ah 0 (pt_mem s))\<rparr>
      in if tmem then (False, (HASH_MAKE_TABLE_ptr add s')\<lparr>pt_head := add\<rparr>) else (True, s'))"

definition HASH_ADD_KEYPTR_BYHASHVALUE_oom ::
  "bool \<Rightarrow> bool \<Rightarrow> 'k \<Rightarrow> u32 \<Rightarrow> ptr \<Rightarrow> 'k pt_table \<Rightarrow> (bool \<times> 'k pt_table) option" where
  "HASH_ADD_KEYPTR_BYHASHVALUE_oom tmem mem k hashv add s =
     (let s1 = init_handle k hashv add s
      in HASH_ADD_TO_TABLE_oom mem hashv add
           (if pt_head s1 = 0 then first_handle_oom tmem add s1 else (False, HASH_APPEND_LIST add s1)))"

section \<open>An insertion that fails is undone\<close>

text \<open>Without a lack of memory the macros do what they do without the option.\<close>

definition wants_expand :: "nat \<Rightarrow> 'k pt_table \<Rightarrow> bool" where
  "wants_expand i s \<longleftrightarrow> pb_count (pt_buckets s ! i) + 1 \<ge> (pb_expand_mult (pt_buckets s ! i) + 1) * 10 \<and> \<not> pt_noexpand s"

lemma add_to_bkt_oom_cases:
  assumes "i < length (pt_buckets s)"
  shows "HASH_ADD_TO_BKT_oom mem i ah s =
    (if wants_expand i s \<and> \<not> mem then Some (True, HASH_DEL_IN_BKT_ptr i ah (link_bkt i ah s))
     else map_option (Pair False) (HASH_ADD_TO_BKT_ptr i ah s))"
  using assms by (simp add: HASH_ADD_TO_BKT_oom_def HASH_ADD_TO_BKT_ptr_def link_bkt_def wants_expand_def Let_def)

text \<open>The chains are as they were but for the links of the element itself.\<close>

definition chains_but :: "ptr \<Rightarrow> 'k pt_table \<Rightarrow> 'k pt_table \<Rightarrow> bool" where
  "chains_but ah s s' \<longleftrightarrow> pt_buckets s' = pt_buckets s \<and> (\<forall>a. a \<noteq> ah \<longrightarrow>
     hp_hh_next (pt_mem s' a) = hp_hh_next (pt_mem s a) \<and> hp_hh_prev (pt_mem s' a) = hp_hh_prev (pt_mem s a))"

lemma unlink_linked:
  assumes "hh_head (pt_buckets s ! i) \<noteq> ah" and "hh_head (pt_buckets s ! i) \<noteq> 0 \<Longrightarrow> hp_hh_prev (pt_mem s (hh_head (pt_buckets s ! i))) = 0"
    and "ah \<noteq> 0" and "i < length (pt_buckets s)"
  shows "chains_but ah s (HASH_DEL_IN_BKT_ptr i ah (link_bkt i ah s))"
proof -
  let ?b = "pt_buckets s ! i"
  have e: "(pt_buckets s)[i := ?b\<lparr>hh_head := 0\<rparr>] = pt_buckets s" if "hh_head ?b = 0"
  proof -
    have "?b\<lparr>hh_head := 0\<rparr> = ?b" using that by (cases ?b) simp
    then show ?thesis by simp
  qed
  then show ?thesis
    using assms
    by (auto simp: chains_but_def HASH_DEL_IN_BKT_ptr_def link_bkt_def link_front_def set_hh_next_def set_hh_prev_def Let_def)
qed

text \<open>The rest of the undoing, on a state in which the element is in no chain any more.\<close>

lemma rollback_delete:
  assumes app: "app_rel s (as @ h # bs)" and dist: "distinct (map hh_elt (as @ h # bs))" and ne: "as \<noteq> [] \<or> bs \<noteq> []"
    and dh: "dh = handle_of (pt_hho s) h" and i: "i = HASH_TO_BKT (hh_hashv h) (pt_num_buckets s)" "i < length (pt_buckets s)"
    and out: "hh_head (pt_buckets s ! i) \<noteq> dh" and s': "s' = HASH_DELETE_HH_ptr dh (HASH_ROLLBACK_BKT dh s)"
  shows "app_rel s' (as @ bs)" "chains_but dh s s'" "pt_items s' = pt_items s - 1" "pt_hho s' = pt_hho s"
    "same_counts s' T \<longleftrightarrow> same_counts (s\<lparr>pt_items := pt_items s - 1\<rparr>) T"
proof -
  define s1 where "s1 = HASH_ROLLBACK_BKT dh s"
  define u where "u = unlink_app dh s1"
  have hv: "hp_hashv (pt_mem s dh) = hh_hashv h" using app dh by (simp add: app_rel_def)
  have s1: "s1 = s\<lparr>pt_buckets := (pt_buckets s)[i := (pt_buckets s ! i)\<lparr>pb_count := pb_count (pt_buckets s ! i) + 1\<rparr>],
      pt_mem := set_hh_prev dh 0 (set_hh_next dh 0 (pt_mem s))\<rparr>"
    by (simp add: s1_def HASH_ROLLBACK_BKT_def hv i(1) Let_def)
  have same: "app_same (pt_mem s) (pt_mem s1)" by (simp add: s1 app_same_def set_hh_prev_def set_hh_next_def)
  have app1: "app_rel s1 (as @ h # bs)"
    by (rule app_rel_fields [OF app_rel_same [OF app same]]) (simp_all add: s1)
  have appu: "app_rel u (as @ bs)"
    using unlink_app_ok [OF app1 dist ne] by (simp add: u_def dh s1)
  have bu: "hp_hh_next (pt_mem u a) = (if a = dh then 0 else hp_hh_next (pt_mem s a))"
    "hp_hh_prev (pt_mem u a) = (if a = dh then 0 else hp_hh_prev (pt_mem s a))" for a
    using unlink_app_sel(5) [of s1 dh] unfolding u_def [symmetric] bkt_same_def
    by (simp_all add: s1 set_hh_prev_def set_hh_next_def)
  obtain q where q: "adll (pt_hho s) (pt_mem s) 0 (pt_head s) (map hh_elt as @ hh_elt h # map hh_elt bs) q 0"
    using app by (auto simp: app_rel_def)
  have links: "\<not> (hp_prev (pt_mem s1 dh) = 0 \<and> hp_next (pt_mem s1 dh) = 0)"
  proof -
    have a: "adll (pt_hho s) (pt_mem s) 0 (pt_head s) (map hh_elt as) (hp_prev (pt_mem s dh)) (hh_elt h)"
      and b: "adll (pt_hho s) (pt_mem s) (hh_elt h) (hp_next (pt_mem s dh)) (map hh_elt bs) q 0"
      using q by (auto simp: dll_append handle_of_def dh)
    have "hp_prev (pt_mem s dh) = 0 \<longleftrightarrow> as = []" "hp_next (pt_mem s dh) = 0 \<longleftrightarrow> bs = []"
      using dll_ends [OF a] dll_last_nz [OF a] dll_head [OF b] by (auto split: if_splits)
    then show ?thesis using ne same by (auto simp: app_same_def)
  qed
  have j: "HASH_TO_BKT (hp_hashv (pt_mem u dh)) (pt_num_buckets u) = i"
    using hv same by (simp add: u_def s1 app_same_def i(1))
  have "pt_items (HASH_DEL_IN_BKT_ptr i dh u) = pt_items u" by (simp add: HASH_DEL_IN_BKT_ptr_def Let_def)
  then have s'2: "s' = (HASH_DEL_IN_BKT_ptr i dh u)\<lparr>pt_items := pt_items u - 1\<rparr>"
    unfolding s' s1_def [symmetric] HASH_DELETE_HH_ptr_def if_not_P [OF links] u_def [symmetric] Let_def j by simp
  have ub: "pt_buckets u ! i = (pt_buckets s ! i)\<lparr>pb_count := pb_count (pt_buckets s ! i) + 1\<rparr>"
    "pt_buckets u = (pt_buckets s)[i := (pt_buckets s ! i)\<lparr>pb_count := pb_count (pt_buckets s ! i) + 1\<rparr>]"
    using i(2) by (simp_all add: u_def s1)
  have b: "(pt_buckets s ! i)\<lparr>pb_count := pb_count (pt_buckets s ! i)\<rparr> = pt_buckets s ! i" by simp
  have s'3: "s' = u\<lparr>pt_items := pt_items u - 1, pt_buckets := pt_buckets s\<rparr>"
    using out i(2) unfolding s'2 HASH_DEL_IN_BKT_ptr_def Let_def ub by (simp add: bu b)
  have cu: "pt_items u = pt_items s" "pt_hho u = pt_hho s" "pt_head u = pt_head u" by (simp_all add: u_def s1 unlink_app_def Let_def)
  show "app_rel s' (as @ bs)" by (rule app_rel_fields [OF appu]) (simp_all add: s'3)
  show "chains_but dh s s'" using bu by (simp add: chains_but_def s'3)
  show "pt_items s' = pt_items s - 1" "pt_hho s' = pt_hho s" by (simp_all add: s'3 cu)
  show "same_counts s' T \<longleftrightarrow> same_counts (s\<lparr>pt_items := pt_items s - 1\<rparr>) T"
    by (simp add: s'3 same_counts_def u_def s1 unlink_app_def Let_def)
qed

lemma chains_but_rel:
  assumes "list_all2 (bkt_rel hho (pt_mem s)) (pt_buckets s) BS" and "chains_but dh s s'"
    and "\<And>B g. B \<in> set BS \<Longrightarrow> g \<in> set (bk_chain B) \<Longrightarrow> handle_of hho g \<noteq> dh"
  shows "list_all2 (bkt_rel hho (pt_mem s')) (pt_buckets s') BS"
  using assms(1) unfolding chains_but_def [THEN iffD1, OF assms(2), THEN conjunct1]
proof (rule list.rel_mono_strong)
  fix b B assume B: "B \<in> set BS" "bkt_rel hho (pt_mem s) b B"
  show "bkt_rel hho (pt_mem s') b B"
    by (rule bkt_rel_cong [OF B(2)]) (use assms(2,3) B(1) in \<open>simp add: chains_but_def\<close>)
qed

lemma oom_restore:
  assumes rel: "pt_rel s T" and ok: "table_ok hf T" and ord: "app_order T = as @ bs"
    and new: "hh_elt h \<notin> hh_elt ` set (app_order T)" and nz: "hh_elt h \<noteq> 0"
    and sb: "app_rel sb (as @ h # bs)" "pt_buckets sb = pt_buckets s" "bkt_same (pt_mem s) (pt_mem sb)" "pt_hho sb = pt_hho s"
      "same_counts (sb\<lparr>pt_items := pt_items sb - 1\<rparr>) T"
    and dh: "dh = handle_of (pt_hho s) h" and i: "i = HASH_TO_BKT (hh_hashv h) (pt_num_buckets sb)"
    and s': "s' = HASH_DELETE_HH_ptr dh (HASH_ROLLBACK_BKT dh (HASH_DEL_IN_BKT_ptr i dh (link_bkt i dh sb)))"
  shows "pt_rel s' T"
proof -
  have wf: "chains_wf (num_buckets T) (set (app_order T)) (buckets T)" and dist: "distinct (map hh_elt (app_order T))"
    and ne: "app_order T \<noteq> []" using ok unfolding table_ok_def table_inv_def by blast+
  have bks: "list_all2 (bkt_rel (pt_hho s) (pt_mem s)) (pt_buckets s) (buckets T)" using rel by (simp add: pt_rel_def)
  have bks2: "list_all2 (bkt_rel (pt_hho s) (pt_mem sb)) (pt_buckets sb) (buckets T)"
    using bkts_rel_same [OF bks sb(3)] by (simp add: sb(2))
  have nb: "pt_num_buckets sb = num_buckets T" using sb(5) by (simp add: same_counts_def)
  have il: "i < num_buckets T" unfolding i nb using wf by (intro HASH_TO_BKT_less) (simp add: chains_wf_def)
  have len: "length (pt_buckets sb) = num_buckets T" "length (buckets T) = num_buckets T"
    using list_all2_lengthD [OF bks2] chains_wf_length [OF wf] by simp_all
  have apart: "handle_of (pt_hho s) g \<noteq> dh" if gB: "B \<in> set (buckets T)" "g \<in> set (bk_chain B)" for B g
  proof -
    obtain j where "j < length (buckets T)" "buckets T ! j = B" using gB(1) by (auto simp: in_set_conv_nth)
    then have "g \<in> set (app_order T)" using chains_wf_set [OF wf, of j] gB(2) len(2) by auto
    then show ?thesis using new unfolding dh handle_of_eq by (metis imageI)
  qed
  let ?b = "pt_buckets sb ! i" and ?B = "buckets T ! i"
  have b: "bkt_rel (pt_hho s) (pt_mem sb) ?b ?B" and B: "?B \<in> set (buckets T)"
    using bks2 il len by (simp_all add: list_all2_conv_all_nth)
  have head: "hh_head ?b \<noteq> dh"
    using bkt_rel_head [OF b] apart [OF B] dh nz by (cases "hh_head ?b = 0") (auto simp: handle_of_def HH_FROM_ELMT_def)
  have prev: "hh_head ?b \<noteq> 0 \<Longrightarrow> hp_hh_prev (pt_mem sb (hh_head ?b)) = 0"
    using b by (cases "bk_chain ?B") (auto simp: bkt_rel_def)
  have dnz: "dh \<noteq> 0" using nz by (simp add: dh handle_of_def HH_FROM_ELMT_def)
  define s4 where "s4 = HASH_DEL_IN_BKT_ptr i dh (link_bkt i dh sb)"
  have c4: "chains_but dh sb s4" unfolding s4_def by (rule unlink_linked [OF head prev dnz]) (use il len in simp_all)
  have as4: "app_same (pt_mem sb) (pt_mem s4)"
    by (simp add: s4_def HASH_DEL_IN_BKT_ptr_def link_bkt_def link_front_def set_hh_next_def set_hh_prev_def app_same_def Let_def)
  have sel4: "pt_hho s4 = pt_hho s" "pt_num_buckets s4 = pt_num_buckets sb" "pt_items s4 = pt_items sb" "pt_buckets s4 = pt_buckets sb"
    "same_counts (s4\<lparr>pt_items := n\<rparr>) T = same_counts (sb\<lparr>pt_items := n\<rparr>) T" for n
    using c4 sb(4) by (simp_all add: s4_def HASH_DEL_IN_BKT_ptr_def link_bkt_def chains_but_def same_counts_def Let_def)
  have app4: "app_rel s4 (as @ h # bs)"
    by (rule app_rel_fields [OF app_rel_same [OF sb(1) as4]])
      (simp_all add: s4_def HASH_DEL_IN_BKT_ptr_def link_bkt_def Let_def)
  have dist': "distinct (map hh_elt (as @ h # bs))" using dist new by (auto simp: ord image_Un)
  have h4: "dh = handle_of (pt_hho s4) h" "i = HASH_TO_BKT (hh_hashv h) (pt_num_buckets s4)" "i < length (pt_buckets s4)"
    "hh_head (pt_buckets s4 ! i) \<noteq> dh" "as \<noteq> [] \<or> bs \<noteq> []"
    using dh i il len head ne ord by (simp_all add: sel4)
  note rd = rollback_delete [OF app4 dist' h4(5,1-4) s' [folded s4_def]]
  have "chains_but dh sb s'" using c4 rd(2) by (simp add: chains_but_def)
  from chains_but_rel [OF bks2 this apart] have "list_all2 (bkt_rel (pt_hho s) (pt_mem s')) (pt_buckets s') (buckets T)" .
  moreover have "same_counts s' T" using rd(5) sb(5) sel4 by simp
  ultimately show ?thesis using rd(1,4) sel4(1) by (simp add: pt_rel_def ord)
qed

text \<open>
  An insertion returns: either it has done what it does without the option, or memory is lacking and the table is the one it was. With
  memory it always succeeds.
\<close>

theorem hash_add_oom:
  assumes rel: "head_rel hf s head" and new: "add \<notin> set (HASH_ITER_BKT head)" and nz: "add \<noteq> 0"
  shows "\<exists>oomed s'. HASH_ADD_KEYPTR_BYHASHVALUE_oom tmem mem k (hf k) add s = Some (oomed, s') \<and>
    (if oomed then head_rel hf s' head \<and> \<not> (tmem \<and> mem)
     else HASH_ADD_KEYPTR_BYHASHVALUE k (hf k) add s = Some s' \<and> head_rel hf s' (HASH_ADD_KEYPTR hf head k add))"
proof -
  obtain t where t: "HASH_ADD_KEYPTR_BYHASHVALUE k (hf k) add s = Some t" "head_rel hf t (HASH_ADD_KEYPTR hf head k add)"
    using HASH_ADD_refine [OF rel new nz, of k] by blast
  let ?h = "\<lparr>hh_key = k, hh_hashv = hf k, hh_elt = add\<rparr>" and ?s1 = "init_handle k (hf k) add s" and ?ah = "HH_FROM_ELMT (pt_hho s) add"
  show ?thesis
  proof (cases head)
    case None
    then have h0: "pt_head s = 0" using rel by (simp add: head_rel_def)
    show ?thesis
    proof (cases tmem)
      case False
      then show ?thesis using h0 None
        by (auto simp: HASH_ADD_KEYPTR_BYHASHVALUE_oom_def first_handle_oom_def HASH_ADD_TO_TABLE_oom_def head_rel_def Let_def)
    next
      case True
      let ?s2 = "first_handle add ?s1"
      let ?s3 = "?s2\<lparr>pt_items := pt_items ?s2 + 1\<rparr>" and ?i = "HASH_TO_BKT (hf k) (pt_num_buckets ?s2)"
      have s3: "pt_buckets ?s2 = replicate 32 empty_pbucket" "pt_num_buckets ?s2 = 32" "pt_hho ?s2 = pt_hho s"
        by (simp_all add: first_handle_def HASH_MAKE_TABLE_ptr_def Let_def)
      have i: "?i < 32" using HASH_TO_BKT_less [of 32 "hf k"] s3(2) by simp
      have "\<not> wants_expand ?i ?s3" using i by (simp add: wants_expand_def s3 empty_pbucket_def)
      then have "HASH_ADD_TO_BKT_oom mem ?i ?ah ?s3 = map_option (Pair False) (HASH_ADD_TO_BKT_ptr ?i ?ah ?s3)"
        by (subst add_to_bkt_oom_cases) (use i s3 in simp_all)
      moreover have "HASH_ADD_TO_BKT_ptr ?i ?ah ?s3 = Some t"
        using t(1) h0 s3(3) by (simp add: HASH_ADD_KEYPTR_BYHASHVALUE_def HASH_ADD_TO_TABLE_ptr_def Let_def)
      ultimately have "HASH_ADD_KEYPTR_BYHASHVALUE_oom tmem mem k (hf k) add s = Some (False, t)"
        using True h0 s3(3)
        by (simp add: HASH_ADD_KEYPTR_BYHASHVALUE_oom_def first_handle_oom_def first_handle_def HASH_ADD_TO_TABLE_oom_def Let_def)
      then show ?thesis using t by auto
    qed
  next
    case (Some T)
    then have T: "pt_rel s T" "table_ok hf T" and fresh: "add \<notin> hh_elt ` set (app_order T)"
      using rel new by (simp_all add: head_rel_def HASH_ITER_BKT_def)
    have app: "app_rel s (app_order T)" and ne: "app_order T \<noteq> []" and dist: "distinct (map hh_elt (app_order T))" and cnt: "same_counts s T"
      using T by (simp_all add: pt_rel_def table_ok_def table_inv_def)
    have h0: "pt_head s \<noteq> 0" using app_rel_head [OF app] ne by simp
    let ?s2 = "HASH_APPEND_LIST add ?s1"
    let ?s3 = "?s2\<lparr>pt_items := pt_items ?s2 + 1\<rparr>" and ?i = "HASH_TO_BKT (hf k) (pt_num_buckets ?s2)"
    have app1: "app_rel ?s1 (app_order T)" by (rule init_handle_app [OF app fresh])
    have app2: "app_rel (HASH_APPEND_LIST (hh_elt ?h) ?s1) (app_order T @ [?h])"
      by (rule append_app [OF app1 ne dist]) (use fresh nz in \<open>simp_all add: handle_of_def\<close>)
    have sel: "pt_num_buckets ?s2 = num_buckets T" "pt_buckets ?s3 = pt_buckets s" "pt_hho ?s2 = pt_hho s" "bkt_same (pt_mem s) (pt_mem ?s2)"
      "same_counts ?s2 T"
      using cnt by (simp_all add: HASH_APPEND_LIST_def init_handle_def same_counts_def Let_def)
    have wf: "chains_wf (num_buckets T) (set (app_order T)) (buckets T)" using T(2) by (simp add: table_ok_def)
    have il: "?i < length (pt_buckets ?s3)"
    proof -
      have "length (pt_buckets s) = num_buckets T"
        using T(1) chains_wf_length [OF wf] by (auto simp: pt_rel_def dest: list_all2_lengthD)
      then show ?thesis unfolding sel(1,2) using wf HASH_TO_BKT_less [of "num_buckets T" "hf k"] by (simp add: chains_wf_def)
    qed
    have add: "HASH_ADD_KEYPTR_BYHASHVALUE_oom tmem mem k (hf k) add s =
        map_option (\<lambda>(oomed', s1). (oomed', if oomed' then HASH_DELETE_HH_ptr ?ah (HASH_ROLLBACK_BKT ?ah s1) else s1))
          (HASH_ADD_TO_BKT_oom mem ?i ?ah ?s3)"
      using h0 sel(3) by (simp add: HASH_ADD_KEYPTR_BYHASHVALUE_oom_def HASH_ADD_TO_TABLE_oom_def Let_def cong: if_cong)
    have ptr: "HASH_ADD_TO_BKT_ptr ?i ?ah ?s3 = Some t"
      using t(1) h0 sel(3) by (simp add: HASH_ADD_KEYPTR_BYHASHVALUE_def HASH_ADD_TO_TABLE_ptr_def Let_def)
    show ?thesis
    proof (cases "wants_expand ?i ?s3 \<and> \<not> mem")
      case False
      then show ?thesis using add t add_to_bkt_oom_cases [OF il, of mem ?ah] ptr by auto
    next
      case True
      let ?s' = "HASH_DELETE_HH_ptr ?ah (HASH_ROLLBACK_BKT ?ah (HASH_DEL_IN_BKT_ptr ?i ?ah (link_bkt ?i ?ah ?s3)))"
      have "app_rel ?s3 (app_order T @ [?h])" by (rule app_rel_fields [OF app2]) simp_all
      then have "pt_rel ?s' T"
        by (intro oom_restore [OF T, where h = ?h and as = "app_order T" and bs = "[]" and sb = ?s3])
          (use fresh nz sel in \<open>simp_all add: handle_of_def same_counts_def\<close>)
      then show ?thesis using add True add_to_bkt_oom_cases [OF il, of mem ?ah] Some T(2) by (intro exI [of _ True] exI [of _ ?s']) (simp add: head_rel_def)
    qed
  qed
qed

end
