(* ===== verification/Uthash_opt.thy ===== *)
theory Uthash_opt
  imports Uthash_jen Uthash_select Uthash_oom
begin

text \<open>
  The parts of \<^verbatim>\<open>src/src/include/uthash.h\<close> that are chosen when it is compiled: the other hash functions
  (\<^verbatim>\<open>HASH_FUNCTION\<close>) and the Bloom filter in front of the buckets (\<^verbatim>\<open>HASH_BLOOM\<close>); and the forms for string and
  integer keys.
\<close>

section \<open>Hash functions\<close>

text \<open>Keys are the bytes from \<^verbatim>\<open>key\<close> on, \<^verbatim>\<open>keylen\<close> of them.\<close>

definition ber_step :: "char \<Rightarrow> u32 \<Rightarrow> u32" where
  "ber_step b h = (push_bit 5 h + h) + of_char b"

definition HASH_BER :: "string \<Rightarrow> u32" where
  "HASH_BER key = fold ber_step (take (length key mod 2 ^ 32) key) 0"

definition HASH_SAX :: "string \<Rightarrow> u32" where
  "HASH_SAX key = fold (\<lambda>b h. h XOR (push_bit 5 h + drop_bit 2 h + of_char b)) key 0"

definition fnv_step :: "char \<Rightarrow> u32 \<Rightarrow> u32" where
  "fnv_step b h = (h XOR of_char b) * 16777619"

definition HASH_FNV :: "string \<Rightarrow> u32" where
  "HASH_FNV key = fold fnv_step key 2166136261"

definition oat_step :: "char \<Rightarrow> u32 \<Rightarrow> u32" where
  "oat_step b h = (let h = h + of_char b; h = h + push_bit 10 h in h XOR drop_bit 6 h)"

definition oat_end :: "u32 \<Rightarrow> u32" where
  "oat_end h = (let h = h + push_bit 3 h; h = h XOR drop_bit 11 h in h + push_bit 15 h)"

definition HASH_OAT :: "string \<Rightarrow> u32" where
  "HASH_OAT key = oat_end (fold oat_step key 0)"

text \<open>Two bytes of the key, the lower first; the loop over blocks of four bytes, the switch for the rest, and the end.\<close>

definition get16bits :: "string \<Rightarrow> nat \<Rightarrow> u32" where
  "get16bits d i = push_bit 8 (key_byte d (i + 1)) + key_byte d i"

function sfh_blocks :: "u32 \<Rightarrow> string \<Rightarrow> u32 \<times> string" where
  "sfh_blocks h key =
     (if length key \<ge> 4 then
        let h = h + get16bits key 0;
            tmp = push_bit 11 (get16bits key 2) XOR h;
            h = push_bit 16 h XOR tmp
        in sfh_blocks (h + drop_bit 11 h) (drop 4 key)
      else (h, key))"
  by pat_completeness auto
termination
  by (relation "measure (\<lambda>(h, key). length key)") auto

declare sfh_blocks.simps [simp del]

definition sfh_rest :: "u32 \<Rightarrow> string \<Rightarrow> u32" where
  "sfh_rest h key =
     (if length key = 3 then
        let h = h + get16bits key 0; h = h XOR push_bit 16 h; h = h XOR push_bit 18 (key_byte key 2) in h + drop_bit 11 h
      else if length key = 2 then
        let h = h + get16bits key 0; h = h XOR push_bit 11 h in h + drop_bit 17 h
      else if length key = 1 then
        let h = h + key_byte key 0; h = h XOR push_bit 10 h in h + drop_bit 1 h
      else h)"

definition sfh_end :: "u32 \<Rightarrow> u32" where
  "sfh_end h =
     (let h = h XOR push_bit 3 h; h = h + drop_bit 5 h; h = h XOR push_bit 4 h; h = h + drop_bit 17 h;
          h = h XOR push_bit 25 h
      in h + drop_bit 6 h)"

definition HASH_SFH :: "string \<Rightarrow> u32" where
  "HASH_SFH key =
     (let (h, rest) = sfh_blocks 0xcafebabe (take (length key mod 2 ^ 32) key) in sfh_end (sfh_rest h rest))"

text \<open>What the loop leaves is what the switch expects: the last bytes, fewer than four.\<close>

lemma sfh_blocks_rest: "snd (sfh_blocks h key) = drop (length key - length key mod 4) key"
proof (induction h key rule: sfh_blocks.induct)
  case (1 h key)
  show ?case
  proof (cases "length key \<ge> 4")
    case True
    then have "(length key - 4) mod 4 = length key mod 4" by (simp add: le_mod_geq)
    moreover have "length key mod 4 \<le> length key - 4" using True by (metis calculation mod_less_eq_dividend)
    ultimately show ?thesis using 1 [OF True refl refl refl] True by (subst sfh_blocks.simps) (simp add: Let_def)
  next
    case False
    then show ?thesis by (subst sfh_blocks.simps) simp
  qed
qed

text \<open>Adding a shifted copy multiplies by an odd number, which has an inverse; a right shift can be undone from the top bit down.\<close>

lemma inj_mult_inverse: "c * d = 1 \<Longrightarrow> inj (\<lambda>h. h * c)" for c d :: u32
  by (metis (no_types, lifting) injI mult.assoc mult.right_neutral)

lemma push_add: "h + push_bit n h = h * (1 + 2 ^ n)" "push_bit n h + h = h * (1 + 2 ^ n)" for h :: u32
  by (simp_all add: push_bit_eq_mult algebra_simps)

lemma inj_odd: "inj (\<lambda>h :: u32. h * 33)" "inj (\<lambda>h :: u32. h * 16777619)" "inj (\<lambda>h :: u32. h * 1025)"
  "inj (\<lambda>h :: u32. h * 9)" "inj (\<lambda>h :: u32. h * 32769)"
  using inj_mult_inverse [of 33 1041204193] inj_mult_inverse [of 16777619 899433627] inj_mult_inverse [of 1025 3222273025]
    inj_mult_inverse [of 9 954437177] inj_mult_inverse [of 32769 1073709057] by simp_all

lemma inj_xor_shift:
  assumes "0 < n"
  shows "inj (\<lambda>h :: u32. h XOR drop_bit n h)"
proof (rule injI)
  fix x y :: u32 assume eq: "x XOR drop_bit n x = y XOR drop_bit n y"
  have "bit x i = bit y i" for i
  proof (induction "32 - i" arbitrary: i rule: less_induct)
    case less
    show ?case
    proof (cases "i < 32")
      case False
      then show ?thesis by (simp add: bit_word.rep_eq)
    next
      case True
      then have "bit x (n + i) = bit y (n + i)" using less [of "n + i"] assms by simp
      moreover have "bit (x XOR drop_bit n x) i = bit (y XOR drop_bit n y) i" by (simp only: eq)
      ultimately show ?thesis by (auto simp: bit_xor_iff bit_drop_bit_eq)
    qed
  qed
  then show "x = y" by (rule bit_eqI)
qed

lemma of_char_word_eq: "(of_char a :: u32) = of_char b \<longleftrightarrow> a = b"
proof
  have "unat (of_char c :: u32) = of_char c" for c
    using unat_of_nat_small [of "of_char c", where 'a = 32] nat_of_char_less_256 [of c] by (simp add: of_nat_of_char)
  then show "(of_char a :: u32) = of_char b \<Longrightarrow> a = b" by (metis of_char_eq_iff)
qed simp

lemma fold_byte_change:
  assumes "\<And>b. inj (step b)" and "\<And>h. inj (\<lambda>b. step b h)" and "a \<noteq> b"
  shows "fold step (p @ a # q) h \<noteq> fold step (p @ b # q) h"
proof -
  have "inj (fold step q)"
  proof (induction q)
    case (Cons x q)
    from inj_compose [OF this assms(1)] show ?case by (simp add: comp_def)
  qed (simp add: inj_def)
  moreover have "step a (fold step p h) \<noteq> step b (fold step p h)" using assms(2,3) by (metis injD)
  ultimately show ?thesis by (simp add: inj_eq)
qed

lemma inj_steps:
  "inj (\<lambda>h :: u32. h + c)" "inj (\<lambda>b. h + (of_char b :: u32))" "inj (\<lambda>h :: u32. h XOR c)" "inj (\<lambda>b. h XOR (of_char b :: u32))"
  by (simp_all add: inj_def of_char_word_eq xor_cancel_right) (metis xor.commute xor_cancel_right of_char_word_eq)

lemma ber_step_inj: "inj (ber_step b)" "inj (\<lambda>b. ber_step b h)"
proof -
  have eq: "ber_step b h = h * 33 + of_char b" for b h by (simp add: ber_step_def push_add)
  show "inj (ber_step b)" using inj_compose [OF inj_steps(1) inj_odd(1), of "of_char b"] by (simp add: eq [abs_def] comp_def)
  show "inj (\<lambda>b. ber_step b h)" using inj_steps(2) by (simp add: eq)
qed

lemma fnv_step_inj: "inj (fnv_step b)" "inj (\<lambda>b. fnv_step b h)"
  using inj_compose [OF inj_odd(2) inj_steps(3), of "of_char b"] inj_compose [OF inj_odd(2) inj_steps(4), of h]
  by (simp_all add: fnv_step_def [abs_def] comp_def)

lemma oat_step_inj: "inj (oat_step b)" "inj (\<lambda>b. oat_step b h)"
proof -
  have eq: "oat_step b h = (h + of_char b) * 1025 XOR drop_bit 6 ((h + of_char b) * 1025)" for b h
    by (simp add: oat_step_def push_add Let_def)
  have "inj (\<lambda>h :: u32. h * 1025 XOR drop_bit 6 (h * 1025))"
    using inj_compose [OF inj_xor_shift [of 6] inj_odd(3)] by (simp add: comp_def)
  note m = inj_compose [OF this]
  show "inj (oat_step b)" using m [OF inj_steps(1), of "of_char b"] by (simp add: eq [abs_def] comp_def)
  show "inj (\<lambda>b. oat_step b h)" using m [OF inj_steps(2), of h] by (simp add: eq comp_def)
qed

lemma oat_end_inj: "inj oat_end"
proof -
  have "oat_end = (\<lambda>h. h * 32769) \<circ> ((\<lambda>h. h XOR drop_bit 11 h) \<circ> (\<lambda>h. h * 9))"
    by (simp add: oat_end_def push_add Let_def fun_eq_iff)
  then show ?thesis using inj_compose [OF inj_odd(5) inj_compose [OF inj_xor_shift [of 11] inj_odd(4)]] by simp
qed

text \<open>
  Keys that differ in exactly one byte have different hash values under \<^verbatim>\<open>HASH_BER\<close>, \<^verbatim>\<open>HASH_FNV\<close> and \<^verbatim>\<open>HASH_OAT\<close>: no step
  of these functions loses what was hashed before.
\<close>

theorem hash_byte_change:
  assumes "a \<noteq> b"
  shows "HASH_FNV (p @ a # q) \<noteq> HASH_FNV (p @ b # q)" "HASH_OAT (p @ a # q) \<noteq> HASH_OAT (p @ b # q)"
    "length (p @ a # q) < 2 ^ 32 \<Longrightarrow> HASH_BER (p @ a # q) \<noteq> HASH_BER (p @ b # q)"
  using fold_byte_change [OF fnv_step_inj assms] fold_byte_change [OF oat_step_inj assms] oat_end_inj
    fold_byte_change [OF ber_step_inj assms]
  by (simp_all add: HASH_FNV_def HASH_OAT_def HASH_BER_def inj_eq)

section \<open>Bloom filter\<close>

definition HASH_BLOOM_BYTELEN :: "nat \<Rightarrow> nat" where
  "HASH_BLOOM_BYTELEN n = 2 ^ n div 8 + (if 2 ^ n mod 8 \<noteq> (0 :: nat) then 1 else 0)"

definition HASH_BLOOM_MAKE :: "nat \<Rightarrow> 8 word list" where
  "HASH_BLOOM_MAKE n = replicate (HASH_BLOOM_BYTELEN n) 0"

text \<open>\<open>None\<close> stands for an access outside the bit vector.\<close>

definition HASH_BLOOM_BITSET :: "8 word list \<Rightarrow> u32 \<Rightarrow> 8 word list option" where
  "HASH_BLOOM_BITSET bv idx =
     (let i = unat (idx div 8); k = unat (idx mod 8)
      in if i < length bv then Some (bv[i := bv ! i OR push_bit k 1]) else None)"

definition HASH_BLOOM_BITTEST :: "8 word list \<Rightarrow> u32 \<Rightarrow> bool option" where
  "HASH_BLOOM_BITTEST bv idx =
     (let i = unat (idx div 8); k = unat (idx mod 8)
      in if i < length bv then Some (bv ! i AND push_bit k 1 \<noteq> 0) else None)"

definition bloom_idx :: "nat \<Rightarrow> u32 \<Rightarrow> u32" where
  "bloom_idx n hashv = hashv AND ucast (push_bit n (1 :: 64 word) - 1)"

definition HASH_BLOOM_ADD :: "nat \<Rightarrow> u32 \<Rightarrow> 8 word list \<Rightarrow> 8 word list option" where
  "HASH_BLOOM_ADD n hashv bv = HASH_BLOOM_BITSET bv (bloom_idx n hashv)"

definition HASH_BLOOM_TEST :: "nat \<Rightarrow> u32 \<Rightarrow> 8 word list \<Rightarrow> bool option" where
  "HASH_BLOOM_TEST n hashv bv = HASH_BLOOM_BITTEST bv (bloom_idx n hashv)"

lemma bloom_idx_bound:
  assumes "n \<le> 32"
  shows "unat (bloom_idx n h div 8) < HASH_BLOOM_BYTELEN n"
proof -
  have "push_bit n (1 :: 64 word) - 1 = mask n" by (simp add: mask_eq_exp_minus_1 push_bit_eq_mult)
  then have "bloom_idx n h = take_bit n h"
    using assms by (intro bit_word_eqI) (auto simp: bloom_idx_def bit_simps)
  then have "unat (bloom_idx n h) < 2 ^ n" by (simp add: unsigned_take_bit_eq take_bit_nat_less_exp)
  moreover have "m div 8 < HASH_BLOOM_BYTELEN n" if "m < 2 ^ n" for m
    using that unfolding HASH_BLOOM_BYTELEN_def by (cases "2 ^ n mod 8 = (0 :: nat)") (auto simp: div_less_iff_less_mult)
  ultimately show ?thesis by (simp add: unat_div)
qed

lemma idx_eq: "(idx :: u32) = jdx \<longleftrightarrow> unat (idx div 8) = unat (jdx div 8) \<and> unat (idx mod 8) = unat (jdx mod 8)"
  by (metis div_mult_mod_eq word_unat_eq_iff)

text \<open>Setting one bit changes what a test says about that bit only.\<close>

lemma bloom_test_set:
  assumes "HASH_BLOOM_BITSET bv idx = Some bv'" and "unat (jdx div 8) < length bv"
  shows "length bv' = length bv" "HASH_BLOOM_BITTEST bv' jdx = Some (jdx = idx \<or> HASH_BLOOM_BITTEST bv jdx = Some True)"
proof -
  have k: "unat (i mod 8) < 8" for i :: u32 by (simp add: unat_mod)
  have bv': "bv' = bv[unat (idx div 8) := bv ! unat (idx div 8) OR push_bit (unat (idx mod 8)) 1]" "unat (idx div 8) < length bv"
    using assms(1) by (simp_all add: HASH_BLOOM_BITSET_def Let_def split: if_splits)
  then show "length bv' = length bv" by simp
  show "HASH_BLOOM_BITTEST bv' jdx = Some (jdx = idx \<or> HASH_BLOOM_BITTEST bv jdx = Some True)"
    using assms(2) bv' k [of jdx] k [of idx] unfolding HASH_BLOOM_BITTEST_def Let_def idx_eq [of jdx]
    by (cases "unat (jdx div 8) = unat (idx div 8)") (auto simp: and_exp_eq_0_iff_not_bit bit_or_iff bit_exp_iff)
qed

fun bloom_adds :: "nat \<Rightarrow> u32 list \<Rightarrow> 8 word list \<Rightarrow> 8 word list option" where
  "bloom_adds n [] bv = Some bv"
| "bloom_adds n (h # hs) bv = Option.bind (HASH_BLOOM_ADD n h bv) (bloom_adds n hs)"

text \<open>
  After any insertions every access stays within the bit vector, and the test says no exactly when no inserted hash agrees
  with the one looked for in the bits of the filter; in particular never for a hash that was inserted.
\<close>

lemma bloom_adds_test:
  assumes "n \<le> 32" and "length bv = HASH_BLOOM_BYTELEN n"
  shows "\<exists>bv'. bloom_adds n hs bv = Some bv' \<and> length bv' = HASH_BLOOM_BYTELEN n \<and>
    (\<forall>h. HASH_BLOOM_TEST n h bv' = Some (bloom_idx n h \<in> bloom_idx n ` set hs \<or> HASH_BLOOM_TEST n h bv = Some True))"
  using assms(2)
proof (induction hs arbitrary: bv)
  case Nil
  then show ?case using bloom_idx_bound [OF assms(1)] by (auto simp: HASH_BLOOM_TEST_def HASH_BLOOM_BITTEST_def Let_def)
next
  case (Cons x hs)
  have b: "unat (bloom_idx n h div 8) < length bv" for h using bloom_idx_bound [OF assms(1)] Cons.prems by simp
  then obtain bv1 where bv1: "HASH_BLOOM_BITSET bv (bloom_idx n x) = Some bv1" by (auto simp: HASH_BLOOM_BITSET_def Let_def)
  note s = bloom_test_set [OF bv1 b]
  have t1: "HASH_BLOOM_TEST n h bv1 = Some (bloom_idx n h = bloom_idx n x \<or> HASH_BLOOM_TEST n h bv = Some True)" for h
    unfolding HASH_BLOOM_TEST_def by (rule s(2))
  have l1: "length bv1 = HASH_BLOOM_BYTELEN n" using s(1) Cons.prems by simp
  from Cons.IH [OF l1] obtain bv2 where bv2: "bloom_adds n hs bv1 = Some bv2" "length bv2 = HASH_BLOOM_BYTELEN n"
    "\<forall>h. HASH_BLOOM_TEST n h bv2 = Some (bloom_idx n h \<in> bloom_idx n ` set hs \<or> HASH_BLOOM_TEST n h bv1 = Some True)" by blast
  then show ?case using t1 by (intro exI [of _ bv2]) (auto simp: HASH_BLOOM_ADD_def bv1)
qed

theorem bloom_no_false_negative:
  assumes "n \<le> 32"
  shows "\<exists>bv. bloom_adds n hs (HASH_BLOOM_MAKE n) = Some bv \<and>
    (\<forall>h. HASH_BLOOM_TEST n h bv = Some (bloom_idx n h \<in> bloom_idx n ` set hs)) \<and> (\<forall>h \<in> set hs. HASH_BLOOM_TEST n h bv = Some True)"
proof -
  have l: "length (HASH_BLOOM_MAKE n) = HASH_BLOOM_BYTELEN n" by (simp add: HASH_BLOOM_MAKE_def)
  have "HASH_BLOOM_TEST n h (HASH_BLOOM_MAKE n) = Some False" for h
    using bloom_idx_bound [OF assms, of h]
    by (simp add: HASH_BLOOM_TEST_def HASH_BLOOM_BITTEST_def HASH_BLOOM_MAKE_def Let_def)
  with bloom_adds_test [OF assms l, of hs] show ?thesis by auto
qed

text \<open>A lookup behind the filter, and that it finds what the lookup without one finds.\<close>

definition HASH_FIND_BLOOM :: "nat \<Rightarrow> 8 word list \<Rightarrow> 'k \<Rightarrow> u32 \<Rightarrow> 'k pt_table \<Rightarrow> ptr option" where
  "HASH_FIND_BLOOM n bv k hashv s =
     (if pt_head s \<noteq> 0
      then Option.bind (HASH_BLOOM_TEST n hashv bv) (\<lambda>t.
             if t then find_loop (pt_hho s) (pt_mem s) (pt_key s) k hashv
                    (elmt_or_null (pt_hho s) (hh_head (pt_buckets s ! HASH_TO_BKT hashv (pt_num_buckets s))))
             else Some 0)
      else Some 0)"

theorem bloom_lookup:
  assumes "n \<le> 32" and "bloom_adds n hs (HASH_BLOOM_MAKE n) = Some bv"
    and "chained s H" and "fields_ok s H" and "hh_hashv ` H \<subseteq> set hs"
  shows "HASH_FIND_BLOOM n bv k v s = HASH_FIND_BYHASHVALUE k v s"
proof (cases "pt_head s = 0")
  case True
  then show ?thesis by (simp add: HASH_FIND_BLOOM_def HASH_FIND_BYHASHVALUE_def)
next
  case False
  have t: "HASH_BLOOM_TEST n v bv = Some (bloom_idx n v \<in> bloom_idx n ` set hs)"
    using bloom_no_false_negative [OF assms(1), of hs] assms(2) by auto
  show ?thesis
  proof (cases "bloom_idx n v \<in> bloom_idx n ` set hs")
    case True
    then show ?thesis using t False by (simp add: HASH_FIND_BLOOM_def HASH_FIND_BYHASHVALUE_def)
  next
    case no: False
    then have "\<not> (\<exists>h \<in> H. hh_key h = k \<and> hh_hashv h = v)" using assms(5) by blast
    then have "HASH_FIND_BYHASHVALUE k v s = Some 0" using find_chained [OF assms(3,4) False, of k v] by auto
    then show ?thesis using t no False by (simp add: HASH_FIND_BLOOM_def)
  qed
qed

section \<open>String keys\<close>

text \<open>The key of a C string: its bytes up to the NUL, as many as \<^verbatim>\<open>unsigned\<close> can count.\<close>

definition str_key :: "string \<Rightarrow> string" where
  "str_key s = (let keylen = length (c_str s) mod 2 ^ 32 in take keylen s)"

definition HASH_FIND_STR :: "string \<Rightarrow> string pt_table \<Rightarrow> ptr option" where
  "HASH_FIND_STR findstr s = HASH_FIND_ptr HASH_JEN (str_key findstr) s"

definition HASH_ADD_STR :: "string \<Rightarrow> ptr \<Rightarrow> string pt_table \<Rightarrow> string pt_table option" where
  "HASH_ADD_STR strfield add s = HASH_ADD_KEYPTR_ptr HASH_JEN (str_key strfield) add s"

definition HASH_REPLACE_STR :: "string \<Rightarrow> ptr \<Rightarrow> string pt_table \<Rightarrow> (ptr \<times> string pt_table) option" where
  "HASH_REPLACE_STR strfield add s = HASH_REPLACE HASH_JEN (str_key strfield) add s"

lemma str_key_eq: "length (c_str s) < 2 ^ 32 \<Longrightarrow> str_key s = c_str s"
  by (simp add: str_key_def Let_def c_str_def takeWhile_eq_take [symmetric])

text \<open>
  In every table reachable by insertions under C strings, replacements, deletions and the other operations, a C string finds the
  entry whose key is equal to it up to the NUL.
\<close>

theorem hash_str_lookup:
  assumes "hash_reach HASH_JEN s t" and "length (c_str findstr) < 2 ^ 32"
  shows "HASH_FIND_STR findstr s = Some (case HASH_FIND t (c_str findstr) of None \<Rightarrow> 0 | Some e \<Rightarrow> e)"
  using run_find_ptr [OF hash_reach_rel [OF assms(1)]] str_key_eq [OF assms(2)] by (simp add: HASH_FIND_STR_def)

section \<open>Integer keys\<close>

text \<open>The key of an \<^verbatim>\<open>int\<close>: its four bytes, the lowest first.\<close>

definition int_key :: "int \<Rightarrow> string" where
  "int_key n = (let w = (word_of_int n :: u32) in map (\<lambda>i. char_of (unat (drop_bit (8 * i) w))) [0..<4])"

definition HASH_FIND_INT :: "int \<Rightarrow> string pt_table \<Rightarrow> ptr option" where
  "HASH_FIND_INT findint s = HASH_FIND_ptr HASH_JEN (int_key findint) s"

definition HASH_ADD_INT :: "int \<Rightarrow> ptr \<Rightarrow> string pt_table \<Rightarrow> string pt_table option" where
  "HASH_ADD_INT intfield add s = HASH_ADD_KEYPTR_ptr HASH_JEN (int_key intfield) add s"

definition HASH_REPLACE_INT :: "int \<Rightarrow> ptr \<Rightarrow> string pt_table \<Rightarrow> (ptr \<times> string pt_table) option" where
  "HASH_REPLACE_INT intfield add s = HASH_REPLACE HASH_JEN (int_key intfield) add s"

lemma int_key_word: "int_key n = int_key m \<longleftrightarrow> (word_of_int n :: u32) = word_of_int m"
proof
  let ?x = "word_of_int n :: u32" and ?y = "word_of_int m :: u32"
  assume eq: "int_key n = int_key m"
  have byte: "take_bit 8 (unat (drop_bit (8 * i) ?x)) = take_bit 8 (unat (drop_bit (8 * i) ?y))" if "i < 4" for i
  proof -
    have "char_of (unat (drop_bit (8 * i) ?x)) = (char_of (unat (drop_bit (8 * i) ?y)) :: char)"
      using arg_cong [OF eq, of "\<lambda>l. l ! i"] that by (simp add: int_key_def Let_def)
    then show ?thesis by (simp add: char_of_eq_iff take_bit_eq_mod)
  qed
  show "?x = ?y"
  proof (rule bit_word_eqI)
    fix k assume "k < LENGTH(32)"
    then have "k div 8 < 4" "8 * (k div 8) + k mod 8 = k" "k mod 8 < 8" by auto
    then show "bit ?x k = bit ?y k"
      using arg_cong [OF byte [of "k div 8"], of "\<lambda>w. bit w (k mod 8)"]
      by (simp add: bit_take_bit_iff bit_unsigned_iff bit_drop_bit_eq)
  qed
qed (simp add: int_key_def)

lemma int_key_eq:
  assumes "- (2 ^ 31) \<le> n" "n < 2 ^ 31" "- (2 ^ 31) \<le> m" "m < 2 ^ 31"
  shows "int_key n = int_key m \<longleftrightarrow> n = m"
proof -
  have "n = m" if "(word_of_int n :: u32) = word_of_int m"
    using arg_cong [OF that, of sint] assms by (simp add: signed_of_int signed_take_bit_int_eq_self)
  then show ?thesis unfolding int_key_word by auto
qed

text \<open>
  A table whose entries were put under the keys of \<^verbatim>\<open>int\<close>s is looked up like a list of entries under these numbers: no two
  of them share a key.
\<close>

theorem hash_int_lookup:
  assumes "hash_reach HASH_JEN s (map (\<lambda>(n, e). (int_key n, e)) u)"
    and "\<forall>n \<in> insert findint (fst ` set u). - (2 ^ 31) \<le> n \<and> n < 2 ^ 31"
  shows "HASH_FIND_INT findint s = Some (case HASH_FIND u findint of None \<Rightarrow> 0 | Some e \<Rightarrow> e)"
proof -
  have "map_of (map (\<lambda>(n, e). (int_key n, e)) l) (int_key findint) = map_of l findint" if "set l \<subseteq> set u" for l
    using that
  proof (induction l)
    case (Cons x l)
    then have "int_key (fst x) = int_key findint \<longleftrightarrow> fst x = findint" using assms(2) by (intro int_key_eq) auto
    then show ?case using Cons by (auto simp: split_beta)
  qed simp
  from this [of "rev u"] have "HASH_FIND (map (\<lambda>(n, e). (int_key n, e)) u) (int_key findint) = HASH_FIND u findint"
    by (simp add: HASH_FIND_def rev_map)
  then show ?thesis
    using run_find_ptr [OF hash_reach_rel [OF assms(1)], of "int_key findint"] by (simp add: HASH_FIND_INT_def)
qed

end
