(* ===== verification/Utarray.thy ===== *)
theory Utarray
  imports Prelude
begin

text \<open>
  The dynamic arrays of \<^verbatim>\<open>src/src/include/utarray.h\<close>: a buffer of \<open>arr_n\<close> slots at address
  \<open>arr_d\<close>, the first \<^verbatim>\<open>i\<close> of which are used. The element type's copy constructor and
  destructor are arguments where the program gives one. An element pointer is the
  address of the buffer and an index, as \<^verbatim>\<open>_utarray_eltptr\<close> computes it; it is only good
  as long as the buffer is not moved by \<^verbatim>\<open>realloc\<close>, whose result is the argument
  \<open>mem\<close> of the growing operations.
\<close>

record 'a ut_array =
  arr_n :: nat
  arr_d :: nat
  arr_elts :: "'a list"

type_synonym elt_ptr = "nat \<times> nat"

definition utarray_new :: "'a ut_array" where
  "utarray_new = \<lparr>arr_n = 0, arr_d = 0, arr_elts = []\<rparr>"

definition utarray_len :: "'a ut_array \<Rightarrow> nat" where
  "utarray_len a = length (arr_elts a)"

text \<open>
  The counters \<^verbatim>\<open>i\<close> and \<^verbatim>\<open>n\<close> are \<^verbatim>\<open>unsigned\<close>, so the sum and the doubling of the loop in
  \<^verbatim>\<open>utarray_reserve\<close> wrap around at $2^{32}$. The loop goes from 0 to 8 slots and then doubles; when
  more than $2^{31}$ slots are asked for, \<^verbatim>\<open>n\<close> goes from $2^{31}$ back to 0 and the loop does not
  end, which is \<open>None\<close>.
\<close>

partial_function (option) utarray_grow :: "u32 \<Rightarrow> u32 \<Rightarrow> u32 option" where
  "utarray_grow need n = (if need > n then utarray_grow need (if n \<noteq> 0 then 2 * n else 8) else Some n)"

definition utarray_reserve :: "nat \<Rightarrow> 'a ut_array \<Rightarrow> nat \<Rightarrow> 'a ut_array option" where
  "utarray_reserve mem a by_n =
     (let need = of_nat (utarray_len a) + of_nat by_n :: u32 in
      if need > of_nat (arr_n a)
      then map_option (\<lambda>n. a\<lparr>arr_n := unat n, arr_d := mem\<rparr>) (utarray_grow need (of_nat (arr_n a)))
      else Some a)"

text \<open>
  The same over unbounded numbers, where the loop always ends: what the operation computes for arrays of
  at most $2^{31}$ slots (\<open>utarray_reserve_bounded\<close> below). The components that only append to a few
  arrays of their own use it.
\<close>

function utarray_grow_nat :: "nat \<Rightarrow> nat \<Rightarrow> nat" where
  "utarray_grow_nat need n =
     (if need > n then utarray_grow_nat need (if n \<noteq> 0 then 2 * n else 8) else n)"
  by pat_completeness auto
termination
  by (relation "measure (\<lambda>(need, n). need - n)") auto

declare utarray_grow_nat.simps [simp del]

definition utarray_reserve_nat :: "nat \<Rightarrow> 'a ut_array \<Rightarrow> nat \<Rightarrow> 'a ut_array" where
  "utarray_reserve_nat mem a by_n =
     (if utarray_len a + by_n > arr_n a
      then a\<lparr>arr_n := utarray_grow_nat (utarray_len a + by_n) (arr_n a), arr_d := mem\<rparr>
      else a)"

definition utarray_push_back :: "nat \<Rightarrow> 'a ut_array \<Rightarrow> 'a \<Rightarrow> 'a ut_array" where
  "utarray_push_back mem a x =
     (let b = utarray_reserve_nat mem a 1 in b\<lparr>arr_elts := arr_elts b @ [x]\<rparr>)"

definition utarray_eltptr :: "'a ut_array \<Rightarrow> nat \<Rightarrow> elt_ptr option" where
  "utarray_eltptr a j = (if j < utarray_len a then Some (arr_d a, j) else None)"

definition utarray_back :: "'a ut_array \<Rightarrow> elt_ptr option" where
  "utarray_back a = (if utarray_len a \<noteq> 0 then Some (arr_d a, utarray_len a - 1) else None)"

text \<open>
  What an element pointer reads: nothing once the buffer has moved away from under it.
\<close>

definition elt_deref :: "'a ut_array \<Rightarrow> elt_ptr \<Rightarrow> 'a option" where
  "elt_deref a p =
     (if fst p = arr_d a \<and> snd p < utarray_len a then Some (arr_elts a ! snd p) else None)"

definition elt_write :: "'a ut_array \<Rightarrow> elt_ptr \<Rightarrow> 'a \<Rightarrow> 'a ut_array" where
  "elt_write a p x =
     (if fst p = arr_d a \<and> snd p < utarray_len a then a\<lparr>arr_elts := (arr_elts a)[snd p := x]\<rparr>
      else a)"

definition utarray_wf :: "'a ut_array \<Rightarrow> bool" where
  "utarray_wf a \<longleftrightarrow> utarray_len a \<le> arr_n a \<and> (arr_n a = 0 \<or> (\<exists>k. arr_n a = 8 * 2 ^ k))"

lemma utarray_grow_nat_enough: "need \<le> utarray_grow_nat need n"
proof (induction need n rule: utarray_grow_nat.induct)
  case (1 need n)
  then show ?case by (cases "need > n") (auto simp: utarray_grow_nat.simps [of need n])
qed

lemma utarray_grow_nat_pow2:
  "n = 0 \<or> (\<exists>k. n = 8 * 2 ^ k) \<Longrightarrow> utarray_grow_nat need n = 0 \<or> (\<exists>k. utarray_grow_nat need n = 8 * 2 ^ k)"
proof (induction need n rule: utarray_grow_nat.induct)
  case (1 need n)
  have step: "(if n \<noteq> 0 then 2 * n else 8) = 0 \<or> (\<exists>k. (if n \<noteq> 0 then 2 * n else 8) = 8 * 2 ^ k)"
  proof (cases "n = 0")
    case True
    then show ?thesis by (auto intro: exI [of _ 0])
  next
    case False
    with "1.prems" obtain k where "n = 8 * 2 ^ k" by blast
    then have "2 * n = 8 * 2 ^ Suc k" by simp
    with False show ?thesis by metis
  qed
  show ?case
  proof (cases "need > n")
    case True
    from "1.IH" [OF True step] show ?thesis using True by (simp add: utarray_grow_nat.simps [of need n])
  next
    case False
    with "1.prems" show ?thesis by (simp add: utarray_grow_nat.simps [of need n])
  qed
qed

text \<open>
  What the 32-bit loop does from a capacity it can have itself: up to $2^{31}$ slots it returns what the
  unbounded loop does, and beyond that it never returns.
\<close>

definition cap_ok :: "nat \<Rightarrow> bool" where
  "cap_ok n \<longleftrightarrow> n = 0 \<or> (\<exists>k. n = 8 * 2 ^ k)"

lemma cap_ok_next: "cap_ok n \<Longrightarrow> cap_ok (if n \<noteq> 0 then 2 * n else 8)"
  unfolding cap_ok_def by (metis mult.left_commute mult.right_neutral power_0 power_Suc)

lemma cap_ok_wrap:
  assumes "cap_ok n" and "n < 2 ^ 32"
  shows "n = 2 ^ 31 \<or> n < 2 ^ 31 \<and> 2 * n \<le> 2 ^ 31"
proof (cases "n = 0")
  case False
  with assms(1) obtain k where k: "n = 2 ^ (k + 3)" by (auto simp: cap_ok_def power_add)
  with assms(2) have "k + 3 < 32" using power_less_imp_less_exp [of 2 "k + 3" 32] by simp
  then consider "k + 3 = 31" | "k + 4 \<le> 31" by linarith
  then show ?thesis
  proof cases
    case 2
    then have "2 ^ (k + 4) \<le> (2::nat) ^ 31" by (intro power_increasing) simp_all
    moreover have "n < 2 * n" "2 * n = 2 ^ (k + 4)" using False k by (simp_all add: numeral_eq_Suc)
    ultimately show ?thesis by linarith
  qed (simp add: k)
qed simp

lemma unat_double: "unat n < 2 ^ 31 \<Longrightarrow> unat (2 * n :: u32) = 2 * unat n"
  by (simp add: unat_word_ariths)

lemma utarray_grow_returns:
  "need \<le> 2 ^ 31 \<Longrightarrow> cap_ok n \<Longrightarrow> n < 2 ^ 32 \<Longrightarrow>
    utarray_grow (of_nat need) (of_nat n) = Some (of_nat (utarray_grow_nat need n)) \<and>
    utarray_grow_nat need n < 2 ^ 32"
proof (induction need n rule: utarray_grow_nat.induct)
  case (1 need n)
  have u: "unat (of_nat need :: u32) = need" "unat (of_nat n :: u32) = n"
    using "1.prems" by (simp_all add: unat_of_nat_small)
  show ?case
  proof (cases "need > n")
    case True
    let ?m = "if n \<noteq> 0 then 2 * n else 8"
    have m: "cap_ok ?m" "?m < 2 ^ 32"
      using cap_ok_next [OF "1.prems"(2)] cap_ok_wrap [OF "1.prems"(2,3)] True "1.prems"(1) by auto
    have w: "(if of_nat n \<noteq> (0 :: u32) then 2 * of_nat n else 8) = (of_nat ?m :: u32)"
      using u(2) by (cases "n = 0") (auto simp: unat_eq_0 [symmetric])
    have "of_nat need > (of_nat n :: u32)" using True u by (simp add: word_less_nat_alt)
    with "1.IH" [OF True "1.prems"(1) m] True w show ?thesis
      by (simp add: utarray_grow.simps [of "of_nat need" "of_nat n"] utarray_grow_nat.simps [of need n])
  next
    case False
    with u "1.prems" show ?thesis
      by (simp add: utarray_grow.simps [of "of_nat need" "of_nat n"] utarray_grow_nat.simps [of need n]
          word_less_nat_alt)
  qed
qed

lemma utarray_grow_bound:
  "utarray_grow need n = Some y \<Longrightarrow> cap_ok (unat n) \<longrightarrow> unat need \<le> unat y \<and> cap_ok (unat y)"
proof (induction need n y rule: utarray_grow.raw_induct [rotated, consumes 1])
  case (1 grow need n y)
  show ?case
  proof (cases "need > n")
    case True
    let ?m = "if n \<noteq> 0 then 2 * n else 8"
    from 1(2) True have y: "grow need ?m = Some y" by simp
    have "cap_ok (unat ?m)" if "cap_ok (unat n)"
    proof -
      have "unat n < 2 ^ 32" using unsigned_less [of n, where ?'a = nat] by simp
      from cap_ok_wrap [OF that this] consider "unat n = 2 ^ 31" | "unat n < 2 ^ 31" by blast
      then show ?thesis
      proof cases
        case 1
        then have "2 * n = 0" by (simp add: word_unat_eq_iff unat_word_ariths)
        with 1 show ?thesis by (auto simp: cap_ok_def)
      next
        case 2
        with cap_ok_next [OF that] show ?thesis by (auto simp: unat_double unat_eq_0)
      qed
    qed
    with 1(1) [OF y] show ?thesis by blast
  next
    case False
    with 1(2) show ?thesis by (auto simp: word_less_nat_alt)
  qed
qed

lemma utarray_grow_diverges:
  assumes "unat need > 2 ^ 31" and "cap_ok (unat n)"
  shows "utarray_grow need n = None"
proof (rule ccontr)
  assume "utarray_grow need n \<noteq> None"
  then obtain y where "utarray_grow need n = Some y" by auto
  from utarray_grow_bound [OF this] assms have y: "2 ^ 31 < unat y" "cap_ok (unat y)" by auto
  have "unat y < 2 ^ 32" using unsigned_less [of y, where ?'a = nat] by simp
  with cap_ok_wrap [OF y(2)] y(1) show False by auto
qed

lemma utarray_reserve_bounded:
  assumes "cap_ok (arr_n a)" and "arr_n a < 2 ^ 32" and "utarray_len a + k \<le> 2 ^ 31"
  shows "utarray_reserve mem a k = Some (utarray_reserve_nat mem a k) \<and> arr_n (utarray_reserve_nat mem a k) < 2 ^ 32"
proof -
  have u: "unat (of_nat (utarray_len a + k) :: u32) = utarray_len a + k" "unat (of_nat (arr_n a) :: u32) = arr_n a"
    using assms by (simp_all add: unat_of_nat_small del: of_nat_add)
  have c: "(of_nat (arr_n a) :: u32) < of_nat (utarray_len a) + of_nat k \<longleftrightarrow> arr_n a < utarray_len a + k"
    using u by (simp add: word_less_nat_alt)
  from utarray_grow_returns [OF assms(3,1,2)] assms(2) show ?thesis
    by (auto simp: utarray_reserve_def utarray_reserve_nat_def Let_def c unat_of_nat_small)
qed

lemma utarray_reserve_diverges:
  assumes "cap_ok (arr_n a)" and "arr_n a < 2 ^ 32"
    and "2 ^ 31 < utarray_len a + k" and "utarray_len a + k < 2 ^ 32"
  shows "utarray_reserve mem a k = None"
proof -
  have u: "unat (of_nat (utarray_len a + k) :: u32) = utarray_len a + k" "unat (of_nat (arr_n a) :: u32) = arr_n a"
    using assms by (simp_all add: unat_of_nat_small del: of_nat_add)
  have "arr_n a < utarray_len a + k" using cap_ok_wrap [OF assms(1,2)] assms(3) by auto
  with u have c: "(of_nat (arr_n a) :: u32) < of_nat (utarray_len a) + of_nat k"
    by (simp add: word_less_nat_alt)
  have "utarray_grow (of_nat (utarray_len a) + of_nat k) (of_nat (arr_n a)) = None"
    by (rule utarray_grow_diverges) (use u assms in simp_all)
  with c show ?thesis by (simp add: utarray_reserve_def)
qed

lemma utarray_wf_new [simp]: "utarray_wf utarray_new"
  by (simp add: utarray_wf_def utarray_new_def utarray_len_def)

lemma utarray_push_back_elts [simp]:
  "arr_elts (utarray_push_back mem a x) = arr_elts a @ [x]"
  by (simp add: utarray_push_back_def utarray_reserve_nat_def Let_def)

lemma utarray_push_back_wf: "utarray_wf a \<Longrightarrow> utarray_wf (utarray_push_back mem a x)"
  using utarray_grow_nat_enough [of "utarray_len a + 1" "arr_n a"]
    utarray_grow_nat_pow2 [of "arr_n a" "utarray_len a + 1"]
  by (auto simp: utarray_wf_def utarray_push_back_def utarray_reserve_nat_def utarray_len_def Let_def)

text \<open>While there is room the buffer stays where it is, and so do the pointers into it.\<close>

lemma utarray_push_back_room:
  "utarray_len a < arr_n a \<Longrightarrow> arr_d (utarray_push_back mem a x) = arr_d a"
  by (simp add: utarray_push_back_def utarray_reserve_nat_def Let_def)

lemma utarray_push_back_full:
  "utarray_len a = arr_n a \<Longrightarrow> arr_d (utarray_push_back mem a x) = mem"
  by (simp add: utarray_push_back_def utarray_reserve_nat_def Let_def)

lemma elt_deref_push_back_room:
  "utarray_len a < arr_n a \<Longrightarrow> elt_deref a p = Some y \<Longrightarrow>
    elt_deref (utarray_push_back mem a x) p = Some y"
  by (auto simp: elt_deref_def utarray_len_def utarray_push_back_room nth_append split: if_splits)

lemma elt_deref_push_back_moved:
  "utarray_len a = arr_n a \<Longrightarrow> fst p \<noteq> mem \<Longrightarrow> elt_deref (utarray_push_back mem a x) p = None"
  by (simp add: elt_deref_def utarray_push_back_full)

lemma elt_deref_back:
  "Option.bind (utarray_back (utarray_push_back mem a x)) (elt_deref (utarray_push_back mem a x)) = Some x"
  by (simp add: utarray_back_def elt_deref_def utarray_len_def)

lemma utarray_back_push_back:
  "utarray_back (utarray_push_back mem a x) =
     Some (arr_d (utarray_push_back mem a x), utarray_len a)"
  by (simp add: utarray_back_def utarray_len_def)

text \<open>The first eight slots are allocated at once.\<close>

lemma utarray_grow_nat_first: "utarray_grow_nat (Suc 0) 0 = 8"
  by (simp add: utarray_grow_nat.simps [of "Suc 0" 0] utarray_grow_nat.simps [of "Suc 0" 8])

lemma utarray_push_back_cap:
  "arr_n (utarray_push_back mem a x) =
    (if utarray_len a + 1 > arr_n a then utarray_grow_nat (utarray_len a + 1) (arr_n a) else arr_n a)"
  by (simp add: utarray_push_back_def utarray_reserve_nat_def Let_def)

end
