(* ===== verification/Utarray_ops.thy ===== *)
theory Utarray_ops
  imports Utarray "HOL-Library.Multiset"
begin

text \<open>
  The rest of \<^verbatim>\<open>src/src/include/utarray.h\<close>: the operations that construct and destroy elements
  through the functions of a \<^verbatim>\<open>UT_icd\<close>, and the string elements of \<^verbatim>\<open>ut_str_icd\<close>.

  The constructor, copy and destructor functions work on a memory of their own, of an arbitrary type;
  \<open>None\<close> is undefined behaviour (a block freed twice, a null element pointer passed on, an index
  behind the end of the buffer). The slots behind the length are not part of the model, so an operation
  that would make the length run ahead of the elements (\<^verbatim>\<open>utarray_pop_back\<close> on an empty array,
  \<^verbatim>\<open>utarray_erase\<close> of more than is there, both wrapping around) is \<open>None\<close> as well. So is an operation
  that does not return: growing an array beyond $2^{31}$ slots (\<open>utarray_grow\<close>). Lengths and positions
  are natural numbers that stand for the source's \<^verbatim>\<open>unsigned\<close> values, and every sum of them the source
  compares is taken modulo $2^{32}$ or \<open>None\<close> where it wraps.
\<close>

section \<open>Element functions\<close>

text \<open>\<^verbatim>\<open>UT_icd\<close>; a \<^verbatim>\<open>NULL\<close> function is \<open>None\<close>, and \<open>icd_zero\<close> is an element of zero bytes.\<close>

record ('a, 'h) ut_icd =
  icd_zero :: 'a
  icd_init :: "('h \<Rightarrow> 'a \<times> 'h) option"
  icd_copy :: "('a \<Rightarrow> 'h \<Rightarrow> ('a \<times> 'h) option) option"
  icd_dtor :: "('a \<Rightarrow> 'h \<Rightarrow> 'h option) option"

text \<open>The two branches by which an operation fills a slot.\<close>

definition copy_elt :: "('a, 'h) ut_icd \<Rightarrow> 'a \<Rightarrow> 'h \<Rightarrow> ('a \<times> 'h) option" where
  "copy_elt icd p h = (case icd_copy icd of Some f \<Rightarrow> f p h | None \<Rightarrow> Some (p, h))"

definition init_elt :: "('a, 'h) ut_icd \<Rightarrow> 'h \<Rightarrow> 'a \<times> 'h" where
  "init_elt icd h = (case icd_init icd of Some f \<Rightarrow> f h | None \<Rightarrow> (icd_zero icd, h))"

definition dtor_elt :: "('a, 'h) ut_icd \<Rightarrow> 'a \<Rightarrow> 'h \<Rightarrow> 'h option" where
  "dtor_elt icd x h = (case icd_dtor icd of Some f \<Rightarrow> f x h | None \<Rightarrow> Some h)"

text \<open>The loops over several slots.\<close>

fun copy_elts :: "('a, 'h) ut_icd \<Rightarrow> 'a list \<Rightarrow> 'h \<Rightarrow> ('a list \<times> 'h) option" where
  "copy_elts icd [] h = Some ([], h)"
| "copy_elts icd (p # ps) h =
     (case copy_elt icd p h of
        None \<Rightarrow> None
      | Some (x, h1) \<Rightarrow>
          (case copy_elts icd ps h1 of None \<Rightarrow> None | Some (xs, h2) \<Rightarrow> Some (x # xs, h2)))"

fun init_elts :: "('a, 'h) ut_icd \<Rightarrow> nat \<Rightarrow> 'h \<Rightarrow> 'a list \<times> 'h" where
  "init_elts icd 0 h = ([], h)"
| "init_elts icd (Suc n) h =
     (let (x, h1) = init_elt icd h; (xs, h2) = init_elts icd n h1 in (x # xs, h2))"

fun dtor_elts :: "('a, 'h) ut_icd \<Rightarrow> 'a list \<Rightarrow> 'h \<Rightarrow> 'h option" where
  "dtor_elts icd [] h = Some h"
| "dtor_elts icd (x # xs) h = (case dtor_elt icd x h of None \<Rightarrow> None | Some h1 \<Rightarrow> dtor_elts icd xs h1)"

section \<open>Operations\<close>

type_synonym ('a, 'h) ut_result = "('a ut_array \<times> 'h) option"

text \<open>
  \<^verbatim>\<open>utarray_done\<close> frees the buffer of an array that has one and leaves \<^verbatim>\<open>i\<close> as it is: the result is
  the memory and the address freed. \<^verbatim>\<open>utarray_free\<close> also frees the array itself.
\<close>

definition utarray_done :: "('a, 'h) ut_icd \<Rightarrow> 'a ut_array \<Rightarrow> 'h \<Rightarrow> (nat option \<times> 'a ut_array \<times> 'h) option" where
  "utarray_done icd a h =
     (if arr_n a \<noteq> 0
      then map_option (\<lambda>h'. (Some (arr_d a), a\<lparr>arr_n := 0\<rparr>, h')) (dtor_elts icd (arr_elts a) h)
      else Some (None, a\<lparr>arr_n := 0\<rparr>, h))"

definition utarray_free :: "('a, 'h) ut_icd \<Rightarrow> 'a ut_array \<Rightarrow> 'h \<Rightarrow> 'h option" where
  "utarray_free icd a h = map_option (\<lambda>(_, _, h'). h') (utarray_done icd a h)"

text \<open>
  \<^verbatim>\<open>utarray_reserve\<close> for \<open>k\<close> slots that are written next: where the sum of the length and \<open>k\<close> wrapped
  around, the array has not grown and the write is behind the buffer.
\<close>

definition utarray_slots :: "nat \<Rightarrow> 'a ut_array \<Rightarrow> nat \<Rightarrow> 'a ut_array option" where
  "utarray_slots mem a k =
     (case utarray_reserve mem a k of
        None \<Rightarrow> None
      | Some b \<Rightarrow> if utarray_len b + k \<le> arr_n b then Some b else None)"

definition utarray_push_back_icd ::
  "('a, 'h) ut_icd \<Rightarrow> nat \<Rightarrow> 'a ut_array \<Rightarrow> 'a \<Rightarrow> 'h \<Rightarrow> ('a, 'h) ut_result"
where
  "utarray_push_back_icd icd mem a p h =
     (case utarray_slots mem a 1 of
        None \<Rightarrow> None
      | Some b \<Rightarrow> map_option (\<lambda>(x, h'). (b\<lparr>arr_elts := arr_elts b @ [x]\<rparr>, h')) (copy_elt icd p h))"

definition utarray_pop_back :: "('a, 'h) ut_icd \<Rightarrow> 'a ut_array \<Rightarrow> 'h \<Rightarrow> ('a, 'h) ut_result" where
  "utarray_pop_back icd a h =
     (if arr_elts a = [] then None
      else map_option (Pair (a\<lparr>arr_elts := butlast (arr_elts a)\<rparr>)) (dtor_elt icd (last (arr_elts a)) h))"

definition utarray_extend_back :: "('a, 'h) ut_icd \<Rightarrow> nat \<Rightarrow> 'a ut_array \<Rightarrow> 'h \<Rightarrow> ('a, 'h) ut_result" where
  "utarray_extend_back icd mem a h =
     (case utarray_slots mem a 1 of
        None \<Rightarrow> None
      | Some b \<Rightarrow> let (x, h') = init_elt icd h in Some (b\<lparr>arr_elts := arr_elts b @ [x]\<rparr>, h'))"

definition utarray_resize :: "('a, 'h) ut_icd \<Rightarrow> nat \<Rightarrow> 'a ut_array \<Rightarrow> nat \<Rightarrow> 'h \<Rightarrow> ('a, 'h) ut_result" where
  "utarray_resize icd mem a num h =
     (if utarray_len a > num
      then map_option (Pair (a\<lparr>arr_elts := take num (arr_elts a)\<rparr>)) (dtor_elts icd (drop num (arr_elts a)) h)
      else if utarray_len a < num
      then (case utarray_slots mem a (num - utarray_len a) of
              None \<Rightarrow> None
            | Some b \<Rightarrow>
                let (xs, h') = init_elts icd (num - utarray_len a) h in Some (b\<lparr>arr_elts := arr_elts b @ xs\<rparr>, h'))
      else Some (a, h))"

text \<open>
  The operations that may grow the array twice take both results of \<^verbatim>\<open>realloc\<close>, \<open>mem1\<close> for the resize
  and \<open>mem2\<close> for the slots of the new elements.
\<close>

definition utarray_insert ::
  "('a, 'h) ut_icd \<Rightarrow> nat \<Rightarrow> nat \<Rightarrow> 'a ut_array \<Rightarrow> 'a \<Rightarrow> nat \<Rightarrow> 'h \<Rightarrow> ('a, 'h) ut_result"
where
  "utarray_insert icd mem1 mem2 a p j h =
     (case (if j > utarray_len a then utarray_resize icd mem1 a j h else Some (a, h)) of
        None \<Rightarrow> None
      | Some (b, h1) \<Rightarrow>
          (case utarray_slots mem2 b 1 of
             None \<Rightarrow> None
           | Some c \<Rightarrow>
               map_option (\<lambda>(x, h2). (c\<lparr>arr_elts := take j (arr_elts c) @ x # drop j (arr_elts c)\<rparr>, h2))
                 (copy_elt icd p h1)))"

definition utarray_inserta ::
  "('a, 'h) ut_icd \<Rightarrow> nat \<Rightarrow> nat \<Rightarrow> 'a ut_array \<Rightarrow> 'a ut_array \<Rightarrow> nat \<Rightarrow> 'h \<Rightarrow> ('a, 'h) ut_result"
where
  "utarray_inserta icd mem1 mem2 a w j h =
     (if utarray_len w = 0 then Some (a, h)
      else
        (case (if j > utarray_len a then utarray_resize icd mem1 a j h else Some (a, h)) of
           None \<Rightarrow> None
         | Some (b, h1) \<Rightarrow>
             (case utarray_slots mem2 b (utarray_len w) of
                None \<Rightarrow> None
              | Some c \<Rightarrow>
                  map_option (\<lambda>(xs, h2). (c\<lparr>arr_elts := take j (arr_elts c) @ xs @ drop j (arr_elts c)\<rparr>, h2))
                    (copy_elts icd (arr_elts w) h1))))"

definition utarray_concat ::
  "('a, 'h) ut_icd \<Rightarrow> nat \<Rightarrow> nat \<Rightarrow> 'a ut_array \<Rightarrow> 'a ut_array \<Rightarrow> 'h \<Rightarrow> ('a, 'h) ut_result"
where
  "utarray_concat icd mem1 mem2 dst src h = utarray_inserta icd mem1 mem2 dst src (utarray_len dst) h"

text \<open>
  \<^verbatim>\<open>utarray_erase\<close>: the destructor gets \<^verbatim>\<open>utarray_eltptr\<close>, which is \<^verbatim>\<open>NULL\<close> behind the end, and
  without a destructor the length is reduced by \<open>len\<close> whether or not that many elements were there.
\<close>

definition utarray_erase :: "('a, 'h) ut_icd \<Rightarrow> 'a ut_array \<Rightarrow> nat \<Rightarrow> nat \<Rightarrow> 'h \<Rightarrow> ('a, 'h) ut_result" where
  "utarray_erase icd a pos len h =
     (case (if icd_dtor icd = None then Some h
            else if utarray_len a < pos + len \<and> len \<noteq> 0 then None
            else dtor_elts icd (take len (drop pos (arr_elts a))) h) of
        None \<Rightarrow> None
      | Some h' \<Rightarrow>
          if len > utarray_len a \<or> pos + len \<ge> 2 ^ 32 then None
          else
            let moved = (if utarray_len a > pos + len
                         then take pos (arr_elts a) @ drop (pos + len) (arr_elts a) else arr_elts a)
            in Some (a\<lparr>arr_elts := take (utarray_len a - len) moved\<rparr>, h'))"

definition utarray_clear :: "('a, 'h) ut_icd \<Rightarrow> 'a ut_array \<Rightarrow> 'h \<Rightarrow> ('a, 'h) ut_result" where
  "utarray_clear icd a h =
     (if utarray_len a > 0
      then map_option (Pair (a\<lparr>arr_elts := []\<rparr>)) (dtor_elts icd (arr_elts a) h)
      else Some (a, h))"

definition utarray_renew :: "('a, 'h) ut_icd \<Rightarrow> 'a ut_array option \<Rightarrow> 'h \<Rightarrow> ('a, 'h) ut_result" where
  "utarray_renew icd a h = (case a of Some b \<Rightarrow> utarray_clear icd b h | None \<Rightarrow> Some (utarray_new, h))"

text \<open>\<^verbatim>\<open>qsort\<close> and \<^verbatim>\<open>bsearch\<close> are the C library's: which of several equal elements comes first, or is found, is
  left open, so they are arguments. \<^verbatim>\<open>utarray_find\<close> gives the index of the element found.\<close>

definition utarray_sort :: "(('a \<Rightarrow> 'a \<Rightarrow> int) \<Rightarrow> 'a list \<Rightarrow> 'a list) \<Rightarrow> 'a ut_array \<Rightarrow> ('a \<Rightarrow> 'a \<Rightarrow> int) \<Rightarrow> 'a ut_array" where
  "utarray_sort qsort a cmp = a\<lparr>arr_elts := qsort cmp (arr_elts a)\<rparr>"

definition utarray_find ::
  "(('a \<Rightarrow> 'a \<Rightarrow> int) \<Rightarrow> 'a \<Rightarrow> 'a list \<Rightarrow> nat option) \<Rightarrow> 'a ut_array \<Rightarrow> 'a \<Rightarrow> ('a \<Rightarrow> 'a \<Rightarrow> int) \<Rightarrow> elt_ptr option"
where
  "utarray_find bsearch a v cmp = map_option (Pair (arr_d a)) (bsearch cmp v (arr_elts a))"

text \<open>Walking an array: a pointer into the buffer is its address and the index \<^verbatim>\<open>utarray_eltidx\<close> computes.\<close>

definition utarray_eltidx :: "'a ut_array \<Rightarrow> elt_ptr \<Rightarrow> nat" where
  "utarray_eltidx a e = snd e"

definition utarray_front :: "'a ut_array \<Rightarrow> elt_ptr option" where
  "utarray_front a = (if utarray_len a \<noteq> 0 then Some (arr_d a, 0) else None)"

definition utarray_next :: "'a ut_array \<Rightarrow> elt_ptr option \<Rightarrow> elt_ptr option" where
  "utarray_next a e =
     (case e of
        None \<Rightarrow> utarray_front a
      | Some p \<Rightarrow> if utarray_len a \<noteq> utarray_eltidx a p + 1 then Some (arr_d a, utarray_eltidx a p + 1) else None)"

definition utarray_prev :: "'a ut_array \<Rightarrow> elt_ptr option \<Rightarrow> elt_ptr option" where
  "utarray_prev a e =
     (case e of
        None \<Rightarrow> utarray_back a
      | Some p \<Rightarrow> if utarray_eltidx a p \<noteq> 0 then Some (arr_d a, utarray_eltidx a p - 1) else None)"

section \<open>String elements\<close>

text \<open>
  The memory of \<^verbatim>\<open>ut_str_icd\<close>: the live blocks by address, and the address the next \<^verbatim>\<open>strdup\<close> returns.
  Address 0 is \<^verbatim>\<open>NULL\<close>. Freeing what is not live is undefined.
\<close>

record str_heap =
  sh_live :: "nat \<rightharpoonup> string"
  sh_next :: nat

definition str_malloc :: "string \<Rightarrow> str_heap \<Rightarrow> nat \<times> str_heap" where
  "str_malloc s h = (sh_next h, h\<lparr>sh_live := (sh_live h)(sh_next h \<mapsto> s), sh_next := Suc (sh_next h)\<rparr>)"

definition str_free :: "nat \<Rightarrow> str_heap \<Rightarrow> str_heap option" where
  "str_free p h = (if sh_live h p = None then None else Some (h\<lparr>sh_live := (sh_live h)(p := None)\<rparr>))"

definition utarray_str_cpy :: "nat \<Rightarrow> str_heap \<Rightarrow> (nat \<times> str_heap) option" where
  "utarray_str_cpy src h =
     (if src = 0 then Some (0, h)
      else (case sh_live h src of None \<Rightarrow> None | Some s \<Rightarrow> Some (str_malloc s h)))"

definition utarray_str_dtor :: "nat \<Rightarrow> str_heap \<Rightarrow> str_heap option" where
  "utarray_str_dtor eltc h = (if eltc \<noteq> 0 then str_free eltc h else Some h)"

definition ut_str_icd :: "(nat, str_heap) ut_icd" where
  "ut_str_icd = \<lparr>icd_zero = 0, icd_init = None, icd_copy = Some utarray_str_cpy, icd_dtor = Some utarray_str_dtor\<rparr>"

definition ut_int_icd :: "(int, unit) ut_icd" where
  "ut_int_icd = \<lparr>icd_zero = 0, icd_init = None, icd_copy = None, icd_dtor = None\<rparr>"

definition ut_ptr_icd :: "(nat, unit) ut_icd" where
  "ut_ptr_icd = \<lparr>icd_zero = 0, icd_init = None, icd_copy = None, icd_dtor = None\<rparr>"

text \<open>A program over one array: each step also names the addresses \<^verbatim>\<open>realloc\<close> would return in it.\<close>

datatype 'a ut_op =
    Op_push 'a
  | Op_pop
  | Op_extend
  | Op_resize nat
  | Op_insert 'a nat
  | Op_inserta "'a ut_array" nat
  | Op_concat "'a ut_array"
  | Op_erase nat nat
  | Op_clear

fun utarray_exec ::
  "('a, 'h) ut_icd \<Rightarrow> nat \<times> nat \<Rightarrow> 'a ut_op \<Rightarrow> 'a ut_array \<Rightarrow> 'h \<Rightarrow> ('a, 'h) ut_result"
where
  "utarray_exec icd m (Op_push p) a h = utarray_push_back_icd icd (fst m) a p h"
| "utarray_exec icd m Op_pop a h = utarray_pop_back icd a h"
| "utarray_exec icd m Op_extend a h = utarray_extend_back icd (fst m) a h"
| "utarray_exec icd m (Op_resize n) a h = utarray_resize icd (fst m) a n h"
| "utarray_exec icd m (Op_insert p j) a h = utarray_insert icd (fst m) (snd m) a p j h"
| "utarray_exec icd m (Op_inserta w j) a h = utarray_inserta icd (fst m) (snd m) a w j h"
| "utarray_exec icd m (Op_concat w) a h = utarray_concat icd (fst m) (snd m) a w h"
| "utarray_exec icd m (Op_erase pos len) a h = utarray_erase icd a pos len h"
| "utarray_exec icd m Op_clear a h = utarray_clear icd a h"

fun utarray_run ::
  "('a, 'h) ut_icd \<Rightarrow> ((nat \<times> nat) \<times> 'a ut_op) list \<Rightarrow> 'a ut_array \<Rightarrow> 'h \<Rightarrow> ('a, 'h) ut_result"
where
  "utarray_run icd [] a h = Some (a, h)"
| "utarray_run icd ((m, op) # ops) a h =
     (case utarray_exec icd m op a h of None \<Rightarrow> None | Some (b, h') \<Rightarrow> utarray_run icd ops b h')"

section \<open>What the operations do to a list\<close>

text \<open>
  The specification: an array is a list of values, a new slot holds \<open>z\<close>, and \<open>v\<close> is the value a source
  element stands for.
\<close>

definition list_resize :: "'b \<Rightarrow> nat \<Rightarrow> 'b list \<Rightarrow> 'b list" where
  "list_resize z n xs = take n xs @ replicate (n - length xs) z"

definition list_insert :: "'b \<Rightarrow> 'b list \<Rightarrow> nat \<Rightarrow> 'b list \<Rightarrow> 'b list" where
  "list_insert z ys j xs =
     (if ys = [] then xs else take j (list_resize z (max j (length xs)) xs) @ ys @ drop j xs)"

fun ut_op_spec :: "'b \<Rightarrow> ('a \<Rightarrow> 'b) \<Rightarrow> 'a ut_op \<Rightarrow> 'b list \<Rightarrow> 'b list" where
  "ut_op_spec z v (Op_push p) xs = xs @ [v p]"
| "ut_op_spec z v Op_pop xs = butlast xs"
| "ut_op_spec z v Op_extend xs = xs @ [z]"
| "ut_op_spec z v (Op_resize n) xs = list_resize z n xs"
| "ut_op_spec z v (Op_insert p j) xs = list_insert z [v p] j xs"
| "ut_op_spec z v (Op_inserta w j) xs = list_insert z (map v (arr_elts w)) j xs"
| "ut_op_spec z v (Op_concat w) xs = xs @ map v (arr_elts w)"
| "ut_op_spec z v (Op_erase pos len) xs = take pos xs @ drop (pos + len) xs"
| "ut_op_spec z v Op_clear xs = []"

text \<open>
  What a caller has to see to: nothing is taken from an empty array or from behind the end, and no
  operation makes the array longer than $2^{31}$ elements.
\<close>

fun ut_op_ok :: "'a set \<Rightarrow> nat \<Rightarrow> 'a ut_op \<Rightarrow> bool" where
  "ut_op_ok S n (Op_push p) \<longleftrightarrow> p \<in> S"
| "ut_op_ok S n Op_pop \<longleftrightarrow> n \<noteq> 0"
| "ut_op_ok S n (Op_insert p j) \<longleftrightarrow> p \<in> S"
| "ut_op_ok S n (Op_inserta w j) \<longleftrightarrow> set (arr_elts w) \<subseteq> S"
| "ut_op_ok S n (Op_concat w) \<longleftrightarrow> set (arr_elts w) \<subseteq> S"
| "ut_op_ok S n (Op_erase pos len) \<longleftrightarrow> pos + len \<le> n"
| "ut_op_ok S n _ \<longleftrightarrow> True"

fun ut_ops_ok :: "'a set \<Rightarrow> 'b \<Rightarrow> ('a \<Rightarrow> 'b) \<Rightarrow> ((nat \<times> nat) \<times> 'a ut_op) list \<Rightarrow> 'b list \<Rightarrow> bool" where
  "ut_ops_ok S z v [] xs \<longleftrightarrow> True"
| "ut_ops_ok S z v ((m, op) # ops) xs \<longleftrightarrow>
     ut_op_ok S (length xs) op \<and> length (ut_op_spec z v op xs) \<le> 2 ^ 31 \<and>
     ut_ops_ok S z v ops (ut_op_spec z v op xs)"

definition ut_ops_spec :: "'b \<Rightarrow> ('a \<Rightarrow> 'b) \<Rightarrow> ((nat \<times> nat) \<times> 'a ut_op) list \<Rightarrow> 'b list \<Rightarrow> 'b list" where
  "ut_ops_spec z v ops xs = fold (\<lambda>(m, op). ut_op_spec z v op) ops xs"

section \<open>The capacity\<close>

text \<open>The capacity of an array the operations made: 0 or 8 doubled, and an \<^verbatim>\<open>unsigned\<close>.\<close>

definition utarray_fits :: "'a ut_array \<Rightarrow> bool" where
  "utarray_fits a \<longleftrightarrow> utarray_wf a \<and> arr_n a < 2 ^ 32"

lemma utarray_fits_cap: "utarray_fits a \<Longrightarrow> cap_ok (arr_n a) \<and> utarray_len a \<le> arr_n a \<and> arr_n a < 2 ^ 32"
  by (auto simp: utarray_fits_def utarray_wf_def cap_ok_def)

lemma utarray_fits_elts:
  "utarray_fits a \<Longrightarrow> length xs \<le> arr_n a \<Longrightarrow> utarray_fits (a\<lparr>arr_elts := xs\<rparr>)"
  by (simp add: utarray_fits_def utarray_wf_def utarray_len_def)

lemma utarray_fits_shrink:
  "utarray_fits a \<Longrightarrow> length xs \<le> utarray_len a \<Longrightarrow> utarray_fits (a\<lparr>arr_elts := xs\<rparr>)"
  by (rule utarray_fits_elts) (auto dest: utarray_fits_cap)

lemma utarray_slots_result:
  assumes "utarray_slots mem a k = Some b" and "utarray_fits a"
  shows "utarray_fits b" "arr_elts b = arr_elts a" "utarray_len a + k \<le> arr_n b"
proof -
  from assms(1) have b: "utarray_reserve mem a k = Some b" and room: "utarray_len b + k \<le> arr_n b"
    by (auto simp: utarray_slots_def split: option.splits if_splits)
  from b show elts: "arr_elts b = arr_elts a" by (auto simp: utarray_reserve_def Let_def split: if_splits)
  with room show "utarray_len a + k \<le> arr_n b" by (simp add: utarray_len_def)
  have "cap_ok (arr_n b) \<and> arr_n b < 2 ^ 32"
  proof (cases "b = a")
    case False
    with b obtain y where y: "utarray_grow (of_nat (utarray_len a) + of_nat k) (of_nat (arr_n a)) = Some y" "arr_n b = unat y"
      by (auto simp: utarray_reserve_def Let_def split: if_splits)
    have "unat (of_nat (arr_n a) :: u32) = arr_n a"
      using utarray_fits_cap [OF assms(2)] by (simp add: unat_of_nat_small)
    with utarray_grow_bound [OF y(1)] utarray_fits_cap [OF assms(2)] y(2) unsigned_less [of y, where ?'a = nat]
    show ?thesis by simp
  qed (use utarray_fits_cap [OF assms(2)] in simp)
  with room show "utarray_fits b" by (simp add: utarray_fits_def utarray_wf_def cap_ok_def)
qed

lemma utarray_slots_bounded:
  assumes "utarray_fits a" and "utarray_len a + k \<le> 2 ^ 31"
  shows "utarray_slots mem a k = Some (utarray_reserve_nat mem a k)"
  using utarray_reserve_bounded [of a k mem] utarray_fits_cap [OF assms(1)] assms(2)
    utarray_grow_nat_enough [of "utarray_len a + k" "arr_n a"]
  by (auto simp: utarray_slots_def utarray_reserve_nat_def utarray_len_def)

lemma utarray_slots_ex:
  assumes "utarray_fits a" and "utarray_len a + k \<le> 2 ^ 31"
  obtains b where "utarray_slots mem a k = Some b" "arr_elts b = arr_elts a"
  using utarray_slots_bounded [OF assms, of mem] utarray_slots_result(2) [OF _ assms(1)] by blast

lemma utarray_slots_diverges:
  assumes "utarray_fits a" and "2 ^ 31 < utarray_len a + k" and "utarray_len a + k < 2 ^ 32"
  shows "utarray_slots mem a k = None"
  using utarray_reserve_diverges [of a k mem] utarray_fits_cap [OF assms(1)] assms(2,3)
  by (simp add: utarray_slots_def)

lemma utarray_fits_slots:
  "utarray_slots mem a k = Some b \<Longrightarrow> utarray_fits a \<Longrightarrow> length xs \<le> utarray_len a + k \<Longrightarrow>
    utarray_fits (b\<lparr>arr_elts := xs\<rparr>)"
  using utarray_slots_result [of mem a k b] by (intro utarray_fits_elts) simp_all

text \<open>
  The appending that the components use is that of the header, for elements that are copied as they are.
\<close>

lemma utarray_push_back_plain:
  assumes "utarray_fits a" and "utarray_len a < 2 ^ 31" and "icd_copy icd = None"
  shows "utarray_push_back_icd icd mem a p h = Some (utarray_push_back mem a p, h)"
  using utarray_slots_bounded [OF assms(1), of 1 mem] assms(2,3)
  by (simp add: utarray_push_back_icd_def utarray_push_back_def copy_elt_def Let_def)

lemma init_elts_length [simp]: "length (fst (init_elts icd n h)) = n"
  by (induction n arbitrary: h) (auto simp: Let_def split_beta)

lemma copy_elts_length: "copy_elts icd ps h = Some (xs, h') \<Longrightarrow> length xs = length ps"
  by (induction ps arbitrary: h xs h') (auto split: option.splits prod.splits)

lemma utarray_resize_fits:
  assumes "utarray_fits a" and "utarray_resize icd mem a num h = Some (b, h')"
  shows "utarray_fits b \<and> utarray_len b = num"
proof (cases "utarray_len a < num")
  case True
  with assms(2) obtain c where c: "utarray_slots mem a (num - utarray_len a) = Some c"
    "b = c\<lparr>arr_elts := arr_elts c @ fst (init_elts icd (num - utarray_len a) h)\<rparr>"
    by (auto simp: utarray_resize_def split_beta split: option.splits)
  from True utarray_slots_result(2) [OF c(1) assms(1)] c(2) utarray_fits_slots [OF c(1) assms(1)] show ?thesis
    by (simp add: utarray_len_def)
next
  case False
  with assms show ?thesis
    by (auto simp: utarray_resize_def utarray_len_def split: if_splits intro!: utarray_fits_shrink)
qed

lemma utarray_resize_first:
  assumes "(if j > utarray_len a then utarray_resize icd mem a j h else Some (a, h)) = Some (c, h1)"
    and "utarray_fits a"
  shows "utarray_fits c \<and> utarray_len c = max j (utarray_len a)"
  using assms by (auto split: if_splits dest: utarray_resize_fits)

lemma utarray_insert_fits:
  assumes "utarray_fits a" and "utarray_insert icd m1 m2 a p j h = Some (b, h')"
  shows "utarray_fits b"
proof -
  obtain c h1 d x where c: "(if j > utarray_len a then utarray_resize icd m1 a j h else Some (a, h)) = Some (c, h1)"
    and d: "utarray_slots m2 c 1 = Some d" and b: "b = d\<lparr>arr_elts := take j (arr_elts d) @ x # drop j (arr_elts d)\<rparr>"
    using assms(2) by (auto simp: utarray_insert_def split: option.splits)
  from utarray_resize_first [OF c assms(1)] have fits: "utarray_fits c" by blast
  with b utarray_slots_result(2) [OF d fits] show ?thesis
    by (auto simp: utarray_len_def intro!: utarray_fits_slots [OF d])
qed

lemma utarray_inserta_fits:
  assumes "utarray_fits a" and "utarray_inserta icd m1 m2 a w j h = Some (b, h')"
  shows "utarray_fits b"
proof (cases "utarray_len w = 0")
  case True
  with assms show ?thesis by (simp add: utarray_inserta_def)
next
  case False
  then obtain c h1 d xs h2 where c: "(if j > utarray_len a then utarray_resize icd m1 a j h else Some (a, h)) = Some (c, h1)"
    and d: "utarray_slots m2 c (utarray_len w) = Some d" and xs: "copy_elts icd (arr_elts w) h1 = Some (xs, h2)"
    and b: "b = d\<lparr>arr_elts := take j (arr_elts d) @ xs @ drop j (arr_elts d)\<rparr>"
    using assms(2) by (auto simp: utarray_inserta_def split: option.splits)
  from utarray_resize_first [OF c assms(1)] have fits: "utarray_fits c" by blast
  with b utarray_slots_result(2) [OF d fits] copy_elts_length [OF xs] show ?thesis
    by (auto simp: utarray_len_def intro!: utarray_fits_slots [OF d])
qed

lemma utarray_exec_fits:
  assumes "utarray_fits a" and "utarray_exec icd m op a h = Some (b, h')"
  shows "utarray_fits b"
proof (cases op)
  case (Op_push p)
  with assms show ?thesis
    by (auto simp: utarray_push_back_icd_def utarray_len_def split: option.splits dest: utarray_slots_result(2)
        intro!: utarray_fits_slots)
next
  case Op_extend
  with assms show ?thesis
    by (auto simp: utarray_extend_back_def split_beta utarray_len_def split: option.splits
        dest: utarray_slots_result(2) intro!: utarray_fits_slots)
next
  case Op_erase
  with assms show ?thesis
    by (auto simp: utarray_erase_def Let_def utarray_len_def split: option.splits if_splits intro!: utarray_fits_shrink)
qed (use assms in \<open>auto simp: utarray_pop_back_def utarray_clear_def utarray_concat_def utarray_len_def
      split: if_splits intro!: utarray_fits_shrink dest: utarray_resize_fits utarray_insert_fits utarray_inserta_fits\<close>)

text \<open>
  A request for more than $2^{31}$ elements, of any kind, is never answered: the loop of
  \<^verbatim>\<open>utarray_reserve\<close> runs for ever.
\<close>

lemma utarray_resize_diverges:
  assumes "utarray_fits a" and "2 ^ 31 < num" and "num < 2 ^ 32" and "utarray_len a < num"
  shows "utarray_resize icd mem a num h = None"
  using utarray_slots_diverges [OF assms(1), of "num - utarray_len a" mem] assms(2-4)
  by (simp add: utarray_resize_def)

lemma utarray_push_back_diverges:
  assumes "utarray_fits a" and "utarray_len a = 2 ^ 31"
  shows "utarray_push_back_icd icd mem a p h = None"
  using utarray_slots_diverges [OF assms(1), of 1 mem] assms(2)
  by (simp add: utarray_push_back_icd_def)

section \<open>Strings: every copy is freed once\<close>

text \<open>
  The array owns the live blocks its elements point to: they are distinct, none of them is a block
  that was there before (\<open>base\<close>), and together with those they are all the live blocks.
\<close>

definition owns :: "(nat \<rightharpoonup> string) \<Rightarrow> nat set \<Rightarrow> str_heap \<Rightarrow> bool" where
  "owns base P h \<longleftrightarrow> 0 < sh_next h \<and> (\<forall>p s. base p = Some s \<longrightarrow> sh_live h p = Some s) \<and>
     (\<forall>p \<in> P. base p = None \<and> sh_live h p \<noteq> None) \<and>
     (\<forall>p s. sh_live h p = Some s \<longrightarrow> 0 < p \<and> p < sh_next h \<and> (base p = Some s \<or> p \<in> P))"

definition str_own :: "(nat \<rightharpoonup> string) \<Rightarrow> nat list \<Rightarrow> str_heap \<Rightarrow> bool" where
  "str_own base xs h \<longleftrightarrow> distinct (filter (\<lambda>p. p \<noteq> 0) xs) \<and> owns base (set xs - {0}) h"

definition str_abs :: "str_heap \<Rightarrow> nat list \<Rightarrow> string option list" where
  "str_abs h xs = map (sh_live h) xs"

abbreviation same_strings :: "nat list \<Rightarrow> str_heap \<Rightarrow> str_heap \<Rightarrow> bool" where
  "same_strings xs h h' \<equiv> \<forall>p \<in> set xs. sh_live h' p = sh_live h p"

lemma owns_bound: "owns base P h \<Longrightarrow> sh_live h p = Some s \<Longrightarrow> 0 < p \<and> p < sh_next h"
  unfolding owns_def by blast

lemma owns_base: "owns base P h \<Longrightarrow> base p = Some s \<Longrightarrow> sh_live h p = Some s"
  unfolding owns_def by blast

lemma owns_live: "owns base P h \<Longrightarrow> p \<in> P \<Longrightarrow> sh_live h p \<noteq> None"
  unfolding owns_def by blast

lemma owns_null: "owns base P h \<Longrightarrow> sh_live h 0 = None"
  using owns_bound [of base P h 0] by (cases "sh_live h 0") auto

lemma owns_fresh: "owns base P h \<Longrightarrow> sh_live h (sh_next h) = None"
  using owns_bound [of base P h "sh_next h"] by (cases "sh_live h (sh_next h)") auto

lemma owns_fresh_base: "owns base P h \<Longrightarrow> base (sh_next h) = None"
  using owns_fresh [of base P h] by (cases "base (sh_next h)") (auto simp: owns_def)

lemma owns_fresh_block: "owns base P h \<Longrightarrow> sh_next h \<notin> P"
  using owns_fresh [of base P h] by (auto simp: owns_def)

lemma owns_malloc:
  assumes "owns base P h"
  shows "owns base (insert (sh_next h) P) (h\<lparr>sh_live := (sh_live h)(sh_next h \<mapsto> s), sh_next := Suc (sh_next h)\<rparr>)"
proof -
  note fresh = owns_fresh [OF assms] owns_fresh_base [OF assms]
  have "0 < p \<and> p < Suc (sh_next h)" if "sh_live h p = Some t" for p t
    using owns_bound [OF assms that] by simp
  with assms fresh show ?thesis by (auto simp: owns_def)
qed

lemma owns_free:
  assumes "owns base P h" and "x \<in> P"
  shows "owns base (P - {x}) (h\<lparr>sh_live := (sh_live h)(x := None)\<rparr>)"
  using assms by (auto simp: owns_def)

lemma str_own_null: "str_own base xs h \<Longrightarrow> sh_live h 0 = None"
  by (auto simp: str_own_def dest: owns_null)

lemma str_own_perm: "str_own base xs h \<Longrightarrow> mset xs = mset ys \<Longrightarrow> str_own base ys h"
proof -
  assume "mset xs = mset ys"
  then have "set xs = set ys" "mset (filter (\<lambda>p. p \<noteq> 0) xs) = mset (filter (\<lambda>p. p \<noteq> 0) ys)"
    by (metis set_mset_mset, simp add: mset_filter)
  from this(1) mset_eq_imp_distinct_iff [OF this(2)] show "str_own base xs h \<Longrightarrow> str_own base ys h"
    by (simp only: str_own_def)
qed

lemma str_own_zeros: "str_own base (xs @ replicate n 0) h \<longleftrightarrow> str_own base xs h"
proof -
  have "set (xs @ replicate n 0) - {0} = set xs - {0}" by auto
  then show ?thesis by (simp add: str_own_def)
qed

lemma str_own_copy:
  assumes "str_own base xs h" and "p = 0 \<or> p \<in> dom base"
  shows "\<exists>x h'. copy_elt ut_str_icd p h = Some (x, h') \<and> str_own base (xs @ [x]) h' \<and>
    same_strings xs h h' \<and> sh_live h' x = (if p = 0 then None else base p)"
proof (cases "p = 0")
  case True
  with assms(1) str_own_null [OF assms(1)] str_own_zeros [of base xs 1 h] show ?thesis
    by (simp add: copy_elt_def ut_str_icd_def utarray_str_cpy_def)
next
  case False
  from assms(1) have own: "owns base (set xs - {0}) h" by (simp add: str_own_def)
  from False assms(2) obtain s where b: "base p = Some s" by auto
  note s = b owns_base [OF own b]
  let ?h = "h\<lparr>sh_live := (sh_live h)(sh_next h \<mapsto> s), sh_next := Suc (sh_next h)\<rparr>"
  from False s have copy: "copy_elt ut_str_icd p h = Some (sh_next h, ?h)"
    by (simp add: copy_elt_def ut_str_icd_def utarray_str_cpy_def str_malloc_def)
  have pos: "sh_next h \<noteq> 0" using own by (simp add: owns_def)
  then have fresh: "sh_next h \<notin> set xs" using owns_fresh_block [OF own] by simp
  have "set (xs @ [sh_next h]) - {0} = insert (sh_next h) (set xs - {0})" using pos by auto
  then have "str_own base (xs @ [sh_next h]) ?h"
    using owns_malloc [OF own, of s] assms(1) pos fresh by (simp add: str_own_def)
  with copy fresh s False show ?thesis by auto
qed

lemma str_own_dtor:
  assumes "str_own base (x # xs) h"
  shows "\<exists>h'. dtor_elt ut_str_icd x h = Some h' \<and> str_own base xs h' \<and> same_strings xs h h'"
proof (cases "x = 0")
  case True
  then have "set (x # xs) - {0} = set xs - {0}" by auto
  with assms True show ?thesis
    by (simp add: str_own_def dtor_elt_def ut_str_icd_def utarray_str_dtor_def)
next
  case False
  from assms have own: "owns base (set (x # xs) - {0}) h" by (simp add: str_own_def)
  have live: "sh_live h x \<noteq> None" by (rule owns_live [OF own]) (simp add: False)
  have out: "x \<notin> set xs" using assms False by (simp add: str_own_def)
  then have "set (x # xs) - {0} - {x} = set xs - {0}" by auto
  moreover have "x \<in> set (x # xs) - {0}" using False by simp
  ultimately have "owns base (set xs - {0}) (h\<lparr>sh_live := (sh_live h)(x := None)\<rparr>)"
    using owns_free [OF own] by metis
  moreover have "distinct (filter (\<lambda>p. p \<noteq> 0) xs)" using assms False by (simp add: str_own_def)
  moreover have "dtor_elt ut_str_icd x h = Some (h\<lparr>sh_live := (sh_live h)(x := None)\<rparr>)"
    using False live by (simp add: dtor_elt_def ut_str_icd_def utarray_str_dtor_def str_free_def)
  ultimately show ?thesis using out by (auto simp: str_own_def)
qed

lemma str_own_copy_elts:
  "str_own base xs h \<Longrightarrow> set ps \<subseteq> insert 0 (dom base) \<Longrightarrow>
    \<exists>ys h'. copy_elts ut_str_icd ps h = Some (ys, h') \<and> str_own base (xs @ ys) h' \<and> same_strings xs h h' \<and>
      str_abs h' ys = map (\<lambda>p. if p = 0 then None else base p) ps"
proof (induction ps arbitrary: xs h)
  case Nil
  then show ?case by (simp add: str_abs_def)
next
  case (Cons p ps)
  obtain x h1 where 1: "copy_elt ut_str_icd p h = Some (x, h1)" "str_own base (xs @ [x]) h1"
    "same_strings xs h h1" "sh_live h1 x = (if p = 0 then None else base p)"
    using str_own_copy [OF Cons.prems(1), of p] Cons.prems(2) by auto
  obtain ys h2 where 2: "copy_elts ut_str_icd ps h1 = Some (ys, h2)" "str_own base ((xs @ [x]) @ ys) h2"
    "same_strings (xs @ [x]) h1 h2" "str_abs h2 ys = map (\<lambda>p. if p = 0 then None else base p) ps"
    using Cons.IH [OF 1(2)] Cons.prems(2) by auto
  from 1 2 show ?case by (auto simp: str_abs_def)
qed

lemma str_own_dtor_elts:
  "str_own base (ys @ xs) h \<Longrightarrow>
    \<exists>h'. dtor_elts ut_str_icd ys h = Some h' \<and> str_own base xs h' \<and> same_strings xs h h'"
proof (induction ys arbitrary: h)
  case (Cons y ys)
  obtain h1 where 1: "dtor_elt ut_str_icd y h = Some h1" "str_own base (ys @ xs) h1" "same_strings (ys @ xs) h h1"
    using str_own_dtor [of base y "ys @ xs" h] Cons.prems by auto
  from Cons.IH [OF 1(2)] 1 show ?case by auto
qed simp

lemma init_elts_str: "init_elts ut_str_icd n h = (replicate n 0, h)"
  by (induction n) (simp_all add: init_elt_def ut_str_icd_def)

text \<open>
  One operation on an array of strings does to the strings what its specification says, and leaves the
  array the owner of its copies.
\<close>

abbreviation str_value :: "(nat \<rightharpoonup> string) \<Rightarrow> nat \<Rightarrow> string option" where
  "str_value base p \<equiv> (if p = 0 then None else base p)"

lemma str_abs_append: "str_abs h (xs @ ys) = str_abs h xs @ str_abs h ys"
  by (simp add: str_abs_def)

lemma str_abs_same: "same_strings xs h h' \<Longrightarrow> str_abs h' xs = str_abs h xs"
  by (simp add: str_abs_def)

lemma str_abs_zeros: "str_own base xs h \<Longrightarrow> str_abs h (replicate n 0) = replicate n None"
  by (simp add: str_abs_def str_own_null)

lemma str_resize:
  assumes "str_own base (arr_elts a) h" and "utarray_fits a" and "n \<le> 2 ^ 31"
  shows "\<exists>b h'. utarray_resize ut_str_icd mem a n h = Some (b, h') \<and> str_own base (arr_elts b) h' \<and>
    str_abs h' (arr_elts b) = list_resize None n (str_abs h (arr_elts a))"
proof (cases "utarray_len a > n")
  case True
  have "str_own base (drop n (arr_elts a) @ take n (arr_elts a)) h"
    by (rule str_own_perm [OF assms(1)]) (metis append_take_drop_id mset_append union_commute)
  then obtain h' where "dtor_elts ut_str_icd (drop n (arr_elts a)) h = Some h'"
    "str_own base (take n (arr_elts a)) h'" "same_strings (take n (arr_elts a)) h h'"
    using str_own_dtor_elts by blast
  with True str_abs_same [of "take n (arr_elts a)" h h'] show ?thesis
    by (simp add: utarray_resize_def list_resize_def str_abs_def utarray_len_def take_map)
next
  case False
  show ?thesis
  proof (cases "utarray_len a < n")
    case True
    with assms(3) obtain b where "utarray_slots mem a (n - utarray_len a) = Some b" "arr_elts b = arr_elts a"
      using utarray_slots_ex [OF assms(2), of "n - utarray_len a" mem] by auto
    with True assms(1) str_own_null [OF assms(1)] show ?thesis
      by (simp add: utarray_resize_def init_elts_str str_own_zeros list_resize_def utarray_len_def str_abs_def)
  next
    case eq: False
    with False have "length (arr_elts a) = n" by (simp add: utarray_len_def)
    with assms eq False show ?thesis by (simp add: utarray_resize_def list_resize_def str_abs_def utarray_len_def)
  qed
qed

lemma list_resize_same [simp]: "list_resize z (length xs) xs = xs"
  by (simp add: list_resize_def)

lemma length_str_abs [simp]: "length (str_abs h xs) = length xs"
  by (simp add: str_abs_def)

lemma str_grow_first:
  assumes "str_own base (arr_elts a) h" and "utarray_fits a" and "j \<le> 2 ^ 31"
  shows "\<exists>b h'. (if j > utarray_len a then utarray_resize ut_str_icd mem a j h else Some (a, h)) = Some (b, h') \<and>
    str_own base (arr_elts b) h' \<and> utarray_fits b \<and> utarray_len b = max j (utarray_len a) \<and>
    str_abs h' (arr_elts b) = list_resize None (max j (utarray_len a)) (str_abs h (arr_elts a))"
proof (cases "j > utarray_len a")
  case True
  with str_resize [OF assms, of mem] utarray_resize_fits [OF assms(2), of ut_str_icd mem j h] show ?thesis
    by (simp add: max_def) blast
next
  case False
  then have "max j (utarray_len a) = length (str_abs h (arr_elts a))" by (simp add: utarray_len_def)
  with assms False list_resize_same [of None "str_abs h (arr_elts a)"] show ?thesis
    by (simp only: if_False) (metis length_str_abs utarray_len_def)
qed

lemma str_splice:
  assumes "str_own base (xs @ ys) h" and "same_strings xs h0 h"
    and "str_abs h0 xs = list_resize None (max j (length zs)) zs"
  shows "str_own base (take j xs @ ys @ drop j xs) h"
    "ys \<noteq> [] \<Longrightarrow> str_abs h (take j xs @ ys @ drop j xs) = list_insert None (str_abs h ys) j zs"
proof -
  have "mset xs = mset (take j xs) + mset (drop j xs)" by (metis append_take_drop_id mset_append)
  then show "str_own base (take j xs @ ys @ drop j xs) h"
    by (intro str_own_perm [OF assms(1)]) (simp add: ac_simps)
  have abs: "str_abs h xs = list_resize None (max j (length zs)) zs"
    using str_abs_same [OF assms(2)] assms(3) by simp
  have "drop j (list_resize None (max j (length zs)) zs) = drop j zs"
    by (simp add: list_resize_def max_def)
  with abs show "str_abs h (take j xs @ ys @ drop j xs) = list_insert None (str_abs h ys) j zs" if "ys \<noteq> []"
    using that by (simp add: str_abs_def list_insert_def flip: take_map drop_map)
qed

lemma str_exec_inserta:
  assumes own: "str_own base (arr_elts a) h" and ok: "set (arr_elts w) \<subseteq> insert 0 (dom base)"
    and fits: "utarray_fits a" and max: "max j (utarray_len a) + utarray_len w \<le> 2 ^ 31"
  shows "\<exists>b h'. utarray_inserta ut_str_icd m1 m2 a w j h = Some (b, h') \<and> str_own base (arr_elts b) h' \<and>
    str_abs h' (arr_elts b) = list_insert None (map (str_value base) (arr_elts w)) j (str_abs h (arr_elts a))"
proof (cases "arr_elts w = []")
  case True
  with own show ?thesis by (simp add: utarray_inserta_def utarray_len_def list_insert_def)
next
  case False
  have j: "j \<le> 2 ^ 31" using max by (simp add: max_def split: if_splits)
  obtain c h1 where c: "(if j > utarray_len a then utarray_resize ut_str_icd m1 a j h else Some (a, h)) = Some (c, h1)"
    "str_own base (arr_elts c) h1" "utarray_fits c" "utarray_len c = max j (utarray_len a)"
    "str_abs h1 (arr_elts c) = list_resize None (max j (utarray_len a)) (str_abs h (arr_elts a))"
    using str_grow_first [OF own fits j, of m1] by blast
  obtain d where d: "utarray_slots m2 c (utarray_len w) = Some d" "arr_elts d = arr_elts c"
    using utarray_slots_ex [OF c(3), of "utarray_len w" m2] c(4) max by auto
  obtain ys h2 where y: "copy_elts ut_str_icd (arr_elts w) h1 = Some (ys, h2)" "str_own base (arr_elts c @ ys) h2"
    "same_strings (arr_elts c) h1 h2" "str_abs h2 ys = map (str_value base) (arr_elts w)"
    using str_own_copy_elts [OF c(2) ok] by blast
  have c3: "str_abs h1 (arr_elts c) = list_resize None (max j (length (str_abs h (arr_elts a)))) (str_abs h (arr_elts a))"
    using c(5) by (simp add: utarray_len_def)
  have "ys \<noteq> []" using copy_elts_length [OF y(1)] False by auto
  with str_splice [OF y(2,3) c3] c(1) d y(1,4) False show ?thesis
    by (simp add: utarray_inserta_def Let_def utarray_len_def)
qed

lemma str_has_dtor: "icd_dtor ut_str_icd = Some utarray_str_dtor"
  by (simp add: ut_str_icd_def)

lemma length_list_insert: "ys \<noteq> [] \<Longrightarrow> length (list_insert z ys j xs) = max j (length xs) + length ys"
  by (simp add: list_insert_def list_resize_def)

lemma str_exec:
  assumes own: "str_own base (arr_elts a) h" and ok: "ut_op_ok (insert 0 (dom base)) (utarray_len a) op"
    and fits: "utarray_fits a" and max: "length (ut_op_spec None (str_value base) op (str_abs h (arr_elts a))) \<le> 2 ^ 31"
  shows "\<exists>b h'. utarray_exec ut_str_icd m op a h = Some (b, h') \<and> str_own base (arr_elts b) h' \<and>
    str_abs h' (arr_elts b) = ut_op_spec None (str_value base) op (str_abs h (arr_elts a))"
proof (cases op)
  case (Op_push p)
  with max obtain b where "utarray_slots (fst m) a 1 = Some b" "arr_elts b = arr_elts a"
    using utarray_slots_ex [OF fits, of 1 "fst m"] by (auto simp: utarray_len_def)
  with str_own_copy [OF own, of p] ok Op_push show ?thesis
    by (auto simp: utarray_push_back_icd_def str_abs_def)
next
  case Op_pop
  with ok have ne: "arr_elts a \<noteq> []" by (simp add: utarray_len_def)
  let ?l = "last (arr_elts a)" and ?b = "butlast (arr_elts a)"
  have "str_own base (?l # ?b) h"
    by (rule str_own_perm [OF own]) (metis ne append_butlast_last_id mset.simps(2) mset_append union_mset_add_mset_right add.right_neutral mset.simps(1))
  from str_own_dtor [OF this] Op_pop ne show ?thesis
    by (auto simp: utarray_pop_back_def str_abs_def simp flip: map_butlast)
next
  case Op_extend
  with max obtain b where "utarray_slots (fst m) a 1 = Some b" "arr_elts b = arr_elts a"
    using utarray_slots_ex [OF fits, of 1 "fst m"] by (auto simp: utarray_len_def)
  with Op_extend own str_own_null [OF own] str_own_zeros [of base "arr_elts a" 1 h] show ?thesis
    by (simp add: utarray_extend_back_def init_elt_def ut_str_icd_def str_abs_def)
next
  case (Op_resize n)
  with max have "n \<le> 2 ^ 31" by (simp add: list_resize_def)
  with str_resize [OF own fits] Op_resize show ?thesis by simp
next
  case (Op_insert p j)
  with max have max': "max j (utarray_len a) + 1 \<le> 2 ^ 31" by (simp add: length_list_insert utarray_len_def)
  then have j: "j \<le> 2 ^ 31" by (simp add: max_def split: if_splits)
  obtain c h1 where c: "(if j > utarray_len a then utarray_resize ut_str_icd (fst m) a j h else Some (a, h)) = Some (c, h1)"
    "str_own base (arr_elts c) h1" "utarray_fits c" "utarray_len c = max j (utarray_len a)"
    "str_abs h1 (arr_elts c) = list_resize None (max j (utarray_len a)) (str_abs h (arr_elts a))"
    using str_grow_first [OF own fits j, of "fst m"] by blast
  obtain d where d: "utarray_slots (snd m) c 1 = Some d" "arr_elts d = arr_elts c"
    using utarray_slots_ex [OF c(3), of 1 "snd m"] c(4) max' by auto
  obtain x h2 where x: "copy_elt ut_str_icd p h1 = Some (x, h2)" "str_own base (arr_elts c @ [x]) h2"
    "same_strings (arr_elts c) h1 h2" "sh_live h2 x = str_value base p"
    using str_own_copy [OF c(2), of p] ok Op_insert by auto
  have c3: "str_abs h1 (arr_elts c) = list_resize None (max j (length (str_abs h (arr_elts a)))) (str_abs h (arr_elts a))"
    using c(5) by (simp add: utarray_len_def)
  from str_splice [OF x(2,3) c3] c(1) d x(1,4) Op_insert show ?thesis
    by (simp add: utarray_insert_def Let_def str_abs_def)
next
  case (Op_erase pos len)
  let ?es = "arr_elts a"
  let ?d = "take len (drop pos ?es)" and ?k = "take pos ?es @ drop (pos + len) ?es"
  have "mset (take pos ?es @ ?d @ drop len (drop pos ?es)) = mset ?es" by (simp del: drop_drop)
  then have "mset ?es = mset (?d @ ?k)" by (simp add: add.commute ac_simps)
  from str_own_dtor_elts [OF str_own_perm [OF own this]] obtain h' where
    h': "dtor_elts ut_str_icd ?d h = Some h'" "str_own base ?k h'" "same_strings ?k h h'" by blast
  from ok Op_erase have le: "pos + len \<le> length ?es" by (simp add: utarray_len_def)
  have "take (length ?es - len) (if length ?es > pos + len then ?k else ?es) = ?k"
  proof (cases "length ?es > pos + len")
    case False
    with le have "length ?es - len = pos" "drop (pos + len) ?es = []" by simp_all
    with False show ?thesis by simp
  qed simp
  moreover have "pos + len < 2 ^ 32" using le utarray_fits_cap [OF fits] by (simp add: utarray_len_def)
  ultimately have "utarray_erase ut_str_icd a pos len h = Some (a\<lparr>arr_elts := ?k\<rparr>, h')"
    using h'(1) str_has_dtor le by (simp add: utarray_erase_def utarray_len_def Let_def)
  with h' str_abs_same [OF h'(3)] Op_erase show ?thesis by (simp add: str_abs_def take_map drop_map)
next
  case Op_clear
  with own str_own_dtor_elts [of base "arr_elts a" "[]" h] show ?thesis
    by (auto simp: utarray_clear_def str_abs_def utarray_len_def)
next
  case (Op_inserta w j)
  show ?thesis
  proof (cases "arr_elts w = []")
    case True
    with own Op_inserta show ?thesis by (simp add: utarray_inserta_def utarray_len_def list_insert_def)
  next
    case False
    with max Op_inserta have "max j (utarray_len a) + utarray_len w \<le> 2 ^ 31"
      by (simp add: length_list_insert utarray_len_def)
    with str_exec_inserta [OF own _ fits, of w j "fst m" "snd m"] ok Op_inserta show ?thesis by simp
  qed
next
  case (Op_concat w)
  have "list_insert None ys (utarray_len a) (str_abs h (arr_elts a)) = str_abs h (arr_elts a) @ ys" for ys
    by (simp add: list_insert_def list_resize_def utarray_len_def)
  moreover have "max (utarray_len a) (utarray_len a) + utarray_len w \<le> 2 ^ 31"
    using max Op_concat by (simp add: utarray_len_def)
  ultimately show ?thesis
    using str_exec_inserta [OF own _ fits, of w "utarray_len a" "fst m" "snd m"] ok Op_concat
    by (simp add: utarray_concat_def)
qed

lemma str_run:
  "str_own base (arr_elts a) h \<Longrightarrow> utarray_fits a \<Longrightarrow>
    ut_ops_ok (insert 0 (dom base)) None (str_value base) ops (str_abs h (arr_elts a)) \<Longrightarrow>
    \<exists>b h'. utarray_run ut_str_icd ops a h = Some (b, h') \<and> str_own base (arr_elts b) h' \<and>
      str_abs h' (arr_elts b) = ut_ops_spec None (str_value base) ops (str_abs h (arr_elts a))"
proof (induction ops arbitrary: a h)
  case Nil
  then show ?case by (simp add: ut_ops_spec_def)
next
  case (Cons mo ops)
  obtain m op where mo: "mo = (m, op)" by fastforce
  with Cons.prems have ok: "ut_op_ok (insert 0 (dom base)) (utarray_len a) op"
    "length (ut_op_spec None (str_value base) op (str_abs h (arr_elts a))) \<le> 2 ^ 31"
    "ut_ops_ok (insert 0 (dom base)) None (str_value base) ops
       (ut_op_spec None (str_value base) op (str_abs h (arr_elts a)))"
    by (simp_all add: utarray_len_def)
  from str_exec [OF Cons.prems(1) ok(1) Cons.prems(2) ok(2), of m] obtain b h1 where 1:
    "utarray_exec ut_str_icd m op a h = Some (b, h1)" "str_own base (arr_elts b) h1"
    "str_abs h1 (arr_elts b) = ut_op_spec None (str_value base) op (str_abs h (arr_elts a))" by blast
  from Cons.IH [OF 1(2) utarray_exec_fits [OF Cons.prems(2) 1(1)]] 1 ok(3) mo show ?case by (simp add: ut_ops_spec_def)
qed

lemma utarray_run_fits:
  "utarray_fits a \<Longrightarrow> utarray_run icd ops a h = Some (b, h') \<Longrightarrow> utarray_fits b"
proof (induction ops arbitrary: a h)
  case (Cons mo ops)
  obtain m op where mo: "mo = (m, op)" by fastforce
  with Cons.prems(2) obtain c h1 where c: "utarray_exec icd m op a h = Some (c, h1)" "utarray_run icd ops c h1 = Some (b, h')"
    by (auto split: option.splits)
  show ?case by (rule Cons.IH [OF utarray_exec_fits [OF Cons.prems(1) c(1)] c(2)])
qed simp

lemma str_own_Nil: "str_own base [] h \<Longrightarrow> sh_live h = base"
proof
  fix p
  assume "str_own base [] h"
  then have "sh_live h p = Some s \<longleftrightarrow> base p = Some s" for s
    unfolding str_own_def owns_def by (metis list.set(1) Diff_empty empty_Diff empty_iff)
  then show "sh_live h p = base p" by (metis option.exhaust)
qed

lemma utarray_free_strings:
  assumes "str_own base (arr_elts a) h" and "utarray_fits a"
  shows "\<exists>h'. utarray_free ut_str_icd a h = Some h' \<and> sh_live h' = base"
proof (cases "arr_n a = 0")
  case True
  with assms show ?thesis
    by (auto simp: utarray_fits_def utarray_wf_def utarray_free_def utarray_done_def utarray_len_def dest: str_own_Nil)
next
  case False
  from str_own_dtor_elts [of base "arr_elts a" "[]" h] assms(1) obtain h' where
    "dtor_elts ut_str_icd (arr_elts a) h = Some h'" "str_own base [] h'" by auto
  with False show ?thesis by (auto simp: utarray_free_def utarray_done_def dest: str_own_Nil)
qed

text \<open>
  (C9) An array of strings (\<^verbatim>\<open>ut_str_icd\<close>) holds copies of its own: any sequence of operations on a new array
  that takes nothing from behind its end and never makes it longer than $2^{31}$ elements returns, without freeing
  a block twice or reading a freed one; the capacity is an \<^verbatim>\<open>unsigned\<close> of 0 or 8 doubled and no less than
  the length, the strings in the array are those of the list operations it stands for, and \<^verbatim>\<open>utarray_free\<close> at the end
  leaves exactly the blocks that were live before: no copy is lost and none is freed twice.
\<close>

theorem utarray_strings_owned:
  assumes "0 < sh_next h" and "\<forall>p s. sh_live h p = Some s \<longrightarrow> 0 < p \<and> p < sh_next h"
    and "ut_ops_ok (insert 0 (dom (sh_live h))) None (str_value (sh_live h)) ops []"
  shows "\<exists>a h1 h2. utarray_run ut_str_icd ops utarray_new h = Some (a, h1) \<and>
    utarray_wf a \<and> arr_n a < 2 ^ 32 \<and> str_abs h1 (arr_elts a) = ut_ops_spec None (str_value (sh_live h)) ops [] \<and>
    utarray_free ut_str_icd a h1 = Some h2 \<and> sh_live h2 = sh_live h"
proof -
  have own: "str_own (sh_live h) (arr_elts utarray_new) h"
    using assms(1,2) by (simp add: str_own_def owns_def utarray_new_def)
  have new: "str_abs h (arr_elts utarray_new) = []" by (simp add: str_abs_def utarray_new_def)
  have new_fits: "utarray_fits (utarray_new :: nat ut_array)" by (simp add: utarray_fits_def) (simp add: utarray_new_def)
  from str_run [OF own new_fits, of ops] assms(3) obtain a h1 where 1: "utarray_run ut_str_icd ops utarray_new h = Some (a, h1)"
    "str_own (sh_live h) (arr_elts a) h1" "str_abs h1 (arr_elts a) = ut_ops_spec None (str_value (sh_live h)) ops []"
    unfolding new by blast
  have wf: "utarray_fits a" by (rule utarray_run_fits [OF new_fits 1(1)])
  from utarray_free_strings [OF 1(2) wf] 1 wf show ?thesis unfolding utarray_fits_def by blast
qed

theorem utarray_strings_owned_witness:
  "let h = \<lparr>sh_live = [1 \<mapsto> ''a'', 2 \<mapsto> ''b''], sh_next = 3\<rparr>;
       ops = [((100, 0), Op_push 1), ((0, 0), Op_insert 2 0), ((200, 300), Op_insert 1 4), ((0, 0), Op_erase 1 2), ((0, 0), Op_pop)]
   in \<exists>a h1 h2. utarray_run ut_str_icd ops utarray_new h = Some (a, h1) \<and>
        str_abs h1 (arr_elts a) = [Some ''b'', None] \<and>
        utarray_free ut_str_icd a h1 = Some h2 \<and> sh_live h2 = sh_live h"
proof -
  let ?h = "\<lparr>sh_live = [1 \<mapsto> ''a'', 2 \<mapsto> ''b''], sh_next = 3\<rparr>"
  let ?ops = "[((100, 0), Op_push 1), ((0, 0), Op_insert 2 0), ((200, 300), Op_insert 1 4), ((0, 0), Op_erase 1 2), ((0, 0), Op_pop)]"
  have "ut_ops_ok (insert 0 (dom (sh_live ?h))) None (str_value (sh_live ?h)) ?ops []"
    by (simp add: list_insert_def list_resize_def)
  from utarray_strings_owned [OF _ _ this]
  have "\<exists>a h1 h2. utarray_run ut_str_icd ?ops utarray_new ?h = Some (a, h1) \<and>
      utarray_wf a \<and> arr_n a < 2 ^ 32 \<and> str_abs h1 (arr_elts a) = ut_ops_spec None (str_value (sh_live ?h)) ?ops [] \<and>
      utarray_free ut_str_icd a h1 = Some h2 \<and> sh_live h2 = sh_live ?h"
    by (simp del: utarray_run.simps split: if_splits)
  moreover have "ut_ops_spec None (str_value (sh_live ?h)) ?ops [] = [Some ''b'', None]"
    by (simp add: list_insert_def list_resize_def ut_ops_spec_def)
  ultimately show ?thesis unfolding Let_def by metis
qed

text \<open>
  \<^verbatim>\<open>utarray_pop_back\<close> does not look at the length: on an empty array of strings it is undefined.
\<close>

lemma utarray_pop_back_empty: "utarray_pop_back icd utarray_new h = None"
  by (simp add: utarray_pop_back_def utarray_new_def)

section \<open>Walking, sorting and searching\<close>

text \<open>\<^verbatim>\<open>for (p = utarray_front(a); p; p = utarray_next(a, p))\<close> visits the elements in order.\<close>

fun utarray_walk :: "nat \<Rightarrow> 'a ut_array \<Rightarrow> elt_ptr option \<Rightarrow> 'a option list" where
  "utarray_walk 0 a e = []"
| "utarray_walk (Suc f) a e =
     (case e of None \<Rightarrow> [] | Some p \<Rightarrow> elt_deref a p # utarray_walk f a (utarray_next a e))"

lemma utarray_walk_from:
  "i < utarray_len a \<Longrightarrow> utarray_len a - i < f \<Longrightarrow>
    utarray_walk f a (Some (arr_d a, i)) = map Some (drop i (arr_elts a))"
proof (induction f arbitrary: i)
  case (Suc f)
  have d: "drop i (arr_elts a) = arr_elts a ! i # drop (Suc i) (arr_elts a)"
    using Suc.prems(1) by (simp add: utarray_len_def Cons_nth_drop_Suc)
  show ?case
  proof (cases "utarray_len a = Suc i")
    case True
    with Suc.prems d show ?thesis
      by (cases f) (simp_all add: utarray_next_def utarray_eltidx_def elt_deref_def utarray_len_def)
  next
    case False
    with Suc.IH [of "Suc i"] Suc.prems d show ?thesis
      by (simp add: utarray_next_def utarray_eltidx_def elt_deref_def)
  qed
qed simp

lemma utarray_walk_all:
  "utarray_len a < f \<Longrightarrow> utarray_walk f a (utarray_front a) = map Some (arr_elts a)"
  using utarray_walk_from [of 0 a f]
  by (cases f) (auto simp: utarray_front_def utarray_len_def)

lemma utarray_prev_next:
  "Suc (snd p) < utarray_len a \<Longrightarrow> fst p = arr_d a \<Longrightarrow> utarray_prev a (utarray_next a (Some p)) = Some p"
  by (cases p) (simp add: utarray_prev_def utarray_next_def utarray_eltidx_def)

text \<open>What C promises of \<^verbatim>\<open>qsort\<close> and \<^verbatim>\<open>bsearch\<close>, for a comparison that is a total preorder.\<close>

definition cmp_ok :: "('a \<Rightarrow> 'a \<Rightarrow> int) \<Rightarrow> bool" where
  "cmp_ok cmp \<longleftrightarrow> (\<forall>x y. sgn (cmp y x) = - sgn (cmp x y)) \<and>
     (\<forall>x y z. cmp x y \<le> 0 \<longrightarrow> cmp y z \<le> 0 \<longrightarrow> cmp x z \<le> 0)"

definition qsort_ok :: "(('a \<Rightarrow> 'a \<Rightarrow> int) \<Rightarrow> 'a list \<Rightarrow> 'a list) \<Rightarrow> bool" where
  "qsort_ok qsort \<longleftrightarrow> (\<forall>cmp xs. cmp_ok cmp \<longrightarrow>
     mset (qsort cmp xs) = mset xs \<and> sorted_wrt (\<lambda>x y. cmp x y \<le> 0) (qsort cmp xs))"

definition bsearch_ok :: "(('a \<Rightarrow> 'a \<Rightarrow> int) \<Rightarrow> 'a \<Rightarrow> 'a list \<Rightarrow> nat option) \<Rightarrow> bool" where
  "bsearch_ok bsearch \<longleftrightarrow> (\<forall>cmp v xs. cmp_ok cmp \<longrightarrow> sorted_wrt (\<lambda>x y. cmp x y \<le> 0) xs \<longrightarrow>
     (case bsearch cmp v xs of
        None \<Rightarrow> \<forall>x \<in> set xs. cmp v x \<noteq> 0
      | Some i \<Rightarrow> i < length xs \<and> cmp v (xs ! i) = 0))"

lemma utarray_find_sorted:
  assumes "qsort_ok qsort" and "bsearch_ok bsearch" and "cmp_ok cmp"
    and b_def: "b = utarray_sort qsort a cmp"
  shows "mset (arr_elts b) = mset (arr_elts a)"
    "case utarray_find bsearch b v cmp of
       None \<Rightarrow> \<forall>x \<in> set (arr_elts a). cmp v x \<noteq> 0
     | Some p \<Rightarrow> \<exists>x. elt_deref b p = Some x \<and> cmp v x = 0"
proof -
  have q: "mset (qsort cmp (arr_elts a)) = mset (arr_elts a)"
    "sorted_wrt (\<lambda>x y. cmp x y \<le> 0) (qsort cmp (arr_elts a))"
    using assms(1,3) unfolding qsort_ok_def by blast+
  show "mset (arr_elts b) = mset (arr_elts a)" using q(1) by (simp add: b_def utarray_sort_def)
  have s: "set (qsort cmp (arr_elts a)) = set (arr_elts a)" by (metis q(1) set_mset_mset)
  have "case bsearch cmp v (qsort cmp (arr_elts a)) of
        None \<Rightarrow> \<forall>x \<in> set (qsort cmp (arr_elts a)). cmp v x \<noteq> 0
      | Some i \<Rightarrow> i < length (qsort cmp (arr_elts a)) \<and> cmp v (qsort cmp (arr_elts a) ! i) = 0"
    using assms(2,3) q(2) unfolding bsearch_ok_def by blast
  then show "case utarray_find bsearch b v cmp of
       None \<Rightarrow> \<forall>x \<in> set (arr_elts a). cmp v x \<noteq> 0
     | Some p \<Rightarrow> \<exists>x. elt_deref b p = Some x \<and> cmp v x = 0"
    by (auto simp: b_def utarray_sort_def utarray_find_def elt_deref_def utarray_len_def s split: option.splits)
qed

end
