(* ===== verification/Umcounters.thy ===== *)
theory Umcounters
  imports Complex_Main Uthash
begin

text \<open>
  Performance counters, \<^verbatim>\<open>src/src/utils/umcounters.c\<close>. A context holds a table from counter
  names to counters. Counters are handed out as pointers and live as long as the context,
  so they are cells of a store that only grows, and a pointer is a cell number. Every
  operation also returns the mutex calls it makes.
\<close>

section \<open>Data\<close>

definition UMC_NAME_MAX :: nat where
  "UMC_NAME_MAX = 256"

datatype umc_type = UMCT_INCREMENTAL | UMCT_GAUGE

record umc_val =
  val_value :: u64
  val_ts_nsec :: u64

record umc =
  umc_id :: string
  umc_typ :: umc_type
  umc_last :: umc_val
  umc_max :: u64
  umc_ts_diff :: u64
  umc_delta :: u64

text \<open>
  \<^verbatim>\<open>values.delta\<close> is an \<^verbatim>\<open>int64_t\<close> that is only written from, and read into, unsigned
  64-bit values; its field holds those bits.
\<close>

record umc_lag =
  lag_ts_start :: u64
  lag_ts_end :: u64
  lag_ts_diff :: u64

record umc_ctx =
  ctx_counters :: "(string, nat) uthash"
  ctx_cells :: "umc list"

datatype umc_mtx = Ctx_mtx | Counter_mtx nat

type_synonym umc_trace = "umc_mtx mtx_ev list"

abbreviation value_of :: "umc \<Rightarrow> u64" where
  "value_of c \<equiv> val_value (umc_last c)"

section \<open>Operations\<close>

definition umc_new_ctx :: umc_ctx where
  "umc_new_ctx = \<lparr>ctx_counters = [], ctx_cells = []\<rparr>"

text \<open>\<^verbatim>\<open>umc_free_ctx\<close>: the counters freed, in order, and the table that is left.\<close>

definition umc_free_ctx :: "umc_ctx option \<Rightarrow> nat list \<times> (string, nat) uthash \<times> umc_trace" where
  "umc_free_ctx ctx =
     (case ctx of
        None \<Rightarrow> ([], [], [])
      | Some x \<Rightarrow>
          (HASH_ITER (ctx_counters x),
           fold (\<lambda>c t. HASH_DEL t c) (HASH_ITER (ctx_counters x)) (ctx_counters x),
           [Mtx_lock Ctx_mtx, Mtx_unlock Ctx_mtx]))"

definition umc_calloc :: "string \<Rightarrow> umc_type \<Rightarrow> umc" where
  "umc_calloc i ty =
     \<lparr>umc_id = snprintf_s UMC_NAME_MAX i, umc_typ = ty,
      umc_last = \<lparr>val_value = 0, val_ts_nsec = 0\<rparr>, umc_max = 0, umc_ts_diff = 0, umc_delta = 0\<rparr>"

definition umc_new_counter ::
  "umc_ctx option \<Rightarrow> string option \<Rightarrow> umc_type \<Rightarrow> nat option \<times> umc_ctx option \<times> umc_trace" where
  "umc_new_counter ctx i ty =
     (case (ctx, i) of
        (Some x, Some s) \<Rightarrow>
          (case HASH_FIND (ctx_counters x) s of
             Some c \<Rightarrow> (Some c, Some x, [Mtx_lock Ctx_mtx, Mtx_unlock Ctx_mtx])
           | None \<Rightarrow>
               (let c = length (ctx_cells x); cell = umc_calloc s ty
                in (Some c,
                    Some (x\<lparr>ctx_cells := ctx_cells x @ [cell],
                            ctx_counters := HASH_ADD (ctx_counters x) (umc_id cell) c\<rparr>),
                    [Mtx_lock Ctx_mtx, Mtx_unlock Ctx_mtx])))
      | _ \<Rightarrow> (None, ctx, []))"

definition lock_ctx :: "bool \<Rightarrow> umc_trace \<Rightarrow> umc_trace" where
  "lock_ctx lk es = (if lk then Mtx_lock Ctx_mtx # es @ [Mtx_unlock Ctx_mtx] else es)"

definition umc_get :: "umc_ctx option \<Rightarrow> string option \<Rightarrow> bool \<Rightarrow> nat option \<times> umc_trace" where
  "umc_get ctx i lk =
     (case (ctx, i) of
        (Some x, Some s) \<Rightarrow> (HASH_FIND (ctx_counters x) s, lock_ctx lk [])
      | _ \<Rightarrow> (None, []))"

definition update_value :: "timespec \<Rightarrow> u64 \<Rightarrow> umc \<Rightarrow> umc" where
  "update_value now val c =
     (let pv = val_value (umc_last c) in
      if val \<le> pv \<and> umc_typ c \<noteq> UMCT_GAUGE then c
      else
        let c1 = c\<lparr>umc_last := (umc_last c)\<lparr>val_value := val\<rparr>,
                    umc_max := (if val > pv then val else pv)\<rparr> in
        if umc_typ c1 \<noteq> UMCT_INCREMENTAL then c1
        else
          let p_ts = val_ts_nsec (umc_last c1); ts = ts_to_nsec now in
          c1\<lparr>umc_ts_diff := ts - p_ts, umc_delta := val - pv,
             umc_last := (umc_last c1)\<lparr>val_ts_nsec := ts\<rparr>\<rparr>)"

definition update_cell :: "nat \<Rightarrow> (umc \<Rightarrow> umc) \<Rightarrow> umc_ctx \<Rightarrow> umc_ctx" where
  "update_cell c f x = x\<lparr>ctx_cells := (ctx_cells x)[c := f (ctx_cells x ! c)]\<rparr>"

definition lock_counter :: "nat \<Rightarrow> umc_trace" where
  "lock_counter c = [Mtx_lock (Counter_mtx c), Mtx_unlock (Counter_mtx c)]"

definition umc_inc :: "timespec \<Rightarrow> nat option \<Rightarrow> u64 \<Rightarrow> umc_ctx \<Rightarrow> umc_ctx \<times> umc_trace" where
  "umc_inc now c val x =
     (case c of
        None \<Rightarrow> (x, [])
      | Some p \<Rightarrow> (update_cell p (\<lambda>u. update_value now (value_of u + val) u) x, lock_counter p))"

definition umc_set :: "timespec \<Rightarrow> nat option \<Rightarrow> u64 \<Rightarrow> umc_ctx \<Rightarrow> umc_ctx \<times> umc_trace" where
  "umc_set now c val x =
     (case c of
        None \<Rightarrow> (x, [])
      | Some p \<Rightarrow> (update_cell p (update_value now val) x, lock_counter p))"

definition umc_get_inc ::
  "timespec \<Rightarrow> umc_ctx option \<Rightarrow> string option \<Rightarrow> u64 \<Rightarrow> bool \<Rightarrow>
    nat option \<times> umc_ctx option \<times> umc_trace" where
  "umc_get_inc now ctx i val lk =
     (let c = fst (umc_get ctx i False) in
      case (ctx, c) of
        (None, _) \<Rightarrow> (None, None, [])
      | (Some x, None) \<Rightarrow> (None, Some x, lock_ctx lk [])
      | (Some x, Some p) \<Rightarrow>
          (Some p, Some (update_cell p (\<lambda>u. update_value now (value_of u + val) u) x),
           lock_ctx lk (lock_counter p)))"

definition umc_get_set ::
  "timespec \<Rightarrow> umc_ctx option \<Rightarrow> string option \<Rightarrow> u64 \<Rightarrow> bool \<Rightarrow>
    nat option \<times> umc_ctx option \<times> umc_trace" where
  "umc_get_set now ctx i val lk =
     (case (ctx, i) of
        (Some x, Some s) \<Rightarrow>
          (case fst (umc_get ctx i False) of
             None \<Rightarrow> (None, ctx, lock_ctx lk [])
           | Some p \<Rightarrow> (Some p, Some (update_cell p (update_value now val) x),
                        lock_ctx lk (lock_counter p)))
      | _ \<Rightarrow> (None, ctx, []))"

text \<open>
  \<^verbatim>\<open>umc_match\<close>: the callback sees the matching counters in table order; \<open>fnm\<close> stands for
  \<^verbatim>\<open>fnmatch\<close> with the flags of the call, \<open>arg\<close> for the callback's user data.
\<close>

definition umc_match ::
  "(string \<Rightarrow> string \<Rightarrow> bool) \<Rightarrow> umc_ctx \<Rightarrow> string \<Rightarrow> bool \<Rightarrow> (umc \<Rightarrow> 'a \<Rightarrow> 'a) \<Rightarrow> 'a \<Rightarrow>
    int \<times> 'a \<times> umc_trace" where
  "umc_match fnm x ptrn lk cb arg =
     (0, fold (\<lambda>c a. let u = ctx_cells x ! c in if fnm ptrn (umc_id u) then cb u a else a)
            (HASH_ITER (ctx_counters x)) arg,
      lock_ctx lk [])"

text \<open>
  \<^verbatim>\<open>umc_get_rate\<close> of the counter \<open>u\<close> in cell \<open>c\<close>. The result is the real number: the rounding of the division and of the
  product, both in \<^verbatim>\<open>double\<close>, is left out.
\<close>

definition umc_get_rate :: "nat \<Rightarrow> umc \<Rightarrow> bool \<Rightarrow> real \<times> umc_trace" where
  "umc_get_rate c u lk =
     (let tdiff = umc_ts_diff u; delta = umc_delta u in
      (if tdiff > 0 \<and> delta > 0 \<and> umc_typ u = UMCT_INCREMENTAL
       then real (unat delta) / real (unat tdiff) * 1000000000 else 0,
       if lk then lock_counter c else []))"

definition umc_lag_start :: "timespec \<Rightarrow> umc_lag \<Rightarrow> umc_lag" where
  "umc_lag_start now l = l\<lparr>lag_ts_start := ts_to_nsec now\<rparr>"

definition umc_lag_end :: "timespec \<Rightarrow> umc_lag \<Rightarrow> umc_lag" where
  "umc_lag_end now l =
     (let e = ts_to_nsec now in l\<lparr>lag_ts_end := e, lag_ts_diff := e - lag_ts_start l\<rparr>)"

section \<open>Calls and runs\<close>

text \<open>The calls a client of a context can make, with the clock reading of the call.\<close>

datatype umc_call =
    Call_new_counter string umc_type
  | Call_get string bool
  | Call_inc "nat option" u64
  | Call_set "nat option" u64
  | Call_get_inc string u64 bool
  | Call_get_set string u64 bool

fun umc_exec :: "timespec \<Rightarrow> umc_call \<Rightarrow> umc_ctx \<Rightarrow> umc_ctx \<times> umc_trace" where
  "umc_exec now (Call_new_counter i ty) x =
     (let (_, y, es) = umc_new_counter (Some x) (Some i) ty in (the y, es))"
| "umc_exec now (Call_get i lk) x = (x, snd (umc_get (Some x) (Some i) lk))"
| "umc_exec now (Call_inc c val) x = umc_inc now c val x"
| "umc_exec now (Call_set c val) x = umc_set now c val x"
| "umc_exec now (Call_get_inc i val lk) x =
     (let (_, y, es) = umc_get_inc now (Some x) (Some i) val lk in (the y, es))"
| "umc_exec now (Call_get_set i val lk) x =
     (let (_, y, es) = umc_get_set now (Some x) (Some i) val lk in (the y, es))"

fun umc_calls :: "(timespec \<times> umc_call) list \<Rightarrow> umc_ctx \<Rightarrow> umc_ctx" where
  "umc_calls [] x = x"
| "umc_calls ((now, call) # cs) x = umc_calls cs (fst (umc_exec now call x))"

text \<open>Whether a call expects its caller to hold the context mutex already.\<close>

fun call_held :: "umc_call \<Rightarrow> umc_mtx list" where
  "call_held (Call_get i lk) = (if lk then [] else [Ctx_mtx])"
| "call_held (Call_get_inc i val lk) = (if lk then [] else [Ctx_mtx])"
| "call_held (Call_get_set i val lk) = (if lk then [] else [Ctx_mtx])"
| "call_held _ = []"

text \<open>Whether a call names a counter that fits the name buffer.\<close>

fun call_fits :: "umc_call \<Rightarrow> bool" where
  "call_fits (Call_new_counter i ty) = (length i < UMC_NAME_MAX)"
| "call_fits _ = True"

section \<open>Invariant\<close>

definition ctx_wf :: "umc_ctx \<Rightarrow> bool" where
  "ctx_wf x \<longleftrightarrow>
     map snd (ctx_counters x) = [0..<length (ctx_cells x)] \<and>
     (\<forall>(k, c) \<in> set (ctx_counters x). umc_id (ctx_cells x ! c) = k) \<and>
     (\<forall>u \<in> set (ctx_cells x). length (umc_id u) < UMC_NAME_MAX)"

definition ctx_unique :: "umc_ctx \<Rightarrow> bool" where
  "ctx_unique x \<longleftrightarrow> ctx_wf x \<and> distinct (map fst (ctx_counters x))"


section \<open>Behaviour of a single update\<close>

lemma update_value_id [counter_simps]: "umc_id (update_value now val c) = umc_id c"
  and update_value_typ [counter_simps]: "umc_typ (update_value now val c) = umc_typ c"
  by (simp_all add: update_value_def Let_def)

lemma update_value_incremental:
  "umc_typ c = UMCT_INCREMENTAL \<Longrightarrow> value_of (update_value now val c) = max (value_of c) val"
  by (auto simp: update_value_def Let_def max_def)

lemma update_value_gauge:
  "umc_typ c = UMCT_GAUGE \<Longrightarrow>
    value_of (update_value now val c) = val \<and> umc_max (update_value now val c) = max (value_of c) val"
  by (auto simp: update_value_def Let_def max_def)

text \<open>An increment that would pass \<open>2^64\<close> wraps below the old value and is dropped.\<close>

lemma unat_inc:
  fixes v d :: u64
  shows "unat (max v (v + d)) = (if unat v + unat d < 2 ^ 64 then unat v + unat d else unat v)"
  using no_plus_overflow_unat_size [of v d]
  by (auto simp: max_def word_size unat_word_ariths)

lemma inc_incremental:
  "umc_typ c = UMCT_INCREMENTAL \<Longrightarrow>
    unat (value_of (update_value now (value_of c + d) c)) =
      (if unat (value_of c) + unat d < 2 ^ 64 then unat (value_of c) + unat d else unat (value_of c))"
  by (simp add: update_value_incremental unat_inc)

lemma update_cell_sel [counter_simps]:
  "ctx_counters (update_cell p f x) = ctx_counters x"
  "length (ctx_cells (update_cell p f x)) = length (ctx_cells x)"
  "c < length (ctx_cells x) \<Longrightarrow>
     ctx_cells (update_cell p f x) ! c = (if c = p then f (ctx_cells x ! p) else ctx_cells x ! c)"
  by (simp_all add: update_cell_def nth_list_update)

section \<open>The invariant is kept\<close>

lemma ctx_wf_elem: "ctx_wf x \<Longrightarrow> (k, c) \<in> set (ctx_counters x) \<Longrightarrow> c < length (ctx_cells x)"
proof -
  assume "ctx_wf x" and "(k, c) \<in> set (ctx_counters x)"
  then have "c \<in> set (map snd (ctx_counters x))" "map snd (ctx_counters x) = [0..<length (ctx_cells x)]"
    by (force, simp add: ctx_wf_def)
  then show "c < length (ctx_cells x)" by simp
qed

lemma ctx_wf_find: "ctx_wf x \<Longrightarrow> HASH_FIND (ctx_counters x) k = Some c \<Longrightarrow>
    c < length (ctx_cells x) \<and> umc_id (ctx_cells x ! c) = k"
  using ctx_wf_elem [of x k c] by (auto simp: ctx_wf_def dest!: HASH_FIND_SomeD)

lemma ctx_wf_name:
  "ctx_wf x \<Longrightarrow> c < length (ctx_cells x) \<Longrightarrow> length (umc_id (ctx_cells x ! c)) < UMC_NAME_MAX"
  by (simp add: ctx_wf_def)

lemma ctx_unique_table: "ctx_unique x \<Longrightarrow> uthash_wf (ctx_counters x)"
  by (simp add: ctx_unique_def ctx_wf_def uthash_wf_def)

lemma ctx_wf_new [simp]: "ctx_wf umc_new_ctx" and ctx_unique_new [simp]: "ctx_unique umc_new_ctx"
  by (simp_all add: umc_new_ctx_def ctx_wf_def ctx_unique_def)

lemma ctx_wf_update_cell:
  assumes wf: "ctx_wf x" and same_id: "\<And>u. umc_id (f u) = umc_id u"
  shows "ctx_wf (update_cell p f x)"
proof -
  have ids: "umc_id (ctx_cells (update_cell p f x) ! c) = umc_id (ctx_cells x ! c)"
    if "c < length (ctx_cells x)" for c
    using that same_id by (simp add: counter_simps)
  have "length (umc_id u) < UMC_NAME_MAX" if "u \<in> set (ctx_cells (update_cell p f x))" for u
  proof -
    from that obtain c where c: "c < length (ctx_cells x)" "u = ctx_cells (update_cell p f x) ! c"
      by (auto simp: in_set_conv_nth counter_simps)
    then have "umc_id u = umc_id (ctx_cells x ! c)" using ids by simp
    with c wf show ?thesis by (simp add: ctx_wf_def)
  qed
  moreover have "umc_id (ctx_cells (update_cell p f x) ! c) = k" if "(k, c) \<in> set (ctx_counters x)" for k c
    using that ids ctx_wf_elem [OF wf that] wf by (auto simp: ctx_wf_def)
  ultimately show ?thesis using wf by (auto simp: ctx_wf_def counter_simps)
qed

lemma ctx_unique_update_cell:
  "ctx_unique x \<Longrightarrow> (\<And>u. umc_id (f u) = umc_id u) \<Longrightarrow> ctx_unique (update_cell p f x)"
  by (simp add: ctx_unique_def ctx_wf_update_cell counter_simps)

definition add_counter :: "umc_ctx \<Rightarrow> string \<Rightarrow> umc_type \<Rightarrow> umc_ctx" where
  "add_counter x s ty =
     x\<lparr>ctx_cells := ctx_cells x @ [umc_calloc s ty],
       ctx_counters := HASH_ADD (ctx_counters x) (snprintf_s UMC_NAME_MAX s) (length (ctx_cells x))\<rparr>"

lemma umc_new_counter_cases:
  "umc_new_counter (Some x) (Some s) ty =
     (case HASH_FIND (ctx_counters x) s of
        Some c \<Rightarrow> (Some c, Some x, [Mtx_lock Ctx_mtx, Mtx_unlock Ctx_mtx])
      | None \<Rightarrow> (Some (length (ctx_cells x)), Some (add_counter x s ty),
                 [Mtx_lock Ctx_mtx, Mtx_unlock Ctx_mtx]))"
  by (simp add: umc_new_counter_def add_counter_def Let_def umc_calloc_def split: option.split)

lemma ctx_wf_add_counter:
  assumes wf: "ctx_wf x" shows "ctx_wf (add_counter x s ty)"
proof -
  have old: "c < length (ctx_cells x)" if "(k, c) \<in> set (ctx_counters x)" for k c
    using ctx_wf_elem [OF wf that] .
  have "length (snprintf_s UMC_NAME_MAX s) < UMC_NAME_MAX"
    by (simp add: snprintf_s_def UMC_NAME_MAX_def)
  with wf old show ?thesis
    by (auto simp: ctx_wf_def add_counter_def HASH_ADD_def nth_append umc_calloc_def)
qed

lemma ctx_unique_add_counter:
  assumes "ctx_unique x" and "length s < UMC_NAME_MAX" and "HASH_FIND (ctx_counters x) s = None"
  shows "ctx_unique (add_counter x s ty)"
  using assms ctx_wf_add_counter [of x s ty]
  by (auto simp: ctx_unique_def add_counter_def HASH_ADD_def HASH_FIND_None_iff)

lemma umc_exec_update:
  assumes "\<And>i ty. call \<noteq> Call_new_counter i ty"
  shows "\<exists>p val f. fst (umc_exec now call x) = x \<or>
    (fst (umc_exec now call x) = update_cell p f x \<and>
     (f = update_value now val \<or> f = (\<lambda>u. update_value now (value_of u + val) u)))"
  using assms
  by (cases call)
    (auto simp: umc_inc_def umc_set_def umc_get_inc_def umc_get_set_def Let_def split: option.split)

lemma umc_exec_unique:
  assumes "ctx_unique x" and "call_fits call"
  shows "ctx_unique (fst (umc_exec now call x))"
proof (cases "\<exists>i ty. call = Call_new_counter i ty")
  case True
  then obtain i ty where call: "call = Call_new_counter i ty" by blast
  with assms show ?thesis
    by (simp add: umc_new_counter_cases ctx_unique_add_counter split: option.split)
next
  case False
  with umc_exec_update [of call now x] assms(1) show ?thesis
    by (auto simp: ctx_unique_update_cell counter_simps)
qed

lemma umc_exec_wf:
  assumes "ctx_wf x"
  shows "ctx_wf (fst (umc_exec now call x))"
proof (cases "\<exists>i ty. call = Call_new_counter i ty")
  case True
  then obtain i ty where call: "call = Call_new_counter i ty" by blast
  with assms show ?thesis
    by (simp add: umc_new_counter_cases ctx_wf_add_counter split: option.split)
next
  case False
  with umc_exec_update [of call now x] assms show ?thesis
    by (auto simp: ctx_wf_update_cell counter_simps)
qed

lemma umc_calls_wf: "ctx_wf x \<Longrightarrow> ctx_wf (umc_calls cs x)"
  by (induction cs x rule: umc_calls.induct) (auto intro: umc_exec_wf)

text \<open>Counters stay in place: a pointer keeps its name and its type for good.\<close>

lemma umc_exec_cell:
  assumes "c < length (ctx_cells x)"
  shows "c < length (ctx_cells (fst (umc_exec now call x))) \<and>
    umc_typ (ctx_cells (fst (umc_exec now call x)) ! c) = umc_typ (ctx_cells x ! c) \<and>
    (umc_typ (ctx_cells x ! c) = UMCT_INCREMENTAL \<longrightarrow>
      value_of (ctx_cells x ! c) \<le> value_of (ctx_cells (fst (umc_exec now call x)) ! c))"
proof (cases "\<exists>i ty. call = Call_new_counter i ty")
  case True
  with assms show ?thesis
    by (auto simp: umc_new_counter_cases add_counter_def nth_append split: option.split)
next
  case False
  with umc_exec_update [of call now x] assms show ?thesis
    by (auto simp: counter_simps update_value_incremental)
qed

lemma umc_calls_cell:
  "c < length (ctx_cells x) \<Longrightarrow>
    c < length (ctx_cells (umc_calls cs x)) \<and>
    umc_typ (ctx_cells (umc_calls cs x) ! c) = umc_typ (ctx_cells x ! c) \<and>
    (umc_typ (ctx_cells x ! c) = UMCT_INCREMENTAL \<longrightarrow>
      value_of (ctx_cells x ! c) \<le> value_of (ctx_cells (umc_calls cs x) ! c))"
proof (induction cs x rule: umc_calls.induct)
  case (2 now call cs x)
  from umc_exec_cell [OF "2.prems", of now call] "2.IH" show ?case by fastforce
qed simp

text \<open>The context table follows the registration contract of the hash tables.\<close>

lemma umc_new_counter_register:
  assumes "length s < UMC_NAME_MAX" and "umc_new_counter (Some x) (Some s) ty = (r, y, es)"
  shows "\<exists>y'. y = Some y' \<and>
    ctx_counters y' = uth.register (ctx_counters x) s (length (ctx_cells x)) \<and>
    r = HASH_FIND (ctx_counters y') s \<and>
    ctx_cells y' = ctx_cells x @ (if HASH_FIND (ctx_counters x) s = None then [umc_calloc s ty] else [])"
  using assms
  by (auto simp: umc_new_counter_cases uth.register_def add_counter_def table_simps split: option.splits)

lemma umc_new_counter_unique:
  assumes "ctx_unique x" and "length s < UMC_NAME_MAX"
    and "umc_new_counter (Some x) (Some s) ty = (r, Some y, es)"
  shows "ctx_unique y"
  using assms by (auto simp: umc_new_counter_cases ctx_unique_add_counter split: option.splits)

lemma umc_inc_cell:
  assumes "c < length (ctx_cells x)" and "umc_typ (ctx_cells x ! c) = UMCT_INCREMENTAL"
    and "unat (value_of (ctx_cells x ! c)) + unat d < 2 ^ 64"
  shows "length (ctx_cells (fst (umc_inc now (Some c) d x))) = length (ctx_cells x)"
    and "umc_typ (ctx_cells (fst (umc_inc now (Some c) d x)) ! c) = UMCT_INCREMENTAL"
    and "unat (value_of (ctx_cells (fst (umc_inc now (Some c) d x)) ! c)) =
      unat (value_of (ctx_cells x ! c)) + unat d"
  using assms by (simp_all add: umc_inc_def counter_simps inc_incremental)

lemma lock_balanced_ctx [simp]:
  "lock_balanced [] (lock_ctx True [])" "lock_balanced [Ctx_mtx] (lock_ctx False [])"
  "lock_balanced [] (lock_ctx True (lock_counter c))"
  "lock_balanced [Ctx_mtx] (lock_ctx False (lock_counter c))"
  by (simp_all add: lock_ctx_def lock_counter_def lock_balanced_def)

lemma umc_free_ctx_all:
  assumes "ctx_wf x"
  shows "umc_free_ctx (Some x) =
    ([0..<length (ctx_cells x)], [], [Mtx_lock Ctx_mtx, Mtx_unlock Ctx_mtx])"
  using assms HASH_drain [of "ctx_counters x"]
  by (simp add: umc_free_ctx_def uth.drain_def HASH_ITER_def ctx_wf_def)

lemma umc_match_cells:
  assumes "ctx_wf x"
  shows "umc_match fnm x ptrn lk cb arg =
    (0, fold cb (filter (\<lambda>u. fnm ptrn (umc_id u)) (ctx_cells x)) arg, lock_ctx lk [])"
proof -
  have "fold (\<lambda>c a. let u = ctx_cells x ! c in if fnm ptrn (umc_id u) then cb u a else a)
      [0..<length (ctx_cells x)] arg =
      fold (\<lambda>u a. if fnm ptrn (umc_id u) then cb u a else a) (ctx_cells x) arg"
    unfolding Let_def
    by (rule fun_cong [OF fold_nth_upt [where g = "\<lambda>u a. if fnm ptrn (umc_id u) then cb u a else a"]])
  also have "\<dots> = fold cb (filter (\<lambda>u. fnm ptrn (umc_id u)) (ctx_cells x)) arg"
    by (auto simp: fold_filter intro!: fold_cong)
  finally show ?thesis
    using assms by (simp add: umc_match_def ctx_wf_def HASH_ITER_def)
qed

section \<open>Properties\<close>

text \<open>
  Creating a counter whose name fits the buffer: the call returns a counter, a
  later lookup of that name returns the same one, every other name still finds what it
  found before, no existing counter is touched, and a second creation changes nothing.
\<close>

theorem umc_new_counter_spec:
  assumes "ctx_unique x" and "length s < UMC_NAME_MAX"
    and "umc_new_counter (Some x) (Some s) ty = (r, y, es)"
  shows "\<exists>c y'. r = Some c \<and> y = Some y' \<and> ctx_unique y' \<and>
    fst (umc_get y (Some s) lk) = Some c \<and> umc_id (ctx_cells y' ! c) = s \<and>
    (\<forall>s'. s' \<noteq> s \<longrightarrow> fst (umc_get y (Some s') lk) = fst (umc_get (Some x) (Some s') lk)) \<and>
    (\<forall>c' < length (ctx_cells x). ctx_cells y' ! c' = ctx_cells x ! c') \<and>
    umc_new_counter y (Some s) ty' = (r, y, es)"
proof -
  obtain y' where y': "y = Some y'"
    and tab: "ctx_counters y' = uth.register (ctx_counters x) s (length (ctx_cells x))"
    and r: "r = HASH_FIND (ctx_counters y') s"
    and cells: "ctx_cells y' = ctx_cells x @ (if HASH_FIND (ctx_counters x) s = None then [umc_calloc s ty] else [])"
    using umc_new_counter_register [OF assms(2,3)] by blast
  have wf: "uthash_wf (ctx_counters x)" "length (ctx_cells x) \<notin> set (HASH_ITER (ctx_counters x))"
    using assms(1) by (simp_all add: ctx_unique_def ctx_wf_def uthash_wf_def HASH_ITER_def)
  from r tab obtain c where c: "r = Some c" by (simp add: uth.register_find [OF wf])
  have uni: "ctx_unique y'" using umc_new_counter_unique [OF assms(1,2)] assms(3) y' by simp
  have "umc_id (ctx_cells y' ! c) = s"
    using ctx_wf_find [of y' s c] uni r c by (simp add: ctx_unique_def)
  moreover have "umc_new_counter y (Some s) ty' = (r, y, es)"
    using assms(3) r [symmetric] c y' by (simp add: umc_new_counter_cases split: option.splits)
  moreover have "fst (umc_get y (Some s') lk) = fst (umc_get (Some x) (Some s') lk)" if "s' \<noteq> s" for s'
    using that y' tab by (simp add: umc_get_def uth.register_find [OF wf])
  moreover have "fst (umc_get y (Some s) lk) = Some c"
    using y' r c by (simp add: umc_get_def)
  ultimately show ?thesis using c y' uni cells by (auto simp: nth_append)
qed

theorem umc_new_counter_spec_witness:
  "\<exists>c y'. Some 0 = Some c \<and>
    fst (umc_get (Some y') (Some ''rx'') True) = Some c \<and> umc_id (ctx_cells y' ! c) = ''rx''"
proof -
  let ?r = "umc_new_counter (Some umc_new_ctx) (Some ''rx'') UMCT_GAUGE"
  have r: "?r = (Some 0, fst (snd ?r), snd (snd ?r))"
    by (simp add: umc_new_counter_def umc_new_ctx_def HASH_FIND_def Let_def)
  show ?thesis
    using umc_new_counter_spec [OF ctx_unique_new _ r, of True UMCT_GAUGE]
    by (auto simp: UMC_NAME_MAX_def)
qed

text \<open>
  (C38) Whatever sequence of calls clients make on a fresh context, with names that fit
  the buffer, the table keeps every name once, every entry points to the counter that
  carries its name, and every counter is in the table.
\<close>

theorem umc_calls_unique:
  assumes "\<forall>(now, call) \<in> set cs. call_fits call"
  shows "ctx_unique (umc_calls cs umc_new_ctx)"
proof -
  have "ctx_unique (umc_calls cs x)" if "ctx_unique x" "\<forall>(now, call) \<in> set cs. call_fits call" for x
    using that by (induction cs x rule: umc_calls.induct) (auto intro: umc_exec_unique)
  then show ?thesis using assms by simp
qed

theorem umc_calls_unique_witness:
  "ctx_unique (umc_calls
    [(\<lparr>tv_sec = 1, tv_nsec = 0\<rparr>, Call_new_counter ''rx'' UMCT_INCREMENTAL),
     (\<lparr>tv_sec = 2, tv_nsec = 0\<rparr>, Call_get_inc ''rx'' 5 True)] umc_new_ctx)"
  by (rule umc_calls_unique) (simp add: UMC_NAME_MAX_def)

text \<open>
  An incremental counter never goes down, whatever the clients of its context do:
  set it to a smaller value, or add to it until 64 bits overflow.
\<close>

theorem incremental_monotone:
  assumes "c < length (ctx_cells x)" and "umc_typ (ctx_cells x ! c) = UMCT_INCREMENTAL"
  shows "value_of (ctx_cells x ! c) \<le> value_of (ctx_cells (umc_calls cs x) ! c)"
  using umc_calls_cell [OF assms(1)] assms(2) by blast

theorem incremental_monotone_witness:
  "let x = umc_calls [(\<lparr>tv_sec = 1, tv_nsec = 0\<rparr>, Call_new_counter ''rx'' UMCT_INCREMENTAL),
                     (\<lparr>tv_sec = 2, tv_nsec = 0\<rparr>, Call_inc (Some 0) 9)] umc_new_ctx
   in value_of (ctx_cells x ! 0) = 9 \<and>
      value_of (ctx_cells x ! 0) \<le>
        value_of (ctx_cells (umc_calls [(\<lparr>tv_sec = 3, tv_nsec = 0\<rparr>, Call_set (Some 0) 4)] x) ! 0)"
proof -
  let ?x = "umc_calls [(\<lparr>tv_sec = 1, tv_nsec = 0\<rparr>, Call_new_counter ''rx'' UMCT_INCREMENTAL),
      (\<lparr>tv_sec = 2, tv_nsec = 0\<rparr>, Call_inc (Some 0) 9)] umc_new_ctx"
  have x: "0 < length (ctx_cells ?x)" "umc_typ (ctx_cells ?x ! 0) = UMCT_INCREMENTAL"
    "value_of (ctx_cells ?x ! 0) = 9"
    by (simp_all add: umc_new_counter_def umc_new_ctx_def HASH_FIND_def umc_inc_def update_cell_def
        umc_calloc_def update_value_def Let_def)
  show ?thesis
    unfolding Let_def using incremental_monotone [OF x(1,2)] x(3) by (simp only: simp_thms)
qed

text \<open>
  As long as the running total fits 64 bits, an incremental counter holds exactly
  its starting value plus everything that was added to it, whatever the clock read.
\<close>

theorem umc_inc_sum:
  assumes "c < length (ctx_cells x)" and "umc_typ (ctx_cells x ! c) = UMCT_INCREMENTAL"
    and "unat (value_of (ctx_cells x ! c)) + (\<Sum>(now, d) \<leftarrow> ds. unat d) < 2 ^ 64"
  shows "unat (value_of (ctx_cells (umc_calls (map (\<lambda>(now, d). (now, Call_inc (Some c) d)) ds) x) ! c)) =
    unat (value_of (ctx_cells x ! c)) + (\<Sum>(now, d) \<leftarrow> ds. unat d)"
  using assms
proof (induction ds arbitrary: x)
  case (Cons e ds)
  obtain now d where e: "e = (now, d)" by fastforce
  let ?y = "fst (umc_inc now (Some c) d x)"
  have "unat (value_of (ctx_cells x ! c)) + unat d < 2 ^ 64" using Cons.prems(3) e by simp
  note y = umc_inc_cell [OF Cons.prems(1,2) this, of now]
  have "c < length (ctx_cells ?y)"
    and "unat (value_of (ctx_cells ?y ! c)) + (\<Sum>(now, d) \<leftarrow> ds. unat d) < 2 ^ 64"
    using y(1,3) Cons.prems e by simp_all
  from Cons.IH [OF this(1) y(2) this(2)] show ?case using e y(3) by simp
qed simp

theorem umc_inc_sum_witness:
  "unat (value_of (ctx_cells (umc_calls
      (map (\<lambda>(now, d). (now, Call_inc (Some 0) d))
         [(\<lparr>tv_sec = 1, tv_nsec = 0\<rparr>, 3), (\<lparr>tv_sec = 2, tv_nsec = 0\<rparr>, 4)])
      \<lparr>ctx_counters = [(''rx'', 0)], ctx_cells = [umc_calloc ''rx'' UMCT_INCREMENTAL]\<rparr>) ! 0)) = 7"
  by (subst umc_inc_sum) (simp_all add: umc_calloc_def)

text \<open>
  The rate of an incremental counter is its last increment divided by the time
  between the last two updates, in events per second, when both clock readings are
  below \<open>2^53\<close> nanoseconds (about 104 days of uptime), where the conversion through
  \<^verbatim>\<open>double\<close> is exact.
\<close>

theorem umc_get_rate_per_second:
  assumes "umc_typ u = UMCT_INCREMENTAL" and "val_ts_nsec (umc_last u) = ts_to_nsec t0"
    and "tv_sec t0 * 10 ^ 9 + tv_nsec t0 < tv_sec t1 * 10 ^ 9 + tv_nsec t1"
    and "tv_sec t1 * 10 ^ 9 + tv_nsec t1 < 2 ^ 53"
    and "0 < d" and "unat (value_of u) + unat d < 2 ^ 64"
  shows "fst (umc_get_rate c (update_value t1 (value_of u + d) u) lk) =
    real (unat d) /
      ((real (tv_sec t1) + real (tv_nsec t1) / 10 ^ 9) - (real (tv_sec t0) + real (tv_nsec t0) / 10 ^ 9))"
proof -
  let ?n0 = "tv_sec t0 * 10 ^ 9 + tv_nsec t0" and ?n1 = "tv_sec t1 * 10 ^ 9 + tv_nsec t1"
  have n: "unat (ts_to_nsec t0) = ?n0" "unat (ts_to_nsec t1) = ?n1"
    using assms(3,4) by (simp_all add: ts_to_nsec_exact)
  have "value_of u < value_of u + d"
    using assms(5,6) by (simp add: word_less_nat_alt unat_word_ariths word_gt_0 unat_gt_0)
  then have upd: "umc_delta (update_value t1 (value_of u + d) u) = d"
    "umc_ts_diff (update_value t1 (value_of u + d) u) = ts_to_nsec t1 - ts_to_nsec t0"
    "umc_typ (update_value t1 (value_of u + d) u) = UMCT_INCREMENTAL"
    using assms(1,2) by (auto simp: update_value_def Let_def)
  have le: "ts_to_nsec t0 \<le> ts_to_nsec t1" using n assms(3) by (simp add: word_le_nat_alt)
  then have diff: "unat (ts_to_nsec t1 - ts_to_nsec t0) = ?n1 - ?n0"
    by (simp add: unat_sub n)
  then have "0 < ts_to_nsec t1 - ts_to_nsec t0"
    using assms(3) by (simp add: word_less_nat_alt)
  with upd diff assms(5) have "fst (umc_get_rate c (update_value t1 (value_of u + d) u) lk) =
      real (unat d) / real (?n1 - ?n0) * 10 ^ 9"
    by (simp add: umc_get_rate_def)
  also have "\<dots> = real (unat d) / ((real ?n1 - real ?n0) / 10 ^ 9)"
    using assms(3) by (simp add: of_nat_diff)
  finally show ?thesis by (simp add: diff_divide_distrib add_divide_distrib)
qed

theorem umc_get_rate_per_second_witness:
  "fst (umc_get_rate 0 (update_value \<lparr>tv_sec = 12, tv_nsec = 500000000\<rparr> 20
     (update_value \<lparr>tv_sec = 10, tv_nsec = 0\<rparr> 15 (umc_calloc ''rx'' UMCT_INCREMENTAL))) True) = 2"
proof -
  let ?u = "update_value \<lparr>tv_sec = 10, tv_nsec = 0\<rparr> 15 (umc_calloc ''rx'' UMCT_INCREMENTAL)"
  have u: "umc_typ ?u = UMCT_INCREMENTAL" "value_of ?u = 15"
    "val_ts_nsec (umc_last ?u) = ts_to_nsec \<lparr>tv_sec = 10, tv_nsec = 0\<rparr>"
    by (simp_all add: update_value_def umc_calloc_def Let_def)
  show ?thesis
    using umc_get_rate_per_second [OF u(1,3), of "\<lparr>tv_sec = 12, tv_nsec = 500000000\<rparr>" 5]
    by (simp add: u(2))
qed

text \<open>
  Lock discipline: every call, made by a thread that holds the context mutex exactly
  when it passes \<open>lock = false\<close>, acquires and releases mutexes in a balanced way, never
  taking one it holds, and leaves the thread holding what it held.
\<close>

theorem umc_exec_locks: "lock_balanced (call_held call) (snd (umc_exec now call x))"
proof (cases call)
  case (Call_get_inc i val lk)
  then show ?thesis
    by (cases lk) (auto simp: umc_get_inc_def Let_def split: option.split)
next
  case (Call_get_set i val lk)
  then show ?thesis
    by (cases lk) (auto simp: umc_get_set_def Let_def split: option.split)
next
  case (Call_get i lk)
  then show ?thesis by (cases lk) (simp_all add: umc_get_def)
qed (auto simp: umc_new_counter_cases umc_inc_def umc_set_def lock_counter_def lock_balanced_def
      split: option.split)

text \<open>
  A name of 256 characters or more is cut when it is stored and compared uncut when
  it is looked up: it is never found, and every creation call for it makes one more
  counter, all of them filed under the same stored name.
\<close>

theorem long_name_never_found:
  assumes "ctx_wf x" and "UMC_NAME_MAX \<le> length s"
  shows "fst (umc_get (Some x) (Some s) lk) = None \<and>
    (\<exists>y. umc_new_counter (Some x) (Some s) ty =
           (Some (length (ctx_cells x)), Some y, [Mtx_lock Ctx_mtx, Mtx_unlock Ctx_mtx]) \<and>
         length (ctx_cells y) = Suc (length (ctx_cells x)) \<and>
         fst (last (ctx_counters y)) = take 255 s)"
proof -
  have "HASH_FIND (ctx_counters x) s = None"
  proof (rule ccontr)
    assume "HASH_FIND (ctx_counters x) s \<noteq> None"
    then obtain c where "HASH_FIND (ctx_counters x) s = Some c" by blast
    then have c: "c < length (ctx_cells x)" "umc_id (ctx_cells x ! c) = s"
      using ctx_wf_find [OF assms(1)] by simp_all
    from ctx_wf_name [OF assms(1) c(1)] c(2) assms(2) show False by simp
  qed
  then show ?thesis
    by (simp add: umc_get_def umc_new_counter_cases add_counter_def HASH_ADD_def snprintf_s_def
        UMC_NAME_MAX_def)
qed

theorem long_name_never_found_witness:
  "fst (umc_get (Some umc_new_ctx) (Some (replicate 300 CHR ''a'')) True) = None"
  using long_name_never_found [of umc_new_ctx "replicate 300 CHR ''a''" True UMCT_GAUGE]
  by (simp add: UMC_NAME_MAX_def)

text \<open>
  The \<^verbatim>\<open>max\<close> field of a gauge is the larger of the last two values written, not the
  largest value the gauge ever had: after three falling values it holds the second.
\<close>

theorem gauge_max_forgets:
  assumes "umc_typ u = UMCT_GAUGE" and "c < b" and "b < a"
  shows "umc_max (update_value t2 c (update_value t1 b (update_value t0 a u))) = b"
  using assms by (simp add: update_value_gauge counter_simps)

theorem gauge_max_forgets_witness:
  "let now = \<lparr>tv_sec = 1, tv_nsec = 0\<rparr> in
   umc_max (update_value now 3 (update_value now 5 (update_value now 10 (umc_calloc ''g'' UMCT_GAUGE)))) = 5"
  unfolding Let_def
  by (rule gauge_max_forgets) (simp_all add: umc_calloc_def)

end
