(* ===== verification/Umcounters_conc.thy ===== *)
theory Umcounters_conc
  imports Umcounters "HOL-Library.Sublist"
begin

text \<open>
  The counters under concurrency: several threads call the operations of \<^verbatim>\<open>src/src/utils/umcounters.c\<close> on one context,
  interleaved at their mutex calls and at their accesses to shared memory. A thread is the list of calls it
  still has to make and a position in the first of them. The operations are those of \<open>Umcounters\<close>, cut at
  these points; \<open>sys_hist\<close> records, for the proofs, the order in which the calls took effect.

  The calls are those that take the context's mutex themselves (\<open>call_held\<close> is empty), as all callers in the program do.
\<close>

section \<open>Threads\<close>

datatype umc_pc = Idle | In_ctx | At_counter nat | Locked nat | Loaded nat u64 | Stored nat | Leaving

record umc_thread =
  th_calls :: "(timespec \<times> umc_call) list"
  th_pc :: umc_pc

record 't umc_sys =
  sys_ctx :: umc_ctx
  own_ctx :: "'t option"
  own_counter :: "nat \<rightharpoonup> 't"
  sys_threads :: "'t \<Rightarrow> umc_thread"
  sys_hist :: "('t \<times> timespec \<times> umc_call) list"

fun takes_ctx :: "umc_call \<Rightarrow> bool" where
  "takes_ctx (Call_inc c val) = False"
| "takes_ctx (Call_set c val) = False"
| "takes_ctx _ = True"

text \<open>The counter a call works on, and the value it passes to \<^verbatim>\<open>update_value\<close>.\<close>

fun counter_of :: "umc_call \<Rightarrow> umc_ctx \<Rightarrow> nat option" where
  "counter_of (Call_inc c val) x = c"
| "counter_of (Call_set c val) x = c"
| "counter_of (Call_get_inc i val lk) x = HASH_FIND (ctx_counters x) i"
| "counter_of (Call_get_set i val lk) x = HASH_FIND (ctx_counters x) i"
| "counter_of _ x = None"

fun new_value :: "umc_call \<Rightarrow> umc \<Rightarrow> u64" where
  "new_value (Call_inc c val) u = value_of u + val"
| "new_value (Call_set c val) u = val"
| "new_value (Call_get_inc i val lk) u = value_of u + val"
| "new_value (Call_get_set i val lk) u = val"
| "new_value _ u = 0"

definition set_th :: "'t \<Rightarrow> (timespec \<times> umc_call) list \<Rightarrow> umc_pc \<Rightarrow> 't umc_sys \<Rightarrow> 't umc_sys" where
  "set_th t cs pc s = s\<lparr>sys_threads := (sys_threads s)(t := \<lparr>th_calls = cs, th_pc = pc\<rparr>)\<rparr>"

definition at_pc :: "'t umc_sys \<Rightarrow> 't \<Rightarrow> umc_pc \<Rightarrow> timespec \<Rightarrow> umc_call \<Rightarrow> (timespec \<times> umc_call) list \<Rightarrow> bool" where
  "at_pc s t pc now k ks \<longleftrightarrow> th_pc (sys_threads s t) = pc \<and> th_calls (sys_threads s t) = (now, k) # ks"

inductive umc_step :: "'t umc_sys \<Rightarrow> 't umc_sys \<Rightarrow> bool" where
  enter: "at_pc s t Idle now k ks \<Longrightarrow> takes_ctx k \<Longrightarrow> own_ctx s = None \<Longrightarrow>
    umc_step s (set_th t ((now, k) # ks) In_ctx (s\<lparr>own_ctx := Some t\<rparr>))"
| null: "at_pc s t Idle now k ks \<Longrightarrow> \<not> takes_ctx k \<Longrightarrow> counter_of k (sys_ctx s) = None \<Longrightarrow>
    umc_step s (set_th t ks Idle (s\<lparr>sys_hist := sys_hist s @ [(t, now, k)]\<rparr>))"
| direct: "at_pc s t Idle now k ks \<Longrightarrow> \<not> takes_ctx k \<Longrightarrow> counter_of k (sys_ctx s) = Some p \<Longrightarrow>
    umc_step s (set_th t ((now, k) # ks) (At_counter p) s)"
| create: "at_pc s t In_ctx now k ks \<Longrightarrow> counter_of k (sys_ctx s) = None \<Longrightarrow>
    umc_step s (set_th t ((now, k) # ks) Leaving
      (s\<lparr>sys_ctx := fst (umc_exec now k (sys_ctx s)), sys_hist := sys_hist s @ [(t, now, k)]\<rparr>))"
| found: "at_pc s t In_ctx now k ks \<Longrightarrow> counter_of k (sys_ctx s) = Some p \<Longrightarrow>
    umc_step s (set_th t ((now, k) # ks) (At_counter p) s)"
| lock: "at_pc s t (At_counter p) now k ks \<Longrightarrow> own_counter s p = None \<Longrightarrow>
    umc_step s (set_th t ((now, k) # ks) (Locked p) (s\<lparr>own_counter := (own_counter s)(p \<mapsto> t)\<rparr>))"
| load: "at_pc s t (Locked p) now k ks \<Longrightarrow>
    umc_step s (set_th t ((now, k) # ks) (Loaded p (new_value k (ctx_cells (sys_ctx s) ! p))) s)"
| store: "at_pc s t (Loaded p v) now k ks \<Longrightarrow>
    umc_step s (set_th t ((now, k) # ks) (Stored p)
      (s\<lparr>sys_ctx := update_cell p (update_value now v) (sys_ctx s), sys_hist := sys_hist s @ [(t, now, k)]\<rparr>))"
| unlock: "at_pc s t (Stored p) now k ks \<Longrightarrow>
    umc_step s (set_th t (if takes_ctx k then (now, k) # ks else ks) (if takes_ctx k then Leaving else Idle)
      (s\<lparr>own_counter := (own_counter s)(p := None)\<rparr>))"
| leave: "at_pc s t Leaving now k ks \<Longrightarrow>
    umc_step s (set_th t ks Idle (s\<lparr>own_ctx := None\<rparr>))"

text \<open>
  The rule \<open>create\<close> is the part of a call under the context's mutex that touches no counter: the creation or the plain
  lookup of one, or a lookup without result.
\<close>

inductive umc_steps :: "'t umc_sys \<Rightarrow> 't umc_sys \<Rightarrow> bool" where
  none: "umc_steps s s"
| step: "umc_steps s s' \<Longrightarrow> umc_step s' s'' \<Longrightarrow> umc_steps s s''"

definition umc_start :: "umc_ctx \<Rightarrow> ('t \<Rightarrow> (timespec \<times> umc_call) list) \<Rightarrow> 't umc_sys" where
  "umc_start x prog = \<lparr>sys_ctx = x, own_ctx = None, own_counter = Map.empty,
     sys_threads = (\<lambda>t. \<lparr>th_calls = prog t, th_pc = Idle\<rparr>), sys_hist = []\<rparr>"

section \<open>Mutual exclusion\<close>

definition holds_ctx :: "umc_thread \<Rightarrow> bool" where
  "holds_ctx th \<longleftrightarrow> th_pc th \<noteq> Idle \<and> takes_ctx (snd (hd (th_calls th)))"

fun pc_counter :: "umc_pc \<Rightarrow> nat option" where
  "pc_counter (Locked p) = Some p"
| "pc_counter (Loaded p v) = Some p"
| "pc_counter (Stored p) = Some p"
| "pc_counter _ = None"

definition lock_inv :: "'t umc_sys \<Rightarrow> bool" where
  "lock_inv s \<longleftrightarrow>
     (\<forall>t. own_ctx s = Some t \<longleftrightarrow> holds_ctx (sys_threads s t)) \<and>
     (\<forall>p t. own_counter s p = Some t \<longleftrightarrow> pc_counter (th_pc (sys_threads s t)) = Some p) \<and>
     (\<forall>t. th_pc (sys_threads s t) \<noteq> Idle \<longrightarrow> th_calls (sys_threads s t) \<noteq> []) \<and>
     (\<forall>t. th_pc (sys_threads s t) \<in> {In_ctx, Leaving} \<longrightarrow> takes_ctx (snd (hd (th_calls (sys_threads s t)))))"

lemma set_th_sel [simp]:
  "sys_ctx (set_th t cs pc s) = sys_ctx s" "own_ctx (set_th t cs pc s) = own_ctx s"
  "own_counter (set_th t cs pc s) = own_counter s" "sys_hist (set_th t cs pc s) = sys_hist s"
  "sys_threads (set_th t cs pc s) = (sys_threads s)(t := \<lparr>th_calls = cs, th_pc = pc\<rparr>)"
  by (simp_all add: set_th_def)

lemma lock_inv_ctx: "lock_inv s \<Longrightarrow> own_ctx s = Some t \<longleftrightarrow> holds_ctx (sys_threads s t)"
  and lock_inv_counter: "lock_inv s \<Longrightarrow> own_counter s p = Some t \<longleftrightarrow> pc_counter (th_pc (sys_threads s t)) = Some p"
  and lock_inv_busy: "lock_inv s \<Longrightarrow> th_pc (sys_threads s t) \<noteq> Idle \<Longrightarrow> th_calls (sys_threads s t) \<noteq> []"
  and lock_inv_takes: "lock_inv s \<Longrightarrow> th_pc (sys_threads s t) \<in> {In_ctx, Leaving} \<Longrightarrow>
    takes_ctx (snd (hd (th_calls (sys_threads s t))))"
  by (auto simp: lock_inv_def)

text \<open>No two threads hold the same mutex.\<close>

lemma excl_ctx: "lock_inv s \<Longrightarrow> holds_ctx (sys_threads s t) \<Longrightarrow> holds_ctx (sys_threads s u) \<Longrightarrow> u = t"
  using lock_inv_ctx by (metis option.inject)

lemma excl_counter: "lock_inv s \<Longrightarrow> pc_counter (th_pc (sys_threads s t)) = Some p \<Longrightarrow>
    pc_counter (th_pc (sys_threads s u)) = Some p \<Longrightarrow> u = t"
  using lock_inv_counter by (metis option.inject)

lemma lock_inv_step: "umc_step s s' \<Longrightarrow> lock_inv s \<Longrightarrow> lock_inv s'"
proof (induction rule: umc_step.induct)
  case (lock s t p now k ks)
  have "pc_counter (th_pc (sys_threads s u)) \<noteq> Some p" for u
    using lock_inv_counter [OF lock.prems, of p u] lock.hyps(2) by simp
  then show ?case using lock by (auto simp: lock_inv_def at_pc_def holds_ctx_def)
next
  case (unlock s t p now k ks)
  have "pc_counter (th_pc (sys_threads s t)) = Some p" using unlock.hyps by (simp add: at_pc_def)
  then have "pc_counter (th_pc (sys_threads s u)) \<noteq> Some p" if "u \<noteq> t" for u
    using excl_counter [OF unlock.prems] that by blast
  then show ?case using unlock by (auto simp: lock_inv_def at_pc_def holds_ctx_def)
next
  case (leave s t now k ks)
  have "holds_ctx (sys_threads s t)"
    using leave.hyps lock_inv_takes [OF leave.prems, of t] by (simp add: at_pc_def holds_ctx_def)
  then have "\<not> holds_ctx (sys_threads s u)" if "u \<noteq> t" for u
    using excl_ctx [OF leave.prems] that by blast
  then show ?case using leave by (auto simp: lock_inv_def at_pc_def holds_ctx_def)
qed (auto simp: lock_inv_def at_pc_def holds_ctx_def)

lemma lock_inv_steps: "umc_steps s s' \<Longrightarrow> lock_inv s \<Longrightarrow> lock_inv s'"
  by (induction rule: umc_steps.induct) (auto intro: lock_inv_step)

lemma lock_inv_start [simp]: "lock_inv (umc_start x prog)"
  by (simp add: lock_inv_def umc_start_def holds_ctx_def)

section \<open>What a thread knows\<close>

text \<open>A call that takes its own mutexes, through a pointer to one of \<open>n\<close> counters.\<close>

fun call_ok :: "nat \<Rightarrow> umc_call \<Rightarrow> bool" where
  "call_ok n (Call_inc (Some p) val) = (p < n)"
| "call_ok n (Call_set (Some p) val) = (p < n)"
| "call_ok n k = (call_held k = [])"

fun knows :: "umc_ctx \<Rightarrow> umc_call \<Rightarrow> umc_pc \<Rightarrow> bool" where
  "knows x k (At_counter p) = (counter_of k x = Some p)"
| "knows x k (Locked p) = (counter_of k x = Some p)"
| "knows x k (Loaded p v) = (counter_of k x = Some p \<and> v = new_value k (ctx_cells x ! p))"
| "knows x k _ = True"

definition data_inv :: "'t umc_sys \<Rightarrow> bool" where
  "data_inv s \<longleftrightarrow> ctx_wf (sys_ctx s) \<and>
     (\<forall>t. \<forall>(now, k) \<in> set (th_calls (sys_threads s t)). call_ok (length (ctx_cells (sys_ctx s))) k) \<and>
     (\<forall>t. knows (sys_ctx s) (snd (hd (th_calls (sys_threads s t)))) (th_pc (sys_threads s t)))"

lemma call_ok_mono: "call_ok n k \<Longrightarrow> n \<le> m \<Longrightarrow> call_ok m k"
  by (cases "(n, k)" rule: call_ok.cases) auto

lemma counter_of_bound:
  "ctx_wf x \<Longrightarrow> call_ok (length (ctx_cells x)) k \<Longrightarrow> counter_of k x = Some p \<Longrightarrow> p < length (ctx_cells x)"
  by (cases k) (auto dest: ctx_wf_find)

lemma counter_of_static: "\<not> takes_ctx k \<Longrightarrow> counter_of k x = counter_of k y"
  by (cases k) auto

lemma counter_of_table: "ctx_counters x = ctx_counters y \<Longrightarrow> counter_of k x = counter_of k y"
  by (cases k) auto

text \<open>The sequential operation is the lookup followed by the update of the counter found.\<close>

lemma umc_exec_found:
  assumes "counter_of k x = Some p"
  shows "fst (umc_exec now k x) = update_cell p (update_value now (new_value k (ctx_cells x ! p))) x"
  using assms
  by (cases k) (auto simp: umc_inc_def umc_set_def umc_get_inc_def umc_get_set_def umc_get_def update_cell_def Let_def)

lemma umc_exec_null: "\<not> takes_ctx k \<Longrightarrow> counter_of k x = None \<Longrightarrow> fst (umc_exec now k x) = x"
  by (cases k) (auto simp: umc_inc_def umc_set_def)

lemma umc_exec_not_found:
  assumes "counter_of k x = None"
  shows "\<exists>cs. ctx_cells (fst (umc_exec now k x)) = ctx_cells x @ cs"
  using assms
  by (cases k) (auto simp: umc_inc_def umc_set_def umc_get_inc_def umc_get_set_def umc_get_def Let_def
      umc_new_counter_cases add_counter_def split: option.split)

lemma knows_create:
  assumes "knows x k' pc" and "\<not> takes_ctx k'" and "ctx_wf x" and "call_ok (length (ctx_cells x)) k'"
    and "counter_of k x = None"
  shows "knows (fst (umc_exec now k x)) k' pc"
proof -
  obtain cs where cs: "ctx_cells (fst (umc_exec now k x)) = ctx_cells x @ cs"
    using umc_exec_not_found [OF assms(5)] by blast
  have "counter_of k' (fst (umc_exec now k x)) = counter_of k' x"
    using counter_of_static [OF assms(2)] .
  then show ?thesis
    using assms(1) counter_of_bound [OF assms(3,4)] by (cases pc) (auto simp: cs nth_append)
qed

lemma knows_store:
  assumes "knows x k' pc" and "pc_counter pc \<noteq> Some p"
  shows "knows (update_cell p f x) k' pc"
proof -
  have "counter_of k' (update_cell p f x) = counter_of k' x"
    by (rule counter_of_table) (simp add: update_cell_def)
  then show ?thesis
    using assms by (cases pc) (auto simp: update_cell_def)
qed

lemma data_inv_calls: "data_inv s \<Longrightarrow> (now, k) \<in> set (th_calls (sys_threads s t)) \<Longrightarrow> call_ok (length (ctx_cells (sys_ctx s))) k"
  and data_inv_knows: "data_inv s \<Longrightarrow> knows (sys_ctx s) (snd (hd (th_calls (sys_threads s t)))) (th_pc (sys_threads s t))"
  and data_inv_wf: "data_inv s \<Longrightarrow> ctx_wf (sys_ctx s)"
  by (auto simp: data_inv_def)

lemma set_th_calls: "at_pc s t pc now k ks \<Longrightarrow> sys_threads s' = sys_threads s \<Longrightarrow>
    th_calls (sys_threads (set_th t ((now, k) # ks) pc' s') u) = th_calls (sys_threads s u)"
  by (simp add: at_pc_def)

text \<open>A step that leaves the context alone only has to justify the thread that makes it.\<close>

lemma data_inv_set_th:
  assumes "data_inv s" and "sys_ctx s' = sys_ctx s" and "sys_threads s' = sys_threads s"
    and "set cs \<subseteq> set (th_calls (sys_threads s t))" and "knows (sys_ctx s) (snd (hd cs)) pc"
  shows "data_inv (set_th t cs pc s')"
proof -
  have "call_ok (length (ctx_cells (sys_ctx s))) k" if "(now, k) \<in> set cs" for now k
    using data_inv_calls [OF assms(1)] assms(4) that by blast
  then show ?thesis
    using assms(2,3,5) data_inv_wf [OF assms(1)] data_inv_calls [OF assms(1)] data_inv_knows [OF assms(1)]
    by (auto simp: data_inv_def)
qed

lemma data_inv_create:
  assumes inv: "data_inv s" "lock_inv s" and at: "at_pc s t In_ctx now k ks" and none: "counter_of k (sys_ctx s) = None"
  shows "data_inv (set_th t ((now, k) # ks) Leaving (s\<lparr>sys_ctx := fst (umc_exec now k (sys_ctx s)), sys_hist := h\<rparr>))"
    (is "data_inv ?s")
proof -
  let ?y = "fst (umc_exec now k (sys_ctx s))"
  obtain cs where cs: "ctx_cells ?y = ctx_cells (sys_ctx s) @ cs"
    using umc_exec_not_found [OF none] by blast
  have t: "holds_ctx (sys_threads s t)"
    using at lock_inv_takes [OF inv(2), of t] by (simp add: at_pc_def holds_ctx_def)
  have ok: "call_ok (length (ctx_cells ?y)) k'" if "(n, k') \<in> set (th_calls (sys_threads s u))" for n k' u
    using data_inv_calls [OF inv(1) that] by (rule call_ok_mono) (simp add: cs)
  have "knows ?y (snd (hd (th_calls (sys_threads s u)))) (th_pc (sys_threads s u))" if "u \<noteq> t" for u
  proof (cases "th_pc (sys_threads s u) = Idle")
    case False
    then obtain n k' ks' where u: "th_calls (sys_threads s u) = (n, k') # ks'"
      using lock_inv_busy [OF inv(2)] by (metis neq_Nil_conv surj_pair)
    have "\<not> takes_ctx k'" using excl_ctx [OF inv(2) t, of u] that False u by (auto simp: holds_ctx_def)
    with data_inv_knows [OF inv(1), of u] data_inv_calls [OF inv(1), of n k' u] show ?thesis
      by (simp add: u knows_create data_inv_wf [OF inv(1)] none)
  qed simp
  then have kn: "\<forall>u. u \<noteq> t \<longrightarrow> knows ?y (snd (hd (th_calls (sys_threads s u)))) (th_pc (sys_threads s u))" by blast
  show ?thesis
    unfolding data_inv_def
  proof (intro conjI)
    show "ctx_wf (sys_ctx ?s)" by (simp add: umc_exec_wf data_inv_wf [OF inv(1)])
    show "\<forall>u. \<forall>(n, k') \<in> set (th_calls (sys_threads ?s u)). call_ok (length (ctx_cells (sys_ctx ?s))) k'"
      using ok by (auto simp: set_th_calls [OF at] simp del: set_th_sel(5))
    show "\<forall>u. knows (sys_ctx ?s) (snd (hd (th_calls (sys_threads ?s u)))) (th_pc (sys_threads ?s u))"
      using kn by simp
  qed
qed

lemma data_inv_store:
  assumes inv: "data_inv s" "lock_inv s" and at: "at_pc s t (Loaded p v) now k ks"
  shows "data_inv (set_th t ((now, k) # ks) (Stored p)
    (s\<lparr>sys_ctx := update_cell p (update_value now v) (sys_ctx s), sys_hist := h\<rparr>))" (is "data_inv ?s")
proof -
  have "pc_counter (th_pc (sys_threads s t)) = Some p" using at by (simp add: at_pc_def)
  then have "\<forall>u. u \<noteq> t \<longrightarrow> pc_counter (th_pc (sys_threads s u)) \<noteq> Some p"
    using excl_counter [OF inv(2)] by blast
  then have kn: "\<forall>u. u \<noteq> t \<longrightarrow> knows (update_cell p (update_value now v) (sys_ctx s))
      (snd (hd (th_calls (sys_threads s u)))) (th_pc (sys_threads s u))"
    using knows_store data_inv_knows [OF inv(1)] by blast
  show ?thesis
    unfolding data_inv_def
  proof (intro conjI)
    show "ctx_wf (sys_ctx ?s)" by (simp add: ctx_wf_update_cell data_inv_wf [OF inv(1)] counter_simps)
    show "\<forall>u. \<forall>(n, k') \<in> set (th_calls (sys_threads ?s u)). call_ok (length (ctx_cells (sys_ctx ?s))) k'"
      using data_inv_calls [OF inv(1)] by (auto simp: set_th_calls [OF at] counter_simps simp del: set_th_sel(5))
    show "\<forall>u. knows (sys_ctx ?s) (snd (hd (th_calls (sys_threads ?s u)))) (th_pc (sys_threads ?s u))"
      using kn by simp
  qed
qed

lemma data_inv_step: "umc_step s s' \<Longrightarrow> lock_inv s \<Longrightarrow> data_inv s \<Longrightarrow> data_inv s'"
proof (induction rule: umc_step.induct)
  case (create s t now k ks)
  then show ?case by (simp add: data_inv_create)
next
  case (store s t p v now k ks)
  then show ?case by (simp add: data_inv_store)
next
  case (lock s t p now k ks)
  then show ?case using data_inv_knows [OF lock.prems(2), of t]
    by (intro data_inv_set_th [where s = s]) (auto simp: at_pc_def)
next
  case (load s t p now k ks)
  then show ?case using data_inv_knows [OF load.prems(2), of t]
    by (intro data_inv_set_th [where s = s]) (auto simp: at_pc_def)
next
  case (enter s t now k ks)
  then show ?case by (intro data_inv_set_th [where s = s]) (auto simp: at_pc_def)
next
  case (null s t now k ks)
  then show ?case by (intro data_inv_set_th [where s = s]) (auto simp: at_pc_def)
next
  case (direct s t now k ks p)
  then show ?case by (intro data_inv_set_th [where s = s]) (auto simp: at_pc_def)
next
  case (found s t now k ks p)
  then show ?case by (intro data_inv_set_th [where s = s]) (auto simp: at_pc_def)
next
  case (unlock s t p now k ks)
  then show ?case by (intro data_inv_set_th [where s = s]) (auto simp: at_pc_def)
next
  case (leave s t now k ks)
  then show ?case by (intro data_inv_set_th [where s = s]) (auto simp: at_pc_def)
qed

section \<open>The order in which the calls take effect\<close>

text \<open>The calls a thread has still to make effective.\<close>

fun pending :: "umc_thread \<Rightarrow> (timespec \<times> umc_call) list" where
  "pending th = (case th_pc th of Stored p \<Rightarrow> tl (th_calls th) | Leaving \<Rightarrow> tl (th_calls th) | _ \<Rightarrow> th_calls th)"

definition calls_of :: "'t \<Rightarrow> ('t \<times> timespec \<times> umc_call) list \<Rightarrow> (timespec \<times> umc_call) list" where
  "calls_of t h = map snd (filter (\<lambda>e. fst e = t) h)"

definition hist_inv :: "umc_ctx \<Rightarrow> ('t \<Rightarrow> (timespec \<times> umc_call) list) \<Rightarrow> 't umc_sys \<Rightarrow> bool" where
  "hist_inv x prog s \<longleftrightarrow> sys_ctx s = umc_calls (map snd (sys_hist s)) x \<and>
     (\<forall>t. calls_of t (sys_hist s) @ pending (sys_threads s t) = prog t)"

lemma umc_calls_snoc: "umc_calls (cs @ [(now, k)]) x = fst (umc_exec now k (umc_calls cs x))"
  by (induction cs x rule: umc_calls.induct) auto

lemma calls_of_snoc: "calls_of u (h @ [(t, e)]) = calls_of u h @ (if u = t then [e] else [])"
  by (simp add: calls_of_def)

lemma hist_inv_quiet:
  assumes "hist_inv x prog s" and "sys_ctx s' = sys_ctx s" and "sys_hist s' = sys_hist s" and "sys_threads s' = sys_threads s"
    and "pending \<lparr>th_calls = cs, th_pc = pc\<rparr> = pending (sys_threads s t)"
  shows "hist_inv x prog (set_th t cs pc s')"
  using assms unfolding hist_inv_def by (simp del: pending.simps)

lemma hist_inv_effect:
  assumes "hist_inv x prog s" and "sys_ctx s' = fst (umc_exec now k (sys_ctx s))" and "sys_hist s' = sys_hist s @ [(t, now, k)]"
    and "sys_threads s' = sys_threads s" and "pending (sys_threads s t) = (now, k) # pending \<lparr>th_calls = cs, th_pc = pc\<rparr>"
  shows "hist_inv x prog (set_th t cs pc s')"
proof -
  have "calls_of t (sys_hist s) @ pending (sys_threads s t) = prog t" using assms(1) by (simp add: hist_inv_def)
  then show ?thesis
    using assms unfolding hist_inv_def by (simp add: umc_calls_snoc calls_of_snoc del: pending.simps)
qed

lemma hist_inv_step:
  assumes "umc_step s s'" and "data_inv s" and "hist_inv x prog s"
  shows "hist_inv x prog s'"
  using assms
proof (induction rule: umc_step.induct)
  case (store s t p v now k ks)
  have "counter_of k (sys_ctx s) = Some p" "v = new_value k (ctx_cells (sys_ctx s) ! p)"
    using data_inv_knows [OF store.prems(1), of t] store.hyps by (simp_all add: at_pc_def)
  with store show ?case
    by (intro hist_inv_effect [where s = s]) (auto simp: at_pc_def umc_exec_found)
next
  case (create s t now k ks)
  then show ?case by (intro hist_inv_effect [where s = s]) (auto simp: at_pc_def)
next
  case (null s t now k ks)
  then show ?case by (intro hist_inv_effect [where s = s]) (auto simp: at_pc_def umc_exec_null)
qed (rule hist_inv_quiet, assumption; auto simp: at_pc_def)+

section \<open>All threads finish\<close>

definition finished :: "'t umc_sys \<Rightarrow> bool" where
  "finished s \<longleftrightarrow> (\<forall>t. th_calls (sys_threads s t) = [])"

text \<open>The mutexes are taken in one order, the context's before a counter's, so some thread can always go on.\<close>

lemma pc_blocked:
  assumes at: "at_pc s t pc now k ks" and stuck: "\<not> (\<exists>s'. umc_step s s')"
  shows "(pc = Idle \<and> takes_ctx k \<and> own_ctx s \<noteq> None) \<or> (\<exists>p. pc = At_counter p \<and> own_counter s p \<noteq> None)"
proof (cases pc)
  case Idle
  show ?thesis
  proof (cases "takes_ctx k")
    case True
    with Idle at stuck show ?thesis using umc_step.enter [of s t now k ks] by blast
  next
    case False
    with Idle at stuck show ?thesis
      using umc_step.null [of s t now k ks] umc_step.direct [of s t now k ks] by blast
  qed
next
  case In_ctx
  with at stuck show ?thesis
    using umc_step.create [of s t now k ks] umc_step.found [of s t now k ks] by blast
next
  case (At_counter p)
  with at stuck show ?thesis using umc_step.lock [of s t p now k ks] by blast
next
  case (Locked p)
  with at stuck show ?thesis using umc_step.load [of s t p now k ks] by blast
next
  case (Loaded p v)
  with at stuck show ?thesis using umc_step.store [of s t p v now k ks] by blast
next
  case (Stored p)
  with at stuck show ?thesis using umc_step.unlock [of s t p now k ks] by blast
next
  case Leaving
  with at stuck show ?thesis using umc_step.leave [of s t now k ks] by blast
qed

lemma umc_progress:
  assumes inv: "lock_inv s" and "\<not> finished s"
  shows "\<exists>s'. umc_step s s'"
proof (rule ccontr)
  assume stuck: "\<not> (\<exists>s'. umc_step s s')"
  have busy: "\<exists>now k ks. at_pc s u (th_pc (sys_threads s u)) now k ks" if "th_pc (sys_threads s u) \<noteq> Idle" for u
    using lock_inv_busy [OF inv that] by (simp add: at_pc_def neq_Nil_conv)
  have no_counter: "own_counter s p = None" for p
  proof (rule ccontr)
    assume "own_counter s p \<noteq> None"
    then obtain u where u: "pc_counter (th_pc (sys_threads s u)) = Some p"
      using lock_inv_counter [OF inv] by blast
    then have "th_pc (sys_threads s u) \<noteq> Idle" by auto
    with busy pc_blocked [OF _ stuck] u show False by fastforce
  qed
  have no_ctx: "own_ctx s = None"
  proof (rule ccontr)
    assume "own_ctx s \<noteq> None"
    then obtain u where "holds_ctx (sys_threads s u)" using lock_inv_ctx [OF inv] by blast
    then have "th_pc (sys_threads s u) \<noteq> Idle" by (simp add: holds_ctx_def)
    with busy pc_blocked [OF _ stuck] no_counter show False by fastforce
  qed
  from assms(2) obtain t where "th_calls (sys_threads s t) \<noteq> []" by (auto simp: finished_def)
  then obtain now k ks where "at_pc s t (th_pc (sys_threads s t)) now k ks"
    by (auto simp: at_pc_def neq_Nil_conv)
  from pc_blocked [OF this stuck] no_counter no_ctx show False by auto
qed

text \<open>A measure of the work left: every step of a thread uses some of it up.\<close>

fun pc_steps :: "umc_pc \<Rightarrow> nat" where
  "pc_steps Idle = 0"
| "pc_steps In_ctx = 1"
| "pc_steps (At_counter p) = 2"
| "pc_steps (Locked p) = 3"
| "pc_steps (Loaded p v) = 4"
| "pc_steps (Stored p) = 5"
| "pc_steps Leaving = 6"

definition work :: "umc_thread \<Rightarrow> nat" where
  "work th = 7 * length (th_calls th) - pc_steps (th_pc th)"

definition work_left :: "('t :: finite) umc_sys \<Rightarrow> nat" where
  "work_left s = (\<Sum>t \<in> UNIV. work (sys_threads s t))"

lemma work_left_set_th:
  assumes "sys_threads s' = sys_threads s" and "work \<lparr>th_calls = cs, th_pc = pc\<rparr> < work (sys_threads s t)"
  shows "work_left (set_th t cs pc s') < work_left s"
  unfolding work_left_def
  using assms by (intro sum_strict_mono_ex1) auto

lemma umc_step_work: "umc_step s s' \<Longrightarrow> work_left s' < work_left s"
  by (induction rule: umc_step.induct) (rule work_left_set_th; auto simp: at_pc_def work_def)+

lemma umc_steps_trans: "umc_steps s s' \<Longrightarrow> umc_steps s0 s \<Longrightarrow> umc_steps s0 s'"
  by (induction rule: umc_steps.induct) (auto intro: umc_steps.step)

lemma umc_can_finish: "lock_inv s \<Longrightarrow> \<exists>s'. umc_steps s s' \<and> finished (s' :: ('t :: finite) umc_sys)"
proof (induction "work_left s" arbitrary: s rule: less_induct)
  case less
  show ?case
  proof (cases "finished s")
    case False
    then obtain s1 where s1: "umc_step s s1" using umc_progress [OF less.prems] by blast
    from less.hyps [OF umc_step_work [OF s1] lock_inv_step [OF s1 less.prems]]
    show ?thesis using umc_steps_trans umc_steps.step [OF umc_steps.none s1] by blast
  qed (auto intro: umc_steps.none)
qed

lemma umc_no_infinite_run: "\<not> (\<exists>f. \<forall>i. umc_step (f i) (f (Suc i) :: ('t :: finite) umc_sys))"
proof
  assume "\<exists>f. \<forall>i. umc_step (f i) (f (Suc i) :: 't umc_sys)"
  then obtain f :: "nat \<Rightarrow> 't umc_sys" where "\<forall>i. work_left (f (Suc i)) < work_left (f i)"
    using umc_step_work by blast
  then have "\<forall>i. (f (Suc i), f i) \<in> measure work_left" by simp
  then show False using wf_measure [of work_left] unfolding wf_iff_no_infinite_down_chain by blast
qed

section \<open>Concurrent runs\<close>

definition calls_ok :: "umc_ctx \<Rightarrow> ('t \<Rightarrow> (timespec \<times> umc_call) list) \<Rightarrow> bool" where
  "calls_ok x prog \<longleftrightarrow> ctx_wf x \<and> (\<forall>t. \<forall>(now, k) \<in> set (prog t). call_ok (length (ctx_cells x)) k)"

lemma umc_run_inv:
  assumes "umc_steps (umc_start x prog) s" and "calls_ok x prog"
  shows "lock_inv s \<and> data_inv s \<and> hist_inv x prog s"
  using assms
proof (induction "umc_start x prog" s rule: umc_steps.induct)
  case none
  have "data_inv (umc_start x prog)"
    using none by (simp add: data_inv_def umc_start_def calls_ok_def)
  moreover have "hist_inv x prog (umc_start x prog)"
    by (simp add: hist_inv_def umc_start_def calls_of_def)
  ultimately show ?case by simp
next
  case (step s' s'')
  then show ?case using lock_inv_step data_inv_step hist_inv_step by blast
qed

lemma finished_hist: "hist_inv x prog s \<Longrightarrow> lock_inv s \<Longrightarrow> finished s \<Longrightarrow> calls_of t (sys_hist s) = prog t"
proof -
  assume inv: "hist_inv x prog s" "lock_inv s" and "finished s"
  then have "th_calls (sys_threads s t) = []" "th_pc (sys_threads s t) = Idle"
    using lock_inv_busy [OF inv(2)] by (auto simp: finished_def)
  then show ?thesis using inv(1) by (auto simp: hist_inv_def dest: spec [where x = t])
qed

text \<open>The increments made on counter \<open>c\<close> by a list of calls.\<close>

fun added :: "nat \<Rightarrow> (timespec \<times> umc_call) list \<Rightarrow> nat" where
  "added c [] = 0"
| "added c ((now, Call_inc p d) # cs) = (if p = Some c then unat d else 0) + added c cs"
| "added c (_ # cs) = added c cs"

definition only_incs :: "(timespec \<times> umc_call) list \<Rightarrow> bool" where
  "only_incs cs \<longleftrightarrow> (\<forall>(now, k) \<in> set cs. \<exists>p d. k = Call_inc p d)"

lemma umc_calls_added:
  assumes "c < length (ctx_cells x)" and "umc_typ (ctx_cells x ! c) = UMCT_INCREMENTAL" and "only_incs cs"
    and "unat (value_of (ctx_cells x ! c)) + added c cs < 2 ^ 64"
  shows "unat (value_of (ctx_cells (umc_calls cs x) ! c)) = unat (value_of (ctx_cells x ! c)) + added c cs"
  using assms
proof (induction cs arbitrary: x)
  case (Cons e cs)
  obtain now p d where e: "e = (now, Call_inc p d)" using Cons.prems(3) by (auto simp: only_incs_def)
  let ?y = "fst (umc_inc now p d x)"
  have y: "c < length (ctx_cells ?y)" "umc_typ (ctx_cells ?y ! c) = UMCT_INCREMENTAL"
    "unat (value_of (ctx_cells ?y ! c)) = unat (value_of (ctx_cells x ! c)) + (if p = Some c then unat d else 0)"
    using Cons.prems by (auto simp: e umc_inc_def counter_simps inc_incremental split: option.split)
  have "only_incs cs" using Cons.prems(3) by (simp add: only_incs_def)
  from Cons.IH [OF y(1,2) this] show ?case using Cons.prems(4) by (simp add: e y(3))
qed simp

lemma added_calls_of: "added c (map snd h) = (\<Sum>t \<in> (UNIV :: ('t :: finite) set). added c (calls_of t h))"
proof (induction h)
  case (Cons e h)
  obtain u now k where e: "e = (u, now, k)" by (metis surj_pair)
  have one: "added c ((now, k) # cs) = added c [(now, k)] + added c cs" for cs
    by (cases k) auto
  have "added c (calls_of t (e # h)) = (if t = u then added c [(now, k)] else 0) + added c (calls_of t h)" for t
    by (cases "t = u") (simp_all add: calls_of_def e one [of "map snd (filter (\<lambda>x. fst x = u) h)"])
  then have "(\<Sum>t \<in> UNIV. added c (calls_of t (e # h))) = added c [(now, k)] + (\<Sum>t \<in> UNIV. added c (calls_of t h))"
    by (simp add: sum.distrib)
  with Cons.IH e one [of "map snd h"] show ?case by simp
qed (simp add: calls_of_def)

lemma calls_of_set: "set (map snd h) = (\<Union>t. set (calls_of t h))"
  by (force simp: calls_of_def)

lemma only_incs_hist: "\<forall>t. only_incs (calls_of t h) \<Longrightarrow> only_incs (map snd h)"
  unfolding only_incs_def calls_of_set by simp

section \<open>Properties\<close>

text \<open>
  (C36) However the mutex calls, loads and stores of the threads interleave, the context is always the one the calls that
  took effect would have produced one after the other; each thread's calls take effect in its program order, and once all
  threads are done every call has taken effect exactly once.
\<close>

theorem umc_linearizable:
  assumes "calls_ok x prog" and "umc_steps (umc_start x prog) s"
  shows "sys_ctx s = umc_calls (map snd (sys_hist s)) x \<and>
    (\<forall>t. prefix (calls_of t (sys_hist s)) (prog t)) \<and>
    (finished s \<longrightarrow> (\<forall>t. calls_of t (sys_hist s) = prog t))"
proof -
  have inv: "lock_inv s" "hist_inv x prog s" using umc_run_inv [OF assms(2,1)] by simp_all
  then have "prefix (calls_of t (sys_hist s)) (prog t)" for t
    unfolding hist_inv_def prefix_def by metis
  with inv finished_hist [OF inv(2,1)] show ?thesis by (simp add: hist_inv_def)
qed

text \<open>Two threads: one creates a gauge and then sets it by name, the other adds to an existing counter through its pointer.\<close>

definition two_threads :: "bool \<Rightarrow> (timespec \<times> umc_call) list" where
  "two_threads t =
     (if t then [(\<lparr>tv_sec = 1, tv_nsec = 0\<rparr>, Call_new_counter ''q'' UMCT_GAUGE), (\<lparr>tv_sec = 2, tv_nsec = 0\<rparr>, Call_get_set ''q'' 5 True)]
      else [(\<lparr>tv_sec = 1, tv_nsec = 0\<rparr>, Call_inc (Some 0) 4), (\<lparr>tv_sec = 3, tv_nsec = 0\<rparr>, Call_get_inc ''rx'' 2 True)])"

definition rx_ctx :: umc_ctx where
  "rx_ctx = \<lparr>ctx_counters = [(''rx'', 0)], ctx_cells = [umc_calloc ''rx'' UMCT_INCREMENTAL]\<rparr>"

lemma rx_ctx_wf: "ctx_wf rx_ctx"
  by (simp add: rx_ctx_def ctx_wf_def umc_calloc_def snprintf_s_def UMC_NAME_MAX_def)

theorem umc_linearizable_witness:
  "\<exists>s. umc_steps (umc_start rx_ctx two_threads) s \<and> finished s \<and>
    sys_ctx s = umc_calls (map snd (sys_hist s)) rx_ctx \<and> calls_of True (sys_hist s) = two_threads True"
proof -
  have ok: "calls_ok rx_ctx two_threads"
    using rx_ctx_wf by (simp add: calls_ok_def two_threads_def rx_ctx_def)
  obtain s where s: "umc_steps (umc_start rx_ctx two_threads) s" "finished s"
    using umc_can_finish [OF lock_inv_start [of rx_ctx two_threads]] by blast
  from umc_linearizable [OF ok s(1)] s show ?thesis by blast
qed

text \<open>
  (C37) No increment is lost, and no thread waits for ever: when finitely many threads add to counters of one context, every
  run ends, no schedule leaves a thread waiting, and at the end of each run an incremental counter holds its starting
  value plus all that was added to it by all threads, as long as the total fits 64 bits.
\<close>

theorem umc_inc_concurrent:
  fixes prog :: "'t :: finite \<Rightarrow> (timespec \<times> umc_call) list"
  assumes "calls_ok x prog" and "\<forall>t. only_incs (prog t)"
    and "c < length (ctx_cells x)" and "umc_typ (ctx_cells x ! c) = UMCT_INCREMENTAL"
    and "unat (value_of (ctx_cells x ! c)) + (\<Sum>t \<in> UNIV. added c (prog t)) < 2 ^ 64"
  shows "(\<nexists>f. f 0 = umc_start x prog \<and> (\<forall>i. umc_step (f i) (f (Suc i)))) \<and>
    (\<forall>s. umc_steps (umc_start x prog) s \<longrightarrow>
      (if finished s
       then unat (value_of (ctx_cells (sys_ctx s) ! c)) = unat (value_of (ctx_cells x ! c)) + (\<Sum>t \<in> UNIV. added c (prog t))
       else \<exists>s'. umc_step s s'))"
proof (intro conjI allI impI)
  show "\<nexists>f. f 0 = umc_start x prog \<and> (\<forall>i. umc_step (f i) (f (Suc i)))" using umc_no_infinite_run by blast
  fix s assume run: "umc_steps (umc_start x prog) s"
  note inv = umc_run_inv [OF run assms(1)]
  show "if finished s
    then unat (value_of (ctx_cells (sys_ctx s) ! c)) = unat (value_of (ctx_cells x ! c)) + (\<Sum>t \<in> UNIV. added c (prog t))
    else \<exists>s'. umc_step s s'"
  proof (cases "finished s")
    case True
    then have hist: "calls_of t (sys_hist s) = prog t" for t
      using finished_hist [of x prog s t] inv by simp
    have "only_incs (map snd (sys_hist s))"
      using assms(2) only_incs_hist [of "sys_hist s"] by (simp add: hist)
    moreover have "added c (map snd (sys_hist s)) = (\<Sum>t \<in> UNIV. added c (prog t))"
      by (simp add: added_calls_of hist)
    ultimately show ?thesis
      using True umc_calls_added [OF assms(3,4), of "map snd (sys_hist s)"] assms(5) inv by (simp add: hist_inv_def)
  next
    case False
    then show ?thesis using umc_progress [of s] inv by auto
  qed
qed

theorem umc_inc_concurrent_witness:
  "\<exists>s. umc_steps (umc_start rx_ctx (\<lambda>t. [(\<lparr>tv_sec = 1, tv_nsec = 0\<rparr>, Call_inc (Some 0) (if t then 3 else 4))])) s \<and>
    finished s \<and> unat (value_of (ctx_cells (sys_ctx s) ! 0)) = 7"
proof -
  let ?prog = "\<lambda>t. [(\<lparr>tv_sec = 1, tv_nsec = 0\<rparr>, Call_inc (Some 0) (if t then 3 else 4))]"
  have "calls_ok rx_ctx ?prog" using rx_ctx_wf by (simp add: calls_ok_def rx_ctx_def)
  moreover have "\<forall>t. only_incs (?prog t)" by (simp add: only_incs_def)
  moreover have rx: "0 < length (ctx_cells rx_ctx)" "umc_typ (ctx_cells rx_ctx ! 0) = UMCT_INCREMENTAL"
    "value_of (ctx_cells rx_ctx ! 0) = 0"
    by (simp_all add: rx_ctx_def umc_calloc_def)
  moreover have sum: "(\<Sum>t \<in> UNIV. added 0 (?prog t)) = 7" by (simp add: UNIV_bool)
  moreover obtain s where s: "umc_steps (umc_start rx_ctx ?prog) s" "finished s"
    using umc_can_finish [OF lock_inv_start [of rx_ctx ?prog]] by blast
  ultimately have "if finished s then unat (value_of (ctx_cells (sys_ctx s) ! 0)) = unat (value_of (ctx_cells rx_ctx ! 0)) + 7
      else \<exists>s'. umc_step s s'"
    using umc_inc_concurrent [of rx_ctx ?prog 0] unfolding sum by simp
  with s rx(3) show ?thesis by auto
qed

end
