(* ===== verification/Spscq.thy ===== *)
theory Spscq
  imports Prelude
begin

text \<open>
  The single-producer single-consumer ring of \<^verbatim>\<open>src/src/include/spscq.h\<close>, which carries MQTT
  messages from the client library's thread to the signal thread.

  The operations are modelled at word level first. Then each is cut into its accesses to
  shared memory (\<open>prod_step\<close>, \<open>cons_step\<close>), and \<open>spscq_reach\<close> interleaves the two threads
  arbitrarily. The memory model is sequential consistency: the \<^verbatim>\<open>mb()\<close> of the source only
  stops the compiler.
\<close>

section \<open>Data and operations\<close>

record 'a spsc_queue =
  q_shadow_head :: u64
  q_head :: u64
  q_tail :: u64
  q_shadow_tail :: u64
  q_items :: "'a option list"

record 'a spsc_qd =
  QSIZE :: int
  QUEUE_ITEMS_MASK :: int
  CACHE_LINE_LEN :: int
  QUEUE_WATERMARK :: int
  QUEUE_WATERMARK_MASK :: int
  qd_q :: "'a spsc_queue"

text \<open>
  \<open>lg n\<close> is the value of \<^verbatim>\<open>(int)ceil(log10(n) / log10(2))\<close>, computed by the C library in
  floating point. It is the least exponent with \<open>n \<le> 2 ^ e\<close>, except that for a power of two
  the quotient may be rounded up to just above the integer, and then it is one more. The
  slots of the fresh array hold no value.
\<close>

definition spscq_new :: "(nat \<Rightarrow> nat) \<Rightarrow> int \<Rightarrow> 'a spsc_qd" where
  "spscq_new lg qsize =
     (let qs = (if qsize < 256 then 256 else qsize); sz = 2 ^ lg (nat (qs + 1)) in
      \<lparr>QSIZE = sz, QUEUE_ITEMS_MASK = sz - 1, CACHE_LINE_LEN = 64,
       QUEUE_WATERMARK = 256, QUEUE_WATERMARK_MASK = 256 - 1,
       qd_q = \<lparr>q_shadow_head = 0, q_head = 0,
               q_tail = of_int (sz - 1), q_shadow_tail = of_int (sz - 1),
               q_items = replicate (nat sz) None\<rparr>\<rparr>)"

definition log2_ceil :: "(nat \<Rightarrow> nat) \<Rightarrow> bool" where
  "log2_ceil lg \<longleftrightarrow> (\<forall>n > 0. n \<le> 2 ^ lg n \<and> 2 ^ lg n < 4 * n)"

text \<open>\<^verbatim>\<open>(i + 1) & mask\<close>, cut to 32 bits.\<close>

definition next_index :: "u64 \<Rightarrow> int \<Rightarrow> u32" where
  "next_index i m = ucast ((i + 1) AND of_int m)"

definition at_watermark :: "'a spsc_qd \<Rightarrow> u64 \<Rightarrow> bool" where
  "at_watermark qd i \<longleftrightarrow> i AND of_int (QUEUE_WATERMARK_MASK qd) = 0"

definition spscq_pop :: "'a spsc_qd \<Rightarrow> (int \<times> 'a option) \<times> 'a spsc_qd" where
  "spscq_pop qd =
     (let q = qd_q qd; next_tail = next_index (q_shadow_tail q) (QUEUE_ITEMS_MASK qd) in
      if ucast next_tail \<noteq> q_head q then
        let item = q_items q ! unat next_tail;
            q1 = q\<lparr>q_shadow_tail := ucast next_tail\<rparr>;
            q2 = (if at_watermark qd (q_shadow_tail q1) then q1\<lparr>q_tail := q_shadow_tail q1\<rparr> else q1)
        in ((0, item), qd\<lparr>qd_q := q2\<rparr>)
      else ((1, None), qd))"

definition spscq_push :: "'a spsc_qd \<Rightarrow> bool \<Rightarrow> 'a \<Rightarrow> int \<times> 'a spsc_qd" where
  "spscq_push qd flush_item item =
     (let q = qd_q qd; next_head = next_index (q_shadow_head q) (QUEUE_ITEMS_MASK qd) in
      if q_tail q \<noteq> ucast next_head then
        let q1 = q\<lparr>q_items := (q_items q)[unat (q_shadow_head q) := Some item]\<rparr>;
            q2 = q1\<lparr>q_shadow_head := ucast next_head\<rparr>;
            q3 = (if flush_item \<or> at_watermark qd (q_shadow_head q2)
                  then q2\<lparr>q_head := q_shadow_head q2\<rparr> else q2)
        in (0, qd\<lparr>qd_q := q3\<rparr>)
      else (1, qd))"

section \<open>The two threads, one shared access at a time\<close>

text \<open>
  The producer's program counter: idle; slot found free (\<^verbatim>\<open>tail\<close> read); item stored;
  \<^verbatim>\<open>shadow_head\<close> advanced, \<^verbatim>\<open>head\<close> not yet published. The consumer's: idle; item seen
  (\<^verbatim>\<open>head\<close> read); item loaded; \<^verbatim>\<open>shadow_tail\<close> advanced, \<^verbatim>\<open>tail\<close> not yet published.
\<close>

datatype 'a prod_pc = P_idle | P_free bool 'a u32 | P_stored bool 'a u32 | P_moved bool

datatype 'a cons_pc = C_idle | C_seen u32 | C_loaded "'a option" u32 | C_moved "'a option"

record 'a spsc_sys =
  sys_qd :: "'a spsc_qd"
  sys_prod :: "'a prod_pc"
  sys_cons :: "'a cons_pc"
  sys_sent :: "'a list"
  sys_recv :: "'a option list"

text \<open>\<open>sys_sent\<close> and \<open>sys_recv\<close> record what was pushed and what was popped.\<close>

inductive prod_step :: "'a spsc_sys \<Rightarrow> 'a spsc_sys \<Rightarrow> bool" where
  prod_check: "sys_prod s = P_idle \<Longrightarrow> q = qd_q (sys_qd s) \<Longrightarrow>
    nh = next_index (q_shadow_head q) (QUEUE_ITEMS_MASK (sys_qd s)) \<Longrightarrow>
    prod_step s (if q_tail q \<noteq> ucast nh then s\<lparr>sys_prod := P_free fl x nh\<rparr> else s)"
| prod_store: "sys_prod s = P_free fl x nh \<Longrightarrow> q = qd_q (sys_qd s) \<Longrightarrow>
    prod_step s (s\<lparr>sys_prod := P_stored fl x nh,
      sys_qd := (sys_qd s)\<lparr>qd_q := q\<lparr>q_items := (q_items q)[unat (q_shadow_head q) := Some x]\<rparr>\<rparr>\<rparr>)"
| prod_move: "sys_prod s = P_stored fl x nh \<Longrightarrow> q = qd_q (sys_qd s) \<Longrightarrow>
    prod_step s (s\<lparr>sys_prod := P_moved fl, sys_sent := sys_sent s @ [x],
      sys_qd := (sys_qd s)\<lparr>qd_q := q\<lparr>q_shadow_head := ucast nh\<rparr>\<rparr>\<rparr>)"
| prod_publish: "sys_prod s = P_moved fl \<Longrightarrow> q = qd_q (sys_qd s) \<Longrightarrow>
    prod_step s (s\<lparr>sys_prod := P_idle,
      sys_qd := (sys_qd s)\<lparr>qd_q := (if fl \<or> at_watermark (sys_qd s) (q_shadow_head q)
                                     then q\<lparr>q_head := q_shadow_head q\<rparr> else q)\<rparr>\<rparr>)"

inductive cons_step :: "'a spsc_sys \<Rightarrow> 'a spsc_sys \<Rightarrow> bool" where
  cons_check: "sys_cons s = C_idle \<Longrightarrow> q = qd_q (sys_qd s) \<Longrightarrow>
    nt = next_index (q_shadow_tail q) (QUEUE_ITEMS_MASK (sys_qd s)) \<Longrightarrow>
    cons_step s (if ucast nt \<noteq> q_head q then s\<lparr>sys_cons := C_seen nt\<rparr> else s)"
| cons_load: "sys_cons s = C_seen nt \<Longrightarrow>
    cons_step s (s\<lparr>sys_cons := C_loaded (q_items (qd_q (sys_qd s)) ! unat nt) nt\<rparr>)"
| cons_move: "sys_cons s = C_loaded x nt \<Longrightarrow> q = qd_q (sys_qd s) \<Longrightarrow>
    cons_step s (s\<lparr>sys_cons := C_moved x, sys_recv := sys_recv s @ [x],
      sys_qd := (sys_qd s)\<lparr>qd_q := q\<lparr>q_shadow_tail := ucast nt\<rparr>\<rparr>\<rparr>)"
| cons_publish: "sys_cons s = C_moved x \<Longrightarrow> q = qd_q (sys_qd s) \<Longrightarrow>
    cons_step s (s\<lparr>sys_cons := C_idle,
      sys_qd := (sys_qd s)\<lparr>qd_q := (if at_watermark (sys_qd s) (q_shadow_tail q)
                                     then q\<lparr>q_tail := q_shadow_tail q\<rparr> else q)\<rparr>\<rparr>)"

definition sys_init :: "'a spsc_qd \<Rightarrow> 'a spsc_sys" where
  "sys_init qd = \<lparr>sys_qd = qd, sys_prod = P_idle, sys_cons = C_idle, sys_sent = [], sys_recv = []\<rparr>"

inductive spscq_reach :: "'a spsc_qd \<Rightarrow> 'a spsc_sys \<Rightarrow> bool" for qd where
  reach_init: "spscq_reach qd (sys_init qd)"
| reach_prod: "spscq_reach qd s \<Longrightarrow> prod_step s s' \<Longrightarrow> spscq_reach qd s'"
| reach_cons: "spscq_reach qd s \<Longrightarrow> cons_step s s' \<Longrightarrow> spscq_reach qd s'"

section \<open>Index arithmetic\<close>

lemma pow2_word_small: "k \<le> 30 \<Longrightarrow> n < 2 ^ k \<Longrightarrow> n < 2 ^ 64 \<and> n < (2::nat) ^ 32"
proof -
  assume "k \<le> 30" "n < 2 ^ k"
  moreover have "(2::nat) ^ k \<le> 2 ^ 30" using \<open>k \<le> 30\<close> by (intro power_increasing) simp_all
  ultimately show ?thesis by simp
qed

lemma unat_ring [ring_simps]:
  assumes "k \<le> 30"
  shows "unat (of_nat (i mod 2 ^ k) :: u64) = i mod 2 ^ k" "unat (of_nat (i mod 2 ^ k) :: u32) = i mod 2 ^ k"
  using pow2_word_small [OF assms, of "i mod 2 ^ k"] by (simp_all add: unat_of_nat)

lemma ucast_ring [ring_simps]:
  assumes "k \<le> 30"
  shows "(ucast (of_nat (i mod 2 ^ k) :: u32) :: u64) = of_nat (i mod 2 ^ k)"
  using pow2_word_small [OF assms, of "i mod 2 ^ k"]
  by (simp add: word_unat_eq_iff unsigned_ucast_eq unat_ring [OF assms] take_bit_nat_eq_self)

lemma ring_eq_iff [ring_simps]:
  assumes "k \<le> 30"
  shows "(of_nat (i mod 2 ^ k) :: u64) = of_nat (j mod 2 ^ k) \<longleftrightarrow> i mod 2 ^ k = j mod 2 ^ k"
  using unat_ring(1) [OF assms] by metis

lemma next_index_ring [ring_simps]:
  assumes "k \<le> 30"
  shows "next_index (of_nat (i mod 2 ^ k)) (2 ^ k - 1) = of_nat (Suc i mod 2 ^ k)"
proof -
  let ?w = "of_nat (i mod 2 ^ k) :: u64"
  have "(?w + 1) AND of_int (2 ^ k - 1) = take_bit k (?w + 1)"
    by (simp add: take_bit_eq_mask mask_eq_exp_minus_1)
  moreover have "unat (take_bit k (?w + 1)) = Suc i mod 2 ^ k"
  proof -
    have "?w + 1 = of_nat (Suc (i mod 2 ^ k))" by simp
    then have "unat (take_bit k (?w + 1)) = take_bit k (unat (of_nat (Suc (i mod 2 ^ k)) :: u64))"
      by (simp only: unsigned_take_bit_eq)
    also have "unat (of_nat (Suc (i mod 2 ^ k)) :: u64) = Suc (i mod 2 ^ k)"
    proof (rule unat_of_nat_small)
      have "i mod 2 ^ k < 2 ^ k" by simp
      also have "(2::nat) ^ k \<le> 2 ^ 30" using assms by (intro power_increasing) simp_all
      finally show "Suc (i mod 2 ^ k) < 2 ^ LENGTH(64)" by simp
    qed
    finally show ?thesis by (simp add: take_bit_eq_mod mod_Suc_eq)
  qed
  ultimately show ?thesis
    unfolding next_index_def using pow2_word_small [OF assms, of "Suc i mod 2 ^ k"]
    by (simp add: word_unat_eq_iff unsigned_ucast_eq unat_ring [OF assms] take_bit_nat_eq_self
        del: of_nat_Suc)
qed

lemma at_watermark_ring [ring_simps]:
  assumes "8 \<le> k" "k \<le> 30" and "QUEUE_WATERMARK_MASK qd = 255"
  shows "at_watermark qd (of_nat (i mod 2 ^ k)) \<longleftrightarrow> i mod 256 = 0"
proof -
  have "(of_nat (i mod 2 ^ k) :: u64) AND 255 = take_bit 8 (of_nat (i mod 2 ^ k))"
    by (simp add: take_bit_eq_mask mask_numeral)
  moreover have "unat (take_bit 8 (of_nat (i mod 2 ^ k) :: u64)) = i mod 2 ^ k mod 2 ^ 8"
    unfolding unsigned_take_bit_eq unat_ring [OF assms(2)] by (rule take_bit_eq_mod)
  moreover have "i mod 2 ^ k mod 2 ^ 8 = i mod 2 ^ 8"
    using assms(1) by (intro mod_mod_cancel le_imp_power_dvd)
  ultimately show ?thesis
    using assms(3) by (simp add: at_watermark_def word_unat_eq_iff)
qed

lemma ring_wrap:
  fixes i j n :: nat
  assumes "i \<le> j" "j < i + n"
  shows "i mod n = j mod n \<longleftrightarrow> i = j"
proof
  assume "i mod n = j mod n"
  then have "n dvd j - i" using assms(1) by (metis mod_eq_dvd_iff_nat)
  with assms show "i = j" by (auto dest: dvd_imp_le)
qed simp

section \<open>Absolute positions\<close>

text \<open>
  The ring of \<open>2 ^ k\<close> slots holds the items number \<open>c\<close> to \<open>length sent - 1\<close> of everything
  ever pushed, each in the slot of its number modulo \<open>2 ^ k\<close>. \<open>h\<close> items have been
  published to the consumer, \<open>c\<close> consumed, and the producer has been told of \<open>t\<close>.
\<close>

definition ring_rel :: "nat \<Rightarrow> 'a list \<Rightarrow> nat \<Rightarrow> nat \<Rightarrow> nat \<Rightarrow> 'a spsc_qd \<Rightarrow> bool" where
  "ring_rel k sent c h t qd \<longleftrightarrow>
     9 \<le> k \<and> k \<le> 30 \<and>
     QUEUE_ITEMS_MASK qd = 2 ^ k - 1 \<and> QUEUE_WATERMARK_MASK qd = 255 \<and>
     length (q_items (qd_q qd)) = 2 ^ k \<and>
     q_shadow_head (qd_q qd) = of_nat (length sent mod 2 ^ k) \<and>
     q_head (qd_q qd) = of_nat (h mod 2 ^ k) \<and>
     q_shadow_tail (qd_q qd) = of_nat ((c + (2 ^ k - 1)) mod 2 ^ k) \<and>
     q_tail (qd_q qd) = of_nat ((t + (2 ^ k - 1)) mod 2 ^ k) \<and>
     t \<le> c \<and> c \<le> h \<and> h \<le> length sent \<and> length sent + 2 \<le> t + 2 ^ k \<and>
     (\<forall>i. c \<le> i \<and> i < length sent \<longrightarrow> q_items (qd_q qd) ! (i mod 2 ^ k) = Some (sent ! i))"

lemma ring_relD:
  assumes "ring_rel k sent c h t qd"
  shows "9 \<le> k" "k \<le> 30" "QUEUE_ITEMS_MASK qd = 2 ^ k - 1" "QUEUE_WATERMARK_MASK qd = 255"
    "length (q_items (qd_q qd)) = 2 ^ k"
    "q_shadow_head (qd_q qd) = of_nat (length sent mod 2 ^ k)"
    "q_head (qd_q qd) = of_nat (h mod 2 ^ k)"
    "q_shadow_tail (qd_q qd) = of_nat ((c + (2 ^ k - 1)) mod 2 ^ k)"
    "q_tail (qd_q qd) = of_nat ((t + (2 ^ k - 1)) mod 2 ^ k)"
    "t \<le> c" "c \<le> h" "h \<le> length sent" "length sent + 2 \<le> t + 2 ^ k"
    "\<And>i. c \<le> i \<Longrightarrow> i < length sent \<Longrightarrow> q_items (qd_q qd) ! (i mod 2 ^ k) = Some (sent ! i)"
  using assms by (simp_all add: ring_rel_def)

lemma ring_next_head:
  assumes "ring_rel k sent c h t qd"
  shows "next_index (q_shadow_head (qd_q qd)) (QUEUE_ITEMS_MASK qd) = of_nat (Suc (length sent) mod 2 ^ k)"
  using ring_relD [OF assms] by (simp add: ring_simps del: of_nat_Suc)

lemma ring_next_tail:
  assumes "ring_rel k sent c h t qd"
  shows "next_index (q_shadow_tail (qd_q qd)) (QUEUE_ITEMS_MASK qd) = of_nat (c mod 2 ^ k)"
proof -
  note d = ring_relD [OF assms]
  have "Suc (c + (2 ^ k - 1)) = c + 2 ^ k" by simp
  then show ?thesis
    by (simp only: d(3,8) next_index_ring [OF d(2)] mod_add_self2)
qed

lemma ring_free_iff:
  assumes "ring_rel k sent c h t qd"
  shows "q_tail (qd_q qd) \<noteq> ucast (of_nat (Suc (length sent) mod 2 ^ k) :: u32) \<longleftrightarrow>
    length sent + 2 < t + 2 ^ k"
proof -
  note d = ring_relD [OF assms]
  have "(t + (2 ^ k - 1)) mod 2 ^ k = Suc (length sent) mod 2 ^ k \<longleftrightarrow> length sent + 2 = t + 2 ^ k"
  proof -
    have "Suc (length sent) mod 2 ^ k = (t + (2 ^ k - 1)) mod 2 ^ k \<longleftrightarrow> Suc (length sent) = t + (2 ^ k - 1)"
      using d(10-13) by (intro ring_wrap) simp_all
    also have "\<dots> \<longleftrightarrow> length sent + 2 = t + 2 ^ k" by auto
    finally show ?thesis by auto
  qed
  then show ?thesis
    using d(9,13) by (auto simp: ring_simps d(2) simp del: of_nat_Suc)
qed

lemma ring_seen_iff:
  assumes "ring_rel k sent c h t qd"
  shows "ucast (of_nat (c mod 2 ^ k) :: u32) \<noteq> q_head (qd_q qd) \<longleftrightarrow> c < h"
proof -
  note d = ring_relD [OF assms]
  have "c mod 2 ^ k = h mod 2 ^ k \<longleftrightarrow> c = h"
    using d(10-13) by (intro ring_wrap) simp_all
  then show ?thesis using d(7,11) by (auto simp: ring_simps d(2))
qed

text \<open>The effect of each shared access on the positions.\<close>

lemma ring_store:
  fixes x :: 'a
  assumes "ring_rel k sent c h t qd"
  defines "q \<equiv> qd_q qd"
  defines "qd' \<equiv> qd\<lparr>qd_q := q\<lparr>q_items := (q_items q)[unat (q_shadow_head q) := Some x]\<rparr>\<rparr>"
  shows "ring_rel k sent c h t qd'" and "q_items (qd_q qd') ! (length sent mod 2 ^ k) = Some x"
proof -
  note d = ring_relD [OF assms(1)]
  have "length sent mod 2 ^ k \<noteq> i mod 2 ^ k" if "c \<le> i" "i < length sent" for i
    using that d(10,13) ring_wrap [of i "length sent" "2 ^ k"] by auto
  with d show "ring_rel k sent c h t qd'" "q_items (qd_q qd') ! (length sent mod 2 ^ k) = Some x"
    by (auto simp: ring_rel_def qd'_def q_def ring_simps nth_list_update)
qed

lemma ring_move_head:
  assumes "ring_rel k sent c h t qd" and "length sent + 2 < t + 2 ^ k"
    and "q_items (qd_q qd) ! (length sent mod 2 ^ k) = Some x"
  shows "ring_rel k (sent @ [x]) c h t
    (qd\<lparr>qd_q := (qd_q qd)\<lparr>q_shadow_head := ucast (of_nat (Suc (length sent) mod 2 ^ k) :: u32)\<rparr>\<rparr>)"
  using ring_relD [OF assms(1)] assms(2,3)
  by (auto simp: ring_rel_def ring_simps nth_append less_Suc_eq simp del: of_nat_Suc)

lemma ring_publish_head:
  assumes "ring_rel k sent c h t qd"
  shows "ring_rel k sent c (length sent) t (qd\<lparr>qd_q := (qd_q qd)\<lparr>q_head := q_shadow_head (qd_q qd)\<rparr>\<rparr>)"
  using ring_relD [OF assms] by (auto simp: ring_rel_def)

lemma ring_move_tail:
  assumes "ring_rel k sent c h t qd" and "c < h"
  shows "ring_rel k sent (Suc c) h t
    (qd\<lparr>qd_q := (qd_q qd)\<lparr>q_shadow_tail := ucast (of_nat (c mod 2 ^ k) :: u32)\<rparr>\<rparr>)"
proof -
  have "(Suc c + (2 ^ k - 1)) mod 2 ^ k = c mod 2 ^ k"
    by (metis (no_types) Suc_diff_1 add_Suc_shift mod_add_self2 pos2 zero_less_power)
  then show ?thesis
    using ring_relD [OF assms(1)] assms(2) by (auto simp: ring_rel_def ring_simps)
qed

lemma ring_publish_tail:
  assumes "ring_rel k sent c h t qd"
  shows "ring_rel k sent c h c (qd\<lparr>qd_q := (qd_q qd)\<lparr>q_tail := q_shadow_tail (qd_q qd)\<rparr>\<rparr>)"
  using ring_relD [OF assms] by (auto simp: ring_rel_def)

lemma ring_new:
  assumes "log2_ceil lg" and "qsize < 2 ^ 28"
  shows "\<exists>k. QSIZE (spscq_new lg qsize) = 2 ^ k \<and> max 257 (qsize + 1) \<le> 2 ^ k \<and>
    ring_rel k [] 0 0 0 (spscq_new lg qsize :: 'a spsc_qd)"
proof -
  define qs where "qs = (if qsize < 256 then 256 else qsize)"
  define k where "k = lg (nat (qs + 1))"
  have qs: "256 \<le> qs" "qs < 2 ^ 28" "qsize \<le> qs" using assms(2) by (auto simp: qs_def)
  have k: "nat (qs + 1) \<le> 2 ^ k" "2 ^ k < 4 * nat (qs + 1)"
    using assms(1) [unfolded log2_ceil_def, rule_format, of "nat (qs + 1)"] qs(1)
    by (simp_all only: k_def zero_less_nat_eq)
  have "9 \<le> k"
  proof (rule ccontr)
    assume "\<not> 9 \<le> k"
    then have "(2::nat) ^ k \<le> 2 ^ 8" by (intro power_increasing) simp_all
    then have "(2::nat) ^ k \<le> 256" by simp
    moreover have "257 \<le> nat (qs + 1)" using qs(1) by simp
    ultimately show False using k(1) by linarith
  qed
  moreover have "(2::nat) ^ k < 2 ^ 30" using k(2) qs(2) by simp
  then have "k \<le> 30" by (meson less_imp_le_nat one_less_numeral_iff power_less_imp_less_exp semiring_norm(76))
  moreover have "max 257 (qsize + 1) \<le> 2 ^ k"
  proof -
    have "qs + 1 \<le> 2 ^ k" using k(1) qs(1) by (simp add: nat_le_iff)
    then show ?thesis using qs by simp
  qed
  moreover have "(512::nat) \<le> 2 ^ k" using \<open>9 \<le> k\<close> power_increasing [of 9 k "2::nat"] by simp
  ultimately show ?thesis
    by (intro exI [of _ k])
      (auto simp: spscq_new_def Let_def ring_rel_def k_def [symmetric] qs_def [symmetric] of_nat_diff)
qed

section \<open>Whole operations\<close>

lemma spscq_push_accepts:
  assumes rel: "ring_rel k sent c h t qd" and room: "length sent + 2 < t + 2 ^ k"
  shows "\<exists>qd'. spscq_push qd fl x = (0, qd') \<and> QSIZE qd' = QSIZE qd \<and>
    ring_rel k (sent @ [x]) c (if fl \<or> Suc (length sent) mod 256 = 0 then Suc (length sent) else h) t qd'"
proof -
  define qd1 where "qd1 = qd\<lparr>qd_q := (qd_q qd)\<lparr>q_items :=
      (q_items (qd_q qd))[unat (q_shadow_head (qd_q qd)) := Some x]\<rparr>\<rparr>"
  define qd2 where "qd2 = qd1\<lparr>qd_q := (qd_q qd1)\<lparr>q_shadow_head :=
      ucast (of_nat (Suc (length sent) mod 2 ^ k) :: u32)\<rparr>\<rparr>"
  define qd3 where "qd3 = qd2\<lparr>qd_q := (qd_q qd2)\<lparr>q_head := q_shadow_head (qd_q qd2)\<rparr>\<rparr>"
  note d = ring_relD [OF rel]
  have rel1: "ring_rel k sent c h t qd1" "q_items (qd_q qd1) ! (length sent mod 2 ^ k) = Some x"
    using ring_store [OF rel, of x] by (simp_all add: qd1_def)
  have rel2: "ring_rel k (sent @ [x]) c h t qd2"
    unfolding qd2_def by (rule ring_move_head [OF rel1(1) room rel1(2)])
  have rel3: "ring_rel k (sent @ [x]) c (Suc (length sent)) t qd3"
    using ring_publish_head [OF rel2] by (simp add: qd3_def)
  have mark: "at_watermark qd (ucast (of_nat (Suc (length sent) mod 2 ^ k) :: u32)) \<longleftrightarrow>
      Suc (length sent) mod 256 = 0"
    using d(1,2,4) by (simp add: ring_simps del: of_nat_Suc)
  have "spscq_push qd fl x = (0, if fl \<or> Suc (length sent) mod 256 = 0 then qd3 else qd2)"
    unfolding spscq_push_def Let_def ring_next_head [OF rel] using ring_free_iff [OF rel] room mark
    by (simp add: qd1_def qd2_def qd3_def del: of_nat_Suc)
  moreover have "QSIZE qd3 = QSIZE qd" "QSIZE qd2 = QSIZE qd"
    by (simp_all add: qd1_def qd2_def qd3_def)
  ultimately show ?thesis using rel2 rel3 by simp
qed

lemma spscq_push_refuses:
  assumes "ring_rel k sent c h t qd" and "\<not> length sent + 2 < t + 2 ^ k"
  shows "spscq_push qd fl x = (1, qd)"
  unfolding spscq_push_def Let_def ring_next_head [OF assms(1)]
  using ring_free_iff [OF assms(1)] assms(2) by (simp del: of_nat_Suc)

lemma spscq_pop_item:
  assumes rel: "ring_rel k sent c h t qd" and item: "c < h"
  shows "\<exists>qd'. spscq_pop qd = ((0, Some (sent ! c)), qd') \<and> QSIZE qd' = QSIZE qd \<and>
    ring_rel k sent (Suc c) h (if c mod 256 = 0 then Suc c else t) qd'"
proof -
  define qd1 where "qd1 = qd\<lparr>qd_q := (qd_q qd)\<lparr>q_shadow_tail := ucast (of_nat (c mod 2 ^ k) :: u32)\<rparr>\<rparr>"
  define qd2 where "qd2 = qd1\<lparr>qd_q := (qd_q qd1)\<lparr>q_tail := q_shadow_tail (qd_q qd1)\<rparr>\<rparr>"
  note d = ring_relD [OF rel]
  have rel1: "ring_rel k sent (Suc c) h t qd1"
    unfolding qd1_def by (rule ring_move_tail [OF rel item])
  have rel2: "ring_rel k sent (Suc c) h (Suc c) qd2"
    unfolding qd2_def by (rule ring_publish_tail [OF rel1])
  have mark: "at_watermark qd (ucast (of_nat (c mod 2 ^ k) :: u32)) \<longleftrightarrow> c mod 256 = 0"
    using d(1,2,4) by (simp add: ring_simps)
  have "q_items (qd_q qd) ! unat (of_nat (c mod 2 ^ k) :: u32) = Some (sent ! c)"
    using d(2,12) item d(14) [of c] by (simp add: ring_simps)
  then have "spscq_pop qd = ((0, Some (sent ! c)), if c mod 256 = 0 then qd2 else qd1)"
    unfolding spscq_pop_def Let_def ring_next_tail [OF rel] using ring_seen_iff [OF rel] item mark
    by (simp add: qd1_def qd2_def)
  moreover have "QSIZE qd1 = QSIZE qd" "QSIZE qd2 = QSIZE qd"
    by (simp_all add: qd1_def qd2_def)
  ultimately show ?thesis using rel1 rel2 by simp
qed

lemma spscq_pop_empty:
  assumes "ring_rel k sent c h t qd" and "\<not> c < h"
  shows "spscq_pop qd = ((1, None), qd)"
  unfolding spscq_pop_def Let_def ring_next_tail [OF assms(1)]
  using ring_seen_iff [OF assms(1)] assms(2) by simp

section \<open>Any interleaving\<close>

fun prod_ok :: "nat \<Rightarrow> nat \<Rightarrow> nat \<Rightarrow> 'a option list \<Rightarrow> 'a prod_pc \<Rightarrow> bool" where
  "prod_ok k t p items (P_free fl x nh) = (nh = of_nat (Suc p mod 2 ^ k) \<and> p + 2 < t + 2 ^ k)"
| "prod_ok k t p items (P_stored fl x nh) =
     (nh = of_nat (Suc p mod 2 ^ k) \<and> p + 2 < t + 2 ^ k \<and> items ! (p mod 2 ^ k) = Some x)"
| "prod_ok k t p items _ = True"

fun cons_ok :: "nat \<Rightarrow> nat \<Rightarrow> nat \<Rightarrow> 'a list \<Rightarrow> 'a cons_pc \<Rightarrow> bool" where
  "cons_ok k h c sent (C_seen nt) = (nt = of_nat (c mod 2 ^ k) \<and> c < h)"
| "cons_ok k h c sent (C_loaded x nt) = (nt = of_nat (c mod 2 ^ k) \<and> c < h \<and> x = Some (sent ! c))"
| "cons_ok k h c sent _ = True"

definition sys_inv :: "nat \<Rightarrow> 'a spsc_sys \<Rightarrow> bool" where
  "sys_inv k s \<longleftrightarrow>
     (\<exists>h t. ring_rel k (sys_sent s) (length (sys_recv s)) h t (sys_qd s) \<and>
        sys_recv s = map Some (take (length (sys_recv s)) (sys_sent s)) \<and>
        prod_ok k t (length (sys_sent s)) (q_items (qd_q (sys_qd s))) (sys_prod s) \<and>
        cons_ok k h (length (sys_recv s)) (sys_sent s) (sys_cons s))"

lemma sys_invI:
  "ring_rel k (sys_sent s) (length (sys_recv s)) h t (sys_qd s) \<Longrightarrow>
    sys_recv s = map Some (take (length (sys_recv s)) (sys_sent s)) \<Longrightarrow>
    prod_ok k t (length (sys_sent s)) (q_items (qd_q (sys_qd s))) (sys_prod s) \<Longrightarrow>
    cons_ok k h (length (sys_recv s)) (sys_sent s) (sys_cons s) \<Longrightarrow> sys_inv k s"
  unfolding sys_inv_def by blast

lemma prod_ok_mono: "prod_ok k t p items pc \<Longrightarrow> t \<le> t' \<Longrightarrow> prod_ok k t' p items pc"
  by (cases pc) auto

lemma cons_ok_mono:
  "cons_ok k h c sent pc \<Longrightarrow> h \<le> h' \<Longrightarrow> cons_ok k h' c sent pc"
  by (cases pc) auto

lemma cons_ok_append:
  "cons_ok k h c sent pc \<Longrightarrow> h \<le> length sent \<Longrightarrow> cons_ok k h c (sent @ [x]) pc"
  by (cases pc) (auto simp: nth_append)

text \<open>A step of the producer keeps the invariant, and so does one of the consumer.\<close>

lemma prod_step_inv:
  assumes "prod_step s s'" and "sys_inv k s"
  shows "sys_inv k s'"
proof -
  from assms(2) obtain h t where inv:
    "ring_rel k (sys_sent s) (length (sys_recv s)) h t (sys_qd s)"
    "sys_recv s = map Some (take (length (sys_recv s)) (sys_sent s))"
    "prod_ok k t (length (sys_sent s)) (q_items (qd_q (sys_qd s))) (sys_prod s)"
    "cons_ok k h (length (sys_recv s)) (sys_sent s) (sys_cons s)"
    unfolding sys_inv_def by blast
  note d = ring_relD [OF inv(1)]
  from assms(1) show ?thesis
  proof cases
    case (prod_check q nh fl x)
    then show ?thesis
      using inv ring_free_iff [OF inv(1)] ring_next_head [OF inv(1)]
      by (intro sys_invI [of k s' h t]) (auto simp del: of_nat_Suc)
  next
    case (prod_store fl x nh q)
    then show ?thesis
      using inv ring_store [OF inv(1), of x]
      by (intro sys_invI [of k s' h t]) (auto simp del: of_nat_Suc)
  next
    case (prod_move fl x nh q)
    then have room: "length (sys_sent s) + 2 < t + 2 ^ k" "nh = of_nat (Suc (length (sys_sent s)) mod 2 ^ k)"
      "q_items (qd_q (sys_qd s)) ! (length (sys_sent s) mod 2 ^ k) = Some x"
      using inv(3) by simp_all
    with ring_move_head [OF inv(1) room(1,3)] prod_move inv(2) d(11,12) cons_ok_append [OF inv(4) d(12)]
    show ?thesis
      by (intro sys_invI [of k s' h t]) (auto simp del: of_nat_Suc)
  next
    case (prod_publish fl q)
    show ?thesis
    proof (cases "fl \<or> at_watermark (sys_qd s) (q_shadow_head q)")
      case True
      with prod_publish inv(2) ring_publish_head [OF inv(1)] cons_ok_mono [OF inv(4) d(12)]
      show ?thesis by (intro sys_invI [of k s' "length (sys_sent s)" t]) auto
    next
      case False
      with prod_publish inv show ?thesis by (intro sys_invI [of k s' h t]) auto
    qed
  qed
qed

lemma cons_step_inv:
  assumes "cons_step s s'" and "sys_inv k s"
  shows "sys_inv k s'"
proof -
  from assms(2) obtain h t where inv:
    "ring_rel k (sys_sent s) (length (sys_recv s)) h t (sys_qd s)"
    "sys_recv s = map Some (take (length (sys_recv s)) (sys_sent s))"
    "prod_ok k t (length (sys_sent s)) (q_items (qd_q (sys_qd s))) (sys_prod s)"
    "cons_ok k h (length (sys_recv s)) (sys_sent s) (sys_cons s)"
    unfolding sys_inv_def by blast
  note d = ring_relD [OF inv(1)]
  from assms(1) show ?thesis
  proof cases
    case (cons_check q nt)
    then show ?thesis
      using inv ring_seen_iff [OF inv(1)] ring_next_tail [OF inv(1)]
      by (intro sys_invI [of k s' h t]) auto
  next
    case (cons_load nt)
    then have "nt = of_nat (length (sys_recv s) mod 2 ^ k)" "length (sys_recv s) < h"
      using inv(4) by simp_all
    with cons_load inv d(2,12) d(14) [of "length (sys_recv s)"] show ?thesis
      by (intro sys_invI [of k s' h t]) (auto simp: ring_simps)
  next
    case (cons_move x nt q)
    then have seen: "nt = of_nat (length (sys_recv s) mod 2 ^ k)" "length (sys_recv s) < h"
      "x = Some (sys_sent s ! length (sys_recv s))"
      using inv(4) by simp_all
    have "sys_recv s @ [x] = map Some (take (Suc (length (sys_recv s))) (sys_sent s))"
      using seen d(12) inv(2) by (simp add: take_Suc_conv_app_nth)
    moreover have "length (sys_recv s') = Suc (length (sys_recv s))" using cons_move by simp
    ultimately show ?thesis
      using ring_move_tail [OF inv(1) seen(2)] cons_move(1,3) seen(1) inv(3)
      by (intro sys_invI [of k s' h t]) simp_all
  next
    case (cons_publish x q)
    show ?thesis
    proof (cases "at_watermark (sys_qd s) (q_shadow_tail q)")
      case True
      with cons_publish inv(2,4) ring_publish_tail [OF inv(1)] prod_ok_mono [OF inv(3) d(10)]
      show ?thesis by (intro sys_invI [of k s' h "length (sys_recv s)"]) auto
    next
      case False
      with cons_publish inv show ?thesis by (intro sys_invI [of k s' h t]) auto
    qed
  qed
qed

lemma spscq_reach_inv:
  assumes "spscq_reach qd s" and "ring_rel k [] 0 0 0 qd"
  shows "sys_inv k s"
  using assms(1)
proof induction
  case reach_init
  show ?case
    using assms(2) by (intro sys_invI [of k _ 0 0]) (simp_all add: sys_init_def)
next
  case (reach_prod s s')
  then show ?case by (blast intro: prod_step_inv)
next
  case (reach_cons s s')
  then show ?case by (blast intro: cons_step_inv)
qed

section \<open>The channel interface\<close>

text \<open>
  What the MQTT plugin relies on when it uses the ring with \<^verbatim>\<open>flush_item = 1\<close> and one
  operation at a time: a bounded first-in first-out queue. \<open>holds q xs\<close> says that \<open>q\<close>
  holds the items \<open>xs\<close>, oldest first; \<open>room q\<close> is the number of items it takes for sure.
\<close>

locale spsc_channel =
  fixes push :: "'q \<Rightarrow> 'a \<Rightarrow> int \<times> 'q"
    and pop :: "'q \<Rightarrow> (int \<times> 'a option) \<times> 'q"
    and holds :: "'q \<Rightarrow> 'a list \<Rightarrow> bool"
    and room :: "'q \<Rightarrow> nat"
  assumes push_cases: "holds q xs \<Longrightarrow>
      (\<exists>q'. push q x = (0, q') \<and> holds q' (xs @ [x]) \<and> room q' = room q) \<or>
      (push q x = (1, q) \<and> room q \<le> length xs)"
    and pop_Nil: "holds q [] \<Longrightarrow> pop q = ((1, None), q)"
    and pop_Cons: "holds q (x # xs) \<Longrightarrow>
      \<exists>q'. pop q = ((0, Some x), q') \<and> holds q' xs \<and> room q' = room q"
begin

primrec push_all :: "'a list \<Rightarrow> 'q \<Rightarrow> 'q" where
  "push_all [] q = q"
| "push_all (x # xs) q = push_all xs (snd (push q x))"

text \<open>At most \<open>n\<close> pops, stopping at the first failure: the items and the final queue.\<close>

primrec pop_upto :: "nat \<Rightarrow> 'q \<Rightarrow> 'a option list \<times> 'q" where
  "pop_upto 0 q = ([], q)"
| "pop_upto (Suc n) q =
     (case pop q of ((r, v), q') \<Rightarrow>
        if r = 0 then (case pop_upto n q' of (vs, q'') \<Rightarrow> (v # vs, q'')) else ([], q'))"

lemma push_room:
  assumes "holds q xs" and "length xs < room q"
  shows "holds (snd (push q x)) (xs @ [x])" "room (snd (push q x)) = room q"
  using push_cases [OF assms(1), of x] assms(2) by auto

lemma push_all_holds:
  "holds q xs \<Longrightarrow> length xs + length ys \<le> room q \<Longrightarrow> holds (push_all ys q) (xs @ ys)"
proof (induction ys arbitrary: q xs)
  case (Cons y ys)
  have "holds (snd (push q y)) (xs @ [y])" "room (snd (push q y)) = room q"
    using push_room [OF Cons.prems(1), of y] Cons.prems(2) by simp_all
  with Cons.IH [of "snd (push q y)" "xs @ [y]"] Cons.prems(2) show ?case by simp
qed simp

lemma pop_upto_holds:
  "holds q xs \<Longrightarrow> length xs < n \<Longrightarrow>
    fst (pop_upto n q) = map Some xs \<and> holds (snd (pop_upto n q)) []"
proof (induction xs arbitrary: q n)
  case Nil
  then show ?case by (cases n) (auto simp: pop_Nil)
next
  case (Cons x xs)
  then obtain n' where n: "n = Suc n'" "length xs < n'" by (cases n) auto
  from pop_Cons [OF Cons.prems(1)] obtain q' where "pop q = ((0, Some x), q')" "holds q' xs" by blast
  with Cons.IH [of q' n'] n show ?case by (auto simp: split_beta)
qed

end

definition spsc_holds :: "'a spsc_qd \<Rightarrow> 'a list \<Rightarrow> bool" where
  "spsc_holds qd xs \<longleftrightarrow>
     (\<exists>k sent c t. QSIZE qd = 2 ^ k \<and> ring_rel k sent c (length sent) t qd \<and>
        c - t = (c - 1) mod 256 \<and> xs = drop c sent)"

definition spsc_room :: "'a spsc_qd \<Rightarrow> nat" where
  "spsc_room qd = nat (QSIZE qd) - 257"

lemma spsc_holds_push:
  assumes "spsc_holds qd xs"
  shows "(\<exists>qd'. spscq_push qd True x = (0, qd') \<and> spsc_holds qd' (xs @ [x]) \<and> QSIZE qd' = QSIZE qd) \<or>
    (spscq_push qd True x = (1, qd) \<and> spsc_room qd \<le> length xs)"
proof -
  from assms obtain k sent c t where q: "QSIZE qd = 2 ^ k" "ring_rel k sent c (length sent) t qd"
    "c - t = (c - 1) mod 256" "xs = drop c sent" unfolding spsc_holds_def by blast
  note d = ring_relD [OF q(2)]
  show ?thesis
  proof (cases "length sent + 2 < t + 2 ^ k")
    case True
    then obtain qd' where "spscq_push qd True x = (0, qd')" "QSIZE qd' = QSIZE qd"
      "ring_rel k (sent @ [x]) c (Suc (length sent)) t qd'"
      using spscq_push_accepts [OF q(2), of True x] by auto
    moreover from this q d(11) have "spsc_holds qd' (xs @ [x])"
      unfolding spsc_holds_def by (intro exI [of _ k] exI [of _ "sent @ [x]"] exI [of _ c] exI [of _ t]) simp
    ultimately show ?thesis by blast
  next
    case False
    have "c - t \<le> 255" using q(3) by simp
    with False d(10,13) q(4) have "2 ^ k - 257 \<le> length xs" by simp
    with False show ?thesis
      using spscq_push_refuses [OF q(2)] q(1) by (simp add: spsc_room_def nat_power_eq)
  qed
qed

lemma spsc_holds_pop:
  assumes "spsc_holds qd (x # xs)"
  shows "\<exists>qd'. spscq_pop qd = ((0, Some x), qd') \<and> spsc_holds qd' xs \<and> QSIZE qd' = QSIZE qd"
proof -
  from assms obtain k sent c t where q: "QSIZE qd = 2 ^ k" "ring_rel k sent c (length sent) t qd"
    "c - t = (c - 1) mod 256" "x # xs = drop c sent" unfolding spsc_holds_def by blast
  note d = ring_relD [OF q(2)]
  have c: "c < length sent" using q(4) by (metis drop_all list.distinct(1) not_le)
  then have x: "x = sent ! c" "xs = drop (Suc c) sent"
    using q(4) by (simp_all add: Cons_nth_drop_Suc [symmetric])
  define t' where "t' = (if c mod 256 = 0 then Suc c else t)"
  have "Suc c - t' = (Suc c - 1) mod 256"
  proof (cases "c mod 256 = 0")
    case False
    then have "0 < c" by (cases c) simp_all
    have "c mod 256 = Suc ((c - 1) mod 256)"
      using False mod_Suc [of "c - 1" 256] \<open>0 < c\<close> by (simp split: if_splits)
    with False q(3) d(10) show ?thesis by (simp add: t'_def)
  qed (simp add: t'_def)
  moreover obtain qd' where "spscq_pop qd = ((0, Some (sent ! c)), qd')" "QSIZE qd' = QSIZE qd"
    "ring_rel k sent (Suc c) (length sent) t' qd'"
    using spscq_pop_item [OF q(2) c] unfolding t'_def by blast
  ultimately show ?thesis
    using q(1) x unfolding spsc_holds_def
    by (intro exI [of _ qd'] conjI exI [of _ k] exI [of _ sent] exI [of _ "Suc c"] exI [of _ t']) simp_all
qed

lemma spsc_holds_empty: "spsc_holds qd [] \<Longrightarrow> spscq_pop qd = ((1, None), qd)"
  unfolding spsc_holds_def by (elim exE conjE) (rule spscq_pop_empty, auto)

lemma spsc_holds_new:
  assumes "log2_ceil lg" and "qsize < 2 ^ 28"
  shows "spsc_holds (spscq_new lg qsize :: 'a spsc_qd) []"
proof -
  obtain k where "QSIZE (spscq_new lg qsize :: 'a spsc_qd) = 2 ^ k"
    "ring_rel k [] 0 0 0 (spscq_new lg qsize :: 'a spsc_qd)"
    using ring_new [OF assms] by blast
  then show ?thesis
    unfolding spsc_holds_def
    by (intro exI [of _ k] exI [of _ "[] :: 'a list"] exI [of _ "0::nat"]) simp
qed

interpretation ring: spsc_channel "\<lambda>qd x. spscq_push qd True x" spscq_pop spsc_holds spsc_room
proof unfold_locales
  fix qd :: "'a spsc_qd" and x xs
  show "spsc_holds qd xs \<Longrightarrow>
      (\<exists>q'. spscq_push qd True x = (0, q') \<and> spsc_holds q' (xs @ [x]) \<and> spsc_room q' = spsc_room qd) \<or>
      (spscq_push qd True x = (1, qd) \<and> spsc_room qd \<le> length xs)"
    using spsc_holds_push [of qd xs x] by (auto simp: spsc_room_def)
  show "spsc_holds qd [] \<Longrightarrow> spscq_pop qd = ((1, None), qd)" by (rule spsc_holds_empty)
  show "spsc_holds qd (x # xs) \<Longrightarrow>
      \<exists>q'. spscq_pop qd = ((0, Some x), q') \<and> spsc_holds q' xs \<and> spsc_room q' = spsc_room qd"
    using spsc_holds_pop [of qd x xs] by (auto simp: spsc_room_def)
qed

section \<open>One thread alone\<close>

lemma prod_steps_push:
  assumes "sys_prod s = P_idle" and "spscq_push (sys_qd s) fl x = (0, qd')"
  shows "prod_step\<^sup>*\<^sup>* s (s\<lparr>sys_qd := qd', sys_sent := sys_sent s @ [x]\<rparr>)"
proof -
  let ?q = "qd_q (sys_qd s)"
  let ?nh = "next_index (q_shadow_head ?q) (QUEUE_ITEMS_MASK (sys_qd s))"
  have free: "q_tail ?q \<noteq> ucast ?nh" using assms(2) by (auto simp: spscq_push_def Let_def split: if_splits)
  define s1 where "s1 = s\<lparr>sys_prod := P_free fl x ?nh\<rparr>"
  define s2 where "s2 = s1\<lparr>sys_prod := P_stored fl x ?nh, sys_qd := (sys_qd s1)\<lparr>qd_q :=
      (qd_q (sys_qd s1))\<lparr>q_items := (q_items (qd_q (sys_qd s1)))[unat (q_shadow_head (qd_q (sys_qd s1))) := Some x]\<rparr>\<rparr>\<rparr>"
  define s3 where "s3 = s2\<lparr>sys_prod := P_moved fl, sys_sent := sys_sent s2 @ [x], sys_qd := (sys_qd s2)\<lparr>qd_q :=
      (qd_q (sys_qd s2))\<lparr>q_shadow_head := ucast ?nh\<rparr>\<rparr>\<rparr>"
  define s4 where "s4 = s3\<lparr>sys_prod := P_idle, sys_qd := (sys_qd s3)\<lparr>qd_q :=
      (if fl \<or> at_watermark (sys_qd s3) (q_shadow_head (qd_q (sys_qd s3)))
       then (qd_q (sys_qd s3))\<lparr>q_head := q_shadow_head (qd_q (sys_qd s3))\<rparr> else qd_q (sys_qd s3))\<rparr>\<rparr>"
  have "prod_step s s1"
    using prod_step.prod_check [OF assms(1) refl refl, of fl x] free by (simp add: s1_def)
  moreover have "prod_step s1 s2"
    unfolding s2_def by (rule prod_step.prod_store) (simp_all add: s1_def)
  moreover have "prod_step s2 s3"
    unfolding s3_def by (rule prod_step.prod_move) (simp_all add: s2_def)
  moreover have "prod_step s3 s4"
    unfolding s4_def by (rule prod_step.prod_publish) (simp_all add: s3_def)
  ultimately have "prod_step\<^sup>*\<^sup>* s s4" by (meson converse_rtranclp_into_rtranclp rtranclp.rtrancl_refl)
  moreover have "s4 = s\<lparr>sys_qd := qd', sys_sent := sys_sent s @ [x]\<rparr>"
    using assms free unfolding s4_def s3_def s2_def s1_def
    by (auto simp: spscq_push_def Let_def at_watermark_def split: if_splits)
  ultimately show ?thesis by simp
qed

lemma cons_steps_pop:
  assumes "sys_cons s = C_idle" and "spscq_pop (sys_qd s) = ((0, v), qd')"
  shows "cons_step\<^sup>*\<^sup>* s (s\<lparr>sys_qd := qd', sys_recv := sys_recv s @ [v]\<rparr>)"
proof -
  let ?q = "qd_q (sys_qd s)"
  let ?nt = "next_index (q_shadow_tail ?q) (QUEUE_ITEMS_MASK (sys_qd s))"
  have seen: "ucast ?nt \<noteq> q_head ?q" and v: "v = q_items ?q ! unat ?nt"
    using assms(2) by (auto simp: spscq_pop_def Let_def split: if_splits)
  define s1 where "s1 = s\<lparr>sys_cons := C_seen ?nt\<rparr>"
  define s2 where "s2 = s1\<lparr>sys_cons := C_loaded (q_items (qd_q (sys_qd s1)) ! unat ?nt) ?nt\<rparr>"
  define s3 where "s3 = s2\<lparr>sys_cons := C_moved v, sys_recv := sys_recv s2 @ [v], sys_qd := (sys_qd s2)\<lparr>qd_q :=
      (qd_q (sys_qd s2))\<lparr>q_shadow_tail := ucast ?nt\<rparr>\<rparr>\<rparr>"
  define s4 where "s4 = s3\<lparr>sys_cons := C_idle, sys_qd := (sys_qd s3)\<lparr>qd_q :=
      (if at_watermark (sys_qd s3) (q_shadow_tail (qd_q (sys_qd s3)))
       then (qd_q (sys_qd s3))\<lparr>q_tail := q_shadow_tail (qd_q (sys_qd s3))\<rparr> else qd_q (sys_qd s3))\<rparr>\<rparr>"
  have "cons_step s s1"
    using cons_step.cons_check [OF assms(1) refl refl] seen by (simp add: s1_def)
  moreover have "cons_step s1 s2"
    unfolding s2_def by (rule cons_step.cons_load) (simp add: s1_def)
  moreover have "cons_step s2 s3"
    unfolding s3_def by (rule cons_step.cons_move) (simp_all add: s2_def s1_def v)
  moreover have "cons_step s3 s4"
    unfolding s4_def by (rule cons_step.cons_publish) (simp_all add: s3_def)
  ultimately have "cons_step\<^sup>*\<^sup>* s s4" by (meson converse_rtranclp_into_rtranclp rtranclp.rtrancl_refl)
  moreover have "s4 = s\<lparr>sys_qd := qd', sys_recv := sys_recv s @ [v]\<rparr>"
    using assms seen unfolding s4_def s3_def s2_def s1_def
    by (auto simp: spscq_pop_def Let_def at_watermark_def split: if_splits)
  ultimately show ?thesis by simp
qed

section \<open>Properties\<close>

text \<open>The exact logarithm is an admissible one.\<close>

lemma log2_ceil_exact: "log2_ceil ceillog2"
proof -
  have "n \<le> 2 ^ ceillog2 n" "2 ^ ceillog2 n < 4 * n" if "n > 0" for n
  proof -
    show "n \<le> 2 ^ ceillog2 n" using ceillog2_le_iff [of n "ceillog2 n"] that by simp
    show "2 ^ ceillog2 n < 4 * n"
    proof (cases "ceillog2 n")
      case (Suc e)
      then have "\<not> n \<le> 2 ^ e" using ceillog2_le_iff [of n e] that by simp
      with Suc show ?thesis by simp
    qed (use that in simp)
  qed
  then show ?thesis by (simp add: log2_ceil_def)
qed

lemma reach_prod_steps: "prod_step\<^sup>*\<^sup>* s s' \<Longrightarrow> spscq_reach qd s \<Longrightarrow> spscq_reach qd s'"
  by (induction rule: rtranclp_induct) (auto intro: spscq_reach.reach_prod)

lemma reach_cons_steps: "cons_step\<^sup>*\<^sup>* s s' \<Longrightarrow> spscq_reach qd s \<Longrightarrow> spscq_reach qd s'"
  by (induction rule: rtranclp_induct) (auto intro: spscq_reach.reach_cons)

text \<open>The requested size is a lower bound of the allocated one.\<close>

lemma spscq_new_size: "log2_ceil lg \<Longrightarrow> max 256 qsize + 1 \<le> QSIZE (spscq_new lg qsize :: 'a spsc_qd)"
proof -
  assume lg: "log2_ceil lg"
  define n where "n = nat (max 256 qsize + 1)"
  have "0 < n" by (simp add: n_def)
  with lg have "n \<le> 2 ^ lg n" unfolding log2_ceil_def by blast
  then have "int n \<le> 2 ^ lg n" by (metis of_nat_le_iff of_nat_numeral of_nat_power)
  moreover have "QSIZE (spscq_new lg qsize :: 'a spsc_qd) = 2 ^ lg n"
    by (simp add: spscq_new_def Let_def n_def max_def)
  ultimately show ?thesis by (simp add: n_def)
qed

text \<open>One push, whole, from a fresh ring.\<close>

lemma spscq_first_push:
  fixes x :: 'a
  assumes "log2_ceil lg" and "qsize < 2 ^ 28" and "257 < qsize"
  shows "\<exists>qd'. spscq_push (spscq_new lg qsize) True x = (0, qd')"
proof -
  have "0 < spsc_room (spscq_new lg qsize :: 'a spsc_qd)"
    using spscq_new_size [OF assms(1), of qsize, where 'a = 'a] assms(3) by (simp add: spsc_room_def)
  then show ?thesis using spsc_holds_push [OF spsc_holds_new [OF assms(1,2)], of x] by fastforce
qed

text \<open>
  (C1) With the producer and the consumer interleaved in any way at the granularity of
  single shared accesses, what the consumer has popped is exactly a prefix of what the
  producer has pushed, in order: nothing is lost, duplicated, reordered or read before
  it was written. And the ring never holds more than \<open>QSIZE - 2\<close> items.
\<close>

theorem spscq_fifo:
  fixes s :: "'a spsc_sys"
  assumes "log2_ceil lg" and "qsize < 2 ^ 28" and "spscq_reach (spscq_new lg qsize) s"
  shows "sys_recv s = map Some (take (length (sys_recv s)) (sys_sent s)) \<and>
    length (sys_recv s) \<le> length (sys_sent s) \<and>
    int (length (sys_sent s) - length (sys_recv s)) \<le> QSIZE (spscq_new lg qsize :: 'a spsc_qd) - 2"
proof -
  obtain k where k: "QSIZE (spscq_new lg qsize :: 'a spsc_qd) = 2 ^ k"
    "ring_rel k [] 0 0 0 (spscq_new lg qsize :: 'a spsc_qd)"
    using ring_new [OF assms(1,2)] by blast
  from spscq_reach_inv [OF assms(3) k(2)] obtain h t where
    "ring_rel k (sys_sent s) (length (sys_recv s)) h t (sys_qd s)"
    "sys_recv s = map Some (take (length (sys_recv s)) (sys_sent s))"
    unfolding sys_inv_def by blast
  moreover from ring_relD [OF this(1)]
  have "length (sys_recv s) \<le> length (sys_sent s)"
    "length (sys_sent s) - length (sys_recv s) + 2 \<le> 2 ^ k" by simp_all
  moreover from this(2) have "int (length (sys_sent s) - length (sys_recv s)) + 2 \<le> 2 ^ k"
    by (metis of_nat_add of_nat_le_iff of_nat_numeral of_nat_power)
  ultimately show ?thesis using k(1) by simp
qed

lemma spscq_fifo_witness:
  "\<exists>s :: nat spsc_sys. spscq_reach (spscq_new ceillog2 600) s \<and> sys_sent s = [7] \<and>
     sys_recv s = map Some (take (length (sys_recv s)) [7])"
proof -
  let ?qd = "spscq_new ceillog2 600 :: nat spsc_qd"
  have "(600::int) < 2 ^ 28" "(257::int) < 600" by simp_all
  from spscq_first_push [OF log2_ceil_exact this, of 7]
  obtain qd' where "spscq_push ?qd True 7 = (0, qd')" by (elim exE)
  then have "prod_step\<^sup>*\<^sup>* (sys_init ?qd) ((sys_init ?qd)\<lparr>sys_qd := qd', sys_sent := [7]\<rparr>)"
    using prod_steps_push [of "sys_init ?qd" True 7 qd'] by (simp add: sys_init_def)
  then have r: "spscq_reach ?qd ((sys_init ?qd)\<lparr>sys_qd := qd', sys_sent := [7]\<rparr>)"
    by (rule reach_prod_steps) (rule spscq_reach.reach_init)
  have "(600::int) < 2 ^ 28" by simp
  from spscq_fifo [OF log2_ceil_exact this r] r show ?thesis
    by (intro exI [of _ "(sys_init ?qd)\<lparr>sys_qd := qd', sys_sent := [7]\<rparr>"]) simp
qed

text \<open>
  The word-level operations are runs of the two threads: from any reachable state in
  which the thread is between two operations, a successful \<^verbatim>\<open>spscq_push\<close> or
  \<^verbatim>\<open>spscq_pop\<close> leads to a reachable state whose ring is the one the operation computes
  and whose history has the item appended.
\<close>

theorem spscq_ops_refine:
  assumes "spscq_reach qd0 s"
  shows "(sys_prod s = P_idle \<and> spscq_push (sys_qd s) fl x = (0, qd') \<longrightarrow>
      spscq_reach qd0 (s\<lparr>sys_qd := qd', sys_sent := sys_sent s @ [x]\<rparr>)) \<and>
    (sys_cons s = C_idle \<and> spscq_pop (sys_qd s) = ((0, v), qd') \<longrightarrow>
      spscq_reach qd0 (s\<lparr>sys_qd := qd', sys_recv := sys_recv s @ [v]\<rparr>))"
  using prod_steps_push [of s fl x qd'] cons_steps_pop [of s v qd']
    reach_prod_steps [OF _ assms] reach_cons_steps [OF _ assms] by blast

lemma spscq_ops_refine_witness:
  "\<exists>qd' :: nat spsc_qd. spscq_push (spscq_new ceillog2 600) True 7 = (0, qd') \<and>
     spscq_reach (spscq_new ceillog2 600)
       ((sys_init (spscq_new ceillog2 600))\<lparr>sys_qd := qd', sys_sent := [7]\<rparr>)"
proof -
  let ?qd = "spscq_new ceillog2 600 :: nat spsc_qd"
  have "(600::int) < 2 ^ 28" "(257::int) < 600" by simp_all
  from spscq_first_push [OF log2_ceil_exact this, of 7]
  obtain qd' where "spscq_push ?qd True 7 = (0, qd')" by (elim exE)
  moreover from this have "spscq_reach ?qd ((sys_init ?qd)\<lparr>sys_qd := qd', sys_sent := [] @ [7]\<rparr>)"
    using spscq_ops_refine [OF spscq_reach.reach_init [of ?qd], of True 7 qd'] by (simp add: sys_init_def)
  ultimately show ?thesis by (intro exI [of _ qd']) simp
qed

text \<open>
  (C40) The ring as a channel: as long as no more than \<open>QSIZE - 257\<close> items are queued, every
  push is accepted, and popping until the first failure returns exactly the queued items,
  oldest first, and leaves the ring empty. (The consumer publishes its position only every
  256 items, so up to 255 slots already read may still look occupied to the producer.)
\<close>

theorem spscq_channel_drain:
  assumes "spsc_holds qd xs" and "length xs + length ys \<le> nat (QSIZE qd) - 257"
    and "length xs + length ys < n"
  shows "fst (ring.pop_upto n (ring.push_all ys qd)) = map Some (xs @ ys) \<and>
    spsc_holds (snd (ring.pop_upto n (ring.push_all ys qd))) []"
proof -
  have "spsc_holds (ring.push_all ys qd) (xs @ ys)"
    using ring.push_all_holds [OF assms(1), of ys] assms(2) by (simp add: spsc_room_def)
  with assms(3) show ?thesis by (intro ring.pop_upto_holds) simp_all
qed

lemma spscq_channel_drain_witness:
  "fst (ring.pop_upto 4 (ring.push_all [5, 6, 7::nat] (spscq_new ceillog2 600))) =
     [Some 5, Some 6, Some 7]"
proof -
  let ?qd = "spscq_new ceillog2 600 :: nat spsc_qd"
  have "max 256 600 + 1 \<le> QSIZE ?qd" by (rule spscq_new_size [OF log2_ceil_exact])
  then have "length ([] :: nat list) + length [5, 6, 7::nat] \<le> nat (QSIZE ?qd) - 257" by simp
  from spscq_channel_drain [OF spsc_holds_new [OF log2_ceil_exact, of 600] this, of 4]
  show ?thesis by simp
qed

end
