(* ===== verification/Umrpc.thy ===== *)
theory Umrpc
  imports Prelude
begin

text \<open>
  The CoAP client: \<^verbatim>\<open>src/src/utils/umrpc.c\<close> and \<^verbatim>\<open>src/src/include/umrpc.h\<close>. libcoap is a parameter: what its
  constructors return is an argument, and the calls that create, release and send are recorded in
  order. \<open>net_addr\<close> is \<^verbatim>\<open>inet_addr\<close>.
\<close>

record umrpc_ctx =
  coap_ctx :: nat
  coap_session :: nat

record coap_address =
  sin_port :: u16
  sin_addr :: u32

datatype coap_ev =
    Coap_new_context nat
  | Coap_new_session nat coap_address coap_address
  | Coap_free_context nat
  | Coap_send nat string "string option" string

record coap_api =
  coap_new_context :: "nat option"
  coap_new_client_session :: "nat \<Rightarrow> coap_address \<Rightarrow> coap_address \<Rightarrow> nat option"
  coap_session_new_token :: "nat \<Rightarrow> string"
  coap_add_token_ok :: "string \<Rightarrow> bool"
  coap_split_path :: "string \<Rightarrow> string"

text \<open>\<^verbatim>\<open>htons\<close> on a little-endian machine.\<close>

definition htons :: "u16 \<Rightarrow> u16" where
  "htons p = push_bit 8 p OR drop_bit 8 p"

definition umrpc_new_ctx ::
  "coap_api \<Rightarrow> (string \<Rightarrow> u32) \<Rightarrow> string \<Rightarrow> u16 \<Rightarrow> coap_ev list \<Rightarrow> umrpc_ctx option \<times> coap_ev list"
where
  "umrpc_new_ctx C net_addr dst_addr dst_port es =
     (case coap_new_context C of
        None \<Rightarrow> (None, es)
      | Some c \<Rightarrow>
          let es1 = es @ [Coap_new_context c];
              src = \<lparr>sin_port = htons 0, sin_addr = net_addr ''0.0.0.0''\<rparr>;
              dst = \<lparr>sin_port = htons dst_port, sin_addr = net_addr dst_addr\<rparr>
          in (case coap_new_client_session C c src dst of
                None \<Rightarrow> (None, es1 @ [Coap_free_context c])
              | Some s \<Rightarrow> (Some \<lparr>coap_ctx = c, coap_session = s\<rparr>, es1 @ [Coap_new_session s src dst])))"

definition umrpc_free_ctx :: "umrpc_ctx option \<Rightarrow> coap_ev list \<Rightarrow> coap_ev list" where
  "umrpc_free_ctx ctx es = (case ctx of None \<Rightarrow> es | Some x \<Rightarrow> es @ [Coap_free_context (coap_ctx x)])"

text \<open>
  A request carries the path of a fixed address; a token that cannot be added is left out. Returned are 1 without
  a context and 2 without data.
\<close>

definition umrpc_send :: "coap_api \<Rightarrow> umrpc_ctx option \<Rightarrow> string option \<Rightarrow> nat \<Rightarrow> coap_ev list \<Rightarrow> int \<times> coap_ev list" where
  "umrpc_send C ctx data sz es =
     (case ctx of
        None \<Rightarrow> (1, es)
      | Some x \<Rightarrow>
        (case data of
           None \<Rightarrow> (2, es)
         | Some d \<Rightarrow>
             if sz = 0 then (2, es)
             else
               let token = coap_session_new_token C (coap_session x)
               in (0, es @ [Coap_send (coap_session x) (coap_split_path C ''coap://127.0.0.1/hello'')
                     (if coap_add_token_ok C token then Some token else None) (take sz d)])))"

text \<open>Every context libcoap creates is either handed out, and then released by \<^verbatim>\<open>umrpc_free_ctx\<close>, or released at once.\<close>

lemma umrpc_ctx_released:
  assumes "umrpc_new_ctx C net_addr dst_addr dst_port [] = (ctx, es)"
  shows "(\<forall>c. Coap_new_context c \<in> set es \<longrightarrow> count_list (umrpc_free_ctx ctx es) (Coap_free_context c) = 1) \<and>
    (ctx = None \<longleftrightarrow> coap_new_context C = None \<or> Coap_free_context (the (coap_new_context C)) \<in> set es)"
  using assms by (auto simp: umrpc_new_ctx_def umrpc_free_ctx_def Let_def split: option.splits)

text \<open>Nothing is sent unless 0 is returned, and then the session of the context sends exactly the data once.\<close>

lemma umrpc_send_result:
  assumes "umrpc_send C ctx data sz es = (rc, es')"
  shows "if rc = 0 then \<exists>x d tok. ctx = Some x \<and> data = Some d \<and> 0 < sz \<and>
      es' = es @ [Coap_send (coap_session x) (coap_split_path C ''coap://127.0.0.1/hello'') tok (take sz d)]
    else es' = es \<and> (rc = 1 \<and> ctx = None \<or> rc = 2 \<and> ctx \<noteq> None)"
  using assms by (auto simp: umrpc_send_def Let_def split: option.splits if_splits)

lemma htons_involution: "htons (htons p) = p"
  by (rule bit_word_eqI) (auto simp: htons_def bit_or_iff bit_push_bit_iff bit_drop_bit_eq)

end
