(* ===== verification/Umatomic.thy ===== *)
theory Umatomic
  imports Prelude
begin

text \<open>
  The atomic operations of \<^verbatim>\<open>src/src/include/umatomic.h\<close>, which are names for builtins of the compiler. Each one is a function from
  the value of the cell to the value it returns and the new value of the cell. As every one is a single step, an interleaving of
  operations of several threads on one cell is a sequence of them.
\<close>

section \<open>Operations\<close>

definition UM_ATOMIC_GET :: "'a::len word \<Rightarrow> 'a word \<times> 'a word" where
  "UM_ATOMIC_GET v = (v, v + 0)"

definition UM_ATOMIC_F_ADD :: "'a::len word \<Rightarrow> 'a word \<Rightarrow> 'a word \<times> 'a word" where
  "UM_ATOMIC_F_ADD v inc = (v, v + inc)"

definition UM_ATOMIC_ADD_F :: "'a::len word \<Rightarrow> 'a word \<Rightarrow> 'a word \<times> 'a word" where
  "UM_ATOMIC_ADD_F v inc = (v + inc, v + inc)"

definition UM_ATOMIC_F_AND :: "'a::len word \<Rightarrow> 'a word \<Rightarrow> 'a word \<times> 'a word" where
  "UM_ATOMIC_F_AND v inc = (v, v AND inc)"

definition UM_ATOMIC_AND_F :: "'a::len word \<Rightarrow> 'a word \<Rightarrow> 'a word \<times> 'a word" where
  "UM_ATOMIC_AND_F v inc = (v AND inc, v AND inc)"

definition UM_ATOMIC_F_SUB :: "'a::len word \<Rightarrow> 'a word \<Rightarrow> 'a word \<times> 'a word" where
  "UM_ATOMIC_F_SUB v dc = (v, v - dc)"

definition UM_ATOMIC_SUB_F :: "'a::len word \<Rightarrow> 'a word \<Rightarrow> 'a word \<times> 'a word" where
  "UM_ATOMIC_SUB_F v dc = (v - dc, v - dc)"

definition UM_ATOMIC_COMP_SWAP :: "'a::len word \<Rightarrow> 'a word \<Rightarrow> 'a word \<Rightarrow> 'a word \<times> 'a word" where
  "UM_ATOMIC_COMP_SWAP v old new = (v, if v = old then new else v)"

definition UM_ATOMIC_BOOL_COMP_SWAP :: "'a::len word \<Rightarrow> 'a word \<Rightarrow> 'a word \<Rightarrow> bool \<times> 'a word" where
  "UM_ATOMIC_BOOL_COMP_SWAP v old new = (v = old, if v = old then new else v)"

lemma UM_ATOMIC_GET_simp [simp]: "UM_ATOMIC_GET v = (v, v)"
  by (simp add: UM_ATOMIC_GET_def)

section \<open>Several threads on one cell\<close>

text \<open>The values a sequence of the same operation returns, and the last value of the cell.\<close>

fun atomic_runs :: "('v \<Rightarrow> 'r \<times> 'v) \<Rightarrow> nat \<Rightarrow> 'v \<Rightarrow> 'r list \<times> 'v" where
  "atomic_runs f 0 v = ([], v)"
| "atomic_runs f (Suc n) v = (let (r, v') = f v; (rs, v'') = atomic_runs f n v' in (r # rs, v''))"

lemma atomic_runs_add:
  "atomic_runs (\<lambda>v. UM_ATOMIC_F_ADD v inc) n v = (map (\<lambda>i. v + of_nat i * inc) [0..<n], v + of_nat n * inc)"
proof (induction n arbitrary: v)
  case (Suc n)
  have "map (\<lambda>i. v + of_nat i * inc) [0..<Suc n] = v # map (\<lambda>i. v + inc + of_nat i * inc) [0..<n]"
    by (simp add: upt_conv_Cons map_Suc_upt [symmetric] algebra_simps del: upt_Suc)
  with Suc [of "v + inc"] show ?case by (simp add: UM_ATOMIC_F_ADD_def algebra_simps del: upt_Suc)
qed simp

text \<open>
  Threads that fetch and increment a counter get different numbers, as long as there are not more of them than values, and
  no increment is lost.
\<close>

theorem fetch_add_tickets:
  fixes v :: "'a::len word"
  assumes "n \<le> 2 ^ LENGTH('a)" and "atomic_runs (\<lambda>v. UM_ATOMIC_F_ADD v 1) n v = (rs, v')"
  shows "distinct rs" "v' = v + of_nat n"
proof -
  have rs: "rs = map (\<lambda>i. v + of_nat i) [0..<n]" and v': "v' = v + of_nat n"
    using assms(2) by (simp_all add: atomic_runs_add)
  have "inj_on (\<lambda>i. v + of_nat i) (set [0..<n])"
    using assms(1) by (auto simp: inj_on_def) (metis less_le_trans unat_of_nat_small)
  then show "distinct rs" unfolding rs by (simp add: distinct_map)
  show "v' = v + of_nat n" by (rule v')
qed

text \<open>A flag that is set by compare and swap is set by exactly the first of the threads, and stays set.\<close>

theorem flag_set_once:
  fixes v :: "'a::len word"
  assumes "old \<noteq> new" and "atomic_runs (\<lambda>v. UM_ATOMIC_BOOL_COMP_SWAP v old new) (Suc n) old = (rs, v')"
  shows "rs = True # replicate n False" "v' = new"
proof -
  have "atomic_runs (\<lambda>v. UM_ATOMIC_BOOL_COMP_SWAP v old new) n new = (replicate n False, new)"
    using assms(1) by (induction n) (simp_all add: UM_ATOMIC_BOOL_COMP_SWAP_def)
  then show "rs = True # replicate n False" "v' = new" using assms(2) by (simp_all add: UM_ATOMIC_BOOL_COMP_SWAP_def)
qed

text \<open>The two forms of an operation return the values before and after the same change.\<close>

lemma atomic_forms:
  "snd (UM_ATOMIC_F_ADD v x) = fst (UM_ATOMIC_ADD_F v x)" "snd (UM_ATOMIC_F_AND v x) = fst (UM_ATOMIC_AND_F v x)"
  "snd (UM_ATOMIC_F_SUB v x) = fst (UM_ATOMIC_SUB_F v x)" "snd (UM_ATOMIC_F_SUB (snd (UM_ATOMIC_F_ADD v x)) x) = v"
  "fst (UM_ATOMIC_BOOL_COMP_SWAP v old new) \<longleftrightarrow> fst (UM_ATOMIC_COMP_SWAP v old new) = old"
  by (simp_all add: UM_ATOMIC_F_ADD_def UM_ATOMIC_ADD_F_def UM_ATOMIC_F_AND_def UM_ATOMIC_AND_F_def UM_ATOMIC_F_SUB_def
      UM_ATOMIC_SUB_F_def UM_ATOMIC_COMP_SWAP_def UM_ATOMIC_BOOL_COMP_SWAP_def)

end
