(* ===== verification/Umdaemon.thy ===== *)
theory Umdaemon
  imports Umatomic
begin

text \<open>
  The daemon frame: \<^verbatim>\<open>src/src/include/umdaemon.h\<close> and \<^verbatim>\<open>src/src/umd/umdaemon.c\<close>. Descriptors
  live in \<open>umd_heap\<close>, the global \<^verbatim>\<open>UMD\<close> is \<open>umd_cur\<close>, and \<open>umd_evs\<close> records the calls to
  \<^verbatim>\<open>syslog\<close> and to the handlers of the descriptor. \<open>umd_loop\<close> polls the termination flag
  once per second; which signals the process receives in the \<open>i\<close>-th second is the argument
  \<open>sigs i\<close>.
\<close>

section \<open>Data\<close>

definition UMD_ID_MAX_SZ :: nat where
  "UMD_ID_MAX_SZ = 30"

datatype umd_log_level_t = UMD_LLT_ERROR | UMD_LLT_WARNING | UMD_LLT_INFO | UMD_LLT_DEBUG

primrec ll_num :: "umd_log_level_t \<Rightarrow> int" where
  "ll_num UMD_LLT_ERROR = 3"
| "ll_num UMD_LLT_WARNING = 4"
| "ll_num UMD_LLT_INFO = 6"
| "ll_num UMD_LLT_DEBUG = 7"

lemma ll_num_inj: "ll_num a = ll_num b \<longleftrightarrow> a = b"
  by (cases a; cases b) simp_all

text \<open>Levels compare by their numbers, as the C enumeration does.\<close>

instantiation umd_log_level_t :: linorder
begin

definition less_eq_umd_log_level_t :: "umd_log_level_t \<Rightarrow> umd_log_level_t \<Rightarrow> bool" where
  "less_eq_umd_log_level_t a b \<longleftrightarrow> ll_num a \<le> ll_num b"

definition less_umd_log_level_t :: "umd_log_level_t \<Rightarrow> umd_log_level_t \<Rightarrow> bool" where
  "less_umd_log_level_t a b \<longleftrightarrow> ll_num a < ll_num b"

instance
  by standard (auto simp: less_eq_umd_log_level_t_def less_umd_log_level_t_def ll_num_inj)

end

record umdaemon =
  is_terminated :: "8 word"
  umd_id :: string
  umd_type :: string
  umd_fqn :: string
  umd_log_level :: umd_log_level_t
  umd_on_terminate :: "nat option"
  umd_on_init :: "nat option"

datatype umd_ev =
    Openlog string
  | Syslog int string
  | Closelog
  | Handler nat

record umd_env =
  umd_heap :: "nat \<Rightarrow> umdaemon"
  umd_cur :: "nat option"
  umd_evs :: "umd_ev list"

section \<open>Operations\<close>

text \<open>The four \<^verbatim>\<open>strcpy\<close> into a buffer of \<open>l1 + l2 + 7\<close> bytes.\<close>

definition make_fqn :: "string \<Rightarrow> string \<Rightarrow> string" where
  "make_fqn ty i = ''mink.'' @ ty @ ''.'' @ i"

definition umd_create :: "nat \<Rightarrow> string option \<Rightarrow> string option \<Rightarrow> umd_env \<Rightarrow> nat option \<times> umd_env" where
  "umd_create a ido ty e =
     (case (ido, ty) of
        (Some i, Some t) \<Rightarrow>
          if length i < UMD_ID_MAX_SZ \<and> length t < UMD_ID_MAX_SZ
          then (Some a, e\<lparr>umd_heap := (umd_heap e)(a :=
                   \<lparr>is_terminated = 0, umd_id = i, umd_type = t, umd_fqn = make_fqn t i,
                    umd_log_level = UMD_LLT_INFO, umd_on_terminate = None, umd_on_init = None\<rparr>),
                 umd_cur := Some a\<rparr>)
          else (None, e)
      | _ \<Rightarrow> (None, e))"

definition umd_set_id :: "nat option \<Rightarrow> string option \<Rightarrow> umd_env \<Rightarrow> int \<times> umd_env" where
  "umd_set_id umd ido e =
     (case (umd, ido) of
        (Some a, Some i) \<Rightarrow>
          if length i \<ge> UMD_ID_MAX_SZ then (1, e)
          else (0, e\<lparr>umd_heap := (umd_heap e)(a := (umd_heap e a)
                 \<lparr>umd_id := i, umd_fqn := make_fqn (umd_type (umd_heap e a)) i\<rparr>)\<rparr>)
      | _ \<Rightarrow> (1, e))"

definition umd_set_log_level :: "nat option \<Rightarrow> umd_log_level_t \<Rightarrow> umd_env \<Rightarrow> umd_env" where
  "umd_set_log_level umd ll e =
     (case umd of
        None \<Rightarrow> e
      | Some a \<Rightarrow> e\<lparr>umd_heap := (umd_heap e)(a := (umd_heap e a)\<lparr>umd_log_level := ll\<rparr>)\<rparr>)"

definition SIGTERM :: int where
  "SIGTERM = 15"

definition umd_signal_handler :: "int \<Rightarrow> umd_env \<Rightarrow> umd_env" where
  "umd_signal_handler signum e =
     (case umd_cur e of
        None \<Rightarrow> e
      | Some a \<Rightarrow>
          if signum = SIGTERM
          then e\<lparr>umd_heap := (umd_heap e)(a := (umd_heap e a)
                 \<lparr>is_terminated := snd (UM_ATOMIC_COMP_SWAP (is_terminated (umd_heap e a)) 0 1)\<rparr>)\<rparr>
          else e)"

definition umd_emit :: "umd_ev list \<Rightarrow> umd_env \<Rightarrow> umd_env" where
  "umd_emit es e = e\<lparr>umd_evs := umd_evs e @ es\<rparr>"

definition handler_evs :: "nat option \<Rightarrow> umd_ev list" where
  "handler_evs h = (case h of None \<Rightarrow> [] | Some f \<Rightarrow> [Handler f])"

definition umd_start :: "nat option \<Rightarrow> umd_env \<Rightarrow> umd_env" where
  "umd_start umd e =
     (case umd of
        None \<Rightarrow> e
      | Some a \<Rightarrow> let d = umd_heap e a
                  in umd_emit ([Openlog (umd_fqn d), Syslog 6 ''starting...''] @ handler_evs (umd_on_init d)) e)"

definition umd_terminate :: "nat option \<Rightarrow> umd_env \<Rightarrow> umd_env" where
  "umd_terminate umd e =
     (case umd of
        None \<Rightarrow> e
      | Some a \<Rightarrow> let d = umd_heap e a
                  in umd_emit ([Openlog (umd_fqn d), Syslog 6 ''terminating...''] @
                       handler_evs (umd_on_terminate d) @ [Closelog]) e)"

partial_function (option) umd_loop :: "(nat \<Rightarrow> int list) \<Rightarrow> nat \<Rightarrow> nat \<Rightarrow> umd_env \<Rightarrow> umd_env option" where
  "umd_loop sigs i a e =
     (if is_terminated (umd_heap e a) = 0
      then umd_loop sigs (Suc i) a (fold umd_signal_handler (sigs i) e)
      else Some (umd_terminate (Some a) e))"

text \<open>\<^verbatim>\<open>LOG_USER | level\<close> with \<^verbatim>\<open>LOG_USER = 8\<close>.\<close>

definition umd_log :: "nat \<Rightarrow> umd_log_level_t \<Rightarrow> string \<Rightarrow> umd_env \<Rightarrow> umd_env" where
  "umd_log a level msg e =
     (let d = umd_heap e a
      in if level \<le> umd_log_level d then umd_emit [Openlog (umd_fqn d), Syslog (8 OR ll_num level) msg] e
         else e)"

definition umd_is_terminating :: "umd_env \<Rightarrow> bool" where
  "umd_is_terminating e =
     (case umd_cur e of None \<Rightarrow> False | Some a \<Rightarrow> fst (UM_ATOMIC_GET (is_terminated (umd_heap e a))) \<noteq> 0)"

section \<open>The termination flag\<close>

lemma umd_signal_handler_sel [simp]: "umd_cur (umd_signal_handler n e) = umd_cur e"
  by (simp add: umd_signal_handler_def split: option.split)

lemma fold_signal_cur [simp]: "umd_cur (fold umd_signal_handler ns e) = umd_cur e"
  by (induction ns arbitrary: e) simp_all

lemma umd_signal_terminating:
  "umd_is_terminating (umd_signal_handler n e) \<longleftrightarrow>
    umd_is_terminating e \<or> (n = SIGTERM \<and> umd_cur e \<noteq> None)"
  by (auto simp: umd_is_terminating_def umd_signal_handler_def UM_ATOMIC_COMP_SWAP_def split: option.splits)

lemma fold_signal_terminating:
  "umd_is_terminating (fold umd_signal_handler ns e) \<longleftrightarrow>
    umd_is_terminating e \<or> (SIGTERM \<in> set ns \<and> umd_cur e \<noteq> None)"
  by (induction ns arbitrary: e) (auto simp: umd_signal_terminating)

lemma cur_terminating: "umd_cur e = Some a \<Longrightarrow> is_terminated (umd_heap e a) = 0 \<longleftrightarrow> \<not> umd_is_terminating e"
  by (simp add: umd_is_terminating_def)

lemma umd_loop_ends:
  "umd_cur e = Some a \<Longrightarrow> umd_is_terminating e \<or> (\<exists>j < n. SIGTERM \<in> set (sigs (i + j))) \<Longrightarrow>
    \<exists>e'. umd_loop sigs i a e = Some e'"
proof (induction n arbitrary: i e)
  case 0
  then show ?case by (simp add: umd_loop.simps [of sigs i] cur_terminating)
next
  case (Suc n)
  show ?case
  proof (cases "umd_is_terminating e")
    case True
    with Suc.prems(1) show ?thesis by (simp add: umd_loop.simps [of sigs i] cur_terminating)
  next
    case False
    let ?e = "fold umd_signal_handler (sigs i) e"
    have "umd_is_terminating ?e \<or> (\<exists>j < n. SIGTERM \<in> set (sigs (Suc i + j)))"
    proof -
      from Suc.prems(2) False obtain j where j: "j < Suc n" "SIGTERM \<in> set (sigs (i + j))" by blast
      show ?thesis
      proof (cases j)
        case 0
        with j Suc.prems(1) show ?thesis by (simp add: fold_signal_terminating)
      next
        case (Suc j')
        with j show ?thesis by auto
      qed
    qed
    then obtain e' where "umd_loop sigs (Suc i) a ?e = Some e'"
      using Suc.IH [of ?e "Suc i"] Suc.prems(1) by auto
    with False Suc.prems(1) show ?thesis by (simp add: umd_loop.simps [of sigs i] cur_terminating)
  qed
qed

lemma umd_loop_needs_signal:
  assumes "umd_loop sigs i a e = Some e'"
  shows "umd_cur e = Some a \<longrightarrow> umd_is_terminating e \<or> (\<exists>j \<ge> i. SIGTERM \<in> set (sigs j))"
proof (rule umd_loop.raw_induct [OF _ assms,
      where P = "\<lambda>sigs i a e e'. umd_cur e = Some a \<longrightarrow> umd_is_terminating e \<or> (\<exists>j \<ge> i. SIGTERM \<in> set (sigs j))"],
    intro impI)
  fix loop and sigs :: "nat \<Rightarrow> int list" and i a e e'
  assume IH: "\<And>sigs i a e e'. loop sigs i a e = Some e' \<Longrightarrow>
      umd_cur e = Some a \<longrightarrow> umd_is_terminating e \<or> (\<exists>j \<ge> i. SIGTERM \<in> set (sigs j))"
    and body: "(if is_terminated (umd_heap e a) = 0
      then loop sigs (Suc i) a (fold umd_signal_handler (sigs i) e)
      else Some (umd_terminate (Some a) e)) = Some e'"
    and cur: "umd_cur e = Some a"
  show "umd_is_terminating e \<or> (\<exists>j \<ge> i. SIGTERM \<in> set (sigs j))"
  proof (cases "umd_is_terminating e")
    case False
    with body cur have "loop sigs (Suc i) a (fold umd_signal_handler (sigs i) e) = Some e'"
      by (simp add: cur_terminating)
    from IH [OF this] cur show ?thesis
      by (auto simp: fold_signal_terminating Suc_le_eq intro: less_imp_le)
  qed simp
qed

section \<open>Properties\<close>

definition umd_env0 :: umd_env where
  "umd_env0 = \<lparr>umd_heap = \<lambda>_. \<lparr>is_terminated = 0, umd_id = [], umd_type = [], umd_fqn = [],
     umd_log_level = UMD_LLT_INFO, umd_on_terminate = None, umd_on_init = None\<rparr>,
     umd_cur = None, umd_evs = []\<rparr>"

text \<open>
  (C35) The daemon loop returns if and only if the process receives SIGTERM (or had
  been told to terminate before); until then it polls forever.
\<close>

theorem umd_loop_iff_sigterm:
  assumes "umd_cur e = Some a"
  shows "(\<exists>e'. umd_loop sigs 0 a e = Some e') \<longleftrightarrow> umd_is_terminating e \<or> (\<exists>i. SIGTERM \<in> set (sigs i))"
proof
  assume "umd_is_terminating e \<or> (\<exists>i. SIGTERM \<in> set (sigs i))"
  then obtain n where "umd_is_terminating e \<or> (\<exists>j < n. SIGTERM \<in> set (sigs (0 + j)))"
    by (metis add_0 lessI)
  with umd_loop_ends [OF assms, of n sigs 0] show "\<exists>e'. umd_loop sigs 0 a e = Some e'" by blast
qed (use umd_loop_needs_signal assms in blast)

lemma umd_loop_iff_sigterm_witness:
  "\<exists>e'. umd_loop (\<lambda>i. if i = 3 then [1, 15] else []) 0 7 (snd (umd_create 7 (Some ''a'') (Some ''b'') umd_env0)) = Some e'"
proof -
  have "umd_cur (snd (umd_create 7 (Some ''a'') (Some ''b'') umd_env0)) = Some 7"
    by (simp add: umd_create_def UMD_ID_MAX_SZ_def)
  from umd_loop_iff_sigterm [OF this, of "\<lambda>i. if i = 3 then [1, 15] else []"] show ?thesis
    by (auto simp: SIGTERM_def intro!: exI [of _ 3])
qed

text \<open>
  A daemon's full name is always \<^verbatim>\<open>mink.<type>.<id>\<close>: creation accepts exactly the
  identifiers and types shorter than 30 characters and makes the new daemon the current
  one, a change of identifier changes the name with it or is refused with 1 and
  changes nothing, and the name fits the \<open>|id| + |type| + 7\<close> bytes allocated for it.
\<close>

theorem umd_name_consistent:
  assumes "umd_create a (Some i) (Some t) e = (r, e1)" and "umd_set_id (Some a) (Some j) e1 = (rc, e2)"
  shows "(r = Some a \<longleftrightarrow> length i < 30 \<and> length t < 30) \<and> (r \<noteq> Some a \<longrightarrow> r = None \<and> e1 = e) \<and>
    (r = Some a \<longrightarrow> umd_cur e1 = Some a \<and> umd_fqn (umd_heap e1 a) = ''mink.'' @ t @ ''.'' @ i \<and>
       length (umd_fqn (umd_heap e1 a)) + 1 \<le> length i + length t + 7 \<and>
       (rc = 0 \<longleftrightarrow> length j < 30) \<and>
       (rc = 0 \<longrightarrow> umd_id (umd_heap e2 a) = j \<and> umd_fqn (umd_heap e2 a) = ''mink.'' @ t @ ''.'' @ j) \<and>
       (rc \<noteq> 0 \<longrightarrow> rc = 1 \<and> e2 = e1))"
  using assms by (auto simp: umd_create_def umd_set_id_def UMD_ID_MAX_SZ_def make_fqn_def split: if_splits)

lemma umd_name_consistent_witness:
  "umd_fqn (umd_heap (snd (umd_set_id (Some 7) (Some ''agent'')
     (snd (umd_create 7 (Some []) (Some ''umsysagent'') umd_env0)))) 7) = ''mink.umsysagent.agent''"
proof -
  let ?e1 = "snd (umd_create 7 (Some []) (Some ''umsysagent'') umd_env0)"
  have c: "umd_create 7 (Some []) (Some ''umsysagent'') umd_env0 = (Some 7, ?e1)"
    and s: "umd_set_id (Some 7) (Some ''agent'') ?e1 = (0, snd (umd_set_id (Some 7) (Some ''agent'') ?e1))"
    by (simp_all add: umd_create_def umd_set_id_def UMD_ID_MAX_SZ_def)
  from umd_name_consistent [OF c s] show ?thesis by simp
qed

end
