(* ===== verification/Umplg.thy ===== *)
theory Umplg
  imports Uthash Utarray
begin

text \<open>
  The plugin manager: \<^verbatim>\<open>src/src/include/umink_plugin.h\<close> and
  \<^verbatim>\<open>src/src/utils/umink_plugin.c\<close>.

  Plugins are shared objects and signals are handled through function pointers, so the code
  behind a pointer is a parameter of the model: an \<open>hcode\<close> record gives, for every function
  address, what a call does to the manager and to the rest of the program (\<open>wld\<close>). The
  result of the dynamic loader is the parameter \<open>dl\<close>, and the address that \<^verbatim>\<open>realloc\<close>
  returns when the plugin array grows is the argument \<open>mem\<close>. The manager records in \<open>evs\<close>
  the calls whose number and order matter: \<^verbatim>\<open>dlclose\<close>, \<^verbatim>\<open>free\<close> of a signal descriptor, and the
  termination handlers.
\<close>

section \<open>Data\<close>

datatype umplg_cmd_t =
    UNKNWON_COMMAND | CMD_GET_SYSINFO | CMD_GET_CPUSTATS | CMD_GET_MEMINFO | CMD_GET_UNAME
  | CMD_GET_PROCESS_LST | CMD_GET_FILE_STAT | CMD_UBUS_CALL | CMD_SHELL_EXEC | CMD_SET_DATA
  | CMD_RUN_RULES | CMD_LOAD_RULES | CMD_AUTH | CMD_SOCKET_PROXY | CMD_FIRMWARE_UPDATE
  | CMD_SYSLOG_START | CMD_SYSLOG_STOP | CMD_REMOTE_EXEC_START | CMD_REMOTE_EXEC_STOP
  | CMD_GET_SYSMON_DATA | CMD_NET_TCP_SEND | CMD_CG2_GROUP_CREATE | CMD_CG2_GROUP_DELETE
  | CMD_CG2_GROUPS_LST | CMD_CG2_CONTROLLER_GET | CMD_CG2_CONTROLLER_SET
  | CMD_CG2_CONTROLLERS_LST | CMD_SYSD_FWLD_GET_ZONES | CMD_SYSD_FWLD_GET_RICH_RULES
  | CMD_SYSD_FWLD_ADD_RICH_RULE | CMD_SYSD_FWLD_DEL_RICH_RULE | CMD_SYSD_FWLD_RELOAD
  | CMD_MODBUS_WRITE_BIT | CMD_MODBUS_READ_BITS | CMD_NDPI_GET_STATS | CMD_MQTT_PUBLISH
  | CMD_LUA_CALL | CMD_MQTT_BINARY_UPLOAD

text \<open>The numbers of the C enumeration.\<close>

primrec cmd_num :: "umplg_cmd_t \<Rightarrow> int" where
  "cmd_num UNKNWON_COMMAND = 0"
| "cmd_num CMD_GET_SYSINFO = 1"
| "cmd_num CMD_GET_CPUSTATS = 2"
| "cmd_num CMD_GET_MEMINFO = 3"
| "cmd_num CMD_GET_UNAME = 4"
| "cmd_num CMD_GET_PROCESS_LST = 5"
| "cmd_num CMD_GET_FILE_STAT = 6"
| "cmd_num CMD_UBUS_CALL = 7"
| "cmd_num CMD_SHELL_EXEC = 8"
| "cmd_num CMD_SET_DATA = 9"
| "cmd_num CMD_RUN_RULES = 10"
| "cmd_num CMD_LOAD_RULES = 11"
| "cmd_num CMD_AUTH = 12"
| "cmd_num CMD_SOCKET_PROXY = 13"
| "cmd_num CMD_FIRMWARE_UPDATE = 14"
| "cmd_num CMD_SYSLOG_START = 15"
| "cmd_num CMD_SYSLOG_STOP = 16"
| "cmd_num CMD_REMOTE_EXEC_START = 17"
| "cmd_num CMD_REMOTE_EXEC_STOP = 18"
| "cmd_num CMD_GET_SYSMON_DATA = 19"
| "cmd_num CMD_NET_TCP_SEND = 20"
| "cmd_num CMD_CG2_GROUP_CREATE = 21"
| "cmd_num CMD_CG2_GROUP_DELETE = 22"
| "cmd_num CMD_CG2_GROUPS_LST = 23"
| "cmd_num CMD_CG2_CONTROLLER_GET = 24"
| "cmd_num CMD_CG2_CONTROLLER_SET = 25"
| "cmd_num CMD_CG2_CONTROLLERS_LST = 26"
| "cmd_num CMD_SYSD_FWLD_GET_ZONES = 27"
| "cmd_num CMD_SYSD_FWLD_GET_RICH_RULES = 28"
| "cmd_num CMD_SYSD_FWLD_ADD_RICH_RULE = 29"
| "cmd_num CMD_SYSD_FWLD_DEL_RICH_RULE = 30"
| "cmd_num CMD_SYSD_FWLD_RELOAD = 31"
| "cmd_num CMD_MODBUS_WRITE_BIT = 32"
| "cmd_num CMD_MODBUS_READ_BITS = 33"
| "cmd_num CMD_NDPI_GET_STATS = 34"
| "cmd_num CMD_MQTT_PUBLISH = 35"
| "cmd_num CMD_LUA_CALL = 36"
| "cmd_num CMD_MQTT_BINARY_UPLOAD = 37"

datatype umplg_ret_t =
    UMPLG_RES_SUCCESS | UMPLG_RES_UNKNOWN_SIGNAL | UMPLG_RES_AUTH_ERROR
  | UMPLG_RES_SIG_INIT_FAILED | UMPLG_RES_SIG_SETUP_FAILED | UMPLG_RES_SIG_EXEC_FAILED
  | UMPLG_RES_BUFFER_OVERFLOW | UMPLG_RES_INVALID_TYPE

primrec ret_num :: "umplg_ret_t \<Rightarrow> int" where
  "ret_num UMPLG_RES_SUCCESS = 0"
| "ret_num UMPLG_RES_UNKNOWN_SIGNAL = 1"
| "ret_num UMPLG_RES_AUTH_ERROR = 2"
| "ret_num UMPLG_RES_SIG_INIT_FAILED = 3"
| "ret_num UMPLG_RES_SIG_SETUP_FAILED = 4"
| "ret_num UMPLG_RES_SIG_EXEC_FAILED = 5"
| "ret_num UMPLG_RES_BUFFER_OVERFLOW = 6"
| "ret_num UMPLG_RES_INVALID_TYPE = 7"

type_synonym fptr = nat
type_synonym sh_ptr = nat

record umplg_cmd_map =
  cm_id :: int
  cm_name :: string

datatype umplgd_type = UMPLG_DT_UNKNOWN | UMPLG_DT_JSON_RPC | UMPLG_DT_SPECIFIC | UMPLG_DT_STANDARD

record umplg_data_std_item =
  it_name :: string
  it_value :: string

type_synonym umplg_data_std_items = "(string, umplg_data_std_item) uthash"

record umplg_data_std =
  items :: "umplg_data_std_items ut_array option"

text \<open>The \<^verbatim>\<open>void *data\<close> of a request is an address or the standard format.\<close>

record umplg_idata =
  id_type :: umplgd_type
  id_data :: "umplg_data_std option"

record umplgd =
  pd_handle :: nat
  pd_name :: string
  pd_type :: int
  pd_cmdh :: fptr
  pd_cmdh_l :: "fptr option"
  pd_termh :: fptr
  pd_data :: "nat option"
  pd_terminated :: bool

record umplg_hkd =
  hk_id :: int
  hk_plgp :: elt_ptr

record umplg_sh =
  sh_id :: string
  sh_init :: "fptr option"
  sh_run :: fptr
  sh_term :: "fptr option"
  sh_args :: "nat option"
  sh_running :: bool
  sh_min_auth_lvl :: u16
  sh_terminated :: bool

text \<open>
  Hook descriptors and command mappings never change once added, so their tables hold the
  structures themselves; signal descriptors are changed while registered and live in
  \<open>sh_mem\<close>.
\<close>

datatype umplg_ev =
    Ev_dlclose nat
  | Ev_sh_term sh_ptr int
  | Ev_sh_free sh_ptr
  | Ev_plg_term nat int

record 'w umplg_mngr =
  plgs :: "umplgd ut_array"
  hooks :: "(int, umplg_hkd) uthash"
  signals :: "(string, sh_ptr) uthash"
  cmd_map :: "(string, umplg_cmd_map) uthash"
  cfg :: "nat option"
  sh_mem :: "sh_ptr \<Rightarrow> umplg_sh"
  evs :: "umplg_ev list"
  wld :: 'w

record sig_io =
  io_in :: "umplg_data_std option"
  io_out :: "string option"
  io_out_sz :: nat
  io_args :: "nat option"

text \<open>What calling a handler does, by address.\<close>

record 'w hcode =
  call_init :: "fptr \<Rightarrow> elt_ptr \<Rightarrow> 'w umplg_mngr \<Rightarrow> int \<times> 'w umplg_mngr"
  call_term :: "fptr \<Rightarrow> elt_ptr \<Rightarrow> int \<Rightarrow> 'w umplg_mngr \<Rightarrow> 'w umplg_mngr"
  call_cmd :: "fptr \<Rightarrow> elt_ptr \<Rightarrow> int \<Rightarrow> umplg_idata \<Rightarrow> 'w umplg_mngr \<Rightarrow> int \<times> umplg_idata \<times> 'w umplg_mngr"
  call_sh_init :: "fptr \<Rightarrow> sh_ptr \<Rightarrow> 'w umplg_mngr \<Rightarrow> int \<times> 'w umplg_mngr"
  call_sh_run :: "fptr \<Rightarrow> sh_ptr \<Rightarrow> sig_io \<Rightarrow> 'w umplg_mngr \<Rightarrow> int \<times> sig_io \<times> 'w umplg_mngr"
  call_sh_term :: "fptr \<Rightarrow> sh_ptr \<Rightarrow> int \<Rightarrow> 'w umplg_mngr \<Rightarrow> 'w umplg_mngr"

text \<open>
  A shared object: its handle and the five symbols looked up in it. \<^verbatim>\<open>COMMANDS\<close> is the
  memory of the array; it is read up to the first \<open>-1\<close>.
\<close>

record dl_obj =
  dl_handle :: nat
  dl_COMMANDS :: "int list option"
  dl_init :: "fptr option"
  dl_terminate :: "fptr option"
  dl_run :: "fptr option"
  dl_run_local :: "fptr option"

definition reg_hooks :: "int list \<Rightarrow> int list" where
  "reg_hooks cmds = takeWhile (\<lambda>c. c \<noteq> - 1) cmds"

section \<open>Operations\<close>

definition log_ev :: "umplg_ev \<Rightarrow> 'w umplg_mngr \<Rightarrow> 'w umplg_mngr" where
  "log_ev e pm = pm\<lparr>evs := evs pm @ [e]\<rparr>"

text \<open>The loop that attaches the hooks of a plugin.\<close>

definition add_hook :: "elt_ptr \<Rightarrow> int \<Rightarrow> 'w umplg_mngr \<Rightarrow> 'w umplg_mngr" where
  "add_hook pdp c pm = pm\<lparr>hooks := HASH_ADD (hooks pm) c \<lparr>hk_id = c, hk_plgp = pdp\<rparr>\<rparr>"

definition umplg_load ::
  "'w hcode \<Rightarrow> (string \<Rightarrow> dl_obj option) \<Rightarrow> nat \<Rightarrow> 'w umplg_mngr \<Rightarrow> string \<Rightarrow> elt_ptr option \<times> 'w umplg_mngr"
where
  "umplg_load hs dl mem pm fpath =
     (case dl fpath of
        None \<Rightarrow> (None, pm)
      | Some h \<Rightarrow>
        (case (dl_COMMANDS h, dl_init h, dl_terminate h, dl_run h) of
           (Some cmds, Some init, Some term, Some cmdh) \<Rightarrow>
             if \<exists>c \<in> set (reg_hooks cmds). HASH_FIND (hooks pm) c \<noteq> None
             then (None, log_ev (Ev_dlclose (dl_handle h)) pm)
             else
               let pd = \<lparr>pd_handle = dl_handle h, pd_name = fpath, pd_type = 0, pd_cmdh = cmdh,
                         pd_cmdh_l = dl_run_local h, pd_termh = term, pd_data = None,
                         pd_terminated = False\<rparr>;
                   pm1 = pm\<lparr>plgs := utarray_push_back mem (plgs pm) pd\<rparr>;
                   pdp = the (utarray_back (plgs pm1));
                   pm2 = fold (add_hook pdp) (reg_hooks cmds) pm1
               in (Some pdp, snd (call_init hs init pdp pm2))
         | _ \<Rightarrow> (None, log_ev (Ev_dlclose (dl_handle h)) pm)))"

definition umplg_unload :: "'w umplg_mngr \<Rightarrow> elt_ptr \<Rightarrow> int \<times> 'w umplg_mngr" where
  "umplg_unload pm pd = (0, pm)"

text \<open>
  \<open>None\<close> is the dereference of a pointer into a plugin array that has been moved, which the
  C program does not detect.
\<close>

definition umplg_run ::
  "'w hcode \<Rightarrow> 'w umplg_mngr \<Rightarrow> int \<Rightarrow> umplg_idata \<Rightarrow> bool \<Rightarrow> (int \<times> umplg_idata \<times> 'w umplg_mngr) option"
where
  "umplg_run hs pm cmd_id data is_local =
     (case HASH_FIND (hooks pm) cmd_id of
        None \<Rightarrow> Some (1, data, pm)
      | Some hook \<Rightarrow>
        (case elt_deref (plgs pm) (hk_plgp hook) of
           None \<Rightarrow> None
         | Some pd \<Rightarrow>
             if is_local then
               (case pd_cmdh_l pd of
                  Some f \<Rightarrow> Some (call_cmd hs f (hk_plgp hook) cmd_id data pm)
                | None \<Rightarrow> Some (- 1, data, pm))
             else Some (call_cmd hs (pd_cmdh pd) (hk_plgp hook) cmd_id data pm)))"

definition umplg_reg_signal :: "'w hcode \<Rightarrow> 'w umplg_mngr \<Rightarrow> sh_ptr \<Rightarrow> int \<times> 'w umplg_mngr" where
  "umplg_reg_signal hs pm sh =
     (case HASH_FIND (signals pm) (sh_id (sh_mem pm sh)) of
        Some _ \<Rightarrow> (1, pm)
      | None \<Rightarrow>
          let (ires, pm1) = (case sh_init (sh_mem pm sh) of
                               None \<Rightarrow> (0, pm)
                             | Some f \<Rightarrow> call_sh_init hs f sh pm)
          in if ires \<noteq> 0 then (ires, pm1)
             else (0, pm1\<lparr>signals := HASH_ADD (signals pm1) (sh_id (sh_mem pm1 sh)) sh\<rparr>))"

definition umplg_proc_signal ::
  "'w hcode \<Rightarrow> 'w umplg_mngr \<Rightarrow> string option \<Rightarrow> sig_io \<Rightarrow> int \<Rightarrow> int \<times> sig_io \<times> 'w umplg_mngr"
where
  "umplg_proc_signal hs pm s io usr_flags =
     (case s of
        None \<Rightarrow> (ret_num UMPLG_RES_UNKNOWN_SIGNAL, io, pm)
      | Some nm \<Rightarrow>
        (case HASH_FIND (signals pm) nm of
           None \<Rightarrow> (ret_num UMPLG_RES_UNKNOWN_SIGNAL, io, pm)
         | Some p \<Rightarrow>
             if usr_flags < int (unat (sh_min_auth_lvl (sh_mem pm p)))
             then (ret_num UMPLG_RES_AUTH_ERROR, io, pm)
             else call_sh_run hs (sh_run (sh_mem pm p)) p io pm))"

text \<open>\<^verbatim>\<open>fnmatch(ptrn, id, 0) == 0\<close> is the parameter \<open>fnm\<close>, the callback \<open>cb\<close>.\<close>

definition umplg_match_signal ::
  "(string \<Rightarrow> string \<Rightarrow> bool) \<Rightarrow> 'w umplg_mngr \<Rightarrow> string \<Rightarrow> (sh_ptr \<Rightarrow> 'w umplg_mngr \<Rightarrow> 'w umplg_mngr) \<Rightarrow> 'w umplg_mngr"
where
  "umplg_match_signal fnm pm ptrn cb =
     fold (\<lambda>p m. if fnm ptrn (sh_id (sh_mem m p)) then cb p m else m) (HASH_ITER (signals pm)) pm"

definition add_cmd_id_map_item :: "int \<Rightarrow> string \<Rightarrow> 'w umplg_mngr \<Rightarrow> 'w umplg_mngr" where
  "add_cmd_id_map_item cmd_id name pm =
     pm\<lparr>cmd_map := HASH_ADD (cmd_map pm) name \<lparr>cm_id = cmd_id, cm_name = name\<rparr>\<rparr>"

text \<open>
  \<^verbatim>\<open>malloc\<close> leaves \<^verbatim>\<open>cfg\<close> as it is in memory (\<open>cfg0\<close>); \<open>mem0\<close> is the memory the signal
  descriptors will be created in.
\<close>

definition umplg_new_mngr :: "nat option \<Rightarrow> (sh_ptr \<Rightarrow> umplg_sh) \<Rightarrow> 'w \<Rightarrow> 'w umplg_mngr" where
  "umplg_new_mngr cfg0 mem0 w =
     add_cmd_id_map_item (cmd_num CMD_MQTT_BINARY_UPLOAD) ''CMD_MQTT_BINARY_UPLOAD''
      (add_cmd_id_map_item (cmd_num CMD_LUA_CALL) ''CMD_LUA_CALL''
        (add_cmd_id_map_item (cmd_num CMD_MQTT_PUBLISH) ''CMD_MQTT_PUBLISH''
          (add_cmd_id_map_item (cmd_num UNKNWON_COMMAND) ''UNKNWON_COMMAND''
            \<lparr>plgs = utarray_new, hooks = [], signals = [], cmd_map = [], cfg = cfg0, sh_mem = mem0,
             evs = [], wld = w\<rparr>)))"

definition umplg_get_cmd_id :: "'w umplg_mngr \<Rightarrow> string \<Rightarrow> int" where
  "umplg_get_cmd_id pm cmd_str =
     (case HASH_FIND (cmd_map pm) cmd_str of Some cmd \<Rightarrow> cm_id cmd | None \<Rightarrow> - 1)"

text \<open>
  Teardown. The loops of \<^verbatim>\<open>umplg_free_mngr\<close> and \<^verbatim>\<open>umplg_terminate_all\<close>, one
  definition per iteration. The plugin loops run over the plugins loaded when they start;
  termination handlers load none.
\<close>

definition sh_term_call :: "'w hcode \<Rightarrow> fptr \<Rightarrow> sh_ptr \<Rightarrow> int \<Rightarrow> 'w umplg_mngr \<Rightarrow> 'w umplg_mngr" where
  "sh_term_call hs f p phase pm = call_sh_term hs f p phase (log_ev (Ev_sh_term p phase) pm)"

definition plg_term_call :: "'w hcode \<Rightarrow> nat \<Rightarrow> int \<Rightarrow> 'w umplg_mngr \<Rightarrow> 'w umplg_mngr" where
  "plg_term_call hs j phase pm =
     call_term hs (pd_termh (arr_elts (plgs pm) ! j)) (arr_d (plgs pm), j) phase
       (log_ev (Ev_plg_term j phase) pm)"

definition free_signal :: "'w hcode \<Rightarrow> sh_ptr \<Rightarrow> 'w umplg_mngr \<Rightarrow> 'w umplg_mngr" where
  "free_signal hs p pm =
     (let pm1 = pm\<lparr>signals := HASH_DEL (signals pm) p\<rparr>;
          pm2 = (case sh_term (sh_mem pm1 p) of
                   Some f \<Rightarrow> if \<not> sh_terminated (sh_mem pm1 p)
                             then sh_term_call hs f p 1 (sh_term_call hs f p 0 pm1) else pm1
                 | None \<Rightarrow> pm1)
      in log_ev (Ev_sh_free p) pm2)"

definition free_plugin :: "'w hcode \<Rightarrow> nat \<Rightarrow> 'w umplg_mngr \<Rightarrow> 'w umplg_mngr" where
  "free_plugin hs j pm =
     (let pm1 = (if \<not> pd_terminated (arr_elts (plgs pm) ! j)
                 then plg_term_call hs j 1 (plg_term_call hs j 0 pm) else pm)
      in log_ev (Ev_dlclose (pd_handle (arr_elts (plgs pm1) ! j))) pm1)"

definition umplg_free_mngr :: "'w hcode \<Rightarrow> 'w umplg_mngr \<Rightarrow> 'w umplg_mngr" where
  "umplg_free_mngr hs pm =
     (let pm1 = fold (free_signal hs) (HASH_ITER (signals pm)) pm;
          pm2 = pm1\<lparr>hooks := uth.drain (hooks pm1)\<rparr>;
          pm3 = pm2\<lparr>cmd_map := uth.drain (cmd_map pm2)\<rparr>;
          pm4 = fold (free_plugin hs) [0..<utarray_len (plgs pm3)] pm3
      in pm4\<lparr>plgs := utarray_new\<rparr>)"

definition terminate_signal :: "'w hcode \<Rightarrow> int \<Rightarrow> sh_ptr \<Rightarrow> 'w umplg_mngr \<Rightarrow> 'w umplg_mngr" where
  "terminate_signal hs phase p pm =
     (case sh_term (sh_mem pm p) of
        Some f \<Rightarrow>
          let pm1 = sh_term_call hs f p phase pm
          in pm1\<lparr>sh_mem := (sh_mem pm1)(p := (sh_mem pm1 p)\<lparr>sh_terminated := True\<rparr>)\<rparr>
      | None \<Rightarrow> pm)"

definition terminate_plugin :: "'w hcode \<Rightarrow> int \<Rightarrow> nat \<Rightarrow> 'w umplg_mngr \<Rightarrow> 'w umplg_mngr" where
  "terminate_plugin hs phase j pm =
     (let pm1 = plg_term_call hs j phase pm; a = plgs pm1
      in pm1\<lparr>plgs := a\<lparr>arr_elts := (arr_elts a)[j := (arr_elts a ! j)\<lparr>pd_terminated := True\<rparr>]\<rparr>\<rparr>)"

definition umplg_terminate_all :: "'w hcode \<Rightarrow> int \<Rightarrow> 'w umplg_mngr \<Rightarrow> 'w umplg_mngr" where
  "umplg_terminate_all hs phase pm =
     (let pm1 = fold (terminate_signal hs phase) (HASH_ITER (signals pm)) pm
      in fold (terminate_plugin hs phase) [0..<utarray_len (plgs pm1)] pm1)"

section \<open>The standard data format\<close>

definition std_items_copy :: "umplg_data_std_items \<Rightarrow> umplg_data_std_items" where
  "std_items_copy src =
     fold (\<lambda>s dst. HASH_ADD dst (it_name s) \<lparr>it_name = it_name s, it_value = it_value s\<rparr>)
       (HASH_ITER src) []"

definition std_items_dtor :: "umplg_data_std_items \<Rightarrow> umplg_data_std_items" where
  "std_items_dtor elt = uth.drain elt"

definition umplg_stdd_init :: "umplg_data_std option \<Rightarrow> umplg_data_std option" where
  "umplg_stdd_init data =
     (case data of
        None \<Rightarrow> None
      | Some d \<Rightarrow> (case items d of
                    None \<Rightarrow> Some (d\<lparr>items := Some utarray_new\<rparr>)
                  | Some _ \<Rightarrow> Some d))"

text \<open>What \<^verbatim>\<open>utarray_free\<close> leaves of every table of the array.\<close>

definition umplg_stdd_free :: "umplg_data_std option \<Rightarrow> umplg_data_std_items list" where
  "umplg_stdd_free data =
     (case data of
        None \<Rightarrow> []
      | Some d \<Rightarrow> (case items d of None \<Rightarrow> [] | Some a \<Rightarrow> map std_items_dtor (arr_elts a)))"

definition umplg_stdd_items_add ::
  "nat \<Rightarrow> umplg_data_std option \<Rightarrow> umplg_data_std_items option \<Rightarrow> int \<times> umplg_data_std option"
where
  "umplg_stdd_items_add mem data its =
     (case (data, its) of
        (Some d, Some t) \<Rightarrow>
          let d1 = (case items d of None \<Rightarrow> the (umplg_stdd_init (Some d)) | Some _ \<Rightarrow> d)
          in (0, Some (d1\<lparr>items := Some (utarray_push_back mem (the (items d1)) (std_items_copy t))\<rparr>))
      | _ \<Rightarrow> (1, data))"

definition umplg_stdd_item_add ::
  "umplg_data_std_items option \<Rightarrow> umplg_data_std_item option \<Rightarrow> int \<times> umplg_data_std_items option"
where
  "umplg_stdd_item_add its item =
     (case (its, item) of
        (Some t, Some i) \<Rightarrow> (0, Some (HASH_ADD t (it_name i) i))
      | _ \<Rightarrow> (1, its))"

section \<open>Loading and dispatch\<close>

text \<open>
  What the manager relies on in an initialisation handler: it may fill the \<^verbatim>\<open>data\<close> of plugin
  descriptors and register signals, and leaves the hooks and the rest of the plugin array alone.
\<close>

definition pd_core :: "umplgd \<Rightarrow> umplgd" where
  "pd_core pd = pd\<lparr>pd_data := None\<rparr>"

definition init_frame :: "'w hcode \<Rightarrow> bool" where
  "init_frame hs \<longleftrightarrow> (\<forall>f p pm. let pm' = snd (call_init hs f p pm) in
     hooks pm' = hooks pm \<and> arr_n (plgs pm') = arr_n (plgs pm) \<and> arr_d (plgs pm') = arr_d (plgs pm) \<and>
     map pd_core (arr_elts (plgs pm')) = map pd_core (arr_elts (plgs pm)))"

text \<open>Every hook points to the live descriptor of a plugin that asked for it.\<close>

definition hooks_ok :: "(string \<Rightarrow> dl_obj option) \<Rightarrow> 'w umplg_mngr \<Rightarrow> bool" where
  "hooks_ok dl pm \<longleftrightarrow> utarray_wf (plgs pm) \<and>
     (\<forall>c hk. HASH_FIND (hooks pm) c = Some hk \<longrightarrow>
        (\<exists>pd h cmds. elt_deref (plgs pm) (hk_plgp hk) = Some pd \<and> dl (pd_name pd) = Some h \<and>
           dl_COMMANDS h = Some cmds \<and> c \<in> set (reg_hooks cmds) \<and>
           dl_run h = Some (pd_cmdh pd) \<and> dl_run_local h = pd_cmdh_l pd))"

lemma hooks_okD:
  assumes "hooks_ok dl pm" and "HASH_FIND (hooks pm) c = Some hk"
  obtains pd h cmds where "elt_deref (plgs pm) (hk_plgp hk) = Some pd" "dl (pd_name pd) = Some h"
    "dl_COMMANDS h = Some cmds" "c \<in> set (reg_hooks cmds)" "dl_run h = Some (pd_cmdh pd)"
    "dl_run_local h = pd_cmdh_l pd"
  using assms unfolding hooks_ok_def by blast

lemma fold_add_hook:
  "fold (add_hook p) cs pm = pm\<lparr>hooks := hooks (fold (add_hook p) cs pm)\<rparr>"
  "HASH_FIND (hooks (fold (add_hook p) cs pm)) c =
     (if c \<in> set cs then Some \<lparr>hk_id = c, hk_plgp = p\<rparr> else HASH_FIND (hooks pm) c)"
proof (induction cs arbitrary: pm)
  case (Cons a cs)
  { case 1 show ?case using Cons.IH(1) [of "add_hook p a pm"] by (simp add: add_hook_def) }
  { case 2 show ?case using Cons.IH(2) [of "add_hook p a pm"] by (auto simp: add_hook_def HASH_FIND_ADD) }
qed simp_all

lemma fold_add_hook_plgs [simp]: "plgs (fold (add_hook p) cs pm) = plgs pm"
  by (subst fold_add_hook(1)) simp

text \<open>A successful load, taken apart.\<close>

lemma umplg_load_SomeD:
  assumes "umplg_load hs dl mem pm fpath = (Some p, pm')"
  obtains h cmds init pd pm2 where
    "dl fpath = Some h" "dl_COMMANDS h = Some cmds" "pd_name pd = fpath"
    "dl_run h = Some (pd_cmdh pd)" "dl_run_local h = pd_cmdh_l pd"
    "\<forall>c \<in> set (reg_hooks cmds). HASH_FIND (hooks pm) c = None"
    "p = (arr_d (utarray_push_back mem (plgs pm) pd), utarray_len (plgs pm))"
    "pm2 = fold (add_hook p) (reg_hooks cmds) (pm\<lparr>plgs := utarray_push_back mem (plgs pm) pd\<rparr>)"
    "pm' = snd (call_init hs init p pm2)"
proof -
  obtain h cmds init trm cmdh where d: "dl fpath = Some h" "dl_COMMANDS h = Some cmds"
    "dl_init h = Some init" "dl_terminate h = Some trm" "dl_run h = Some cmdh"
    using assms by (simp add: umplg_load_def split: option.splits)
  have free: "\<forall>c \<in> set (reg_hooks cmds). HASH_FIND (hooks pm) c = None"
    using assms d by (fastforce simp: umplg_load_def split: if_splits)
  let ?pd = "\<lparr>pd_handle = dl_handle h, pd_name = fpath, pd_type = 0, pd_cmdh = cmdh,
     pd_cmdh_l = dl_run_local h, pd_termh = trm, pd_data = None, pd_terminated = False\<rparr>"
  have "p = (arr_d (utarray_push_back mem (plgs pm) ?pd), utarray_len (plgs pm))"
    "pm' = snd (call_init hs init p (fold (add_hook p) (reg_hooks cmds)
        (pm\<lparr>plgs := utarray_push_back mem (plgs pm) ?pd\<rparr>)))"
    using assms d free by (auto simp: umplg_load_def Let_def utarray_back_push_back)
  with d free show ?thesis by (intro that [of h cmds ?pd _ init]) simp_all
qed

lemma umplg_load_NoneD:
  assumes "umplg_load hs dl mem pm fpath = (None, pm')"
  shows "pm' = pm\<lparr>evs := evs pm @ (case dl fpath of None \<Rightarrow> [] | Some h \<Rightarrow> [Ev_dlclose (dl_handle h)])\<rparr>"
  using assms by (auto simp: umplg_load_def log_ev_def Let_def split: option.splits if_splits)

text \<open>Descriptors seen through a pointer, up to the data the plugin fills in.\<close>

lemma elt_deref_core:
  assumes "arr_d a' = arr_d a" and "map pd_core (arr_elts a') = map pd_core (arr_elts a)"
  shows "map_option pd_core (elt_deref a' p) = map_option pd_core (elt_deref a p)"
proof -
  have l: "length (arr_elts a') = length (arr_elts a)" using assms(2) map_eq_imp_length_eq by blast
  show ?thesis
  proof (cases "snd p < length (arr_elts a)")
    case True
    with l have "pd_core (arr_elts a' ! snd p) = pd_core (arr_elts a ! snd p)"
      using assms(2) by (metis nth_map)
    with True l assms(1) show ?thesis by (simp add: elt_deref_def utarray_len_def)
  qed (simp add: elt_deref_def utarray_len_def l)
qed

lemma pd_core_eqD:
  "pd_core a = pd_core b \<Longrightarrow> pd_name a = pd_name b \<and> pd_cmdh a = pd_cmdh b \<and>
     pd_cmdh_l a = pd_cmdh_l b \<and> pd_termh a = pd_termh b \<and> pd_handle a = pd_handle b"
  by (cases a, cases b) (simp add: pd_core_def)

lemma hooks_ok_init:
  assumes "init_frame hs" and "hooks_ok dl pm"
  shows "hooks_ok dl (snd (call_init hs f p pm))"
proof -
  let ?pm' = "snd (call_init hs f p pm)"
  have fr: "hooks ?pm' = hooks pm" "arr_n (plgs ?pm') = arr_n (plgs pm)"
    "arr_d (plgs ?pm') = arr_d (plgs pm)"
    "map pd_core (arr_elts (plgs ?pm')) = map pd_core (arr_elts (plgs pm))"
    using assms(1) unfolding init_frame_def Let_def by blast+
  have len: "length (arr_elts (plgs ?pm')) = length (arr_elts (plgs pm))"
    using fr(4) map_eq_imp_length_eq by blast
  have "utarray_wf (plgs ?pm')"
    using assms(2) fr(2) len by (simp add: hooks_ok_def utarray_wf_def utarray_len_def)
  moreover have "\<exists>pd h cmds. elt_deref (plgs ?pm') (hk_plgp hk) = Some pd \<and> dl (pd_name pd) = Some h \<and>
      dl_COMMANDS h = Some cmds \<and> c \<in> set (reg_hooks cmds) \<and> dl_run h = Some (pd_cmdh pd) \<and>
      dl_run_local h = pd_cmdh_l pd" if "HASH_FIND (hooks pm) c = Some hk" for c hk
  proof -
    from hooks_okD [OF assms(2) that] obtain pd h cmds where
      pd: "elt_deref (plgs pm) (hk_plgp hk) = Some pd" "dl (pd_name pd) = Some h"
        "dl_COMMANDS h = Some cmds" "c \<in> set (reg_hooks cmds)" "dl_run h = Some (pd_cmdh pd)"
        "dl_run_local h = pd_cmdh_l pd" by blast
    from elt_deref_core [OF fr(3,4), of "hk_plgp hk"] pd(1) obtain pd' where
      "elt_deref (plgs ?pm') (hk_plgp hk) = Some pd'" "pd_core pd' = pd_core pd" by auto
    with pd show ?thesis using pd_core_eqD [of pd' pd] by auto
  qed
  ultimately show ?thesis unfolding hooks_ok_def fr(1) by blast
qed

text \<open>
  As long as the plugin array is not moved, a load keeps every earlier hook and adds the
  plugin's own.
\<close>

definition array_stays :: "nat \<Rightarrow> 'a ut_array \<Rightarrow> bool" where
  "array_stays mem a \<longleftrightarrow> utarray_len a < arr_n a \<or> arr_elts a = [] \<or> mem = arr_d a"

lemma elt_deref_push_back_stays:
  "array_stays mem a \<Longrightarrow> elt_deref a p = Some y \<Longrightarrow> elt_deref (utarray_push_back mem a x) p = Some y"
  by (auto simp: array_stays_def elt_deref_def utarray_len_def utarray_push_back_def
      utarray_reserve_nat_def nth_append Let_def split: if_splits)

lemma hooks_ok_load:
  assumes "init_frame hs" and "hooks_ok dl pm" and "array_stays mem (plgs pm)"
  shows "hooks_ok dl (snd (umplg_load hs dl mem pm fpath))"
proof (cases "umplg_load hs dl mem pm fpath")
  case (Pair r pm')
  show ?thesis
  proof (cases r)
    case None
    with Pair umplg_load_NoneD [of hs dl mem pm fpath pm'] assms(2) show ?thesis
      by (simp add: hooks_ok_def)
  next
    case (Some p)
    with Pair obtain h cmds init pd pm2 where
      d: "dl fpath = Some h" "dl_COMMANDS h = Some cmds" "pd_name pd = fpath"
        "dl_run h = Some (pd_cmdh pd)" "dl_run_local h = pd_cmdh_l pd"
        "\<forall>c \<in> set (reg_hooks cmds). HASH_FIND (hooks pm) c = None"
        "p = (arr_d (utarray_push_back mem (plgs pm) pd), utarray_len (plgs pm))"
        "pm2 = fold (add_hook p) (reg_hooks cmds) (pm\<lparr>plgs := utarray_push_back mem (plgs pm) pd\<rparr>)"
        "pm' = snd (call_init hs init p pm2)"
      by (auto elim: umplg_load_SomeD)
    have new: "elt_deref (plgs pm2) p = Some pd"
      using elt_deref_back [of mem "plgs pm" pd] by (simp add: d(7,8) utarray_back_push_back)
    have "hooks_ok dl pm2"
      unfolding hooks_ok_def
    proof (intro conjI allI impI)
      show "utarray_wf (plgs pm2)"
        using assms(2) by (simp add: d(8) hooks_ok_def utarray_push_back_wf)
      fix c hk assume f: "HASH_FIND (hooks pm2) c = Some hk"
      show "\<exists>pd h cmds. elt_deref (plgs pm2) (hk_plgp hk) = Some pd \<and> dl (pd_name pd) = Some h \<and>
          dl_COMMANDS h = Some cmds \<and> c \<in> set (reg_hooks cmds) \<and> dl_run h = Some (pd_cmdh pd) \<and>
          dl_run_local h = pd_cmdh_l pd"
      proof (cases "c \<in> set (reg_hooks cmds)")
        case True
        with f have "hk_plgp hk = p" by (auto simp: d(8) fold_add_hook(2))
        with new d(1-5) True show ?thesis by (intro exI [of _ pd] exI [of _ h] exI [of _ cmds]) simp
      next
        case False
        with f have "HASH_FIND (hooks pm) c = Some hk" by (simp add: d(8) fold_add_hook(2))
        from hooks_okD [OF assms(2) this] show ?thesis
          using elt_deref_push_back_stays [OF assms(3)] by (simp add: d(8)) metis
      qed
    qed
    with hooks_ok_init [OF assms(1)] Pair d(9) show ?thesis by simp
  qed
qed

text \<open>A sequence of loads, each with the address \<^verbatim>\<open>realloc\<close> gives if it is called.\<close>

primrec umplg_loads ::
  "'w hcode \<Rightarrow> (string \<Rightarrow> dl_obj option) \<Rightarrow> (nat \<times> string) list \<Rightarrow> 'w umplg_mngr \<Rightarrow> 'w umplg_mngr"
where
  "umplg_loads hs dl [] pm = pm"
| "umplg_loads hs dl (x # xs) pm = umplg_loads hs dl xs (snd (umplg_load hs dl (fst x) pm (snd x)))"

lemma umplg_load_len:
  assumes "init_frame hs"
  shows "utarray_len (plgs (snd (umplg_load hs dl mem pm fpath))) \<le> Suc (utarray_len (plgs pm))"
proof (cases "umplg_load hs dl mem pm fpath")
  case (Pair r pm')
  show ?thesis
  proof (cases r)
    case None
    with Pair show ?thesis using umplg_load_NoneD [of hs dl mem pm fpath pm'] by simp
  next
    case (Some p)
    with Pair obtain init pd pm2 cmds where
      "pm2 = fold (add_hook p) cmds (pm\<lparr>plgs := utarray_push_back mem (plgs pm) pd\<rparr>)"
      "pm' = snd (call_init hs init p pm2)"
      by (auto elim: umplg_load_SomeD)
    moreover have "map pd_core (arr_elts (plgs (snd (call_init hs init p pm2)))) = map pd_core (arr_elts (plgs pm2))"
      using assms unfolding init_frame_def Let_def by blast
    ultimately have "length (arr_elts (plgs pm')) = length (arr_elts (plgs pm) @ [pd])"
      by (metis fold_add_hook_plgs map_eq_imp_length_eq umplg_mngr.select_convs(1) umplg_mngr.surjective
          umplg_mngr.update_convs(1) utarray_push_back_elts)
    with Pair show ?thesis by (simp add: utarray_len_def)
  qed
qed

lemma array_stays_small:
  assumes "utarray_wf a" and "utarray_len a < 8"
  shows "array_stays mem a"
proof -
  have "arr_n a = 0 \<or> 8 \<le> arr_n a" using assms(1) by (auto simp: utarray_wf_def)
  with assms show ?thesis by (auto simp: array_stays_def utarray_wf_def utarray_len_def)
qed

lemma hooks_ok_loads:
  "init_frame hs \<Longrightarrow> hooks_ok dl pm \<Longrightarrow> utarray_len (plgs pm) + length xs \<le> 8 \<Longrightarrow>
    hooks_ok dl (umplg_loads hs dl xs pm)"
proof (induction xs arbitrary: pm)
  case (Cons x xs)
  have "utarray_wf (plgs pm)" using Cons.prems(2) by (simp add: hooks_ok_def)
  with Cons.prems have "hooks_ok dl (snd (umplg_load hs dl (fst x) pm (snd x)))"
    by (intro hooks_ok_load array_stays_small) simp_all
  moreover have "utarray_len (plgs (snd (umplg_load hs dl (fst x) pm (snd x)))) + length xs \<le> 8"
    using umplg_load_len [OF Cons.prems(1), of dl "fst x" pm "snd x"] Cons.prems(3) by simp
  ultimately show ?case using Cons.IH Cons.prems(1) by simp
qed simp

lemma new_mngr_sel [simp]:
  "plgs (umplg_new_mngr c m w) = utarray_new" "hooks (umplg_new_mngr c m w) = []"
  "signals (umplg_new_mngr c m w) = []" "evs (umplg_new_mngr c m w) = []"
  "sh_mem (umplg_new_mngr c m w) = m" "wld (umplg_new_mngr c m w) = w"
  by (simp_all add: umplg_new_mngr_def add_cmd_id_map_item_def)

lemma hooks_ok_new: "hooks_ok dl (umplg_new_mngr c m w)"
  by (simp add: hooks_ok_def HASH_FIND_empty)

text \<open>What the dispatcher does with a hook that is in order.\<close>

lemma umplg_run_ok:
  assumes "elt_deref (plgs pm) (hk_plgp hk) = Some pd" and "HASH_FIND (hooks pm) c = Some hk"
  shows "umplg_run hs pm c data loc =
    (case (if loc then pd_cmdh_l pd else Some (pd_cmdh pd)) of
       Some f \<Rightarrow> Some (call_cmd hs f (hk_plgp hk) c data pm)
     | None \<Rightarrow> Some (- 1, data, pm))"
  using assms by (simp add: umplg_run_def split: option.split)

lemma umplg_run_defined:
  assumes "hooks_ok dl pm"
  shows "umplg_run hs pm c data loc \<noteq> None"
proof (cases "HASH_FIND (hooks pm) c")
  case (Some hk)
  from hooks_okD [OF assms Some] obtain pd where "elt_deref (plgs pm) (hk_plgp hk) = Some pd" by blast
  from umplg_run_ok [OF this Some] show ?thesis by (simp add: prod_eq_iff split: option.split) 
qed (simp add: umplg_run_def)

section \<open>Termination\<close>

text \<open>
  What the manager relies on in a termination handler: it works on the rest of the program
  and leaves the manager's structures alone.
\<close>

definition term_frame :: "'w hcode \<Rightarrow> bool" where
  "term_frame hs \<longleftrightarrow> (\<forall>f p ph pm. \<exists>w. call_term hs f p ph pm = pm\<lparr>wld := w\<rparr>) \<and>
     (\<forall>f p ph pm. \<exists>w. call_sh_term hs f p ph pm = pm\<lparr>wld := w\<rparr>)"

lemma sh_term_call_eq:
  "term_frame hs \<Longrightarrow> \<exists>w. sh_term_call hs f p ph pm = pm\<lparr>evs := evs pm @ [Ev_sh_term p ph], wld := w\<rparr>"
proof -
  assume "term_frame hs"
  then obtain w where "call_sh_term hs f p ph (log_ev (Ev_sh_term p ph) pm) = (log_ev (Ev_sh_term p ph) pm)\<lparr>wld := w\<rparr>"
    unfolding term_frame_def by blast
  then show ?thesis by (auto simp: sh_term_call_def log_ev_def)
qed

lemma plg_term_call_eq:
  "term_frame hs \<Longrightarrow> \<exists>w. plg_term_call hs j ph pm = pm\<lparr>evs := evs pm @ [Ev_plg_term j ph], wld := w\<rparr>"
proof -
  assume "term_frame hs"
  then obtain w where "call_term hs (pd_termh (arr_elts (plgs pm) ! j)) (arr_d (plgs pm), j) ph
      (log_ev (Ev_plg_term j ph) pm) = (log_ev (Ev_plg_term j ph) pm)\<lparr>wld := w\<rparr>"
    unfolding term_frame_def by blast
  then show ?thesis by (auto simp: plg_term_call_def log_ev_def)
qed

text \<open>And in the initialisation method of a signal: it registers nothing and renames nothing.\<close>

definition sh_init_frame :: "'w hcode \<Rightarrow> bool" where
  "sh_init_frame hs \<longleftrightarrow> (\<forall>f p pm q. signals (snd (call_sh_init hs f p pm)) = signals pm \<and>
     sh_id (sh_mem (snd (call_sh_init hs f p pm)) q) = sh_id (sh_mem pm q))"

text \<open>Descriptors with the terminated flag set, and the calls of one phase.\<close>

definition mark_sh :: "sh_ptr set \<Rightarrow> (sh_ptr \<Rightarrow> umplg_sh) \<Rightarrow> sh_ptr \<Rightarrow> umplg_sh" where
  "mark_sh P mem p =
     (if p \<in> P \<and> sh_term (mem p) \<noteq> None then (mem p)\<lparr>sh_terminated := True\<rparr> else mem p)"

definition sh_term_evs :: "'w umplg_mngr \<Rightarrow> int \<Rightarrow> sh_ptr list \<Rightarrow> umplg_ev list" where
  "sh_term_evs pm ph ps = map (\<lambda>p. Ev_sh_term p ph) (filter (\<lambda>p. sh_term (sh_mem pm p) \<noteq> None) ps)"

definition term_evs :: "'w umplg_mngr \<Rightarrow> int \<Rightarrow> umplg_ev list" where
  "term_evs pm ph = sh_term_evs pm ph (HASH_ITER (signals pm)) @
     map (\<lambda>j. Ev_plg_term j ph) [0..<utarray_len (plgs pm)]"

definition mark_plg :: "umplgd ut_array \<Rightarrow> umplgd ut_array" where
  "mark_plg a = a\<lparr>arr_elts := map (\<lambda>pd. pd\<lparr>pd_terminated := True\<rparr>) (arr_elts a)\<rparr>"

lemma sh_term_mark [simp]: "sh_term (mark_sh P mem p) = sh_term (mem p)"
  by (simp add: mark_sh_def)

lemma mark_sh_Un: "mark_sh P (mark_sh Q mem) = mark_sh (P \<union> Q) mem"
  by (rule ext) (auto simp: mark_sh_def)

lemma terminate_signal_eq:
  assumes "term_frame hs"
  shows "\<exists>w. terminate_signal hs ph p pm =
    pm\<lparr>evs := evs pm @ sh_term_evs pm ph [p], sh_mem := mark_sh {p} (sh_mem pm), wld := w\<rparr>"
proof (cases "sh_term (sh_mem pm p)")
  case None
  then have "mark_sh {p} (sh_mem pm) = sh_mem pm" by (intro ext) (auto simp: mark_sh_def)
  with None show ?thesis
    by (intro exI [of _ "wld pm"]) (simp add: terminate_signal_def sh_term_evs_def)
next
  case (Some f)
  then have "(sh_mem pm)(p := (sh_mem pm p)\<lparr>sh_terminated := True\<rparr>) = mark_sh {p} (sh_mem pm)"
    by (intro ext) (simp add: mark_sh_def)
  moreover obtain w where "sh_term_call hs f p ph pm = pm\<lparr>evs := evs pm @ [Ev_sh_term p ph], wld := w\<rparr>"
    using sh_term_call_eq [OF assms] by blast
  ultimately show ?thesis using Some
    by (intro exI [of _ w] umplg_mngr.equality) (simp_all add: terminate_signal_def sh_term_evs_def)
qed

lemma fold_terminate_signal:
  assumes "term_frame hs"
  shows "\<exists>w. fold (terminate_signal hs ph) ps pm =
    pm\<lparr>evs := evs pm @ sh_term_evs pm ph ps, sh_mem := mark_sh (set ps) (sh_mem pm), wld := w\<rparr>"
proof (induction ps arbitrary: pm)
  case Nil
  have "mark_sh {} (sh_mem pm) = sh_mem pm" by (intro ext) (simp add: mark_sh_def)
  then show ?case by (intro exI [of _ "wld pm"]) (simp add: sh_term_evs_def)
next
  case (Cons p ps)
  obtain w where w: "terminate_signal hs ph p pm =
      pm\<lparr>evs := evs pm @ sh_term_evs pm ph [p], sh_mem := mark_sh {p} (sh_mem pm), wld := w\<rparr>"
    using terminate_signal_eq [OF assms] by blast
  show ?case
    using Cons.IH [of "terminate_signal hs ph p pm"] by (auto simp: w sh_term_evs_def mark_sh_Un Un_commute)
qed

lemma terminate_plugin_eq:
  assumes "term_frame hs"
  shows "\<exists>w. terminate_plugin hs ph j pm =
    pm\<lparr>evs := evs pm @ [Ev_plg_term j ph], wld := w, plgs := (plgs pm)\<lparr>arr_elts :=
      (arr_elts (plgs pm))[j := (arr_elts (plgs pm) ! j)\<lparr>pd_terminated := True\<rparr>]\<rparr>\<rparr>"
  using plg_term_call_eq [OF assms, of j ph pm] by (auto simp: terminate_plugin_def Let_def)

lemma map_take_update:
  "n < length xs \<Longrightarrow> (map f (take n xs) @ drop n xs)[n := f (xs ! n)] = map f (take (Suc n) xs) @ drop (Suc n) xs"
  by (simp add: list_update_append take_Suc_conv_app_nth Cons_nth_drop_Suc [symmetric] min_def)

lemma fold_terminate_plugin:
  assumes "term_frame hs"
  shows "n \<le> utarray_len (plgs pm) \<Longrightarrow> \<exists>w. fold (terminate_plugin hs ph) [0..<n] pm =
    pm\<lparr>evs := evs pm @ map (\<lambda>j. Ev_plg_term j ph) [0..<n], wld := w, plgs := (plgs pm)\<lparr>arr_elts :=
      map (\<lambda>pd. pd\<lparr>pd_terminated := True\<rparr>) (take n (arr_elts (plgs pm))) @ drop n (arr_elts (plgs pm))\<rparr>\<rparr>"
proof (induction n)
  case 0
  show ?case by (intro exI [of _ "wld pm"]) simp
next
  case (Suc n)
  let ?xs = "arr_elts (plgs pm)" and ?f = "\<lambda>pd. pd\<lparr>pd_terminated := True\<rparr>"
  let ?pm = "fold (terminate_plugin hs ph) [0..<n] pm"
  from Suc obtain w where w: "?pm = pm\<lparr>evs := evs pm @ map (\<lambda>j. Ev_plg_term j ph) [0..<n], wld := w,
      plgs := (plgs pm)\<lparr>arr_elts := map ?f (take n ?xs) @ drop n ?xs\<rparr>\<rparr>" by auto
  from Suc.prems have n: "n < length ?xs" by (simp add: utarray_len_def)
  then have nth: "(map ?f (take n ?xs) @ drop n ?xs) ! n = ?xs ! n" by (simp add: nth_append)
  from terminate_plugin_eq [OF assms, of ph n ?pm] map_take_update [OF n, of ?f]
  show ?case by (auto simp: w nth)
qed

lemma umplg_terminate_all_eq:
  assumes "term_frame hs"
  shows "\<exists>w. umplg_terminate_all hs ph pm =
    pm\<lparr>evs := evs pm @ term_evs pm ph, sh_mem := mark_sh (set (HASH_ITER (signals pm))) (sh_mem pm),
       plgs := mark_plg (plgs pm), wld := w\<rparr>"
proof -
  obtain w where w: "fold (terminate_signal hs ph) (HASH_ITER (signals pm)) pm =
      pm\<lparr>evs := evs pm @ sh_term_evs pm ph (HASH_ITER (signals pm)),
         sh_mem := mark_sh (set (HASH_ITER (signals pm))) (sh_mem pm), wld := w\<rparr>"
    using fold_terminate_signal [OF assms] by blast
  let ?pm = "fold (terminate_signal hs ph) (HASH_ITER (signals pm)) pm"
  obtain w' where w': "fold (terminate_plugin hs ph) [0..<utarray_len (plgs ?pm)] ?pm =
      ?pm\<lparr>evs := evs ?pm @ map (\<lambda>j. Ev_plg_term j ph) [0..<utarray_len (plgs ?pm)], wld := w',
        plgs := mark_plg (plgs ?pm)\<rparr>"
    using fold_terminate_plugin [OF assms order_refl, of ph ?pm] by (auto simp: mark_plg_def utarray_len_def)
  have "umplg_terminate_all hs ph pm =
      ?pm\<lparr>evs := evs ?pm @ map (\<lambda>j. Ev_plg_term j ph) [0..<utarray_len (plgs ?pm)], wld := w',
        plgs := mark_plg (plgs ?pm)\<rparr>"
    by (simp only: umplg_terminate_all_def Let_def w')
  then show ?thesis
    by (intro exI [of _ w'] umplg_mngr.equality) (simp_all add: w term_evs_def)
qed

text \<open>The release of the manager, from any state of the terminated flags.\<close>

definition sh_free_evs :: "'w umplg_mngr \<Rightarrow> sh_ptr \<Rightarrow> umplg_ev list" where
  "sh_free_evs pm p =
     (if sh_term (sh_mem pm p) \<noteq> None \<and> \<not> sh_terminated (sh_mem pm p)
      then [Ev_sh_term p 0, Ev_sh_term p 1] else []) @ [Ev_sh_free p]"

definition plg_free_evs :: "'w umplg_mngr \<Rightarrow> nat \<Rightarrow> umplg_ev list" where
  "plg_free_evs pm j =
     (if \<not> pd_terminated (arr_elts (plgs pm) ! j) then [Ev_plg_term j 0, Ev_plg_term j 1] else []) @
     [Ev_dlclose (pd_handle (arr_elts (plgs pm) ! j))]"

lemma free_signal_eq:
  assumes "term_frame hs"
  shows "\<exists>w. free_signal hs p pm =
    pm\<lparr>evs := evs pm @ sh_free_evs pm p, signals := HASH_DEL (signals pm) p, wld := w\<rparr>"
proof (cases "\<exists>f. sh_term (sh_mem pm p) = Some f \<and> \<not> sh_terminated (sh_mem pm p)")
  case True
  then obtain f where f: "sh_term (sh_mem pm p) = Some f" "\<not> sh_terminated (sh_mem pm p)" by blast
  let ?pm1 = "pm\<lparr>signals := HASH_DEL (signals pm) p\<rparr>"
  obtain w1 where w1: "sh_term_call hs f p 0 ?pm1 = ?pm1\<lparr>evs := evs pm @ [Ev_sh_term p 0], wld := w1\<rparr>"
    using sh_term_call_eq [OF assms, of f p 0 ?pm1] by auto
  obtain w2 where w2: "sh_term_call hs f p 1 (sh_term_call hs f p 0 ?pm1) =
      ?pm1\<lparr>evs := evs pm @ [Ev_sh_term p 0, Ev_sh_term p 1], wld := w2\<rparr>"
    using sh_term_call_eq [OF assms, of f p 1 "sh_term_call hs f p 0 ?pm1"] by (auto simp: w1)
  from f show ?thesis
    by (intro exI [of _ w2] umplg_mngr.equality)
      (simp_all add: free_signal_def w2 [simplified] log_ev_def sh_free_evs_def)
next
  case False
  then show ?thesis
    by (intro exI [of _ "wld pm"] umplg_mngr.equality)
      (auto simp: free_signal_def log_ev_def sh_free_evs_def Let_def split: option.split)
qed

lemma fold_free_signal:
  assumes "term_frame hs"
  shows "\<exists>w. fold (free_signal hs) ps pm =
    pm\<lparr>evs := evs pm @ concat (map (sh_free_evs pm) ps), signals := fold (\<lambda>p t. HASH_DEL t p) ps (signals pm), wld := w\<rparr>"
proof (induction ps arbitrary: pm)
  case Nil
  show ?case by (auto intro: exI [of _ "wld pm"])
next
  case (Cons p ps)
  obtain w where w: "free_signal hs p pm =
      pm\<lparr>evs := evs pm @ sh_free_evs pm p, signals := HASH_DEL (signals pm) p, wld := w\<rparr>"
    using free_signal_eq [OF assms] by blast
  have [simp]: "sh_free_evs (pm\<lparr>evs := x, signals := y, wld := z\<rparr>) = sh_free_evs pm" for x y z
    by (rule ext) (simp add: sh_free_evs_def)
  show ?case using Cons.IH [of "free_signal hs p pm"] by (auto simp: w)
qed

lemma free_plugin_eq:
  assumes "term_frame hs"
  shows "\<exists>w. free_plugin hs j pm = pm\<lparr>evs := evs pm @ plg_free_evs pm j, wld := w\<rparr>"
proof (cases "pd_terminated (arr_elts (plgs pm) ! j)")
  case True
  then show ?thesis
    by (intro exI [of _ "wld pm"]) (simp add: free_plugin_def log_ev_def plg_free_evs_def)
next
  case False
  obtain w1 where w1: "plg_term_call hs j 0 pm = pm\<lparr>evs := evs pm @ [Ev_plg_term j 0], wld := w1\<rparr>"
    using plg_term_call_eq [OF assms] by blast
  obtain w2 where w2: "plg_term_call hs j 1 (plg_term_call hs j 0 pm) =
      pm\<lparr>evs := evs pm @ [Ev_plg_term j 0, Ev_plg_term j 1], wld := w2\<rparr>"
    using plg_term_call_eq [OF assms, of j 1 "plg_term_call hs j 0 pm"] by (auto simp: w1)
  from False show ?thesis
    by (intro exI [of _ w2] umplg_mngr.equality) (simp_all add: free_plugin_def w2 log_ev_def plg_free_evs_def)
qed

lemma fold_free_plugin:
  assumes "term_frame hs"
  shows "\<exists>w. fold (free_plugin hs) js pm = pm\<lparr>evs := evs pm @ concat (map (plg_free_evs pm) js), wld := w\<rparr>"
proof (induction js arbitrary: pm)
  case Nil
  show ?case by (intro exI [of _ "wld pm"]) simp
next
  case (Cons j js)
  obtain w where w: "free_plugin hs j pm = pm\<lparr>evs := evs pm @ plg_free_evs pm j, wld := w\<rparr>"
    using free_plugin_eq [OF assms] by blast
  have [simp]: "plg_free_evs (pm\<lparr>evs := x, wld := z\<rparr>) = plg_free_evs pm" for x z
    by (rule ext) (simp add: plg_free_evs_def)
  show ?case using Cons.IH [of "free_plugin hs j pm"] by (auto simp: w)
qed

lemma umplg_free_mngr_eq:
  assumes "term_frame hs"
  shows "evs (umplg_free_mngr hs pm) = evs pm @ concat (map (sh_free_evs pm) (HASH_ITER (signals pm))) @
      concat (map (plg_free_evs pm) [0..<utarray_len (plgs pm)])"
    "signals (umplg_free_mngr hs pm) = []" "hooks (umplg_free_mngr hs pm) = []"
    "cmd_map (umplg_free_mngr hs pm) = []" "plgs (umplg_free_mngr hs pm) = utarray_new"
proof -
  have dr: "fold (\<lambda>p t. HASH_DEL t p) (HASH_ITER (signals pm)) (signals pm) = []"
    using HASH_drain [of "signals pm"] by (simp add: uth.drain_def)
  obtain w where w: "fold (free_signal hs) (HASH_ITER (signals pm)) pm =
      pm\<lparr>evs := evs pm @ concat (map (sh_free_evs pm) (HASH_ITER (signals pm))), signals := [], wld := w\<rparr>"
    using fold_free_signal [OF assms, of "HASH_ITER (signals pm)" pm] dr by auto
  define pm3 where "pm3 = pm\<lparr>evs := evs pm @ concat (map (sh_free_evs pm) (HASH_ITER (signals pm))),
      signals := [], wld := w, hooks := [], cmd_map := []\<rparr>"
  have [simp]: "plg_free_evs pm3 = plg_free_evs pm"
    by (rule ext) (simp add: plg_free_evs_def pm3_def)
  have "umplg_free_mngr hs pm =
      (fold (free_plugin hs) [0..<utarray_len (plgs pm3)] pm3)\<lparr>plgs := utarray_new\<rparr>"
    by (simp add: umplg_free_mngr_def Let_def w HASH_drain pm3_def)
  moreover obtain w' where "fold (free_plugin hs) [0..<utarray_len (plgs pm3)] pm3 =
      pm3\<lparr>evs := evs pm3 @ concat (map (plg_free_evs pm3) [0..<utarray_len (plgs pm3)]), wld := w'\<rparr>"
    using fold_free_plugin [OF assms] by blast
  ultimately have r: "umplg_free_mngr hs pm =
      pm3\<lparr>evs := evs pm3 @ concat (map (plg_free_evs pm3) [0..<utarray_len (plgs pm3)]), wld := w', plgs := utarray_new\<rparr>"
    by simp
  show "evs (umplg_free_mngr hs pm) = evs pm @ concat (map (sh_free_evs pm) (HASH_ITER (signals pm))) @
      concat (map (plg_free_evs pm) [0..<utarray_len (plgs pm)])"
    by (simp add: r) (simp add: pm3_def)
  show "signals (umplg_free_mngr hs pm) = []" "hooks (umplg_free_mngr hs pm) = []"
    "cmd_map (umplg_free_mngr hs pm) = []" "plgs (umplg_free_mngr hs pm) = utarray_new"
    by (simp_all add: r) (simp_all add: pm3_def)
qed

text \<open>
  Both phases and the release, with something in between that touches only the rest of the
  program (the daemon shuts the Lua environments down there).
\<close>

lemma shutdown_with_hook:
  assumes "term_frame hs" and "\<forall>q. \<exists>w. mid q = q\<lparr>wld := w\<rparr>"
  shows "evs (umplg_free_mngr hs (umplg_terminate_all hs 1 (mid (umplg_terminate_all hs 0 pm)))) =
      evs pm @ term_evs pm 0 @ term_evs pm 1 @ map Ev_sh_free (HASH_ITER (signals pm)) @
      map (\<lambda>pd. Ev_dlclose (pd_handle pd)) (arr_elts (plgs pm))"
proof -
  let ?P = "set (HASH_ITER (signals pm))" and ?n = "utarray_len (plgs pm)"
  define pm1 where "pm1 = mid (umplg_terminate_all hs 0 pm)"
  define pm2 where "pm2 = umplg_terminate_all hs 1 pm1"
  obtain w1 where w1: "pm1 = pm\<lparr>evs := evs pm @ term_evs pm 0, sh_mem := mark_sh ?P (sh_mem pm),
      plgs := mark_plg (plgs pm), wld := w1\<rparr>"
  proof -
    obtain w where "umplg_terminate_all hs 0 pm = pm\<lparr>evs := evs pm @ term_evs pm 0,
        sh_mem := mark_sh ?P (sh_mem pm), plgs := mark_plg (plgs pm), wld := w\<rparr>"
      using umplg_terminate_all_eq [OF assms(1)] by blast
    moreover obtain w' where "pm1 = (umplg_terminate_all hs 0 pm)\<lparr>wld := w'\<rparr>"
      unfolding pm1_def using assms(2) by blast
    ultimately show ?thesis by (intro that [of w']) simp
  qed
  have same: "term_evs pm1 1 = term_evs pm 1"
    by (simp add: w1 term_evs_def sh_term_evs_def mark_plg_def utarray_len_def)
  obtain w2 where w2: "pm2 = pm1\<lparr>evs := evs pm1 @ term_evs pm1 1,
      sh_mem := mark_sh (set (HASH_ITER (signals pm1))) (sh_mem pm1), plgs := mark_plg (plgs pm1), wld := w2\<rparr>"
    unfolding pm2_def using umplg_terminate_all_eq [OF assms(1)] by blast
  have sig: "map (sh_free_evs pm2) (HASH_ITER (signals pm2)) = map (\<lambda>p. [Ev_sh_free p]) (HASH_ITER (signals pm))"
    by (auto simp: w2 w1 sh_free_evs_def mark_sh_def)
  have plg: "map (plg_free_evs pm2) [0..<?n] = map (\<lambda>j. [Ev_dlclose (pd_handle (arr_elts (plgs pm) ! j))]) [0..<?n]"
    by (auto simp: w2 w1 plg_free_evs_def mark_plg_def utarray_len_def)
  have "concat (map (plg_free_evs pm2) [0..<?n]) = map (\<lambda>pd. Ev_dlclose (pd_handle pd)) (arr_elts (plgs pm))"
    unfolding plg by (rule nth_equalityI) (simp_all add: utarray_len_def)
  moreover have "utarray_len (plgs pm2) = ?n" by (simp add: w2 w1 mark_plg_def utarray_len_def)
  moreover have "evs pm2 = evs pm @ term_evs pm 0 @ term_evs pm 1" by (simp add: w2 same) (simp add: w1)
  ultimately show ?thesis
    using umplg_free_mngr_eq(1) [OF assms(1), of pm2] sig
    unfolding pm1_def [symmetric] pm2_def [symmetric] by simp
qed

section \<open>Standard data\<close>

text \<open>Tables whose keys are the names of their items, which is how the program builds them.\<close>

definition items_named :: "umplg_data_std_items \<Rightarrow> bool" where
  "items_named t \<longleftrightarrow> (\<forall>e \<in> set t. fst e = it_name (snd e))"

lemma fold_item_copy:
  "items_named t \<Longrightarrow> fold (\<lambda>s dst. HASH_ADD dst (it_name s) \<lparr>it_name = it_name s, it_value = it_value s\<rparr>)
     (HASH_ITER t) acc = acc @ t"
  by (induction t arbitrary: acc) (auto simp: items_named_def HASH_ITER_def HASH_ADD_def)

lemma std_items_copy_eq: "items_named t \<Longrightarrow> std_items_copy t = t"
  unfolding std_items_copy_def by (subst fold_item_copy) simp_all

primrec add_items :: "umplg_data_std_item list \<Rightarrow> umplg_data_std_items option \<Rightarrow> umplg_data_std_items option" where
  "add_items [] t = t"
| "add_items (i # is) t = add_items is (snd (umplg_stdd_item_add t (Some i)))"

lemma add_items_eq: "add_items is (Some t) = Some (t @ map (\<lambda>i. (it_name i, i)) is)"
  by (induction "is" arbitrary: t) (simp_all add: umplg_stdd_item_add_def HASH_ADD_def)

section \<open>Properties\<close>

text \<open>Handlers that do nothing and a loader with one plugin per path, for the instances below.\<close>

definition idle_hcode :: "'w hcode" where
  "idle_hcode = \<lparr>call_init = \<lambda>f p pm. (0, pm), call_term = \<lambda>f p ph pm. pm,
     call_cmd = \<lambda>f p c d pm. (int f, d, pm), call_sh_init = \<lambda>f p pm. (0, pm),
     call_sh_run = \<lambda>f p io pm. (0, io, pm), call_sh_term = \<lambda>f p ph pm. pm\<rparr>"

definition demo_dl :: "string \<Rightarrow> dl_obj option" where
  "demo_dl path = Some \<lparr>dl_handle = length path, dl_COMMANDS = Some [int (length path), - 1],
     dl_init = Some 1, dl_terminate = Some 2, dl_run = Some (10 + length path), dl_run_local = None\<rparr>"

definition demo_sh :: umplg_sh where
  "demo_sh = \<lparr>sh_id = ''sig'', sh_init = None, sh_run = 7, sh_term = Some 8, sh_args = None,
     sh_running = False, sh_min_auth_lvl = 3, sh_terminated = False\<rparr>"

definition demo_pm :: "unit umplg_mngr" where
  "demo_pm = umplg_new_mngr None (\<lambda>_. demo_sh) ()"

definition demo_io :: sig_io where
  "demo_io = \<lparr>io_in = None, io_out = None, io_out_sz = 0, io_args = None\<rparr>"

lemma call_cmd_idle [simp]: "call_cmd idle_hcode f p c d pm = (int f, d, pm)"
  by (simp add: idle_hcode_def)

lemma init_frame_idle: "init_frame idle_hcode"
  by (simp add: init_frame_def idle_hcode_def)

lemma sh_init_frame_idle: "sh_init_frame idle_hcode"
  by (simp add: sh_init_frame_def idle_hcode_def)

lemma term_frame_idle: "term_frame (idle_hcode :: unit hcode)"
  by (simp add: term_frame_def idle_hcode_def)

text \<open>
  (C2) With up to eight plugins loaded, in any order and with whatever addresses the allocator
  returns, a command is never dispatched through a stale pointer: it is refused with 1 if no
  plugin has registered it, and otherwise runs the handler of a loaded plugin whose
  \<^verbatim>\<open>COMMANDS\<close> list names it (with \<open>-1\<close> for a local request to a plugin without a local handler).
\<close>

theorem umplg_load_dispatch:
  assumes "init_frame hs" and "length xs \<le> 8" and "pm = umplg_loads hs dl xs (umplg_new_mngr c m w)"
  shows "case HASH_FIND (hooks pm) cmd of
      None \<Rightarrow> umplg_run hs pm cmd data loc = Some (1, data, pm)
    | Some hk \<Rightarrow> (\<exists>pd h cmds. pd \<in> set (arr_elts (plgs pm)) \<and> dl (pd_name pd) = Some h \<and>
        dl_COMMANDS h = Some cmds \<and> cmd \<in> set (reg_hooks cmds) \<and>
        umplg_run hs pm cmd data loc =
          (case (if loc then dl_run_local h else dl_run h) of
             Some f \<Rightarrow> Some (call_cmd hs f (hk_plgp hk) cmd data pm)
           | None \<Rightarrow> Some (- 1, data, pm)))"
proof -
  have ok: "hooks_ok dl pm"
    unfolding assms(3) using assms(2)
    by (intro hooks_ok_loads [OF assms(1) hooks_ok_new]) (simp add: utarray_len_def utarray_new_def)
  show ?thesis
  proof (cases "HASH_FIND (hooks pm) cmd")
    case (Some hk)
    from hooks_okD [OF ok this] obtain pd h cmds where
      d: "elt_deref (plgs pm) (hk_plgp hk) = Some pd" "dl (pd_name pd) = Some h"
        "dl_COMMANDS h = Some cmds" "cmd \<in> set (reg_hooks cmds)" "dl_run h = Some (pd_cmdh pd)"
        "dl_run_local h = pd_cmdh_l pd" by blast
    have "pd \<in> set (arr_elts (plgs pm))"
      using d(1) by (auto simp: elt_deref_def utarray_len_def split: if_splits)
    moreover have "umplg_run hs pm cmd data loc = (case (if loc then dl_run_local h else dl_run h) of
        Some f \<Rightarrow> Some (call_cmd hs f (hk_plgp hk) cmd data pm) | None \<Rightarrow> Some (- 1, data, pm))"
      by (simp only: umplg_run_ok [OF d(1) Some] d(5,6))
    ultimately show ?thesis
      using d(2-4) Some by (simp only: option.case) (intro exI [of _ pd] exI [of _ h] exI [of _ cmds] conjI, simp_all)
  qed (simp add: umplg_run_def)
qed

lemma demo_hook2: "HASH_FIND (hooks (umplg_loads idle_hcode demo_dl [(100, ''a''), (0, ''bb'')] demo_pm)) 2 \<noteq> None"
  by (simp add: umplg_load_def demo_dl_def idle_hcode_def demo_pm_def reg_hooks_def Let_def
      add_hook_def HASH_FIND_def HASH_ADD_def)

lemma umplg_load_dispatch_witness:
  "umplg_run idle_hcode (umplg_loads idle_hcode demo_dl [(100, ''a''), (0, ''bb'')] demo_pm) 2
     \<lparr>id_type = UMPLG_DT_UNKNOWN, id_data = None\<rparr> False \<noteq> None"
  using umplg_load_dispatch [OF init_frame_idle, of "[(100, ''a''), (0, ''bb'')]" _ demo_dl None "\<lambda>_. demo_sh" "()"
      2 "\<lparr>id_type = UMPLG_DT_UNKNOWN, id_data = None\<rparr>" False, OF _ refl] demo_hook2
  by (auto simp: demo_pm_def demo_dl_def split: option.splits)

text \<open>
  The plugin that makes the array grow past its capacity (the ninth, the seventeenth, ...)
  leaves every hook of the plugins loaded before it pointing into the released buffer when
  \<^verbatim>\<open>realloc\<close> moves the array: the next command for any of them dereferences a dangling
  pointer.
\<close>

theorem umplg_load_moves_array:
  assumes "init_frame hs" and "hooks_ok dl pm" and "utarray_len (plgs pm) = arr_n (plgs pm)"
    and "mem \<noteq> arr_d (plgs pm)" and "umplg_load hs dl mem pm fpath = (Some p, pm')"
    and "HASH_FIND (hooks pm) cmd = Some hk"
  shows "umplg_run hs pm' cmd data loc = None"
proof -
  from umplg_load_SomeD [OF assms(5)] obtain cmds init pd pm2 where
    d: "\<forall>c \<in> set (reg_hooks cmds). HASH_FIND (hooks pm) c = None"
      "pm2 = fold (add_hook p) (reg_hooks cmds) (pm\<lparr>plgs := utarray_push_back mem (plgs pm) pd\<rparr>)"
      "pm' = snd (call_init hs init p pm2)" by metis
  have fr: "hooks pm' = hooks pm2" "arr_d (plgs pm') = arr_d (plgs pm2)"
    using assms(1) unfolding init_frame_def Let_def d(3) by blast+
  from d(1) assms(6) have "cmd \<notin> set (reg_hooks cmds)" by auto
  then have "HASH_FIND (hooks pm') cmd = Some hk"
    using assms(6) by (simp add: fr(1) d(2) fold_add_hook(2))
  moreover have "arr_d (plgs pm') = mem"
    by (simp add: fr(2) d(2) utarray_push_back_full [OF assms(3)])
  moreover have "fst (hk_plgp hk) = arr_d (plgs pm)"
  proof -
    from hooks_okD [OF assms(2,6)] obtain pd where "elt_deref (plgs pm) (hk_plgp hk) = Some pd" by blast
    then show ?thesis by (simp add: elt_deref_def split: if_splits)
  qed
  ultimately show ?thesis using assms(4) by (simp add: umplg_run_def elt_deref_def)
qed

definition demo_full :: "unit umplg_mngr" where
  "demo_full = umplg_loads idle_hcode demo_dl (map (\<lambda>n. (100, replicate (Suc n) CHR ''p'')) [0..<8]) demo_pm"

lemma demo_full_sel:
  "utarray_len (plgs demo_full) = 8 \<and> arr_n (plgs demo_full) = 8 \<and> arr_d (plgs demo_full) = 100 \<and>
   map_option hk_plgp (HASH_FIND (hooks demo_full) 3) = Some (100, 2) \<and>
   fst (umplg_load idle_hcode demo_dl 200 demo_full ''plugin_09'') = Some (200, 8)"
  by code_simp

lemma umplg_load_moves_array_witness:
  "umplg_run idle_hcode (snd (umplg_load idle_hcode demo_dl 200 demo_full ''plugin_09'')) 3
     \<lparr>id_type = UMPLG_DT_UNKNOWN, id_data = None\<rparr> False = None"
proof -
  have ok: "hooks_ok demo_dl demo_full"
    unfolding demo_full_def demo_pm_def
    by (rule hooks_ok_loads [OF init_frame_idle hooks_ok_new]) (simp add: utarray_len_def utarray_new_def)
  obtain hk where hk: "HASH_FIND (hooks demo_full) 3 = Some hk"
    using demo_full_sel by (cases "HASH_FIND (hooks demo_full) 3") simp_all
  show ?thesis
    by (rule umplg_load_moves_array [OF init_frame_idle ok, where mem = 200 and p = "(200, 8)"
          and fpath = "''plugin_09''" and hk = hk])
      (use demo_full_sel hk in \<open>simp_all add: prod_eq_iff\<close>)
qed

text \<open>
  (C5) Loading a plugin either fails, exactly when the object cannot be opened, lacks one of the
  four mandatory symbols or asks for a hook that is taken, and then the manager is as before
  and the object is closed again; or it succeeds, and then the plugin's commands, and only
  those, are routed to the new descriptor.
\<close>

theorem umplg_load_result:
  assumes "init_frame hs" and "umplg_load hs dl mem pm fpath = (r, pm')"
  shows "(r \<noteq> None \<longleftrightarrow> (\<exists>h cmds. dl fpath = Some h \<and> dl_COMMANDS h = Some cmds \<and> dl_init h \<noteq> None \<and>
        dl_terminate h \<noteq> None \<and> dl_run h \<noteq> None \<and>
        (\<forall>c \<in> set (reg_hooks cmds). HASH_FIND (hooks pm) c = None))) \<and>
    (r = None \<longrightarrow> pm' = pm\<lparr>evs := evs pm @
        (case dl fpath of None \<Rightarrow> [] | Some h \<Rightarrow> [Ev_dlclose (dl_handle h)])\<rparr>) \<and>
    (\<forall>p. r = Some p \<longrightarrow> (\<exists>h cmds pd. dl fpath = Some h \<and> dl_COMMANDS h = Some cmds \<and>
        elt_deref (plgs pm') p = Some pd \<and> pd_name pd = fpath \<and> dl_run h = Some (pd_cmdh pd) \<and>
        (\<forall>c. HASH_FIND (hooks pm') c =
          (if c \<in> set (reg_hooks cmds) then Some \<lparr>hk_id = c, hk_plgp = p\<rparr> else HASH_FIND (hooks pm) c))))"
proof (intro conjI impI allI)
  show "r \<noteq> None \<longleftrightarrow> (\<exists>h cmds. dl fpath = Some h \<and> dl_COMMANDS h = Some cmds \<and> dl_init h \<noteq> None \<and>
      dl_terminate h \<noteq> None \<and> dl_run h \<noteq> None \<and> (\<forall>c \<in> set (reg_hooks cmds). HASH_FIND (hooks pm) c = None))"
    using assms(2) by (auto simp: umplg_load_def Let_def split: option.splits if_splits)
  show "r = None \<Longrightarrow> pm' = pm\<lparr>evs := evs pm @
      (case dl fpath of None \<Rightarrow> [] | Some h \<Rightarrow> [Ev_dlclose (dl_handle h)])\<rparr>"
    using umplg_load_NoneD assms(2) by blast
  fix p assume "r = Some p"
  with assms(2) obtain h cmds init pd pm2 where
    d: "dl fpath = Some h" "dl_COMMANDS h = Some cmds" "pd_name pd = fpath" "dl_run h = Some (pd_cmdh pd)"
      "p = (arr_d (utarray_push_back mem (plgs pm) pd), utarray_len (plgs pm))"
      "pm2 = fold (add_hook p) (reg_hooks cmds) (pm\<lparr>plgs := utarray_push_back mem (plgs pm) pd\<rparr>)"
      "pm' = snd (call_init hs init p pm2)" by (auto elim: umplg_load_SomeD)
  have fr: "hooks pm' = hooks pm2" "arr_d (plgs pm') = arr_d (plgs pm2)"
    "map pd_core (arr_elts (plgs pm')) = map pd_core (arr_elts (plgs pm2))"
    using assms(1) unfolding init_frame_def Let_def d(7) by blast+
  have "elt_deref (plgs pm2) p = Some pd"
    using elt_deref_back [of mem "plgs pm" pd] by (simp add: d(5,6) utarray_back_push_back)
  then obtain pd' where pd': "elt_deref (plgs pm') p = Some pd'" "pd_core pd' = pd_core pd"
    using elt_deref_core [OF fr(2,3), of p] by auto
  with pd_core_eqD [OF pd'(2)] d(1-4) fr(1)
  show "\<exists>h cmds pd. dl fpath = Some h \<and> dl_COMMANDS h = Some cmds \<and>
      elt_deref (plgs pm') p = Some pd \<and> pd_name pd = fpath \<and> dl_run h = Some (pd_cmdh pd) \<and>
      (\<forall>c. HASH_FIND (hooks pm') c =
        (if c \<in> set (reg_hooks cmds) then Some \<lparr>hk_id = c, hk_plgp = p\<rparr> else HASH_FIND (hooks pm) c))"
    by (intro exI [of _ h] exI [of _ cmds] exI [of _ pd']) (simp add: d(6) fold_add_hook(2))
qed

lemma umplg_load_result_witness:
  "fst (umplg_load idle_hcode demo_dl 300 demo_full ''abc'') = None \<and>
   evs (snd (umplg_load idle_hcode demo_dl 300 demo_full ''abc'')) = evs demo_full @ [Ev_dlclose 3]"
proof -
  obtain r pm' where r: "umplg_load idle_hcode demo_dl 300 demo_full ''abc'' = (r, pm')" by fastforce
  have "HASH_FIND (hooks demo_full) 3 \<noteq> None" using demo_full_sel by auto
  then have "r = None"
    using conjunct1 [OF umplg_load_result [OF init_frame_idle r]] by (cases r) (auto simp: demo_dl_def reg_hooks_def)
  with conjunct2 [OF umplg_load_result [OF init_frame_idle r]] r show ?thesis by (simp add: demo_dl_def)
qed

text \<open>
  (C4) A signal that was registered (return code 0) can be raised: a caller below the handler's
  minimum level gets the authorisation error and nothing runs, any other caller runs exactly
  the handler's run method; a second registration under the same name is refused with 1
  and replaces nothing; and no other signal is affected.
\<close>

theorem umplg_signal_registered:
  assumes "sh_init_frame hs" and "umplg_reg_signal hs pm sh = (0, pm')"
  shows "umplg_proc_signal hs pm' (Some (sh_id (sh_mem pm sh))) io fl =
      (if fl < int (unat (sh_min_auth_lvl (sh_mem pm' sh))) then (ret_num UMPLG_RES_AUTH_ERROR, io, pm')
       else call_sh_run hs (sh_run (sh_mem pm' sh)) sh io pm') \<and>
    (sh_id (sh_mem pm' sh2) = sh_id (sh_mem pm sh) \<longrightarrow> umplg_reg_signal hs pm' sh2 = (1, pm')) \<and>
    (\<forall>s. s \<noteq> sh_id (sh_mem pm sh) \<longrightarrow> HASH_FIND (signals pm') s = HASH_FIND (signals pm) s)"
proof -
  from assms obtain pm1 where pm1: "pm' = pm1\<lparr>signals := HASH_ADD (signals pm1) (sh_id (sh_mem pm1 sh)) sh\<rparr>"
    "signals pm1 = signals pm" "sh_id (sh_mem pm1 sh) = sh_id (sh_mem pm sh)"
    by (auto simp: umplg_reg_signal_def sh_init_frame_def split_beta Let_def split: option.splits if_splits)
  then have "HASH_FIND (signals pm') (sh_id (sh_mem pm sh)) = Some sh" by (simp add: HASH_FIND_ADD)
  with pm1 show ?thesis
    by (auto simp: umplg_proc_signal_def umplg_reg_signal_def HASH_FIND_ADD)
qed

lemma umplg_signal_registered_witness:
  "fst (umplg_reg_signal idle_hcode demo_pm 5) = 0 \<and>
   fst (umplg_proc_signal idle_hcode (snd (umplg_reg_signal idle_hcode demo_pm 5)) (Some ''sig'') demo_io 2) = 2 \<and>
   fst (umplg_proc_signal idle_hcode (snd (umplg_reg_signal idle_hcode demo_pm 5)) (Some ''sig'') demo_io 3) = 0"
proof -
  have r: "umplg_reg_signal idle_hcode demo_pm 5 = (0, snd (umplg_reg_signal idle_hcode demo_pm 5))"
    "sh_mem (snd (umplg_reg_signal idle_hcode demo_pm 5)) 5 = demo_sh"
    by (simp_all add: umplg_reg_signal_def demo_pm_def demo_sh_def HASH_FIND_empty)
  note t = umplg_signal_registered [OF sh_init_frame_idle r(1)]
  from t [of demo_io 2] t [of demo_io 3]
  show ?thesis using r(1) unfolding r(2) by (simp add: demo_pm_def demo_sh_def idle_hcode_def prod_eq_iff)
qed

text \<open>
  (C3) Shutdown. The daemon's sequence \<^verbatim>\<open>umplg_terminate_all(pm, 0)\<close>,
  \<^verbatim>\<open>umplg_terminate_all(pm, 1)\<close>, \<^verbatim>\<open>umplg_free_mngr(pm)\<close> calls the termination handler of
  every signal that has one and of every plugin exactly once per phase, phase 1 only after
  all of phase 0, then frees every signal and closes every plugin once. Releasing a manager that
  was never terminated makes both calls for each of them just before it is released. Either
  way all tables are empty at the end.
\<close>

theorem umplg_shutdown_events:
  assumes "term_frame hs"
  shows "evs (umplg_free_mngr hs (umplg_terminate_all hs 1 (umplg_terminate_all hs 0 pm))) =
      evs pm @ term_evs pm 0 @ term_evs pm 1 @ map Ev_sh_free (HASH_ITER (signals pm)) @
      map (\<lambda>pd. Ev_dlclose (pd_handle pd)) (arr_elts (plgs pm)) \<and>
    evs (umplg_free_mngr hs pm) = evs pm @
      concat (map (sh_free_evs pm) (HASH_ITER (signals pm))) @
      concat (map (plg_free_evs pm) [0..<utarray_len (plgs pm)]) \<and>
    signals (umplg_free_mngr hs pm) = [] \<and> hooks (umplg_free_mngr hs pm) = [] \<and>
    cmd_map (umplg_free_mngr hs pm) = [] \<and> arr_elts (plgs (umplg_free_mngr hs pm)) = []"
proof -
  have "\<forall>q. \<exists>w. q = q\<lparr>wld := w\<rparr>" by (metis umplg_mngr.surjective umplg_mngr.update_convs(8))
  from shutdown_with_hook [OF assms this, of pm] umplg_free_mngr_eq [OF assms, of pm] show ?thesis
    by (simp add: utarray_new_def)
qed

lemma umplg_shutdown_events_witness:
  "evs (umplg_free_mngr idle_hcode (umplg_terminate_all idle_hcode 1 (umplg_terminate_all idle_hcode 0
     (snd (umplg_reg_signal idle_hcode demo_pm 5))))) =
   [Ev_sh_term 5 0, Ev_sh_term 5 1, Ev_sh_free 5]"
  using umplg_shutdown_events [OF term_frame_idle, of "snd (umplg_reg_signal idle_hcode demo_pm 5)"]
  by (simp add: umplg_reg_signal_def demo_pm_def demo_sh_def HASH_FIND_empty term_evs_def sh_term_evs_def
      HASH_ITER_def HASH_ADD_def utarray_len_def utarray_new_def)

text \<open>
  (C6) A row of named values put together with \<^verbatim>\<open>umplg_stdd_item_add\<close> and appended with
  \<^verbatim>\<open>umplg_stdd_items_add\<close> is read back unchanged from the data: the new row finds under every
  name the item added under it, the earlier rows are as they were.
\<close>

theorem umplg_stdd_roundtrip:
  assumes "distinct (map it_name its)"
    and "umplg_stdd_items_add mem (Some d) (add_items its (Some [])) = (rc, Some d')"
  shows "rc = 0 \<and> (\<exists>a'. items d' = Some a' \<and>
      butlast (arr_elts a') = (case items d of None \<Rightarrow> [] | Some a \<Rightarrow> arr_elts a) \<and>
      HASH_FIND (last (arr_elts a')) nm = map_of (map (\<lambda>i. (it_name i, i)) its) nm)"
proof -
  have "items_named (map (\<lambda>i. (it_name i, i)) its)" by (auto simp: items_named_def)
  moreover have "map_of (rev (map (\<lambda>i. (it_name i, i)) its)) = map_of (map (\<lambda>i. (it_name i, i)) its)"
    using assms(1) by (intro map_of_rev_distinct) (simp add: o_def)
  ultimately show ?thesis using assms(2)
    by (auto simp: umplg_stdd_items_add_def umplg_stdd_init_def add_items_eq std_items_copy_eq
        HASH_FIND_def utarray_new_def Let_def split: option.splits)
qed

lemma umplg_stdd_roundtrip_witness:
  "\<exists>d' a'. umplg_stdd_items_add 64 (Some \<lparr>items = None\<rparr>)
      (add_items [\<lparr>it_name = ''k'', it_value = ''v''\<rparr>] (Some [])) = (0, Some d') \<and> items d' = Some a' \<and>
    map_option it_value (HASH_FIND (last (arr_elts a')) ''k'') = Some ''v''"
proof -
  obtain d' where d': "umplg_stdd_items_add 64 (Some \<lparr>items = None\<rparr>)
      (add_items [\<lparr>it_name = ''k'', it_value = ''v''\<rparr>] (Some [])) = (0, Some d')"
    by (simp add: umplg_stdd_items_add_def add_items_eq umplg_stdd_init_def Let_def)
  with umplg_stdd_roundtrip [OF _ d', of "''k''"] show ?thesis by auto
qed

end
