(* ===== verification/Sysagentd.thy ===== *)
theory Sysagentd
  imports Umdaemon Umplg Umcounters
begin

text \<open>
  The system agent's main program, \<^verbatim>\<open>src/src/services/sysagent/sysagentd.c\<close>: command line,
  configuration file, plugin directory, and the order in which the parts are started and shut
  down. What the operating system provides is an argument: the options as \<^verbatim>\<open>getopt_long\<close>
  delivers them, the contents of files, the sorted listing of the plugin directory, the signals
  received. \<^verbatim>\<open>json_tokener_parse\<close> is the argument \<open>parse\<close>. The three entry points of the
  Lua core are arguments here.
\<close>

section \<open>Command line\<close>

record sysagentdd =
  plg_cfg_f :: "string option"
  plg_pth :: "string option"
  dd_cfg :: "nat option"

datatype cli_opt = Opt_plugins_cfg string | Opt_i string | Opt_p string | Opt_v | Opt_D | Opt_other

datatype exit_code = EXIT_SUCCESS | EXIT_FAILURE

text \<open>The option loop: the error value is the code passed to \<^verbatim>\<open>exit\<close>.\<close>

fun proc_opts ::
  "nat \<Rightarrow> cli_opt list \<Rightarrow> nat \<times> sysagentdd \<times> umd_env \<Rightarrow> exit_code + (nat \<times> sysagentdd \<times> umd_env)"
where
  "proc_opts umd [] s = Inr s"
| "proc_opts umd (opt # opts) (mpc, dd, e) =
     (case opt of
        Opt_plugins_cfg f \<Rightarrow> proc_opts umd opts (Suc mpc, dd\<lparr>plg_cfg_f := Some f\<rparr>, e)
      | Opt_i i \<Rightarrow>
          (case umd_set_id (Some umd) (Some i) e of
             (rc, e') \<Rightarrow> if rc \<noteq> 0 then Inl EXIT_FAILURE else proc_opts umd opts (Suc mpc, dd, e'))
      | Opt_p p \<Rightarrow> proc_opts umd opts (Suc mpc, dd\<lparr>plg_pth := Some p\<rparr>, e)
      | Opt_v \<Rightarrow> Inl EXIT_SUCCESS
      | Opt_D \<Rightarrow> proc_opts umd opts (mpc, dd, umd_set_log_level (Some umd) UMD_LLT_DEBUG e)
      | Opt_other \<Rightarrow> proc_opts umd opts (mpc, dd, e))"

definition proc_args ::
  "nat \<Rightarrow> cli_opt list \<Rightarrow> sysagentdd \<Rightarrow> umd_env \<Rightarrow> exit_code + (sysagentdd \<times> umd_env)"
where
  "proc_args umd opts dd e =
     (case proc_opts umd opts (0, dd, e) of
        Inl c \<Rightarrow> Inl c
      | Inr (mpc, dd', e') \<Rightarrow> if mpc < 3 then Inl EXIT_FAILURE else Inr (dd', e'))"

section \<open>Configuration and plugins\<close>

text \<open>
  \<open>file\<close> gives the contents of a file that can be opened and sought. The size is kept in an
  \<^verbatim>\<open>int32_t\<close>.
\<close>

definition load_cfg ::
  "(string \<Rightarrow> string option) \<Rightarrow> (string \<Rightarrow> nat option) \<Rightarrow> sysagentdd \<Rightarrow> 'w umplg_mngr \<Rightarrow>
     exit_code + (sysagentdd \<times> 'w umplg_mngr)"
where
  "load_cfg file parse dd pm =
     (case Option.bind (plg_cfg_f dd) file of
        None \<Rightarrow> Inr (dd, pm)
      | Some b \<Rightarrow>
          if c_int (int (length b)) \<le> 0 then Inr (dd, pm)
          else (case parse b of
                  None \<Rightarrow> Inl EXIT_FAILURE
                | Some j \<Rightarrow> Inr (dd\<lparr>dd_cfg := Some j\<rparr>, pm\<lparr>cfg := Some j\<rparr>)))"

text \<open>\<^verbatim>\<open>strstr(s, ".so")\<close>\<close>

fun strstr_so :: "string \<Rightarrow> bool" where
  "strstr_so [] = False"
| "strstr_so (c # cs) \<longleftrightarrow> strncmp_eq (c # cs) ''.so'' 3 \<or> strstr_so cs"

text \<open>
  The names in a directory, and their number where the caller wants it (\<open>size\<close>): \<^verbatim>\<open>NULL\<close> without a directory, without a place for
  the number, or when the directory cannot be read. \<open>scandir\<close> is \<^verbatim>\<open>scandir\<close> with the given filter and \<^verbatim>\<open>alphasort\<close>.
\<close>

definition fs_readdir :: "(string \<Rightarrow> string list option) \<Rightarrow> string option \<Rightarrow> nat option \<Rightarrow> string list option \<times> nat option" where
  "fs_readdir scandir dir sz =
     (case (dir, sz) of
        (Some d, Some _) \<Rightarrow>
          (case scandir d of
             Some fnames \<Rightarrow> (Some (map (\<lambda>i. fnames ! i) [0..<length fnames]), Some (length fnames))
           | None \<Rightarrow> (None, Some 0))
      | _ \<Rightarrow> (None, sz))"

text \<open>One iteration of the loop of \<^verbatim>\<open>init_plugins\<close>; its log messages go through \<open>umd_log\<close>.\<close>

definition init_plugin ::
  "'w hcode \<Rightarrow> (string \<Rightarrow> dl_obj option) \<Rightarrow> (string \<Rightarrow> nat) \<Rightarrow> nat \<Rightarrow> string \<Rightarrow> string \<Rightarrow>
     'w umplg_mngr \<times> umd_env \<Rightarrow> 'w umplg_mngr \<times> umd_env"
where
  "init_plugin hs dl mem umd pdir fname s =
     (let (pm, e) = s
      in if strstr_so fname then
           let path = pdir @ ''/'' @ fname;
               e1 = umd_log umd UMD_LLT_INFO (''Loading plugin ['' @ fname @ '']'') e;
               (r, pm1) = umplg_load hs dl (mem path) pm path
           in (pm1, if r = None then umd_log umd UMD_LLT_ERROR (''Cannot load plugin ['' @ fname @ '']'') e1 else e1)
         else s)"

definition init_plugins ::
  "'w hcode \<Rightarrow> (string \<Rightarrow> dl_obj option) \<Rightarrow> (string \<Rightarrow> nat) \<Rightarrow> nat \<Rightarrow> (string \<Rightarrow> string list option) \<Rightarrow>
     string option \<Rightarrow> 'w umplg_mngr \<times> umd_env \<Rightarrow> 'w umplg_mngr \<times> umd_env"
where
  "init_plugins hs dl mem umd scandir pdir s =
     (case pdir of
        None \<Rightarrow> s
      | Some d \<Rightarrow> (case fs_readdir scandir (Some d) (Some 0) of
                    (None, rl) \<Rightarrow> s
                  | (Some lst, rl) \<Rightarrow> fold (\<lambda>i. init_plugin hs dl mem umd d (lst ! i)) [0..<the rl] s))"

section \<open>The main program\<close>

record 'w agent_in =
  in_opts :: "cli_opt list"
  in_file :: "string \<Rightarrow> string option"
  in_parse :: "string \<Rightarrow> nat option"
  in_scandir :: "string \<Rightarrow> string list option"
  in_dl :: "string \<Rightarrow> dl_obj option"
  in_mem :: "string \<Rightarrow> nat"
  in_sigs :: "nat \<Rightarrow> int list"
  in_hs :: "'w hcode"
  in_lua_init :: "'w umplg_mngr \<Rightarrow> 'w umplg_mngr"
  in_lua_start :: "'w umplg_mngr \<Rightarrow> 'w umplg_mngr"
  in_lua_shutdown :: "'w umplg_mngr \<Rightarrow> 'w umplg_mngr"

text \<open>
  Everything up to the daemon loop: an exit code, or the manager and the environment the
  loop starts with. The descriptor of the daemon is at address \<open>umd\<close>.
\<close>

definition sysagent_start ::
  "'w agent_in \<Rightarrow> nat \<Rightarrow> 'w umplg_mngr \<Rightarrow> umd_env \<Rightarrow> exit_code + ('w umplg_mngr \<times> umd_env)"
where
  "sysagent_start inp umd pm e =
     (let e0 = snd (umd_create umd (Some []) (Some ''umsysagent'') e);
          dd0 = \<lparr>plg_cfg_f = None, plg_pth = None, dd_cfg = None\<rparr>;
          pm0 = pm\<lparr>cfg := None\<rparr>
      in case proc_args umd (in_opts inp) dd0 e0 of
           Inl c \<Rightarrow> Inl c
         | Inr (dd1, e1) \<Rightarrow>
             (let e2 = umd_start (Some umd) e1
              in case load_cfg (in_file inp) (in_parse inp) dd1 pm0 of
                   Inl c \<Rightarrow> Inl c
                 | Inr (dd2, pm1) \<Rightarrow>
                     (let pm2 = in_lua_init inp pm1;
                          (pm3, e3) = init_plugins (in_hs inp) (in_dl inp) (in_mem inp) umd (in_scandir inp)
                                        (plg_pth dd2) (pm2, e2)
                      in Inr (in_lua_start inp pm3, e3))))"

text \<open>After the loop.\<close>

definition sysagent_stop :: "'w agent_in \<Rightarrow> 'w umplg_mngr \<Rightarrow> 'w umplg_mngr" where
  "sysagent_stop inp pm =
     (let pm1 = umplg_terminate_all (in_hs inp) 0 pm;
          pm2 = in_lua_shutdown inp pm1;
          pm3 = umplg_terminate_all (in_hs inp) 1 pm2
      in umplg_free_mngr (in_hs inp) pm3)"

text \<open>\<open>None\<close> is a run that never ends.\<close>

definition sysagent_main ::
  "'w agent_in \<Rightarrow> nat \<Rightarrow> 'w umplg_mngr \<Rightarrow> umd_env \<Rightarrow> (exit_code \<times> 'w umplg_mngr option \<times> umd_env) option"
where
  "sysagent_main inp umd pm e =
     (case sysagent_start inp umd pm e of
        Inl c \<Rightarrow> Some (c, None, e)
      | Inr (pm1, e1) \<Rightarrow>
          (case umd_loop (in_sigs inp) 0 umd e1 of
             None \<Rightarrow> None
           | Some e2 \<Rightarrow> Some (EXIT_SUCCESS, Some (sysagent_stop inp pm1), e2)))"

section \<open>Lemmas\<close>

lemma init_plugins_eq:
  "init_plugins hs dl mem umd scandir pdir s =
     (case Option.bind pdir scandir of None \<Rightarrow> s | Some lst \<Rightarrow> fold (init_plugin hs dl mem umd (the pdir)) lst s)"
  by (simp add: init_plugins_def fs_readdir_def map_nth fold_nth_upt split: option.split)

lemma strstr_so_iff: "strstr_so s \<longleftrightarrow> (\<exists>a b. s = a @ ''.so'' @ b)"
proof (induction s)
  case (Cons c cs)
  have "strncmp_eq (c # cs) ''.so'' 3 \<longleftrightarrow> (\<exists>b. c # cs = ''.so'' @ b)"
    by (rule strncmp_eq_iff_prefix) simp
  moreover have "(\<exists>a b. c # cs = a @ ''.so'' @ b) \<longleftrightarrow> (\<exists>b. c # cs = ''.so'' @ b) \<or> (\<exists>a b. cs = a @ ''.so'' @ b)"
  proof
    assume "\<exists>a b. c # cs = a @ ''.so'' @ b"
    then obtain a b where "c # cs = a @ ''.so'' @ b" by blast
    then show "(\<exists>b. c # cs = ''.so'' @ b) \<or> (\<exists>a b. cs = a @ ''.so'' @ b)" by (cases a) auto
  next
    assume "(\<exists>b. c # cs = ''.so'' @ b) \<or> (\<exists>a b. cs = a @ ''.so'' @ b)"
    then show "\<exists>a b. c # cs = a @ ''.so'' @ b" by (metis append_Cons append_Nil)
  qed
  ultimately show ?case using Cons.IH by simp
qed simp

text \<open>Until the loop the daemon stays the current one and is not told to terminate.\<close>

definition umd_alive :: "nat \<Rightarrow> umd_env \<Rightarrow> bool" where
  "umd_alive a e \<longleftrightarrow> umd_cur e = Some a \<and> is_terminated (umd_heap e a) = 0"

lemma umd_alive_ops [simp]:
  "umd_alive a (umd_log b ll msg e) = umd_alive a e"
  "umd_alive a (umd_start d e) = umd_alive a e"
  "umd_alive a (umd_set_log_level (Some a) ll e) = umd_alive a e"
  "umd_alive a (snd (umd_set_id (Some a) i e)) = umd_alive a e"
  by (simp_all add: umd_alive_def umd_log_def umd_emit_def umd_start_def umd_set_log_level_def
      umd_set_id_def Let_def split: option.split)

lemma fst_fold_init_plugin:
  "fst (fold (init_plugin hs dl mem umd d) lst s) =
    umplg_loads hs dl (map (\<lambda>f. (mem (d @ ''/'' @ f), d @ ''/'' @ f)) (filter strstr_so lst)) (fst s)"
  by (induction lst arbitrary: s) (auto simp: init_plugin_def Let_def split_beta)

lemma init_plugins_alive: "umd_alive a (snd (init_plugins hs dl mem umd sc p s)) = umd_alive a (snd s)"
proof -
  have "umd_alive a (snd (init_plugin hs dl mem umd d f s)) = umd_alive a (snd s)" for d f s
    by (auto simp: init_plugin_def Let_def split_beta)
  then have "umd_alive a (snd (fold (init_plugin hs dl mem umd d) lst s)) = umd_alive a (snd s)" for d lst
    by (induction lst arbitrary: s) simp_all
  then show ?thesis by (simp add: init_plugins_eq split: option.split)
qed

lemma proc_opts_alive: "proc_opts umd opts (n, dd, e) = Inr (n', dd', e') \<Longrightarrow> umd_alive umd e \<Longrightarrow> umd_alive umd e'"
proof (induction opts arbitrary: n dd e)
  case (Cons opt opts)
  show ?case
  proof (cases opt)
    case (Opt_i i)
    with Cons.prems have "proc_opts umd opts (Suc n, dd, snd (umd_set_id (Some umd) (Some i) e)) = Inr (n', dd', e')"
      by (simp split: prod.splits if_splits)
    from Cons.IH [OF this] Cons.prems(2) show ?thesis by simp
  qed (use Cons in auto)
qed simp

lemma sysagent_start_alive:
  assumes "sysagent_start inp umd pm e = Inr (pm1, e1)"
  shows "umd_alive umd e1"
proof -
  let ?e0 = "snd (umd_create umd (Some []) (Some ''umsysagent'') e)"
  have "umd_alive umd ?e0" by (simp add: umd_alive_def umd_create_def UMD_ID_MAX_SZ_def)
  moreover obtain n dd1 e' where "proc_opts umd (in_opts inp) (0, \<lparr>plg_cfg_f = None, plg_pth = None, dd_cfg = None\<rparr>, ?e0) =
      Inr (n, dd1, e')" and "umd_alive umd e1 \<longleftrightarrow> umd_alive umd e'"
    using assms
    by (auto simp: sysagent_start_def proc_args_def Let_def init_plugins_alive split_beta
        split: sum.splits if_splits)
  ultimately show ?thesis using proc_opts_alive by blast
qed

section \<open>Properties\<close>

text \<open>
  The life of the agent: if start-up fails the process exits; otherwise it runs until
  SIGTERM arrives, for ever if none does, and then terminates every signal and every plugin
  in phase 0, shuts down Lua, terminates them all in phase 1, and only then frees the signals and
  closes the plugins, each once.
\<close>

theorem sysagent_lifecycle:
  assumes "term_frame (in_hs inp)" and "\<forall>q. \<exists>w. in_lua_shutdown inp q = q\<lparr>wld := w\<rparr>"
    and "sysagent_start inp umd pm e = Inr (pm1, e1)"
  shows "(sysagent_main inp umd pm e = None \<longleftrightarrow> (\<forall>i. SIGTERM \<notin> set (in_sigs inp i))) \<and>
    (\<forall>c pm' e'. sysagent_main inp umd pm e = Some (c, pm', e') \<longrightarrow> c = EXIT_SUCCESS \<and>
       (\<exists>pm2. pm' = Some pm2 \<and> evs pm2 = evs pm1 @ term_evs pm1 0 @ term_evs pm1 1 @
          map Ev_sh_free (HASH_ITER (signals pm1)) @ map (\<lambda>pd. Ev_dlclose (pd_handle pd)) (arr_elts (plgs pm1))))"
proof -
  have alive: "umd_alive umd e1" by (rule sysagent_start_alive [OF assms(3)])
  then have cur: "umd_cur e1 = Some umd" "\<not> umd_is_terminating e1"
    by (simp_all add: umd_alive_def umd_is_terminating_def)
  have main: "sysagent_main inp umd pm e = map_option (\<lambda>e2. (EXIT_SUCCESS, Some (sysagent_stop inp pm1), e2))
      (umd_loop (in_sigs inp) 0 umd e1)"
    by (simp add: sysagent_main_def assms(3) split: option.split)
  have "umd_loop (in_sigs inp) 0 umd e1 = None \<longleftrightarrow> (\<forall>i. SIGTERM \<notin> set (in_sigs inp i))"
    using umd_loop_ends [OF cur(1), of _ "in_sigs inp" 0] umd_loop_needs_signal [of "in_sigs inp" 0 umd e1] cur
    by (metis add_0 lessI not_Some_eq)
  moreover have "evs (sysagent_stop inp pm1) = evs pm1 @ term_evs pm1 0 @ term_evs pm1 1 @
      map Ev_sh_free (HASH_ITER (signals pm1)) @ map (\<lambda>pd. Ev_dlclose (pd_handle pd)) (arr_elts (plgs pm1))"
    unfolding sysagent_stop_def Let_def by (rule shutdown_with_hook [OF assms(1,2)])
  ultimately show ?thesis using main by auto
qed

definition demo_agent :: "unit agent_in" where
  "demo_agent = \<lparr>in_opts = [Opt_i ''a'', Opt_p ''/p'', Opt_plugins_cfg ''/c''], in_file = \<lambda>_. None, in_parse = \<lambda>_. None,
     in_scandir = \<lambda>_. Some [''a.so'', ''b.txt'', ''c.so''], in_dl = demo_dl, in_mem = \<lambda>_. 100,
     in_sigs = \<lambda>i. if i = 2 then [15] else [], in_hs = idle_hcode, in_lua_init = \<lambda>q. q,
     in_lua_start = \<lambda>q. q, in_lua_shutdown = \<lambda>q. q\<rparr>"

lemma demo_agent_start: "\<exists>s. sysagent_start demo_agent 7 demo_pm umd_env0 = Inr s"
  by (simp add: sysagent_start_def demo_agent_def proc_args_def load_cfg_def umd_set_id_def UMD_ID_MAX_SZ_def
      Let_def split_beta)

lemma sysagent_lifecycle_witness:
  "\<exists>pm2 e'. sysagent_main demo_agent 7 demo_pm umd_env0 = Some (EXIT_SUCCESS, Some pm2, e')"
proof -
  obtain pm1 e1 where s: "sysagent_start demo_agent 7 demo_pm umd_env0 = Inr (pm1, e1)"
    using demo_agent_start by fastforce
  have tf: "term_frame (in_hs demo_agent)" by (simp add: demo_agent_def term_frame_idle)
  have lf: "\<forall>q. \<exists>w. in_lua_shutdown demo_agent q = q\<lparr>wld := w\<rparr>" by (simp add: demo_agent_def)
  have "SIGTERM \<in> set (in_sigs demo_agent 2)" by (simp add: SIGTERM_def demo_agent_def)
  then obtain c pm' e' where m: "sysagent_main demo_agent 7 demo_pm umd_env0 = Some (c, pm', e')"
    using conjunct1 [OF sysagent_lifecycle [OF tf lf s]]
    by (cases "sysagent_main demo_agent 7 demo_pm umd_env0") auto
  then have "c = EXIT_SUCCESS \<and> (\<exists>pm2. pm' = Some pm2)"
    using conjunct2 [OF sysagent_lifecycle [OF tf lf s], rule_format, OF m] by blast
  with m show ?thesis by blast
qed

text \<open>
  (C34) The plugin directory: exactly the files whose name contains \<^verbatim>\<open>.so\<close> are loaded, in the
  order of the listing, from the plugin directory, and a plugin that cannot be loaded does not
  stop the others. So with at most eight such files every command is dispatched soundly.
\<close>

theorem init_plugins_loads:
  assumes "init_frame hs" and "scandir d = Some lst" and "length (filter strstr_so lst) \<le> 8"
    and "pm = fst (init_plugins hs dl mem umd scandir (Some d) (umplg_new_mngr c m w, e))"
  shows "pm = umplg_loads hs dl (map (\<lambda>f. (mem (d @ ''/'' @ f), d @ ''/'' @ f)) (filter strstr_so lst))
      (umplg_new_mngr c m w) \<and>
    (\<forall>f \<in> set lst. strstr_so f \<longleftrightarrow> (\<exists>a b. f = a @ ''.so'' @ b)) \<and>
    umplg_run hs pm cmd data loc \<noteq> None"
proof -
  have eq: "pm = umplg_loads hs dl (map (\<lambda>f. (mem (d @ ''/'' @ f), d @ ''/'' @ f)) (filter strstr_so lst))
      (umplg_new_mngr c m w)"
    using assms(2,4) by (simp add: init_plugins_eq fst_fold_init_plugin)
  have "hooks_ok dl pm"
    unfolding eq using assms(3)
    by (intro hooks_ok_loads [OF assms(1) hooks_ok_new]) (simp add: utarray_len_def utarray_new_def)
  then have "umplg_run hs pm cmd data loc \<noteq> None" by (rule umplg_run_defined)
  with eq strstr_so_iff show ?thesis by blast
qed

lemma init_plugins_loads_witness:
  "umplg_run idle_hcode (fst (init_plugins idle_hcode demo_dl (\<lambda>_. 100) 7 (\<lambda>_. Some [''a.so'', ''b.txt'', ''c.so''])
     (Some ''/p'') (umplg_new_mngr None (\<lambda>_. demo_sh) (), umd_env0))) 5
     \<lparr>id_type = UMPLG_DT_UNKNOWN, id_data = None\<rparr> False \<noteq> None"
proof -
  let ?sc = "\<lambda>_ :: string. Some [''a.so'', ''b.txt'', ''c.so'']"
  have "length (filter strstr_so [''a.so'', ''b.txt'', ''c.so'']) \<le> 8" by (simp add: strncmp_eq_def)
  note t = init_plugins_loads [OF init_frame_idle, of ?sc "''/p''", OF refl this refl]
  show ?thesis by (rule conjunct2 [OF conjunct2 [OF t]])
qed

text \<open>
  The check for the mandatory options only counts options: three daemon ids are accepted
  in place of an id, a plugin path and a configuration file, and the agent then starts
  with neither of the latter.
\<close>

theorem proc_args_counts_repeats:
  assumes "length a < 30" and "length b < 30" and "length c < 30"
  shows "\<exists>e'. proc_args umd [Opt_i a, Opt_i b, Opt_i c] dd e = Inr (dd, e') \<and> umd_id (umd_heap e' umd) = c"
  using assms by (simp add: proc_args_def umd_set_id_def UMD_ID_MAX_SZ_def)

lemma proc_args_counts_repeats_witness:
  "\<exists>e'. proc_args 7 [Opt_i ''x'', Opt_i ''y'', Opt_i ''z''] \<lparr>plg_cfg_f = None, plg_pth = None, dd_cfg = None\<rparr> umd_env0 =
     Inr (\<lparr>plg_cfg_f = None, plg_pth = None, dd_cfg = None\<rparr>, e')"
  using proc_args_counts_repeats [of "''x''" "''y''" "''z''" 7 "\<lparr>plg_cfg_f = None, plg_pth = None, dd_cfg = None\<rparr>" umd_env0]
  by auto

end
