(* ===== verification/Umdb.thy ===== *)
theory Umdb
  imports Prelude "HOL-Library.State_Monad"
begin

text \<open>
  The database manager: \<^verbatim>\<open>src/src/include/umdb.h\<close> and \<^verbatim>\<open>src/src/utils/umdb.c\<close>. SQLite is
  not part of the program: the functions of its C interface the code calls are the fields of an
  \<open>sqlite3_api\<close> record, computations on an arbitrary state. What the properties assume of it is
  stated in \<open>stmt_laws\<close>, \<open>auth_law\<close> and \<open>store_laws\<close>, call by call, after the SQLite
  documentation.
\<close>

section \<open>Data\<close>

record ('w, 's) sqlite3_api =
  sqlite3_open_v2 :: "string option \<Rightarrow> int \<Rightarrow> ('w, int \<times> nat option) state"
  sqlite3_close_v2 :: "nat option \<Rightarrow> ('w, int) state"
  sqlite3_prepare_v2 :: "nat option \<Rightarrow> string \<Rightarrow> ('w, int \<times> 's) state"
  sqlite3_bind_text :: "'s \<Rightarrow> nat \<Rightarrow> string \<Rightarrow> ('w, int) state"
  sqlite3_step :: "'s \<Rightarrow> ('w, int) state"
  sqlite3_column_int :: "'s \<Rightarrow> nat \<Rightarrow> ('w, int) state"
  sqlite3_column_text :: "'s \<Rightarrow> nat \<Rightarrow> ('w, string) state"
  sqlite3_clear_bindings :: "'s \<Rightarrow> ('w, int) state"
  sqlite3_reset :: "'s \<Rightarrow> ('w, int) state"
  sqlite3_finalize :: "'s \<Rightarrow> ('w, int) state"

definition SQLITE_OK :: int where "SQLITE_OK = 0"
definition SQLITE_ROW :: int where "SQLITE_ROW = 100"
definition SQLITE_DONE :: int where "SQLITE_DONE = 101"

text \<open>\<^verbatim>\<open>SQLITE_OPEN_READWRITE | SQLITE_OPEN_FULLMUTEX\<close>, with \<^verbatim>\<open>SQLITE_OPEN_MEMORY\<close> on demand.\<close>

definition open_flags :: "bool \<Rightarrow> int" where
  "open_flags mem = (2 OR 65536) OR (if mem then 128 else 0)"

record umdb_mngrd =
  mngr_db :: "nat option"

record umdb_uauth_d =
  ua_auth :: int
  ua_id :: int
  ua_flags :: int
  ua_usr :: "string option"

definition SQL_USER_AUTH :: string where
  "SQL_USER_AUTH =
     ''SELECT a.id, '' @
     ''       a.flags, '' @
     ''       a.username, '' @
     ''       iif(b.username is NULL, 0, 1) as auth '' @
     ''FROM user a '' @
     ''LEFT JOIN '' @
     ''   (SELECT flags, username  '' @
     ''    FROM user a '' @
     ''    WHERE username = ? AND '' @
     ''    password = ?) b '' @
     ''ON a.username = b.username '' @
     ''WHERE a.username = ?''"

definition SQL_USER_GET :: string where
  "SQL_USER_GET = ''SELECT * FROM user '' @ ''WHERE username = ?''"

text \<open>The three storage statements, with the table name put in by \<^verbatim>\<open>snprintf\<close>.\<close>

definition SQL_STORAGE_INIT :: "string \<Rightarrow> string" where
  "SQL_STORAGE_INIT db = ''CREATE TABLE IF NOT EXISTS '' @ db @ '' (k STRING PRIMARY KEY, v STRING)''"

definition SQL_STORAGE_SET :: "string \<Rightarrow> string" where
  "SQL_STORAGE_SET db = ''INSERT INTO '' @ db @ '' VALUES (?, ?) ON CONFLICT(k) DO UPDATE SET v = ?''"

definition SQL_STORAGE_GET :: "string \<Rightarrow> string" where
  "SQL_STORAGE_GET db = ''SELECT v FROM '' @ db @ '' WHERE k = ?''"

section \<open>Operations\<close>

definition umdb_mngr_new ::
  "('w, 's) sqlite3_api \<Rightarrow> string option \<Rightarrow> bool \<Rightarrow> ('w, umdb_mngrd option) state"
where
  "umdb_mngr_new sq db mem =
     (if \<not> mem \<and> db = None then State_Monad.return None
      else do {
        (r, db_p) \<leftarrow> sqlite3_open_v2 sq db (open_flags mem);
        if r = 0 then State_Monad.return (Some \<lparr>mngr_db = db_p\<rparr>)
        else do { _ \<leftarrow> sqlite3_close_v2 sq db_p; State_Monad.return None }
      })"

definition umdb_mngr_free :: "('w, 's) sqlite3_api \<Rightarrow> umdb_mngrd option \<Rightarrow> ('w, unit) state" where
  "umdb_mngr_free sq m =
     (case m of
        None \<Rightarrow> State_Monad.return ()
      | Some d \<Rightarrow>
          if mngr_db d \<noteq> None then do { _ \<leftarrow> sqlite3_close_v2 sq (mngr_db d); State_Monad.return () }
          else State_Monad.return ())"

text \<open>
  The cleanup every query ends with: each call that fails returns its own code, and \<open>k\<close> is what
  happens after the last one.
\<close>

definition umdb_cleanup ::
  "('w, 's) sqlite3_api \<Rightarrow> 's \<Rightarrow> int \<Rightarrow> (int \<Rightarrow> 'r) \<Rightarrow> ('w, 'r) state \<Rightarrow> ('w, 'r) state"
where
  "umdb_cleanup sq stmt c fail k = do {
     r1 \<leftarrow> sqlite3_clear_bindings sq stmt;
     if r1 \<noteq> 0 then State_Monad.return (fail c) else do {
       r2 \<leftarrow> sqlite3_reset sq stmt;
       if r2 \<noteq> 0 then State_Monad.return (fail (c + 1)) else do {
         r3 \<leftarrow> sqlite3_finalize sq stmt;
         if r3 \<noteq> 0 then State_Monad.return (fail (c + 2)) else k
       }
     }
   }"

text \<open>Binding the \<open>i\<close>-th parameter, or returning an error.\<close>

definition umdb_bind ::
  "('w, 's) sqlite3_api \<Rightarrow> 's \<Rightarrow> nat \<Rightarrow> string \<Rightarrow> 'r \<Rightarrow> ('w, 'r) state \<Rightarrow> ('w, 'r) state"
where
  "umdb_bind sq stmt i v err k = do {
     r \<leftarrow> sqlite3_bind_text sq stmt i v;
     if r \<noteq> 0 then State_Monad.return err else k
   }"

text \<open>The step of the authentication query and the columns read from its row: identifier, flags, auth.\<close>

definition uauth_fetch :: "('w, 's) sqlite3_api \<Rightarrow> 's \<Rightarrow> ('w, int \<times> int \<times> int) state" where
  "uauth_fetch sq stmt = do {
     r \<leftarrow> sqlite3_step sq stmt;
     if r = SQLITE_ROW then do {
       i \<leftarrow> sqlite3_column_int sq stmt 0;
       f \<leftarrow> sqlite3_column_int sq stmt 1;
       a \<leftarrow> sqlite3_column_int sq stmt 3;
       State_Monad.return (i, f, a) }
     else State_Monad.return (- 1, 0, - 1)
   }"

definition umdb_mngr_uauth ::
  "('w, 's) sqlite3_api \<Rightarrow> umdb_mngrd option \<Rightarrow> umdb_uauth_d option \<Rightarrow> string option \<Rightarrow> string option \<Rightarrow>
     ('w, int \<times> umdb_uauth_d option) state"
where
  "umdb_mngr_uauth sq m res u p =
     (if (case res of Some d \<Rightarrow> ua_auth d = 1 | None \<Rightarrow> False) then State_Monad.return (0, res)
      else case (Option.bind m mngr_db, res, u, p) of
        (Some h, Some d, Some usr, Some pwd) \<Rightarrow> do {
          (r, stmt) \<leftarrow> sqlite3_prepare_v2 sq (Some h) SQL_USER_AUTH;
          if r \<noteq> SQLITE_OK then State_Monad.return (2, res) else
          umdb_bind sq stmt 1 usr (3, res) (
          umdb_bind sq stmt 2 pwd (4, res) (
          umdb_bind sq stmt 3 usr (5, res) (do {
            (usr_id, usr_flags, auth) \<leftarrow> uauth_fetch sq stmt;
            umdb_cleanup sq stmt 6 (\<lambda>c. (c, res))
              (State_Monad.return (0, Some (d\<lparr>ua_auth := auth, ua_id := usr_id, ua_flags := usr_flags\<rparr>)))
          }))) }
      | _ \<Rightarrow> State_Monad.return (1, res))"

definition uget_fetch :: "('w, 's) sqlite3_api \<Rightarrow> 's \<Rightarrow> ('w, int \<times> int) state" where
  "uget_fetch sq stmt = do {
     r \<leftarrow> sqlite3_step sq stmt;
     if r = SQLITE_ROW then do {
       i \<leftarrow> sqlite3_column_int sq stmt 0;
       f \<leftarrow> sqlite3_column_int sq stmt 3;
       State_Monad.return (i, f) }
     else State_Monad.return (- 1, 0)
   }"

definition umdb_mngr_uget ::
  "('w, 's) sqlite3_api \<Rightarrow> umdb_mngrd option \<Rightarrow> umdb_uauth_d option \<Rightarrow> string option \<Rightarrow>
     ('w, int \<times> umdb_uauth_d option) state"
where
  "umdb_mngr_uget sq m res u =
     (case (Option.bind m mngr_db, res, u) of
        (Some h, Some d, Some usr) \<Rightarrow> do {
          (r, stmt) \<leftarrow> sqlite3_prepare_v2 sq (Some h) SQL_USER_GET;
          if r \<noteq> SQLITE_OK then State_Monad.return (2, res) else
          umdb_bind sq stmt 1 usr (3, res) (do {
            (usr_id, usr_flags) \<leftarrow> uget_fetch sq stmt;
            umdb_cleanup sq stmt 6 (\<lambda>c. (c, res))
              (State_Monad.return (0, Some (d\<lparr>ua_id := usr_id, ua_flags := usr_flags, ua_usr := Some usr\<rparr>)))
          }) }
      | _ \<Rightarrow> State_Monad.return (1, res))"

definition umdb_mngr_store_set ::
  "('w, 's) sqlite3_api \<Rightarrow> umdb_mngrd option \<Rightarrow> string option \<Rightarrow> string option \<Rightarrow> string option \<Rightarrow> ('w, int) state"
where
  "umdb_mngr_store_set sq m db k v =
     (case (m, db, k, v) of
        (Some md, Some t, Some key, Some val) \<Rightarrow> do {
          (r, stmt) \<leftarrow> sqlite3_prepare_v2 sq (mngr_db md) (SQL_STORAGE_SET t);
          if r \<noteq> SQLITE_OK then State_Monad.return 2 else
          umdb_bind sq stmt 1 key 3 (
          umdb_bind sq stmt 2 val 4 (
          umdb_bind sq stmt 3 val 5 (do {
            r2 \<leftarrow> sqlite3_step sq stmt;
            umdb_cleanup sq stmt 6 (\<lambda>c. c)
              (State_Monad.return (if r2 \<noteq> SQLITE_DONE then 9 else 0))
          }))) }
      | _ \<Rightarrow> State_Monad.return 1)"

text \<open>
  The result is the return code, \<^verbatim>\<open>*out\<close> (left as it was unless a row is found) and \<^verbatim>\<open>*out_sz\<close>;
  the two pointers are not NULL in any call of the program.
\<close>

definition store_fetch :: "('w, 's) sqlite3_api \<Rightarrow> 's \<Rightarrow> string option \<Rightarrow> ('w, nat \<times> string option \<times> nat) state" where
  "store_fetch sq stmt out = do {
     r \<leftarrow> sqlite3_step sq stmt;
     if r = SQLITE_ROW then do {
       v \<leftarrow> sqlite3_column_text sq stmt 0;
       State_Monad.return (length v, Some v, length v + 1) }
     else State_Monad.return (0, out, 0)
   }"

definition umdb_mngr_store_get ::
  "('w, 's) sqlite3_api \<Rightarrow> umdb_mngrd option \<Rightarrow> string option \<Rightarrow> string option \<Rightarrow> string option \<Rightarrow> nat \<Rightarrow>
     ('w, int \<times> string option \<times> nat) state"
where
  "umdb_mngr_store_get sq m db k out out_sz =
     (case (m, db, k) of
        (Some md, Some t, Some key) \<Rightarrow> do {
          (r, stmt) \<leftarrow> sqlite3_prepare_v2 sq (mngr_db md) (SQL_STORAGE_GET t);
          if r \<noteq> SQLITE_OK then State_Monad.return (3, out, out_sz) else
          umdb_bind sq stmt 1 key (4, out, out_sz) (do {
            (rl, out', sz') \<leftarrow> store_fetch sq stmt out;
            umdb_cleanup sq stmt 5 (\<lambda>c. (c, out', sz'))
              (State_Monad.return (if rl > 0 then 0 else 8, out', sz'))
          }) }
      | _ \<Rightarrow> State_Monad.return (1, out, out_sz))"

definition umdb_mngr_store_init ::
  "('w, 's) sqlite3_api \<Rightarrow> umdb_mngrd option \<Rightarrow> string option \<Rightarrow> ('w, int) state"
where
  "umdb_mngr_store_init sq m name =
     (case (m, name) of
        (Some md, Some t) \<Rightarrow> do {
          (r, stmt) \<leftarrow> sqlite3_prepare_v2 sq (mngr_db md) (SQL_STORAGE_INIT t);
          if r \<noteq> SQLITE_OK then State_Monad.return 2 else do {
            r2 \<leftarrow> sqlite3_step sq stmt;
            umdb_cleanup sq stmt 4 (\<lambda>c. c)
              (State_Monad.return (if r2 \<noteq> SQLITE_DONE then 7 else 0))
          } }
      | _ \<Rightarrow> State_Monad.return 1)"

section \<open>What is assumed of SQLite\<close>

text \<open>
  \<open>view_of\<close> is what the properties observe of an engine state: the text and the bound parameters of
  a statement, whether its last step failed, and the content of the database.
\<close>

record ('w, 's, 'o) sq_view =
  v_sql :: "'w \<Rightarrow> 's \<Rightarrow> string"
  v_arg :: "'w \<Rightarrow> 's \<Rightarrow> nat \<Rightarrow> string option"
  v_err :: "'w \<Rightarrow> 's \<Rightarrow> bool"
  v_db :: "'w \<Rightarrow> 'o"

text \<open>
  Statements: preparing one yields its text, binding sets one parameter, reading a column and
  clearing, resetting and finalising change nothing in the database, and resetting a statement
  whose step failed reports the failure.
\<close>

definition stmt_laws :: "('w, 's) sqlite3_api \<Rightarrow> ('w, 's, 'o) sq_view \<Rightarrow> bool" where
  "stmt_laws sq V \<longleftrightarrow>
     (\<forall>h q w r s w'. run_state (sqlite3_prepare_v2 sq h q) w = ((r, s), w') \<longrightarrow>
        v_db V w' = v_db V w \<and> (r = SQLITE_OK \<longrightarrow> v_sql V w' s = q)) \<and>
     (\<forall>s i x w r w'. run_state (sqlite3_bind_text sq s i x) w = (r, w') \<longrightarrow>
        v_db V w' = v_db V w \<and> v_sql V w' s = v_sql V w s \<and>
        (r = 0 \<longrightarrow> v_arg V w' s = (v_arg V w s)(i := Some x))) \<and>
     (\<forall>s i w. snd (run_state (sqlite3_column_int sq s i) w) = w) \<and>
     (\<forall>s i w. snd (run_state (sqlite3_column_text sq s i) w) = w) \<and>
     (\<forall>s w r w'. run_state (sqlite3_step sq s) w = (r, w') \<longrightarrow>
        v_err V w' s = (r \<noteq> SQLITE_ROW \<and> r \<noteq> SQLITE_DONE)) \<and>
     (\<forall>s w r w'. run_state (sqlite3_clear_bindings sq s) w = (r, w') \<longrightarrow>
        v_db V w' = v_db V w \<and> v_err V w' s = v_err V w s) \<and>
     (\<forall>s w r w'. run_state (sqlite3_reset sq s) w = (r, w') \<longrightarrow>
        v_db V w' = v_db V w \<and> (v_err V w s \<longrightarrow> r \<noteq> 0)) \<and>
     (\<forall>s w. v_db V (snd (run_state (sqlite3_finalize sq s) w)) = v_db V w)"

text \<open>
  The authentication query against a table of users (identifier, flags, password): a row for
  the user if there is one, whose last column tells whether the password is right.
\<close>

type_synonym user_row = "int \<times> int \<times> string"

definition auth_law ::
  "('w, 's) sqlite3_api \<Rightarrow> ('w, 's, 'o) sq_view \<Rightarrow> ('o \<Rightarrow> string \<Rightarrow> user_row option) \<Rightarrow> bool"
where
  "auth_law sq V users \<longleftrightarrow> (\<forall>s w r w' u p. v_sql V w s = SQL_USER_AUTH \<longrightarrow>
     v_arg V w s 1 = Some u \<longrightarrow> v_arg V w s 2 = Some p \<longrightarrow> v_arg V w s 3 = Some u \<longrightarrow>
     run_state (sqlite3_step sq s) w = (r, w') \<longrightarrow> v_db V w' = v_db V w \<and>
     (r = SQLITE_DONE \<longrightarrow> users (v_db V w) u = None) \<and>
     (r = SQLITE_ROW \<longrightarrow> (\<exists>i f pw. users (v_db V w) u = Some (i, f, pw) \<and>
        fst (run_state (sqlite3_column_int sq s 0) w') = i \<and> fst (run_state (sqlite3_column_int sq s 1) w') = f \<and>
        fst (run_state (sqlite3_column_int sq s 3) w') = (if pw = p then 1 else 0))))"

text \<open>The user query: the row of the user, identifier first, flags in the fourth column.\<close>

definition uget_law ::
  "('w, 's) sqlite3_api \<Rightarrow> ('w, 's, 'o) sq_view \<Rightarrow> ('o \<Rightarrow> string \<Rightarrow> user_row option) \<Rightarrow> bool"
where
  "uget_law sq V users \<longleftrightarrow> (\<forall>s w r w' u. v_sql V w s = SQL_USER_GET \<longrightarrow> v_arg V w s 1 = Some u \<longrightarrow>
     run_state (sqlite3_step sq s) w = (r, w') \<longrightarrow> v_db V w' = v_db V w \<and>
     (r = SQLITE_DONE \<longrightarrow> users (v_db V w) u = None) \<and>
     (r = SQLITE_ROW \<longrightarrow> (\<exists>i f pw. users (v_db V w) u = Some (i, f, pw) \<and>
        fst (run_state (sqlite3_column_int sq s 0) w') = i \<and> fst (run_state (sqlite3_column_int sq s 3) w') = f)))"

text \<open>
  A storage table. Its columns are declared \<^verbatim>\<open>STRING\<close>, a type name to which SQLite gives
  NUMERIC affinity: text that looks like a number is stored, and compared, as that number.
  \<open>aff\<close> is what a text becomes.
\<close>

definition store_laws ::
  "('w, 's) sqlite3_api \<Rightarrow> ('w, 's, 'o) sq_view \<Rightarrow> ('o \<Rightarrow> string \<Rightarrow> string option) \<Rightarrow> (string \<Rightarrow> string) \<Rightarrow> string \<Rightarrow> bool"
where
  "store_laws sq V tbl aff t \<longleftrightarrow>
     (\<forall>s w r w' k x. v_sql V w s = SQL_STORAGE_SET t \<longrightarrow>
        v_arg V w s 1 = Some k \<longrightarrow> v_arg V w s 2 = Some x \<longrightarrow> v_arg V w s 3 = Some x \<longrightarrow>
        run_state (sqlite3_step sq s) w = (r, w') \<longrightarrow>
        tbl (v_db V w') = (if r = SQLITE_DONE then (tbl (v_db V w))(aff k := Some (aff x)) else tbl (v_db V w))) \<and>
     (\<forall>s w r w' k. v_sql V w s = SQL_STORAGE_GET t \<longrightarrow> v_arg V w s 1 = Some k \<longrightarrow>
        run_state (sqlite3_step sq s) w = (r, w') \<longrightarrow> v_db V w' = v_db V w \<and>
        (r = SQLITE_DONE \<longrightarrow> tbl (v_db V w) (aff k) = None) \<and>
        (r = SQLITE_ROW \<longrightarrow> tbl (v_db V w) (aff k) = Some (fst (run_state (sqlite3_column_text sq s 0) w'))))"

text \<open>\<^verbatim>\<open>CREATE TABLE IF NOT EXISTS\<close> changes nothing in a table, which is empty before it exists.\<close>

definition init_law ::
  "('w, 's) sqlite3_api \<Rightarrow> ('w, 's, 'o) sq_view \<Rightarrow> ('o \<Rightarrow> string \<Rightarrow> string option) \<Rightarrow> string \<Rightarrow> bool"
where
  "init_law sq V tbl t \<longleftrightarrow> (\<forall>s w r w'. v_sql V w s = SQL_STORAGE_INIT t \<longrightarrow>
     run_state (sqlite3_step sq s) w = (r, w') \<longrightarrow> tbl (v_db V w') = tbl (v_db V w))"

text \<open>
  An engine that works, for the storage statements of a table: they compile, their parameters can be bound,
  creating and storing run to the end, a lookup finds a row or none, and a statement that did not fail is
  cleaned up without an error.
\<close>

definition sqlite_works :: "('w, 's) sqlite3_api \<Rightarrow> ('w, 's, 'o) sq_view \<Rightarrow> string \<Rightarrow> bool" where
  "sqlite_works sq V t \<longleftrightarrow>
     (\<forall>h w. \<forall>q \<in> {SQL_STORAGE_INIT t, SQL_STORAGE_SET t, SQL_STORAGE_GET t}.
        fst (fst (run_state (sqlite3_prepare_v2 sq h q) w)) = SQLITE_OK) \<and>
     (\<forall>s i x w. fst (run_state (sqlite3_bind_text sq s i x) w) = 0) \<and>
     (\<forall>s w. v_sql V w s \<in> {SQL_STORAGE_INIT t, SQL_STORAGE_SET t} \<longrightarrow>
        fst (run_state (sqlite3_step sq s) w) = SQLITE_DONE) \<and>
     (\<forall>s w. v_sql V w s = SQL_STORAGE_GET t \<longrightarrow> fst (run_state (sqlite3_step sq s) w) \<in> {SQLITE_ROW, SQLITE_DONE}) \<and>
     (\<forall>s w. fst (run_state (sqlite3_clear_bindings sq s) w) = 0) \<and>
     (\<forall>s w. \<not> v_err V w s \<longrightarrow> fst (run_state (sqlite3_reset sq s) w) = 0) \<and>
     (\<forall>s w. fst (run_state (sqlite3_finalize sq s) w) = 0)"

section \<open>Lemmas\<close>

lemma stmt_lawsD:
  assumes "stmt_laws sq V"
  shows "run_state (sqlite3_prepare_v2 sq h q) w = ((r, s), w') \<Longrightarrow>
      v_db V w' = v_db V w \<and> (r = SQLITE_OK \<longrightarrow> v_sql V w' s = q)"
    and "run_state (sqlite3_bind_text sq s i x) w = (r, w') \<Longrightarrow>
      v_db V w' = v_db V w \<and> v_sql V w' s = v_sql V w s \<and>
      (r = 0 \<longrightarrow> v_arg V w' s = (v_arg V w s)(i := Some x))"
    and "snd (run_state (sqlite3_column_int sq s i) w) = w"
    and "snd (run_state (sqlite3_column_text sq s i) w) = w"
    and "run_state (sqlite3_step sq s) w = (r, w') \<Longrightarrow>
      v_err V w' s = (r \<noteq> SQLITE_ROW \<and> r \<noteq> SQLITE_DONE)"
    and "run_state (sqlite3_clear_bindings sq s) w = (r, w') \<Longrightarrow>
      v_db V w' = v_db V w \<and> v_err V w' s = v_err V w s"
    and "run_state (sqlite3_reset sq s) w = (r, w') \<Longrightarrow> v_db V w' = v_db V w \<and> (v_err V w s \<longrightarrow> r \<noteq> 0)"
    and "v_db V (snd (run_state (sqlite3_finalize sq s) w)) = v_db V w"
  using assms unfolding stmt_laws_def by simp_all

lemma umdb_bindE:
  assumes "run_state (umdb_bind sq s i x err k) w = (r, w')" and "stmt_laws sq V"
  obtains "r = err" "v_db V w' = v_db V w"
  | w1 where "run_state k w1 = (r, w')" "v_db V w1 = v_db V w" "v_sql V w1 s = v_sql V w s"
      "v_arg V w1 s = (v_arg V w s)(i := Some x)"
proof -
  obtain r1 w1 where b: "run_state (sqlite3_bind_text sq s i x) w = (r1, w1)" by fastforce
  from stmt_lawsD(2) [OF assms(2) b] have l: "v_db V w1 = v_db V w" "v_sql V w1 s = v_sql V w s"
    "r1 = 0 \<longrightarrow> v_arg V w1 s = (v_arg V w s)(i := Some x)" by simp_all
  show thesis
  proof (cases "r1 = 0")
    case True
    with b assms(1) have "run_state k w1 = (r, w')" by (simp add: umdb_bind_def)
    with True l show thesis by (intro that(2) [of w1]) simp_all
  next
    case False
    with b assms(1) have "r = err" "w' = w1" by (simp_all add: umdb_bind_def)
    with l(1) show thesis by (intro that(1)) simp_all
  qed
qed

lemma umdb_cleanupE:
  assumes "run_state (umdb_cleanup sq s c fail k) w = (r, w')" and "stmt_laws sq V"
  obtains j where "r = fail (c + j)" "j \<in> {0, 1, 2}" "v_db V w' = v_db V w"
  | w1 where "run_state k w1 = (r, w')" "v_db V w1 = v_db V w" "\<not> v_err V w s"
proof -
  obtain r1 w1 where c1: "run_state (sqlite3_clear_bindings sq s) w = (r1, w1)" by fastforce
  obtain r2 w2 where c2: "run_state (sqlite3_reset sq s) w1 = (r2, w2)" by fastforce
  obtain r3 w3 where c3: "run_state (sqlite3_finalize sq s) w2 = (r3, w3)" by fastforce
  from stmt_lawsD(6) [OF assms(2) c1] have l1: "v_db V w1 = v_db V w" "v_err V w1 s = v_err V w s" by simp_all
  from stmt_lawsD(7) [OF assms(2) c2] have l2: "v_db V w2 = v_db V w1" "v_err V w1 s \<longrightarrow> r2 \<noteq> 0" by simp_all
  from stmt_lawsD(8) [OF assms(2), of s w2] c3 have l3: "v_db V w3 = v_db V w2" by simp
  consider "r1 \<noteq> 0" | "r1 = 0" "r2 \<noteq> 0" | "r1 = 0" "r2 = 0" "r3 \<noteq> 0" | "r1 = 0" "r2 = 0" "r3 = 0" by blast
  then show thesis
  proof cases
    case 1
    with assms(1) c1 have "r = fail (c + 0)" "w' = w1" by (simp_all add: umdb_cleanup_def)
    with l1 show thesis by (intro that(1) [of 0]) simp_all
  next
    case 2
    with assms(1) c1 c2 have "r = fail (c + 1)" "w' = w2" by (simp_all add: umdb_cleanup_def)
    with l1 l2 show thesis by (intro that(1) [of 1]) simp_all
  next
    case 3
    with assms(1) c1 c2 c3 have "r = fail (c + 2)" "w' = w3" by (simp_all add: umdb_cleanup_def)
    with l1 l2 l3 show thesis by (intro that(1) [of 2]) simp_all
  next
    case 4
    with assms(1) c1 c2 c3 have "run_state k w3 = (r, w')" by (simp add: umdb_cleanup_def)
    with 4 l1 l2 l3 show thesis by (intro that(2) [of w3]) simp_all
  qed
qed

lemma prepareE:
  assumes "stmt_laws sq V"
  obtains r s w' where "run_state (sqlite3_prepare_v2 sq h q) w = ((r, s), w')" "v_db V w' = v_db V w"
    "r = SQLITE_OK \<Longrightarrow> v_sql V w' s = q"
proof -
  obtain r s w' where p: "run_state (sqlite3_prepare_v2 sq h q) w = ((r, s), w')" by (metis prod.exhaust)
  from stmt_lawsD(1) [OF assms p] p that show thesis by blast
qed

lemma run_column_int:
  "stmt_laws sq V \<Longrightarrow> run_state (sqlite3_column_int sq s i) w = (fst (run_state (sqlite3_column_int sq s i) w), w)"
  using stmt_lawsD(3) [of sq V s i w] by (simp add: prod_eq_iff)

lemma run_column_text:
  "stmt_laws sq V \<Longrightarrow> run_state (sqlite3_column_text sq s i) w = (fst (run_state (sqlite3_column_text sq s i) w), w)"
  using stmt_lawsD(4) [of sq V s i w] by (simp add: prod_eq_iff)

text \<open>The part of the query after the parameters are bound.\<close>

lemma uauth_fetch_row:
  assumes "stmt_laws sq V" and "auth_law sq V users" and "v_sql V w s = SQL_USER_AUTH"
    and "v_arg V w s 1 = Some u" and "v_arg V w s 2 = Some p" and "v_arg V w s 3 = Some u"
    and "run_state (uauth_fetch sq s) w = (row, w')"
  shows "v_db V w' = v_db V w" "\<not> v_err V w' s \<Longrightarrow> row = (case users (v_db V w) u of
      None \<Rightarrow> (- 1, 0, - 1) | Some (i, f, pw) \<Rightarrow> (i, f, if pw = p then 1 else 0))"
proof -
  obtain r w1 where st: "run_state (sqlite3_step sq s) w = (r, w1)" by fastforce
  have "v_db V w1 = v_db V w \<and> (r = SQLITE_DONE \<longrightarrow> users (v_db V w) u = None) \<and>
     (r = SQLITE_ROW \<longrightarrow> (\<exists>i f pw. users (v_db V w) u = Some (i, f, pw) \<and>
        fst (run_state (sqlite3_column_int sq s 0) w1) = i \<and> fst (run_state (sqlite3_column_int sq s 1) w1) = f \<and>
        fst (run_state (sqlite3_column_int sq s 3) w1) = (if pw = p then 1 else 0)))"
    using assms(2-6) st unfolding auth_law_def by blast
  moreover have "v_err V w1 s = (r \<noteq> SQLITE_ROW \<and> r \<noteq> SQLITE_DONE)" by (rule stmt_lawsD(5) [OF assms(1) st])
  moreover have "w' = w1" using assms(7) st
    by (auto simp: uauth_fetch_def split_beta stmt_lawsD(3) [OF assms(1)] split: if_splits)
  ultimately show "v_db V w' = v_db V w" "\<not> v_err V w' s \<Longrightarrow> row = (case users (v_db V w) u of
      None \<Rightarrow> (- 1, 0, - 1) | Some (i, f, pw) \<Rightarrow> (i, f, if pw = p then 1 else 0))"
    using assms(7) st
    by (auto simp: uauth_fetch_def split_beta stmt_lawsD(3) [OF assms(1)] SQLITE_ROW_def SQLITE_DONE_def)
qed

text \<open>Three parameters in a row, or the error code of the one that failed.\<close>

lemma umdb_bind3E:
  assumes "run_state (umdb_bind sq s 1 x (mk 3) (umdb_bind sq s 2 y (mk 4) (umdb_bind sq s 3 z (mk 5) k))) w = (r, w')"
    and "stmt_laws sq V"
  obtains c where "r = mk c" "c \<in> {3, 4, 5 :: int}" "v_db V w' = v_db V w"
  | w1 where "run_state k w1 = (r, w')" "v_db V w1 = v_db V w" "v_sql V w1 s = v_sql V w s"
      "v_arg V w1 s 1 = Some x" "v_arg V w1 s 2 = Some y" "v_arg V w1 s 3 = Some z"
proof (rule umdb_bindE [OF assms])
  fix w1 assume b1: "run_state (umdb_bind sq s 2 y (mk 4) (umdb_bind sq s 3 z (mk 5) k)) w1 = (r, w')"
    "v_db V w1 = v_db V w" "v_sql V w1 s = v_sql V w s" "v_arg V w1 s = (v_arg V w s)(1 := Some x)"
  show thesis
  proof (rule umdb_bindE [OF b1(1) assms(2)])
    fix w2 assume b2: "run_state (umdb_bind sq s 3 z (mk 5) k) w2 = (r, w')"
      "v_db V w2 = v_db V w1" "v_sql V w2 s = v_sql V w1 s" "v_arg V w2 s = (v_arg V w1 s)(2 := Some y)"
    show thesis
    proof (rule umdb_bindE [OF b2(1) assms(2)])
      fix w3 assume "run_state k w3 = (r, w')"
        "v_db V w3 = v_db V w2" "v_sql V w3 s = v_sql V w2 s" "v_arg V w3 s = (v_arg V w2 s)(3 := Some z)"
      with b1 b2 show thesis by (intro that(2) [of w3]) simp_all
    qed (use b1 b2 that(1) [of 5] in simp)
  qed (use b1 that(1) [of 4] in simp)
qed (use that(1) [of 3] in simp)

lemma uget_fetch_row:
  assumes "stmt_laws sq V" and "uget_law sq V users" and "v_sql V w s = SQL_USER_GET"
    and "v_arg V w s 1 = Some u" and "run_state (uget_fetch sq s) w = (row, w')"
  shows "v_db V w' = v_db V w" "\<not> v_err V w' s \<Longrightarrow> row = (case users (v_db V w) u of
      None \<Rightarrow> (- 1, 0) | Some (i, f, pw) \<Rightarrow> (i, f))"
proof -
  obtain r w1 where st: "run_state (sqlite3_step sq s) w = (r, w1)" by fastforce
  have "v_db V w1 = v_db V w \<and> (r = SQLITE_DONE \<longrightarrow> users (v_db V w) u = None) \<and>
     (r = SQLITE_ROW \<longrightarrow> (\<exists>i f pw. users (v_db V w) u = Some (i, f, pw) \<and>
        fst (run_state (sqlite3_column_int sq s 0) w1) = i \<and> fst (run_state (sqlite3_column_int sq s 3) w1) = f))"
    using assms(2-4) st unfolding uget_law_def by blast
  moreover have "v_err V w1 s = (r \<noteq> SQLITE_ROW \<and> r \<noteq> SQLITE_DONE)" by (rule stmt_lawsD(5) [OF assms(1) st])
  moreover have "w' = w1" using assms(5) st
    by (auto simp: uget_fetch_def split_beta stmt_lawsD(3) [OF assms(1)] split: if_splits)
  ultimately show "v_db V w' = v_db V w" "\<not> v_err V w' s \<Longrightarrow> row = (case users (v_db V w) u of
      None \<Rightarrow> (- 1, 0) | Some (i, f, pw) \<Rightarrow> (i, f))"
    using assms(5) st
    by (auto simp: uget_fetch_def split_beta stmt_lawsD(3) [OF assms(1)] SQLITE_ROW_def SQLITE_DONE_def)
qed

text \<open>Authentication, on every branch.\<close>

lemma umdb_uauth_effect:
  assumes "stmt_laws sq V" and "auth_law sq V users" and "ua_auth d \<noteq> 1"
    and "run_state (umdb_mngr_uauth sq (Some \<lparr>mngr_db = Some h\<rparr>) (Some d) (Some u) (Some p)) w = ((rc, res), w')"
  shows "v_db V w' = v_db V w \<and> (rc \<noteq> 0 \<longrightarrow> rc \<in> {2..8} \<and> res = Some d) \<and>
    (rc = 0 \<longrightarrow> res = Some (case users (v_db V w) u of
        None \<Rightarrow> d\<lparr>ua_auth := - 1, ua_id := - 1, ua_flags := 0\<rparr>
      | Some (i, f, pw) \<Rightarrow> d\<lparr>ua_auth := (if pw = p then 1 else 0), ua_id := i, ua_flags := f\<rparr>))"
proof -
  obtain r0 s w0 where p0: "run_state (sqlite3_prepare_v2 sq (Some h) SQL_USER_AUTH) w = ((r0, s), w0)"
    "v_db V w0 = v_db V w" "r0 = SQLITE_OK \<Longrightarrow> v_sql V w0 s = SQL_USER_AUTH"
    using prepareE [OF assms(1)] by metis
  show ?thesis
  proof (cases "r0 = SQLITE_OK")
    case False
    with assms(3,4) p0 show ?thesis by (auto simp: umdb_mngr_uauth_def)
  next
    case True
    let ?rest = "do {
        (usr_id, usr_flags, auth) \<leftarrow> uauth_fetch sq s;
        umdb_cleanup sq s 6 (\<lambda>c. (c, Some d))
          (State_Monad.return (0, Some (d\<lparr>ua_auth := auth, ua_id := usr_id, ua_flags := usr_flags\<rparr>)))}"
    from assms(3,4) p0(1) True have run: "run_state (umdb_bind sq s 1 u (3, Some d)
        (umdb_bind sq s 2 p (4, Some d) (umdb_bind sq s 3 u (5, Some d) ?rest))) w0 = ((rc, res), w')"
      by (simp add: umdb_mngr_uauth_def)
    show ?thesis
    proof (rule umdb_bind3E [where mk = "\<lambda>c. (c, Some d)", OF run assms(1)])
      fix w3 assume b: "run_state ?rest w3 = ((rc, res), w')" "v_db V w3 = v_db V w0" "v_sql V w3 s = v_sql V w0 s"
        "v_arg V w3 s 1 = Some u" "v_arg V w3 s 2 = Some p" "v_arg V w3 s 3 = Some u"
      obtain i f a w4 where ft: "run_state (uauth_fetch sq s) w3 = ((i, f, a), w4)" by (metis prod.exhaust)
      note row = uauth_fetch_row [OF assms(1,2) _ b(4-6) ft]
      have sql: "v_sql V w3 s = SQL_USER_AUTH" using b(3) p0(3) True by simp
      from b(1) ft have "run_state (umdb_cleanup sq s 6 (\<lambda>c. (c, Some d))
          (State_Monad.return (0, Some (d\<lparr>ua_auth := a, ua_id := i, ua_flags := f\<rparr>)))) w4 = ((rc, res), w')" by simp
      then show ?thesis
      proof (rule umdb_cleanupE [OF _ assms(1)])
        fix w5 assume "run_state (State_Monad.return (0, Some (d\<lparr>ua_auth := a, ua_id := i, ua_flags := f\<rparr>))) w5 = ((rc, res), w')"
          "v_db V w5 = v_db V w4" "\<not> v_err V w4 s"
        with row [OF sql] b(2) p0(2) show ?thesis by (auto split: option.splits prod.splits)
      qed (use row(1) [OF sql] b(2) p0(2) in auto)
    qed (use p0 in auto)
  qed
qed

text \<open>The user lookup, on every branch.\<close>

lemma umdb_uget_effect:
  assumes "stmt_laws sq V" and "uget_law sq V users"
    and "run_state (umdb_mngr_uget sq (Some \<lparr>mngr_db = Some h\<rparr>) (Some d) (Some u)) w = ((rc, res), w')"
  shows "v_db V w' = v_db V w" "rc \<noteq> 0 \<Longrightarrow> res = Some d"
    "rc = 0 \<Longrightarrow> res = Some (case users (v_db V w) u of
        None \<Rightarrow> d\<lparr>ua_id := - 1, ua_flags := 0, ua_usr := Some u\<rparr>
      | Some (i, f, pw) \<Rightarrow> d\<lparr>ua_id := i, ua_flags := f, ua_usr := Some u\<rparr>)"
proof -
  obtain r0 s w0 where p0: "run_state (sqlite3_prepare_v2 sq (Some h) SQL_USER_GET) w = ((r0, s), w0)"
    "v_db V w0 = v_db V w" "r0 = SQLITE_OK \<Longrightarrow> v_sql V w0 s = SQL_USER_GET"
    using prepareE [OF assms(1)] by metis
  have "v_db V w' = v_db V w \<and> (rc \<noteq> 0 \<longrightarrow> res = Some d) \<and> (rc = 0 \<longrightarrow> res = Some (case users (v_db V w) u of
        None \<Rightarrow> d\<lparr>ua_id := - 1, ua_flags := 0, ua_usr := Some u\<rparr>
      | Some (i, f, pw) \<Rightarrow> d\<lparr>ua_id := i, ua_flags := f, ua_usr := Some u\<rparr>))"
  proof (cases "r0 = SQLITE_OK")
    case False
    with assms(3) p0 show ?thesis by (auto simp: umdb_mngr_uget_def)
  next
    case True
    let ?rest = "do {
        (usr_id, usr_flags) \<leftarrow> uget_fetch sq s;
        umdb_cleanup sq s 6 (\<lambda>c. (c, Some d))
          (State_Monad.return (0, Some (d\<lparr>ua_id := usr_id, ua_flags := usr_flags, ua_usr := Some u\<rparr>)))}"
    from assms(3) p0(1) True have "run_state (umdb_bind sq s 1 u (3, Some d) ?rest) w0 = ((rc, res), w')"
      by (simp add: umdb_mngr_uget_def)
    then show ?thesis
    proof (rule umdb_bindE [OF _ assms(1)])
      fix w3 assume b: "run_state ?rest w3 = ((rc, res), w')" "v_db V w3 = v_db V w0" "v_sql V w3 s = v_sql V w0 s"
        "v_arg V w3 s = (v_arg V w0 s)(1 := Some u)"
      obtain i f w4 where ft: "run_state (uget_fetch sq s) w3 = ((i, f), w4)" by (metis prod.exhaust)
      have "v_sql V w3 s = SQL_USER_GET" "v_arg V w3 s 1 = Some u" using b(3,4) p0(3) True by simp_all
      note row = uget_fetch_row [OF assms(1,2) this ft]
      from b(1) ft have "run_state (umdb_cleanup sq s 6 (\<lambda>c. (c, Some d))
          (State_Monad.return (0, Some (d\<lparr>ua_id := i, ua_flags := f, ua_usr := Some u\<rparr>)))) w4 = ((rc, res), w')" by simp
      then show ?thesis
      proof (rule umdb_cleanupE [OF _ assms(1)])
        fix w5 assume "run_state (State_Monad.return (0, Some (d\<lparr>ua_id := i, ua_flags := f, ua_usr := Some u\<rparr>))) w5 = ((rc, res), w')"
          "v_db V w5 = v_db V w4" "\<not> v_err V w4 s"
        with row b(2) p0(2) show ?thesis by (auto split: option.splits prod.splits)
      qed (use row(1) b(2) p0(2) in auto)
    qed (use p0 in auto)
  qed
  then show "v_db V w' = v_db V w" "rc \<noteq> 0 \<Longrightarrow> res = Some d"
    "rc = 0 \<Longrightarrow> res = Some (case users (v_db V w) u of
        None \<Rightarrow> d\<lparr>ua_id := - 1, ua_flags := 0, ua_usr := Some u\<rparr>
      | Some (i, f, pw) \<Rightarrow> d\<lparr>ua_id := i, ua_flags := f, ua_usr := Some u\<rparr>)" by simp_all
qed

lemma store_fetch_row:
  assumes "stmt_laws sq V" and "store_laws sq V tbl aff t" and "v_sql V w s = SQL_STORAGE_GET t"
    and "v_arg V w s 1 = Some k" and "run_state (store_fetch sq s out) w = (row, w')"
  shows "v_db V w' = v_db V w" "\<not> v_err V w' s \<Longrightarrow> row = (case tbl (v_db V w) (aff k) of
      None \<Rightarrow> (0, out, 0) | Some x \<Rightarrow> (length x, Some x, length x + 1))"
proof -
  obtain r w1 where st: "run_state (sqlite3_step sq s) w = (r, w1)" by fastforce
  have "v_db V w1 = v_db V w \<and> (r = SQLITE_DONE \<longrightarrow> tbl (v_db V w) (aff k) = None) \<and>
      (r = SQLITE_ROW \<longrightarrow> tbl (v_db V w) (aff k) = Some (fst (run_state (sqlite3_column_text sq s 0) w1)))"
    using assms(2-4) st unfolding store_laws_def by blast
  moreover have "v_err V w1 s = (r \<noteq> SQLITE_ROW \<and> r \<noteq> SQLITE_DONE)" by (rule stmt_lawsD(5) [OF assms(1) st])
  moreover have "w' = w1" using assms(5) st
    by (auto simp: store_fetch_def split_beta stmt_lawsD(4) [OF assms(1)] split: if_splits)
  ultimately show "v_db V w' = v_db V w" "\<not> v_err V w' s \<Longrightarrow> row = (case tbl (v_db V w) (aff k) of
      None \<Rightarrow> (0, out, 0) | Some x \<Rightarrow> (length x, Some x, length x + 1))"
    using assms(5) st
    by (auto simp: store_fetch_def split_beta stmt_lawsD(4) [OF assms(1)] SQLITE_ROW_def SQLITE_DONE_def)
qed

lemma store_set_effect:
  assumes "stmt_laws sq V" and "store_laws sq V tbl aff t"
    and "run_state (umdb_mngr_store_set sq (Some md) (Some t) (Some k) (Some v)) w = (rc, w')"
  shows "tbl (v_db V w') = (tbl (v_db V w))(aff k := Some (aff v)) \<or> rc \<noteq> 0 \<and> tbl (v_db V w') = tbl (v_db V w)"
proof (cases "fst (fst (run_state (sqlite3_prepare_v2 sq (mngr_db md) (SQL_STORAGE_SET t)) w)) = SQLITE_OK")
  case False
  obtain r0 s w0 where p: "run_state (sqlite3_prepare_v2 sq (mngr_db md) (SQL_STORAGE_SET t)) w = ((r0, s), w0)" by (metis prod.exhaust)
  with False assms(3) stmt_lawsD(1) [OF assms(1) p] show ?thesis by (auto simp: umdb_mngr_store_set_def)
next
  case okc: True
  obtain r0 s w0 where p0: "run_state (sqlite3_prepare_v2 sq (mngr_db md) (SQL_STORAGE_SET t)) w = ((r0, s), w0)"
    "v_db V w0 = v_db V w" "r0 = SQLITE_OK \<Longrightarrow> v_sql V w0 s = SQL_STORAGE_SET t"
    using prepareE [OF assms(1)] by metis
  let ?k = "do {
      r2 \<leftarrow> sqlite3_step sq s;
      umdb_cleanup sq s 6 (\<lambda>c. c) (State_Monad.return (if r2 \<noteq> SQLITE_DONE then 9 else 0 :: int))}"
  from okc p0(1) have ok: "r0 = SQLITE_OK" by simp
  with assms(3) p0(1) have "run_state (umdb_bind sq s 1 k 3 (umdb_bind sq s 2 v 4 (umdb_bind sq s 3 v 5 ?k))) w0 = (rc, w')"
    by (simp add: umdb_mngr_store_set_def)
  then show ?thesis
  proof (rule umdb_bind3E [where mk = "\<lambda>c. c", OF _ assms(1)])
    fix w3 assume b: "run_state ?k w3 = (rc, w')" "v_db V w3 = v_db V w0" "v_sql V w3 s = v_sql V w0 s"
      "v_arg V w3 s 1 = Some k" "v_arg V w3 s 2 = Some v" "v_arg V w3 s 3 = Some v"
    obtain r2 w4 where st: "run_state (sqlite3_step sq s) w3 = (r2, w4)" by fastforce
    have sql: "v_sql V w3 s = SQL_STORAGE_SET t" using b(3) p0(3) ok by simp
    have tbl: "tbl (v_db V w4) = (if r2 = SQLITE_DONE then (tbl (v_db V w3))(aff k := Some (aff v)) else tbl (v_db V w3))"
      using conjunct1 [OF assms(2) [unfolded store_laws_def]] sql b(4-6) st by blast
    from b(1) st have "run_state (umdb_cleanup sq s 6 (\<lambda>c. c) (State_Monad.return (if r2 \<noteq> SQLITE_DONE then 9 else 0 :: int))) w4 = (rc, w')"
      by simp
    then show ?thesis
    proof (rule umdb_cleanupE [OF _ assms(1)])
      fix w5 assume "run_state (State_Monad.return (if r2 \<noteq> SQLITE_DONE then 9 else 0 :: int)) w5 = (rc, w')" "v_db V w5 = v_db V w4"
      then show ?thesis using tbl b(2) p0(2) by (auto split: if_splits)
    qed (use tbl b(2) p0(2) in auto)
  qed (use p0(2) in auto)
qed

lemma store_init_effect:
  assumes "stmt_laws sq V" and "init_law sq V tbl t"
    and "run_state (umdb_mngr_store_init sq (Some md) (Some t)) w = (rc, w')"
  shows "tbl (v_db V w') = tbl (v_db V w)"
proof -
  obtain r0 s w0 where p0: "run_state (sqlite3_prepare_v2 sq (mngr_db md) (SQL_STORAGE_INIT t)) w = ((r0, s), w0)"
    "v_db V w0 = v_db V w" "r0 = SQLITE_OK \<Longrightarrow> v_sql V w0 s = SQL_STORAGE_INIT t"
    using prepareE [OF assms(1)] by metis
  obtain r2 w1 where st: "run_state (sqlite3_step sq s) w0 = (r2, w1)" by fastforce
  show ?thesis
  proof (cases "r0 = SQLITE_OK")
    case True
    with assms(2) p0(3) st have t: "tbl (v_db V w1) = tbl (v_db V w0)" unfolding init_law_def by blast
    from True assms(3) p0(1) st
    have "run_state (umdb_cleanup sq s 4 (\<lambda>c. c) (State_Monad.return (if r2 \<noteq> SQLITE_DONE then 7 else 0))) w1 = (rc, w')"
      by (simp add: umdb_mngr_store_init_def)
    then show ?thesis by (rule umdb_cleanupE [OF _ assms(1)]) (use t p0(2) in auto)
  next
    case False
    with assms(3) p0 show ?thesis by (auto simp: umdb_mngr_store_init_def)
  qed
qed

lemma store_get_effect:
  assumes "stmt_laws sq V" and "store_laws sq V tbl aff t"
    and "run_state (umdb_mngr_store_get sq (Some md) (Some t) (Some k) out sz) w = ((rc, out', sz'), w')"
  shows "v_db V w' = v_db V w \<and> (rc \<in> {3..7} \<or> (rc, out', sz') = (case tbl (v_db V w) (aff k) of
      None \<Rightarrow> (8, out, 0) | Some x \<Rightarrow> (if x = [] then 8 else 0, Some x, length x + 1)))"
proof -
  obtain r0 s w0 where p0: "run_state (sqlite3_prepare_v2 sq (mngr_db md) (SQL_STORAGE_GET t)) w = ((r0, s), w0)"
    "v_db V w0 = v_db V w" "r0 = SQLITE_OK \<Longrightarrow> v_sql V w0 s = SQL_STORAGE_GET t"
    using prepareE [OF assms(1)] by metis
  let ?k = "do {
      (rl, out', sz') \<leftarrow> store_fetch sq s out;
      umdb_cleanup sq s 5 (\<lambda>c. (c, out', sz')) (State_Monad.return (if rl > 0 then 0 else 8, out', sz'))}"
  show ?thesis
  proof (cases "r0 = SQLITE_OK")
    case False
    with assms(3) p0 show ?thesis by (auto simp: umdb_mngr_store_get_def)
  next
    case True
    with assms(3) p0(1) have "run_state (umdb_bind sq s 1 k (4, out, sz) ?k) w0 = ((rc, out', sz'), w')"
      by (simp add: umdb_mngr_store_get_def)
    then show ?thesis
    proof (rule umdb_bindE [OF _ assms(1)])
      fix w1 assume b: "run_state ?k w1 = ((rc, out', sz'), w')" "v_db V w1 = v_db V w0" "v_sql V w1 s = v_sql V w0 s"
        "v_arg V w1 s = (v_arg V w0 s)(1 := Some k)"
      obtain rl o2 s2 w2 where ft: "run_state (store_fetch sq s out) w1 = ((rl, o2, s2), w2)" by (metis prod.exhaust)
      have "v_sql V w1 s = SQL_STORAGE_GET t" "v_arg V w1 s 1 = Some k" using b(3,4) p0(3) True by simp_all
      note row = store_fetch_row [OF assms(1,2) this ft]
      from b(1) ft have "run_state (umdb_cleanup sq s 5 (\<lambda>c. (c, o2, s2)) (State_Monad.return (if rl > 0 then 0 else 8, o2, s2))) w2 =
          ((rc, out', sz'), w')" by simp
      then show ?thesis
      proof (rule umdb_cleanupE [OF _ assms(1)])
        fix w3 assume "run_state (State_Monad.return (if rl > 0 then 0 else 8, o2, s2)) w3 = ((rc, out', sz'), w')"
          "v_db V w3 = v_db V w2" "\<not> v_err V w2 s"
        with row b(2) p0(2) show ?thesis by (auto split: option.splits if_splits)
      qed (use row(1) b(2) p0(2) in auto)
    qed (use p0 in auto)
  qed
qed

text \<open>With an engine that works every call of the storage functions goes through.\<close>

lemma umdb_bind_works:
  assumes "sqlite_works sq V t" and "stmt_laws sq V"
  obtains w1 where "run_state (umdb_bind sq s i x err k) w = run_state k w1" "v_sql V w1 s = v_sql V w s"
proof -
  obtain r1 w1 where b: "run_state (sqlite3_bind_text sq s i x) w = (r1, w1)" by fastforce
  have "fst (run_state (sqlite3_bind_text sq s i x) w) = 0" using assms(1) unfolding sqlite_works_def by blast
  with b have "run_state (umdb_bind sq s i x err k) w = run_state k w1" by (simp add: umdb_bind_def)
  then show thesis by (rule that) (use stmt_lawsD(2) [OF assms(2) b] in simp)
qed

lemma umdb_cleanup_works:
  assumes "sqlite_works sq V t" and "stmt_laws sq V" and "\<not> v_err V w s"
  shows "\<exists>w1. run_state (umdb_cleanup sq s c fail (State_Monad.return r)) w = (r, w1)"
proof -
  obtain r1 w1 where c1: "run_state (sqlite3_clear_bindings sq s) w = (r1, w1)" by fastforce
  obtain r2 w2 where c2: "run_state (sqlite3_reset sq s) w1 = (r2, w2)" by fastforce
  obtain r3 w3 where c3: "run_state (sqlite3_finalize sq s) w2 = (r3, w3)" by fastforce
  have "\<not> v_err V w1 s" using stmt_lawsD(6) [OF assms(2) c1] assms(3) by simp
  then have "fst (run_state (sqlite3_clear_bindings sq s) w) = 0" "fst (run_state (sqlite3_reset sq s) w1) = 0"
    "fst (run_state (sqlite3_finalize sq s) w2) = 0" using assms(1) unfolding sqlite_works_def by blast+
  with c1 c2 c3 show ?thesis by (simp add: umdb_cleanup_def)
qed

lemma sqlite_works_prepare:
  assumes "sqlite_works sq V t" and "stmt_laws sq V" and "q \<in> {SQL_STORAGE_INIT t, SQL_STORAGE_SET t, SQL_STORAGE_GET t}"
  obtains s w1 where "run_state (sqlite3_prepare_v2 sq h q) w = ((SQLITE_OK, s), w1)" "v_sql V w1 s = q"
proof -
  obtain r s w1 where p: "run_state (sqlite3_prepare_v2 sq h q) w = ((r, s), w1)" by (metis prod.exhaust)
  have "fst (fst (run_state (sqlite3_prepare_v2 sq h q) w)) = SQLITE_OK"
    using assms(1,3) unfolding sqlite_works_def by blast
  with p stmt_lawsD(1) [OF assms(2) p] show thesis by (intro that [of s w1]) simp_all
qed

lemma sqlite_works_step:
  assumes "sqlite_works sq V t" and "stmt_laws sq V" and "run_state (sqlite3_step sq s) w = (r, w1)"
  shows "v_sql V w s \<in> {SQL_STORAGE_INIT t, SQL_STORAGE_SET t} \<Longrightarrow> r = SQLITE_DONE \<and> \<not> v_err V w1 s"
    and "v_sql V w s = SQL_STORAGE_GET t \<Longrightarrow> \<not> v_err V w1 s"
proof -
  show "v_sql V w s \<in> {SQL_STORAGE_INIT t, SQL_STORAGE_SET t} \<Longrightarrow> r = SQLITE_DONE \<and> \<not> v_err V w1 s"
    using assms(1,3) stmt_lawsD(5) [OF assms(2,3)] unfolding sqlite_works_def by (metis fst_conv)
  show "v_sql V w s = SQL_STORAGE_GET t \<Longrightarrow> \<not> v_err V w1 s"
    using assms(1,3) stmt_lawsD(5) [OF assms(2,3)] unfolding sqlite_works_def by (metis fst_conv insert_iff singletonD)
qed

lemma store_init_works:
  assumes "sqlite_works sq V t" and "stmt_laws sq V"
  shows "fst (run_state (umdb_mngr_store_init sq (Some md) (Some t)) w) = 0"
proof -
  obtain s w1 where p: "run_state (sqlite3_prepare_v2 sq (mngr_db md) (SQL_STORAGE_INIT t)) w = ((SQLITE_OK, s), w1)"
    "v_sql V w1 s = SQL_STORAGE_INIT t" using sqlite_works_prepare [OF assms, of "SQL_STORAGE_INIT t"] by blast
  obtain r w2 where st: "run_state (sqlite3_step sq s) w1 = (r, w2)" by fastforce
  from sqlite_works_step(1) [OF assms st] p(2) have r: "r = SQLITE_DONE" "\<not> v_err V w2 s" by simp_all
  from umdb_cleanup_works [OF assms r(2), of 4 "\<lambda>c. c" 0] p(1) st r(1) show ?thesis
    by (auto simp: umdb_mngr_store_init_def)
qed

lemma store_set_works:
  assumes "sqlite_works sq V t" and "stmt_laws sq V"
  shows "fst (run_state (umdb_mngr_store_set sq (Some md) (Some t) (Some k) (Some v)) w) = 0"
proof -
  obtain s w1 where p: "run_state (sqlite3_prepare_v2 sq (mngr_db md) (SQL_STORAGE_SET t)) w = ((SQLITE_OK, s), w1)"
    "v_sql V w1 s = SQL_STORAGE_SET t" using sqlite_works_prepare [OF assms, of "SQL_STORAGE_SET t"] by blast
  let ?k = "do {
      r2 \<leftarrow> sqlite3_step sq s;
      umdb_cleanup sq s 6 (\<lambda>c. c) (State_Monad.return (if r2 \<noteq> SQLITE_DONE then 9 else 0 :: int))}"
  obtain w2 where b1: "run_state (umdb_bind sq s 1 k 3 (umdb_bind sq s 2 v 4 (umdb_bind sq s 3 v 5 ?k))) w1 =
      run_state (umdb_bind sq s 2 v 4 (umdb_bind sq s 3 v 5 ?k)) w2" "v_sql V w2 s = v_sql V w1 s"
    by (rule umdb_bind_works [OF assms])
  obtain w3 where b2: "run_state (umdb_bind sq s 2 v 4 (umdb_bind sq s 3 v 5 ?k)) w2 =
      run_state (umdb_bind sq s 3 v 5 ?k) w3" "v_sql V w3 s = v_sql V w2 s"
    by (rule umdb_bind_works [OF assms])
  obtain w4 where b3: "run_state (umdb_bind sq s 3 v 5 ?k) w3 = run_state ?k w4" "v_sql V w4 s = v_sql V w3 s"
    by (rule umdb_bind_works [OF assms])
  obtain r w5 where st: "run_state (sqlite3_step sq s) w4 = (r, w5)" by fastforce
  from sqlite_works_step(1) [OF assms st] p(2) b1(2) b2(2) b3(2) have r: "r = SQLITE_DONE" "\<not> v_err V w5 s" by simp_all
  from p(1) have "run_state (umdb_mngr_store_set sq (Some md) (Some t) (Some k) (Some v)) w = run_state ?k w4"
    using b1(1) b2(1) b3(1) by (simp add: umdb_mngr_store_set_def)
  with umdb_cleanup_works [OF assms r(2), of 6 "\<lambda>c. c" 0] st r(1) show ?thesis by auto
qed

lemma store_get_works:
  assumes "sqlite_works sq V t" and "stmt_laws sq V"
  shows "fst (fst (run_state (umdb_mngr_store_get sq (Some md) (Some t) (Some k) out sz) w)) \<in> {0, 8}"
proof -
  obtain s w1 where p: "run_state (sqlite3_prepare_v2 sq (mngr_db md) (SQL_STORAGE_GET t)) w = ((SQLITE_OK, s), w1)"
    "v_sql V w1 s = SQL_STORAGE_GET t" using sqlite_works_prepare [OF assms, of "SQL_STORAGE_GET t"] by blast
  let ?k = "do {
      (rl, out', sz') \<leftarrow> store_fetch sq s out;
      umdb_cleanup sq s 5 (\<lambda>c. (c, out', sz')) (State_Monad.return (if rl > 0 then 0 else 8, out', sz'))}"
  obtain w2 where b: "run_state (umdb_bind sq s 1 k (4, out, sz) ?k) w1 = run_state ?k w2" "v_sql V w2 s = v_sql V w1 s"
    by (rule umdb_bind_works [OF assms])
  obtain r w3 where st: "run_state (sqlite3_step sq s) w2 = (r, w3)" by fastforce
  obtain rl o2 s2 where ft: "run_state (store_fetch sq s out) w2 = ((rl, o2, s2), w3)"
    using st by (cases "r = SQLITE_ROW") (auto simp: store_fetch_def split_beta stmt_lawsD(4) [OF assms(2)])
  from sqlite_works_step(2) [OF assms st] p(2) b(2) have "\<not> v_err V w3 s" by simp
  from umdb_cleanup_works [OF assms this, of 5 "\<lambda>c. (c, o2, s2)" "(if rl > 0 then 0 else 8, o2, s2)"] p(1) b(1) ft
  show ?thesis by (auto simp: umdb_mngr_store_get_def)
qed

section \<open>Properties\<close>

text \<open>
  A one-statement engine with one user and one table, for the instances of the properties.
\<close>

record demo_sq =
  dq_sql :: string
  dq_arg :: "nat \<Rightarrow> string option"
  dq_tbl :: "string \<Rightarrow> string option"

definition demo_users :: "string \<Rightarrow> user_row option" where
  "demo_users u = (if u = ''admin'' then Some (1, 5, ''pwd'') else None)"

definition demo_step :: "demo_sq \<Rightarrow> int \<times> demo_sq" where
  "demo_step w =
     (if dq_sql w = SQL_USER_AUTH then
        (if Option.bind (dq_arg w 3) demo_users = None then SQLITE_DONE else SQLITE_ROW, w)
      else if dq_sql w = SQL_USER_GET then
        (if Option.bind (dq_arg w 1) demo_users = None then SQLITE_DONE else SQLITE_ROW, w)
      else if dq_sql w = SQL_STORAGE_SET ''t'' then
        (SQLITE_DONE, w\<lparr>dq_tbl := (dq_tbl w)(the (dq_arg w 1) := dq_arg w 2)\<rparr>)
      else if dq_sql w = SQL_STORAGE_INIT ''t'' then (SQLITE_DONE, w)
      else (if Option.bind (dq_arg w 1) (dq_tbl w) = None then SQLITE_DONE else SQLITE_ROW, w))"

definition demo_sqlite :: "(demo_sq, unit) sqlite3_api" where
  "demo_sqlite = \<lparr>
     sqlite3_open_v2 = \<lambda>db fl. State (\<lambda>w. ((0, Some 1), w)),
     sqlite3_close_v2 = \<lambda>h. State (\<lambda>w. (0, w)),
     sqlite3_prepare_v2 = \<lambda>h q. State (\<lambda>w. ((0, ()), w\<lparr>dq_sql := q, dq_arg := \<lambda>_. None\<rparr>)),
     sqlite3_bind_text = \<lambda>s i x. State (\<lambda>w. (0, w\<lparr>dq_arg := (dq_arg w)(i := Some x)\<rparr>)),
     sqlite3_step = \<lambda>s. State demo_step,
     sqlite3_column_int = \<lambda>s i. State (\<lambda>w. (if i = 0 then 1 else if i = 1 \<or> dq_sql w = SQL_USER_GET then 5
        else if dq_arg w 2 = Some ''pwd'' then 1 else 0, w)),
     sqlite3_column_text = \<lambda>s i. State (\<lambda>w. (the (dq_tbl w (the (dq_arg w 1))), w)),
     sqlite3_clear_bindings = \<lambda>s. State (\<lambda>w. (0, w)),
     sqlite3_reset = \<lambda>s. State (\<lambda>w. (0, w)),
     sqlite3_finalize = \<lambda>s. State (\<lambda>w. (0, w))\<rparr>"

definition demo_view :: "(demo_sq, unit, string \<Rightarrow> string option) sq_view" where
  "demo_view = \<lparr>v_sql = \<lambda>w s. dq_sql w, v_arg = \<lambda>w s. dq_arg w, v_err = \<lambda>w s. False, v_db = dq_tbl\<rparr>"

definition demo_sq0 :: demo_sq where
  "demo_sq0 = \<lparr>dq_sql = [], dq_arg = \<lambda>_. None, dq_tbl = \<lambda>_. None\<rparr>"

lemma demo_sql_distinct:
  "SQL_USER_GET \<noteq> SQL_USER_AUTH" "SQL_USER_AUTH \<noteq> SQL_USER_GET"
  "SQL_STORAGE_SET ''t'' \<noteq> SQL_USER_GET" "SQL_STORAGE_GET ''t'' \<noteq> SQL_USER_GET"
  "SQL_STORAGE_SET ''t'' \<noteq> SQL_USER_AUTH" "SQL_STORAGE_GET ''t'' \<noteq> SQL_USER_AUTH"
  "SQL_STORAGE_GET ''t'' \<noteq> SQL_STORAGE_SET ''t''" "SQL_STORAGE_GET ''t'' \<noteq> SQL_STORAGE_INIT ''t''"
  "SQL_STORAGE_INIT ''t'' \<noteq> SQL_USER_GET" "SQL_STORAGE_INIT ''t'' \<noteq> SQL_USER_AUTH"
  "SQL_STORAGE_INIT ''t'' \<noteq> SQL_STORAGE_SET ''t''"
  by (simp_all add: SQL_STORAGE_INIT_def SQL_STORAGE_SET_def SQL_STORAGE_GET_def SQL_USER_AUTH_def SQL_USER_GET_def)

lemma demo_stmt_laws: "stmt_laws demo_sqlite demo_view"
  by (auto simp: stmt_laws_def demo_sqlite_def demo_view_def demo_step_def split: if_splits)

lemma demo_auth_law: "auth_law demo_sqlite demo_view (\<lambda>_. demo_users)"
  by (auto simp: auth_law_def demo_sqlite_def demo_view_def demo_step_def demo_users_def
      demo_sql_distinct SQLITE_ROW_def SQLITE_DONE_def split: if_splits)

lemma demo_uget_law: "uget_law demo_sqlite demo_view (\<lambda>_. demo_users)"
  by (auto simp: uget_law_def demo_sqlite_def demo_view_def demo_step_def demo_users_def
      demo_sql_distinct SQLITE_ROW_def SQLITE_DONE_def split: if_splits)

lemma demo_init_law: "init_law demo_sqlite demo_view (\<lambda>t. t) ''t''"
  by (auto simp: init_law_def demo_sqlite_def demo_view_def demo_step_def SQL_STORAGE_INIT_def SQL_STORAGE_SET_def
      split: if_splits)

lemma demo_store_laws: "store_laws demo_sqlite demo_view (\<lambda>t. t) (\<lambda>x. x) ''t''"
  by (auto simp: store_laws_def demo_sqlite_def demo_view_def demo_step_def demo_sql_distinct
      SQLITE_ROW_def SQLITE_DONE_def split: if_splits)

lemma demo_works: "sqlite_works demo_sqlite demo_view ''t''"
  by (auto simp: sqlite_works_def demo_sqlite_def demo_view_def demo_step_def demo_sql_distinct SQLITE_OK_def)

text \<open>
  (C31) Authentication against the database, for a result that does not already say
  \<open>auth = 1\<close>: on return code 0 the result holds 1 exactly for a user of the table with this very
  password, 0 for a wrong password, \<open>-1\<close> for an unknown user, with the user's identifier and
  flags; on every other code (2 to 8) the result is as before. The database is never changed.
\<close>

theorem umdb_uauth_correct:
  assumes "stmt_laws sq V" and "auth_law sq V users" and "ua_auth d \<noteq> 1"
    and "run_state (umdb_mngr_uauth sq (Some \<lparr>mngr_db = Some h\<rparr>) (Some d) (Some u) (Some p)) w = ((rc, res), w')"
  shows "v_db V w' = v_db V w \<and> (rc \<noteq> 0 \<longrightarrow> rc \<in> {2..8} \<and> res = Some d) \<and>
    (rc = 0 \<longrightarrow> res = Some (case users (v_db V w) u of
        None \<Rightarrow> d\<lparr>ua_auth := - 1, ua_id := - 1, ua_flags := 0\<rparr>
      | Some (i, f, pw) \<Rightarrow> d\<lparr>ua_auth := (if pw = p then 1 else 0), ua_id := i, ua_flags := f\<rparr>))"
  using umdb_uauth_effect [OF assms] .

lemma umdb_uauth_correct_witness:
  "fst (run_state (umdb_mngr_uauth demo_sqlite (Some \<lparr>mngr_db = Some 1\<rparr>)
      (Some \<lparr>ua_auth = 0, ua_id = 0, ua_flags = 0, ua_usr = None\<rparr>) (Some ''admin'') (Some ''pwd'')) demo_sq0) =
   (0, Some \<lparr>ua_auth = 1, ua_id = 1, ua_flags = 5, ua_usr = None\<rparr>)"
proof -
  let ?d = "\<lparr>ua_auth = 0, ua_id = 0, ua_flags = 0, ua_usr = None\<rparr>"
  let ?run = "run_state (umdb_mngr_uauth demo_sqlite (Some \<lparr>mngr_db = Some 1\<rparr>) (Some ?d) (Some ''admin'') (Some ''pwd'')) demo_sq0"
  have "?run = ((fst (fst ?run), snd (fst ?run)), snd ?run)" by simp
  from umdb_uauth_correct [OF demo_stmt_laws demo_auth_law _ this]
  have "fst (fst ?run) = 0 \<longrightarrow> snd (fst ?run) = Some \<lparr>ua_auth = 1, ua_id = 1, ua_flags = 5, ua_usr = None\<rparr>"
    by (simp add: demo_users_def)
  moreover have "fst (fst ?run) = 0"
    by (simp add: umdb_mngr_uauth_def umdb_bind_def umdb_cleanup_def demo_sqlite_def demo_step_def SQLITE_OK_def split_beta)
  ultimately show ?thesis by (simp add: prod_eq_iff)
qed

text \<open>
  Storage: after \<^verbatim>\<open>umdb_mngr_store_set\<close> has returned 0, reading the same key back either
  fails in SQLite (codes 3 to 7) or yields the stored value, with SQLite's conversion of
  number-like text applied, and the code 0; but a stored empty value is reported as 8, the code
  for a missing key. No other key of the table has changed.
\<close>

theorem umdb_store_roundtrip:
  assumes "stmt_laws sq V" and "store_laws sq V tbl aff t"
    and "run_state (umdb_mngr_store_set sq (Some md) (Some t) (Some k) (Some v)) w = (0, w1)"
    and "run_state (umdb_mngr_store_get sq (Some md) (Some t) (Some k) out sz) w1 = ((rc, out', sz'), w2)"
  shows "(rc \<in> {3..7} \<or> rc = (if aff v = [] then 8 else 0) \<and> out' = Some (aff v) \<and> sz' = length (aff v) + 1) \<and>
    (\<forall>k'. k' \<noteq> aff k \<longrightarrow> tbl (v_db V w2) k' = tbl (v_db V w) k')"
  using store_get_effect [OF assms(1,2,4)] store_set_effect [OF assms(1,2,3)] by (auto split: if_splits)

lemma umdb_store_roundtrip_witness:
  "fst (fst (run_state (umdb_mngr_store_get demo_sqlite (Some \<lparr>mngr_db = Some 1\<rparr>) (Some ''t'') (Some ''key'') None 0)
     (snd (run_state (umdb_mngr_store_set demo_sqlite (Some \<lparr>mngr_db = Some 1\<rparr>) (Some ''t'') (Some ''key'') (Some ''val'')) demo_sq0)))) \<in> {0, 3, 4, 5, 6, 7}"
proof -
  let ?md = "Some \<lparr>mngr_db = Some 1\<rparr>"
  let ?set = "run_state (umdb_mngr_store_set demo_sqlite ?md (Some ''t'') (Some ''key'') (Some ''val'')) demo_sq0"
  let ?get = "run_state (umdb_mngr_store_get demo_sqlite ?md (Some ''t'') (Some ''key'') None 0) (snd ?set)"
  have s: "?set = (0, snd ?set)"
    by (simp add: umdb_mngr_store_set_def umdb_bind_def umdb_cleanup_def demo_sqlite_def demo_step_def
        demo_sql_distinct SQLITE_OK_def split_beta)
  have g: "?get = ((fst (fst ?get), fst (snd (fst ?get)), snd (snd (fst ?get))), snd ?get)" by simp
  from umdb_store_roundtrip [OF demo_stmt_laws demo_store_laws s g] show ?thesis by auto
qed

end
