(* ===== verification/Jsonc.thy ===== *)
theory Jsonc
  imports Prelude
begin

text \<open>
  The interface of the json-c library, as far as the program uses it. The library is not part of
  the program: its functions are the fields of a \<open>json_api\<close> record over an arbitrary type of
  JSON values, with \<open>NULL\<close> as \<open>None\<close>. Objects are updated functionally, since the program
  never holds two references to an object it changes. \<open>json_obj_laws\<close> states the documented
  behaviour of object members that properties rely on, \<open>demo_json\<close> is a concrete instance of it.
\<close>

datatype json_type =
    Json_null | Json_boolean | Json_double | Json_int | Json_object | Json_array | Json_string

record 'j json_api =
  json_tokener_parse :: "string \<Rightarrow> 'j option"
  json_object_is_type :: "'j \<Rightarrow> json_type \<Rightarrow> bool"
  json_object_object_get :: "'j \<Rightarrow> string \<Rightarrow> 'j option"
  json_object_object_del :: "'j \<Rightarrow> string \<Rightarrow> 'j"
  json_object_object_add :: "'j \<Rightarrow> string \<Rightarrow> 'j \<Rightarrow> 'j"
  json_object_new_object :: 'j
  json_object_new_int :: "int \<Rightarrow> 'j"
  json_object_get_int :: "'j option \<Rightarrow> int"
  json_object_get_boolean :: "'j \<Rightarrow> bool"
  json_object_get_string :: "'j \<Rightarrow> string"
  json_object_to_json_string_ext :: "'j \<Rightarrow> string option"
  json_object_foreach :: "'j \<Rightarrow> (string \<times> 'j option) list"
  json_object_array_length :: "'j \<Rightarrow> nat"
  json_object_array_get_idx :: "'j \<Rightarrow> nat \<Rightarrow> 'j option"

text \<open>json-c represents the JSON value \<^verbatim>\<open>null\<close> by the NULL pointer.\<close>

definition json_is_type :: "'j json_api \<Rightarrow> 'j option \<Rightarrow> json_type \<Rightarrow> bool" where
  "json_is_type J jo t = (case jo of None \<Rightarrow> t = Json_null | Some j \<Rightarrow> json_object_is_type J j t)"

text \<open>The elements of an array, as the loops over them read them.\<close>

definition json_elems :: "'j json_api \<Rightarrow> 'j \<Rightarrow> 'j option list" where
  "json_elems J j = map (json_object_array_get_idx J j) [0..<json_object_array_length J j]"

definition json_obj_laws :: "'j json_api \<Rightarrow> bool" where
  "json_obj_laws J \<longleftrightarrow>
     json_object_is_type J (json_object_new_object J) Json_object \<and>
     (\<forall>k. json_object_object_get J (json_object_new_object J) k = None) \<and>
     (\<forall>j k x. json_object_is_type J j Json_object \<longrightarrow>
        json_object_is_type J (json_object_object_add J j k x) Json_object \<and>
        (\<forall>k'. json_object_object_get J (json_object_object_add J j k x) k' =
           (if k' = k then Some x else json_object_object_get J j k'))) \<and>
     (\<forall>j k. json_object_object_get J (json_object_object_del J j k) k = None) \<and>
     (\<forall>j k k'. k' \<noteq> k \<longrightarrow> json_object_object_get J (json_object_object_del J j k) k' = json_object_object_get J j k') \<and>
     (\<forall>i. - (2 ^ 31) \<le> i \<longrightarrow> i < 2 ^ 31 \<longrightarrow> json_object_get_int J (Some (json_object_new_int J i)) = i) \<and>
     json_object_get_int J None = 0"

lemma json_obj_lawsD:
  assumes "json_obj_laws J"
  shows "json_object_is_type J (json_object_new_object J) Json_object"
    and "json_object_object_get J (json_object_new_object J) k = None"
    and "json_object_is_type J j Json_object \<Longrightarrow> json_object_is_type J (json_object_object_add J j k x) Json_object"
    and "json_object_is_type J j Json_object \<Longrightarrow>
      json_object_object_get J (json_object_object_add J j k x) k' =
        (if k' = k then Some x else json_object_object_get J j k')"
    and "json_object_object_get J (json_object_object_del J j k) k = None"
    and "k' \<noteq> k \<Longrightarrow> json_object_object_get J (json_object_object_del J j k) k' = json_object_object_get J j k'"
    and "- (2 ^ 31) \<le> i \<Longrightarrow> i < 2 ^ 31 \<Longrightarrow> json_object_get_int J (Some (json_object_new_int J i)) = i"
    and "json_object_get_int J None = 0"
  using assms unfolding json_obj_laws_def by simp_all

section \<open>A concrete instance\<close>

datatype json =
    JNull | JBool bool | JInt int | JStr string | JObj "(string \<times> json) list" | JArr "json list"

primrec json_members :: "json \<Rightarrow> (string \<times> json) list" where
  "json_members (JObj ms) = ms"
| "json_members JNull = []"
| "json_members (JBool b) = []"
| "json_members (JInt i) = []"
| "json_members (JStr s) = []"
| "json_members (JArr js) = []"

definition demo_json :: "(string \<Rightarrow> json option) \<Rightarrow> (json \<Rightarrow> string option) \<Rightarrow> json json_api" where
  "demo_json parse print = \<lparr>
     json_tokener_parse = parse,
     json_object_is_type = \<lambda>j t. (case j of
        JNull \<Rightarrow> t = Json_null | JBool _ \<Rightarrow> t = Json_boolean | JInt _ \<Rightarrow> t = Json_int
      | JStr _ \<Rightarrow> t = Json_string | JObj _ \<Rightarrow> t = Json_object | JArr _ \<Rightarrow> t = Json_array),
     json_object_object_get = \<lambda>j k. map_of (json_members j) k,
     json_object_object_del = \<lambda>j k. (case j of JObj ms \<Rightarrow> JObj (filter (\<lambda>m. fst m \<noteq> k) ms) | _ \<Rightarrow> j),
     json_object_object_add = \<lambda>j k x. (case j of JObj ms \<Rightarrow> JObj ((k, x) # filter (\<lambda>m. fst m \<noteq> k) ms) | _ \<Rightarrow> j),
     json_object_new_object = JObj [],
     json_object_new_int = JInt,
     json_object_get_int = \<lambda>j. (case j of Some (JInt i) \<Rightarrow> i | _ \<Rightarrow> 0),
     json_object_get_boolean = \<lambda>j. (case j of JBool b \<Rightarrow> b | _ \<Rightarrow> False),
     json_object_get_string = \<lambda>j. (case j of JStr s \<Rightarrow> s | _ \<Rightarrow> []),
     json_object_to_json_string_ext = print,
     json_object_foreach = \<lambda>j. map (\<lambda>(k, x). (k, Some x)) (json_members j),
     json_object_array_length = \<lambda>j. (case j of JArr js \<Rightarrow> length js | _ \<Rightarrow> 0),
     json_object_array_get_idx = \<lambda>j i. (case j of JArr js \<Rightarrow> if i < length js then Some (js ! i) else None | _ \<Rightarrow> None)\<rparr>"

lemma map_of_filter_key: "map_of (filter (\<lambda>m. fst m \<noteq> k) ms) k' = (if k' = k then None else map_of ms k')"
  by (induction ms) auto

lemma demo_json_laws: "json_obj_laws (demo_json parse print)"
  by (auto simp: json_obj_laws_def demo_json_def map_of_filter_key split: json.splits)

end
