(* ===== verification/Lua_api.thy ===== *)
theory Lua_api
  imports Complex_Main Prelude
begin

text \<open>
  The Lua interface as far as the program uses it. Lua is not part of the program: what the
  interface answers about the arguments of a call is the record \<open>lua_args\<close>, one \<open>lua_cell\<close> per
  stack index. A value the program hands to Lua is a \<open>lua_val\<close>; a table is the sequence of
  assignments the program makes to it after \<^verbatim>\<open>lua_newtable\<close>, and a script that reads a key
  gets the last value assigned to it.
\<close>

datatype lua_val = LNil | LBool bool | LNum real | LStr string | LTab "(lua_val \<times> lua_val) list"

primrec lua_fields :: "lua_val \<Rightarrow> (lua_val \<times> lua_val) list" where
  "lua_fields (LTab fs) = fs"
| "lua_fields LNil = []"
| "lua_fields (LBool b) = []"
| "lua_fields (LNum x) = []"
| "lua_fields (LStr s) = []"

definition lua_index :: "lua_val \<Rightarrow> lua_val \<Rightarrow> lua_val" where
  "lua_index t k = (case map_of (rev (lua_fields t)) k of None \<Rightarrow> LNil | Some v \<Rightarrow> v)"

abbreviation LInt :: "nat \<Rightarrow> lua_val" where
  "LInt n \<equiv> LNum (real n)"

text \<open>
  What the interface answers about one stack slot or table element. A string is what C sees of it, up to
  the first NUL.
\<close>

record lua_cell =
  c_isstring :: bool
  c_tostring :: string
  c_isnumber :: bool
  c_tonumber :: real
  c_isboolean :: bool
  c_toboolean :: bool

text \<open>
  The arguments of a call: their number, the slots by index (negative from the top), whether the topmost
  is a table, its length and its elements.
\<close>

record lua_args =
  lua_gettop :: int
  lua_at :: "int \<Rightarrow> lua_cell"
  lua_istable :: bool
  lua_objlen :: nat
  lua_elem :: "nat \<Rightarrow> lua_cell"

definition lua_isstring :: "lua_args \<Rightarrow> int \<Rightarrow> bool" where
  "lua_isstring L i = c_isstring (lua_at L i)"

definition lua_tostring :: "lua_args \<Rightarrow> int \<Rightarrow> string" where
  "lua_tostring L i = c_tostring (lua_at L i)"

definition lua_isnumber :: "lua_args \<Rightarrow> int \<Rightarrow> bool" where
  "lua_isnumber L i = c_isnumber (lua_at L i)"

definition lua_tonumber :: "lua_args \<Rightarrow> int \<Rightarrow> real" where
  "lua_tonumber L i = c_tonumber (lua_at L i)"

definition lua_isboolean :: "lua_args \<Rightarrow> int \<Rightarrow> bool" where
  "lua_isboolean L i = c_isboolean (lua_at L i)"

definition lua_toboolean :: "lua_args \<Rightarrow> int \<Rightarrow> bool" where
  "lua_toboolean L i = c_toboolean (lua_at L i)"

lemmas lua_arg_defs = lua_isstring_def lua_tostring_def lua_isnumber_def lua_tonumber_def
  lua_isboolean_def lua_toboolean_def

text \<open>
  The length of a table (\<^verbatim>\<open>lua_rawlen\<close>) is a border of it, which need not be unique: an index
  whose successor is absent, and that is present itself unless it is 0.
\<close>

definition lua_border :: "((nat \<rightharpoonup> 'd) \<Rightarrow> nat) \<Rightarrow> bool" where
  "lua_border rawlen \<longleftrightarrow> (\<forall>t. finite (dom t) \<longrightarrow>
     t (Suc (rawlen t)) = None \<and> (rawlen t = 0 \<or> t (rawlen t) \<noteq> None))"

lemma lua_border_seq:
  assumes "lua_border rawlen" and "dom t = {1..n}"
  shows "rawlen t = n"
proof -
  let ?r = "rawlen t"
  have "finite (dom t)" using assms(2) by simp
  with assms(1) have "t (Suc ?r) = None" "?r = 0 \<or> t ?r \<noteq> None" unfolding lua_border_def by blast+
  then have "Suc ?r \<notin> dom t" "?r = 0 \<or> ?r \<in> dom t" by (simp_all add: domIff)
  then have "Suc ?r \<notin> {1..n}" "?r = 0 \<or> ?r \<in> {1..n}" by (simp_all only: assms(2) not_False_eq_True)
  then show ?thesis by auto
qed

text \<open>A conversion of a \<^verbatim>\<open>double\<close> to an integer type cuts the fraction off.\<close>

definition c_trunc :: "real \<Rightarrow> int" where
  "c_trunc x = (if x \<ge> 0 then \<lfloor>x\<rfloor> else \<lceil>x\<rceil>)"

text \<open>\<^verbatim>\<open>snprintf(buf, 32, "%d", n)\<close>\<close>

fun dec_digits :: "nat \<Rightarrow> string" where
  "dec_digits n = (if n < 10 then [char_of (48 + n)] else dec_digits (n div 10) @ [char_of (48 + n mod 10)])"

declare dec_digits.simps [simp del]

definition fmt_d :: "int \<Rightarrow> string" where
  "fmt_d n = (if n < 0 then ''-'' @ dec_digits (nat (- n)) else dec_digits (nat n))"

end
