(* ===== verification/Umlua_m.thy ===== *)
theory Umlua_m
  imports Umplg Umcounters Umdb Jsonc Lua_api
begin

text \<open>
  The functions of the Lua module \<^verbatim>\<open>M\<close>: \<^verbatim>\<open>src/src/services/sysagent/umlua_m.c\<close>. Each takes the arguments
  of the Lua call and the part of the program it works on, and returns the values it leaves on the
  Lua stack. A data descriptor given to them has been through \<open>umplg_stdd_init\<close>; \<open>rows\<close> are its rows.
\<close>

section \<open>Plugin data\<close>

record mink_cdata_column =
  cd_key :: "string option"
  cd_value :: "string option"

definition rows :: "umplg_data_std \<Rightarrow> umplg_data_std_items list" where
  "rows d = (case items d of None \<Rightarrow> [] | Some a \<Rightarrow> arr_elts a)"

definition mink_lua_cmd_data_sz :: "umplg_data_std option \<Rightarrow> nat" where
  "mink_lua_cmd_data_sz p = (case p of None \<Rightarrow> 0 | Some d \<Rightarrow> length (rows d))"

definition mink_lua_cmd_data_row_sz :: "nat \<Rightarrow> umplg_data_std \<Rightarrow> nat" where
  "mink_lua_cmd_data_row_sz r d = (if r \<ge> length (rows d) then 0 else HASH_COUNT (rows d ! r))"

text \<open>The loop over the columns of a row, \<open>i\<close> its counter.\<close>

fun column_loop :: "nat \<Rightarrow> nat \<Rightarrow> umplg_data_std_item list \<Rightarrow> mink_cdata_column" where
  "column_loop i c [] = \<lparr>cd_key = None, cd_value = None\<rparr>"
| "column_loop i c (column # cs) =
     (if i = c then \<lparr>cd_key = Some (it_name column), cd_value = Some (it_value column)\<rparr>
      else column_loop (Suc i) c cs)"

definition mink_lua_cmd_data_get_column :: "nat \<Rightarrow> nat \<Rightarrow> umplg_data_std option \<Rightarrow> mink_cdata_column" where
  "mink_lua_cmd_data_get_column r c p =
     (if mink_lua_cmd_data_sz p \<le> r then \<lparr>cd_key = None, cd_value = None\<rparr>
      else
        let row = rows (the p) ! r in
        if HASH_COUNT row \<le> c then \<lparr>cd_key = None, cd_value = None\<rparr>
        else column_loop 0 c (HASH_ITER row))"

definition mink_lua_new_cmd_data :: "umplg_data_std" where
  "mink_lua_new_cmd_data = the (umplg_stdd_init (Some \<lparr>items = None\<rparr>))"

definition mink_lua_free_res :: "umplg_data_std \<Rightarrow> umplg_data_std_items list" where
  "mink_lua_free_res d = umplg_stdd_free (Some d)"

text \<open>
  The assignment a column makes to the table of its row: to its name, or to the number \<open>k\<close>.
  The loops over the columns and over the rows, with the numbers the two callers use.
\<close>

definition column_assign :: "mink_cdata_column \<Rightarrow> nat \<Rightarrow> (lua_val \<times> lua_val) list" where
  "column_assign c k =
     (case cd_value c of
        None \<Rightarrow> []
      | Some v \<Rightarrow>
          [(case cd_key c of Some key \<Rightarrow> if length key > 0 then LStr key else LInt k | None \<Rightarrow> LInt k, LStr v)])"

fun get_args_cols :: "umplg_data_std option \<Rightarrow> nat \<Rightarrow> nat list \<Rightarrow> nat \<Rightarrow> (lua_val \<times> lua_val) list" where
  "get_args_cols d i [] k = []"
| "get_args_cols d i (j # js) k =
     (let c = mink_lua_cmd_data_get_column i j d; k' = (if cd_value c \<noteq> None then Suc k else k)
      in column_assign c k' @ get_args_cols d i js k')"

definition get_args_table :: "umplg_data_std option \<Rightarrow> lua_val" where
  "get_args_table d =
     LTab (map (\<lambda>i. (LInt (i + 1), LTab (get_args_cols d i [0..<mink_lua_cmd_data_row_sz i (the d)] 0)))
       [0..<mink_lua_cmd_data_sz d])"

text \<open>
  \<open>stdd\<close> is the table \<^verbatim>\<open>mink_stdd\<close> of the Lua registry, if there is one; its entries are the pointers
  put there by the signal handlers.
\<close>

definition mink_lua_get_args ::
  "((nat \<rightharpoonup> umplg_data_std option) \<Rightarrow> nat) \<Rightarrow> (nat \<rightharpoonup> umplg_data_std option) option \<Rightarrow> lua_val list"
where
  "mink_lua_get_args rawlen stdd =
     (case stdd of
        None \<Rightarrow> []
      | Some t \<Rightarrow>
          let tl = rawlen t in
          if tl = 0 then []
          else [get_args_table (case t tl of None \<Rightarrow> None | Some d \<Rightarrow> d)])"

section \<open>Commands\<close>

text \<open>\<open>mem i\<close> is the address the array of rows gets when it grows for the \<open>i\<close>-th argument.\<close>

fun add_arg_rows :: "(nat \<Rightarrow> nat) \<Rightarrow> nat \<Rightarrow> string list \<Rightarrow> umplg_data_std option \<Rightarrow> umplg_data_std option" where
  "add_arg_rows mem i [] d = d"
| "add_arg_rows mem i (a # as) d =
     (let cmap = snd (umplg_stdd_item_add (Some []) (Some \<lparr>it_name = '''', it_value = a\<rparr>))
      in add_arg_rows mem (Suc i) as (snd (umplg_stdd_items_add (mem i) d cmap)))"

definition mink_lua_cmd_call ::
  "'w hcode \<Rightarrow> (nat \<Rightarrow> nat) \<Rightarrow> 'w umplg_mngr \<Rightarrow> string list \<Rightarrow> umplg_data_std option \<Rightarrow>
   (int \<times> umplg_data_std option \<times> 'w umplg_mngr) option"
where
  "mink_lua_cmd_call hs mem pm args out =
     (if length args < 1 then Some (- 1, out, pm)
      else if out = None then Some (- 2, out, pm)
      else
        let cmd_id = umplg_get_cmd_id pm (args ! 0);
            d = add_arg_rows mem 1 (drop 1 args) out
        in map_option (\<lambda>(r, idata, pm'). (r, id_data idata, pm'))
             (umplg_run hs pm cmd_id \<lparr>id_type = UMPLG_DT_STANDARD, id_data = d\<rparr> True))"

definition cmd_arg :: "lua_cell \<Rightarrow> string" where
  "cmd_arg c =
     (if c_isstring c then c_tostring c
      else if c_isnumber c then take 31 (fmt_d (c_trunc (c_tonumber c)))
      else if c_isboolean c then (if c_toboolean c then ''1'' else ''0'')
      else '''')"

definition cmd_call_table :: "umplg_data_std option \<Rightarrow> lua_val" where
  "cmd_call_table d =
     LTab (map (\<lambda>i. (LInt (i + 1), LTab (concat
         (map (\<lambda>j. column_assign (mink_lua_cmd_data_get_column i j d) 1) [0..<mink_lua_cmd_data_row_sz i (the d)]))))
       [0..<mink_lua_cmd_data_sz d])"

definition mink_lua_do_cmd_call ::
  "'w hcode \<Rightarrow> (nat \<Rightarrow> nat) \<Rightarrow> lua_args \<Rightarrow> 'w umplg_mngr \<Rightarrow> (lua_val list \<times> 'w umplg_mngr) option"
where
  "mink_lua_do_cmd_call hs mem L pm =
     (if \<not> lua_istable L then Some ([], pm)
      else
        let args = map (\<lambda>i. cmd_arg (lua_elem L (i + 1))) [0..<lua_objlen L];
            d = umplg_stdd_init (Some \<lparr>items = None\<rparr>)
        in map_option (\<lambda>(res, d', pm'). (if res = 0 then [cmd_call_table d'] else [], pm'))
             (mink_lua_cmd_call hs mem pm args d))"

section \<open>Signals\<close>

text \<open>
  \<^verbatim>\<open>json_object_object_get\<close> and \<^verbatim>\<open>json_object_get_int\<close> of NULL are NULL and 0.
\<close>

definition auth_flags :: "'j json_api \<Rightarrow> string \<Rightarrow> int" where
  "auth_flags J auth =
     json_object_get_int J (Option.bind (json_tokener_parse J auth) (\<lambda>j. json_object_object_get J j ''flags''))"

definition signal_data :: "nat \<Rightarrow> string \<Rightarrow> string \<Rightarrow> umplg_data_std option" where
  "signal_data mem d auth =
     (let e_d = umplg_stdd_init (Some \<lparr>items = None\<rparr>);
          i1 = snd (umplg_stdd_item_add (Some []) (Some \<lparr>it_name = '''', it_value = d\<rparr>));
          i2 = snd (umplg_stdd_item_add i1 (Some \<lparr>it_name = '''', it_value = auth\<rparr>))
      in snd (umplg_stdd_items_add mem e_d i2))"

definition mink_lua_signal ::
  "'w hcode \<Rightarrow> 'j json_api \<Rightarrow> nat \<Rightarrow> string option \<Rightarrow> string option \<Rightarrow> string option \<Rightarrow> 'w umplg_mngr \<Rightarrow>
   string option \<times> int \<times> 'w umplg_mngr"
where
  "mink_lua_signal hs J mem s d auth pm =
     (case s of
        None \<Rightarrow> (Some '''', ret_num UMPLG_RES_UNKNOWN_SIGNAL, pm)
      | Some nm \<Rightarrow>
          let usr_flags = (case auth of None \<Rightarrow> 0 | Some a \<Rightarrow> auth_flags J a);
              e_d = signal_data mem (case d of None \<Rightarrow> '''' | Some x \<Rightarrow> x) (case auth of None \<Rightarrow> '''' | Some x \<Rightarrow> x);
              (r, io, pm') = umplg_proc_signal hs pm (Some nm)
                \<lparr>io_in = e_d, io_out = None, io_out_sz = 0, io_args = None\<rparr> usr_flags
          in (if r = ret_num UMPLG_RES_SUCCESS then io_out io else Some '''', r, pm'))"

text \<open>
  Without any argument the function goes on after pushing its two error values (there is no \<^verbatim>\<open>return\<close>):
  it takes them, the empty string and the number 1, for signal name and payload. \<open>num1\<close> is the string Lua
  makes of that number.
\<close>

definition mink_lua_do_signal ::
  "'w hcode \<Rightarrow> 'j json_api \<Rightarrow> nat \<Rightarrow> string \<Rightarrow> lua_args \<Rightarrow> 'w umplg_mngr \<Rightarrow> lua_val list \<times> 'w umplg_mngr"
where
  "mink_lua_do_signal hs J mem num1 L pm =
     (let answer = (\<lambda>(s_res, res, pm'). ([LStr (case s_res of None \<Rightarrow> '''' | Some x \<Rightarrow> x), LNum (real_of_int res)], pm'))
      in if lua_gettop L < 1 then answer (mink_lua_signal hs J mem (Some '''') (Some num1) None pm)
         else
           let n = (if lua_gettop L \<ge> 3 then 3 else if lua_gettop L \<ge> 2 then 2 else 1);
               arg = (\<lambda>i. if i < n then Some (lua_tostring L (i - n)) else None)
           in if \<exists>i \<in> {0..<n}. \<not> lua_isstring L (i - n)
              then ([LStr '''', LNum (real_of_int (ret_num UMPLG_RES_INVALID_TYPE))], pm)
              else answer (mink_lua_signal hs J mem (arg 0) (arg 1) (arg 2) pm))"

section \<open>Performance counters\<close>

text \<open>
  \<open>perf\<close> is the counter context of the daemon. An \<^verbatim>\<open>int\<close> given to \<open>umc_inc\<close> or \<open>umc_set\<close> becomes
  an unsigned 64-bit number.
\<close>

definition mink_lua_do_perf_inc :: "timespec \<Rightarrow> lua_args \<Rightarrow> umc_ctx \<Rightarrow> umc_ctx" where
  "mink_lua_do_perf_inc now L perf =
     (if lua_gettop L < 1 \<or> \<not> lua_isstring L 1 then perf
      else
        let i = lua_tostring L 1;
            inc = (if lua_gettop L > 1 \<and> lua_isnumber L 2 then c_trunc (lua_tonumber L 2) else 1);
            (c, perf1, _) = umc_new_counter (Some perf) (Some i) UMCT_INCREMENTAL
        in fst (umc_inc now c (of_int inc) (the perf1)))"

definition mink_lua_do_perf_set :: "timespec \<Rightarrow> lua_args \<Rightarrow> umc_ctx \<Rightarrow> umc_ctx" where
  "mink_lua_do_perf_set now L perf =
     (if lua_gettop L < 2 then perf
      else if \<not> lua_isstring L 1 \<or> \<not> lua_isnumber L 2 then perf
      else
        let i = lua_tostring L 1;
            val = c_trunc (lua_tonumber L 2);
            (c, perf1, _) = umc_new_counter (Some perf) (Some i) UMCT_GAUGE
        in fst (umc_set now c (of_int val) (the perf1)))"

text \<open>The copy the callback takes of a counter; its time stamp is not copied.\<close>

definition perf_match_cb :: "umc_val \<Rightarrow> umc \<Rightarrow> umc list \<Rightarrow> umc list" where
  "perf_match_cb junk c lst =
     lst @ [c\<lparr>umc_last := junk\<lparr>val_value := value_of c\<rparr>\<rparr>]"

text \<open>The rate is that of the copy, read without its mutex.\<close>

definition perf_row :: "umc \<Rightarrow> lua_val" where
  "perf_row u =
     LTab ([(LStr ''last'', LInt (unat (value_of u)))] @
       (if umc_typ u = UMCT_GAUGE then [(LStr ''max'', LInt (unat (umc_max u)))] else []) @
       (if umc_typ u = UMCT_INCREMENTAL then [(LStr ''rate'', LNum (fst (umc_get_rate 0 u False)))] else []))"

definition mink_lua_do_perf_match ::
  "(string \<Rightarrow> string \<Rightarrow> bool) \<Rightarrow> umc_val \<Rightarrow> lua_args \<Rightarrow> umc_ctx \<Rightarrow> lua_val list"
where
  "mink_lua_do_perf_match fnm junk L perf =
     (if lua_gettop L < 1 \<or> \<not> lua_isstring L 1 then []
      else
        let (_, lst, _) = umc_match fnm perf (lua_tostring L 1) True (perf_match_cb junk) []
        in [LTab (map (\<lambda>u. (LStr (umc_id u), perf_row u)) lst)])"

section \<open>User data\<close>

text \<open>
  The managers \<open>mem\<close> and \<open>perm\<close> are the pointers stored in the Lua registry. The flag is cut to 8 bits.
\<close>

definition perm_flag :: "lua_args \<Rightarrow> int \<Rightarrow> bool" where
  "perm_flag L i \<longleftrightarrow> lua_gettop L \<ge> i \<and> lua_isnumber L i \<and> take_bit 8 (c_trunc (lua_tonumber L i)) = 1"

definition mink_lua_do_db_set ::
  "('w, 's) sqlite3_api \<Rightarrow> umdb_mngrd option \<Rightarrow> umdb_mngrd option \<Rightarrow> lua_args \<Rightarrow> ('w, lua_val list) state"
where
  "mink_lua_do_db_set sq mem perm L =
     (if lua_gettop L < 3 then State_Monad.return []
      else if \<not> (lua_isstring L 1 \<and> lua_isstring L 2 \<and> lua_isstring L 3) then State_Monad.return []
      else
        let db = lua_tostring L 1; k = lua_tostring L 2; v = lua_tostring L 3;
            dbm = (if perm_flag L 4 then perm else mem)
        in do {
          r \<leftarrow> umdb_mngr_store_init sq dbm (Some db);
          if r \<noteq> 0 then State_Monad.return []
          else do {
            _ \<leftarrow> umdb_mngr_store_set sq dbm (Some db) (Some k) (Some v);
            State_Monad.return []
          }
        })"

definition mink_lua_do_db_get ::
  "('w, 's) sqlite3_api \<Rightarrow> umdb_mngrd option \<Rightarrow> umdb_mngrd option \<Rightarrow> lua_args \<Rightarrow> ('w, lua_val list) state"
where
  "mink_lua_do_db_get sq mem perm L =
     (if lua_gettop L < 2 then State_Monad.return []
      else if \<not> (lua_isstring L 1 \<and> lua_isstring L 2) then State_Monad.return []
      else
        let db = lua_tostring L 1; k = lua_tostring L 2;
            dbm = (if perm_flag L 3 then perm else mem)
        in do {
          r \<leftarrow> umdb_mngr_store_init sq dbm (Some db);
          if r \<noteq> 0 then State_Monad.return []
          else do {
            (r2, ob, ob_sz) \<leftarrow> umdb_mngr_store_get sq dbm (Some db) (Some k) None 0;
            State_Monad.return (if r2 \<noteq> 0 then [] else [LStr (the ob)])
          }
        })"

section \<open>Columns and tables\<close>

text \<open>The loop with its counter is the element at that position.\<close>

lemma column_loop_nth:
  "i \<le> c \<Longrightarrow> column_loop i c cs =
    (if c - i < length cs then \<lparr>cd_key = Some (it_name (cs ! (c - i))), cd_value = Some (it_value (cs ! (c - i)))\<rparr>
     else \<lparr>cd_key = None, cd_value = None\<rparr>)"
proof (induction cs arbitrary: i)
  case (Cons x cs)
  show ?case
  proof (cases "i = c")
    case False
    with Cons.prems have "c - i = Suc (c - Suc i)" "Suc i \<le> c" by simp_all
    with Cons.IH [of "Suc i"] False show ?thesis by simp
  qed simp
qed simp

lemma get_column_nth:
  "r < length (rows d) \<Longrightarrow> c < length (rows d ! r) \<Longrightarrow>
    mink_lua_cmd_data_get_column r c (Some d) =
      \<lparr>cd_key = Some (it_name (snd (rows d ! r ! c))), cd_value = Some (it_value (snd (rows d ! r ! c)))\<rparr>"
  by (simp add: mink_lua_cmd_data_get_column_def mink_lua_cmd_data_sz_def HASH_COUNT_def HASH_ITER_def
      column_loop_nth Let_def)

text \<open>The key under which the \<open>k\<close>-th item of a row appears in its table.\<close>

definition item_key :: "umplg_data_std_item \<Rightarrow> nat \<Rightarrow> lua_val" where
  "item_key it k = (if it_name it = '''' then LInt k else LStr (it_name it))"

lemma get_args_cols_map:
  "r < length (rows d) \<Longrightarrow> i \<le> length (rows d ! r) \<Longrightarrow>
    get_args_cols (Some d) r [i..<length (rows d ! r)] i =
      map (\<lambda>j. (item_key (snd (rows d ! r ! j)) (Suc j), LStr (it_value (snd (rows d ! r ! j))))) [i..<length (rows d ! r)]"
proof (induction "length (rows d ! r) - i" arbitrary: i)
  case (Suc n)
  then have i: "i < length (rows d ! r)" by simp
  with Suc.hyps(1) [of "Suc i"] Suc.hyps(2) Suc.prems show ?case
    by (simp add: upt_conv_Cons [OF i] get_column_nth Let_def column_assign_def item_key_def)
qed simp

lemma get_args_table_rows:
  "get_args_table (Some d) =
    LTab (map (\<lambda>r. (LInt (r + 1), LTab (map (\<lambda>j. (item_key (snd (rows d ! r ! j)) (Suc j),
        LStr (it_value (snd (rows d ! r ! j))))) [0..<length (rows d ! r)]))) [0..<length (rows d)])"
  unfolding get_args_table_def
  by (auto simp: mink_lua_cmd_data_sz_def mink_lua_cmd_data_row_sz_def HASH_COUNT_def get_args_cols_map)

lemma map_nth_upt: "map (\<lambda>j. f (xs ! j)) [0..<length xs] = map f xs"
  by (rule nth_equalityI) simp_all

lemma cmd_call_table_rows:
  "cmd_call_table (Some d) =
    LTab (map (\<lambda>r. (LInt (r + 1), LTab (map (\<lambda>e. (item_key (snd e) 1, LStr (it_value (snd e)))) (rows d ! r))))
      [0..<length (rows d)])"
proof -
  let ?f = "\<lambda>e. (item_key (snd e) 1, LStr (it_value (snd e)))"
  have "concat (map (\<lambda>j. column_assign (mink_lua_cmd_data_get_column r j (Some d)) 1) [0..<length (rows d ! r)]) =
      map ?f (rows d ! r)" if "r < length (rows d)" for r
  proof -
    have "map (\<lambda>j. column_assign (mink_lua_cmd_data_get_column r j (Some d)) 1) [0..<length (rows d ! r)] =
        map (\<lambda>j. [?f (rows d ! r ! j)]) [0..<length (rows d ! r)]"
      using that by (intro map_cong) (simp_all add: get_column_nth column_assign_def item_key_def)
    then show ?thesis by (simp only: concat_map_singleton map_nth_upt [where f = ?f])
  qed
  then show ?thesis
    by (simp add: cmd_call_table_def mink_lua_cmd_data_sz_def mink_lua_cmd_data_row_sz_def HASH_COUNT_def)
qed

end
