(* ===== verification/Umlua.thy ===== *)
theory Umlua
  imports Umlua_m
begin

text \<open>
  The Lua core, \<^verbatim>\<open>src/src/include/umlua.h\<close> and the first part of
  \<^verbatim>\<open>src/src/services/sysagent/umlua.c\<close>: the environment manager and the signal handler that runs a script.

  The state \<open>lua_w\<close> is the \<open>wld\<close> of the plugin manager; it holds the environments, the descriptors' argument
  arrays, the daemon's counters, and what belongs to the running thread: its Lua state (\<open>tls\<close>), the
  counter \<^verbatim>\<open>Lref\<close> and the calls it has made on the signals' mutexes. The Lua interpreter is a parameter: \<open>loadfile\<close>
  is \<^verbatim>\<open>luaL_loadfile\<close> and \<open>pcall\<close> is \<^verbatim>\<open>lua_pcall\<close>, an arbitrary transformer of the whole program state, since a
  script may call back into the program. Scripts of signal handlers are taken to return, and Lua's own limit on nested calls
  from C (200 in Lua 5.1 and its successors) is not part of the model: where it is reached, \<^verbatim>\<open>lua_pcall\<close> fails with an error. \<open>tick\<close> numbers the readings of the clock and of files, which are the
  parameters \<open>now\<close> and \<open>loadfile\<close>. The addresses of allocated descriptors are numbers, \<open>brk\<close> being the next one.
\<close>

section \<open>Data\<close>

record perf_d =
  pf_cnt :: "nat option"
  pf_err :: "nat option"
  pf_lag :: "nat option"

record lua_env_d =
  le_name :: string
  le_interval :: u64
  le_active :: bool
  le_path :: string
  le_env_perf :: perf_d
  le_sgnl_nr :: nat
  le_sgnl_perf :: "perf_d list"
  le_dbm_mem :: "umdb_mngrd option"
  le_dbm_perm :: "umdb_mngrd option"
  le_agressive_gc :: bool
  le_conserve_mem :: bool

text \<open>
  What the program keeps in the registry of a Lua state: the two database managers, the arguments of the running
  signals and the compiled scripts by signal.
\<close>

record lua_reg =
  mink_dbm_mem :: "umdb_mngrd option"
  mink_dbm_perm :: "umdb_mngrd option"
  mink_stdd :: "nat \<rightharpoonup> umplg_data_std option"
  mink_sig_cache :: "string \<rightharpoonup> nat"

text \<open>The array \<^verbatim>\<open>shd->args\<close> after the manager: the environment and the index of the counters in it.\<close>

record sh_argv =
  av_env :: nat
  av_perf :: nat

text \<open>
  What the core does to threads, descriptors and sockets, in order: threads are named by their environment (none for
  the server of the command line), sockets by their descriptor.
\<close>

datatype lua_ev =
    Th_create "nat option"
  | Th_join "nat option"
  | Env_free nat
  | Nanosleep u64 u64
  | Lua_close
  | Sock_close int
  | Client_create int

record lua_w =
  envs :: "(string, nat) uthash"
  dbm_perm :: "umdb_mngrd option"
  dbm_mem :: "umdb_mngrd option"
  env_mem :: "nat \<Rightarrow> lua_env_d"
  argv_mem :: "nat \<Rightarrow> sh_argv"
  perf :: umc_ctx
  tls :: "lua_reg option"
  Lref :: int
  sh_mtx :: "sh_ptr mtx_ev list"
  tick :: nat
  out_of_fuel :: bool
  brk :: nat
  lua_evs :: "lua_ev list"

type_synonym lua_pm = "lua_w umplg_mngr"

definition upd_w :: "(lua_w \<Rightarrow> lua_w) \<Rightarrow> lua_pm \<Rightarrow> lua_pm" where
  "upd_w g pm = pm\<lparr>wld := g (wld pm)\<rparr>"

definition upd_sh :: "sh_ptr \<Rightarrow> (umplg_sh \<Rightarrow> umplg_sh) \<Rightarrow> lua_pm \<Rightarrow> lua_pm" where
  "upd_sh p g pm = pm\<lparr>sh_mem := (sh_mem pm)(p := g (sh_mem pm p))\<rparr>"

section \<open>Environment manager\<close>

definition lenvm_get_envd :: "string \<Rightarrow> lua_w \<Rightarrow> nat option" where
  "lenvm_get_envd n s = HASH_FIND (envs s) n"

definition lenvm_del_envd :: "string \<Rightarrow> lua_w \<Rightarrow> nat option \<times> lua_w" where
  "lenvm_del_envd n s =
     (case HASH_FIND (envs s) n of
        None \<Rightarrow> (None, s)
      | Some env \<Rightarrow> (Some env, s\<lparr>envs := HASH_DEL (envs s) env\<rparr>))"

definition lenvm_new_envd :: "nat \<Rightarrow> lua_w \<Rightarrow> nat \<times> lua_w" where
  "lenvm_new_envd env s =
     (case HASH_FIND (envs s) (le_name (env_mem s env)) of
        Some e \<Rightarrow> (e, s)
      | None \<Rightarrow> (env, s\<lparr>envs := HASH_ADD (envs s) (le_name (env_mem s env)) env\<rparr>))"

definition lenvm_envd_exists :: "string \<Rightarrow> lua_w \<Rightarrow> bool" where
  "lenvm_envd_exists n s \<longleftrightarrow> HASH_FIND (envs s) n \<noteq> None"

definition lenvm_process_envs :: "(nat \<Rightarrow> lua_w \<Rightarrow> lua_w) \<Rightarrow> lua_w \<Rightarrow> lua_w" where
  "lenvm_process_envs f s = fold f (HASH_ITER (envs s)) s"

text \<open>\<^verbatim>\<open>snprintf(perf_id, UMC_NAME_MAX, "lua.%s.%s.<what>", pfx, id)\<close>\<close>

definition perf_id :: "string \<Rightarrow> string \<Rightarrow> string \<Rightarrow> string" where
  "perf_id pfx i what = snprintf_s UMC_NAME_MAX (''lua.'' @ pfx @ ''.'' @ i @ ''.'' @ what)"

definition init_counters :: "string \<Rightarrow> string \<Rightarrow> umc_ctx \<Rightarrow> perf_d \<times> umc_ctx" where
  "init_counters i pfx x =
     (let (c, x1, _) = umc_new_counter (Some x) (Some (perf_id pfx i ''count'')) UMCT_INCREMENTAL;
          (e, x2, _) = umc_new_counter x1 (Some (perf_id pfx i ''error'')) UMCT_INCREMENTAL;
          (l, x3, _) = umc_new_counter x2 (Some (perf_id pfx i ''lag'')) UMCT_GAUGE
      in (\<lparr>pf_cnt = c, pf_err = e, pf_lag = l\<rparr>, the x3))"

section \<open>Loading scripts\<close>

datatype load_rc = LUA_OK | LUA_ERRSYNTAX | LUA_ERRMEM | LUA_ERRFILE | LUA_ERROTHER

text \<open>The code the two loading functions make of a result.\<close>

definition load_code :: "load_rc \<Rightarrow> int" where
  "load_code r = (case r of LUA_ERRSYNTAX \<Rightarrow> 1 | LUA_ERRMEM \<Rightarrow> 2 | LUA_ERRFILE \<Rightarrow> 3 | _ \<Rightarrow> 0)"

definition lua_env_load_script ::
  "(nat \<Rightarrow> string \<Rightarrow> load_rc \<times> nat) \<Rightarrow> nat \<Rightarrow> lua_w \<Rightarrow> int \<times> nat \<times> lua_w"
where
  "lua_env_load_script loadfile env s =
     (let (r, chunk) = loadfile (tick s) (le_path (env_mem s env))
      in (load_code r, chunk, s\<lparr>tick := Suc (tick s)\<rparr>))"

definition sh_env :: "sh_ptr \<Rightarrow> lua_pm \<Rightarrow> nat" where
  "sh_env p pm = av_env (argv_mem (wld pm) (the (sh_args (sh_mem pm p))))"

definition sh_perf :: "sh_ptr \<Rightarrow> lua_pm \<Rightarrow> perf_d" where
  "sh_perf p pm =
     le_sgnl_perf (env_mem (wld pm) (sh_env p pm)) ! av_perf (argv_mem (wld pm) (the (sh_args (sh_mem pm p))))"

definition lua_sig_load_script ::
  "(nat \<Rightarrow> string \<Rightarrow> load_rc \<times> nat) \<Rightarrow> sh_ptr \<Rightarrow> lua_pm \<Rightarrow> int \<times> nat \<times> lua_pm"
where
  "lua_sig_load_script loadfile p pm =
     (let (r, chunk) = loadfile (tick (wld pm)) (le_path (env_mem (wld pm) (sh_env p pm)))
      in (load_code r, chunk, upd_w (\<lambda>s. s\<lparr>tick := Suc (tick s)\<rparr>) pm))"

section \<open>The signal handler\<close>

text \<open>
  A new Lua state of the thread with the module \<^verbatim>\<open>M\<close>, to which other plugins add their parts when the signal
  \<^verbatim>\<open>@init_lua_sub_modules\<close> is raised, and with the registry entries. The check for a failed
  \<^verbatim>\<open>luaL_newstate\<close> tests the wrong pointer and never fires. The registry is attached to the thread afterwards.
\<close>

definition lua_sig_setup :: "lua_w hcode \<Rightarrow> sh_ptr \<Rightarrow> lua_pm \<Rightarrow> int \<times> lua_reg \<times> lua_pm" where
  "lua_sig_setup hs p pm =
     (let env = env_mem (wld pm) (sh_env p pm);
          (_, _, pm1) = umplg_proc_signal hs pm (Some ''@init_lua_sub_modules'')
            \<lparr>io_in = None, io_out = None, io_out_sz = 0, io_args = Some (tick (wld pm))\<rparr> 0
      in (0, \<lparr>mink_dbm_mem = le_dbm_mem env, mink_dbm_perm = le_dbm_perm env,
              mink_stdd = Map.empty, mink_sig_cache = Map.empty\<rparr>, pm1))"

definition lua_sig_hndlr_init :: "sh_ptr \<Rightarrow> lua_pm \<Rightarrow> int \<times> lua_pm" where
  "lua_sig_hndlr_init p pm =
     (let e = sh_env p pm;
          k = av_perf (argv_mem (wld pm) (the (sh_args (sh_mem pm p))));
          (pf, x) = init_counters (le_name (env_mem (wld pm) e)) ''signal'' (perf (wld pm))
      in (0, upd_w (\<lambda>s. s\<lparr>perf := x, env_mem := (env_mem s)(e := (env_mem s e)\<lparr>le_sgnl_perf := (le_sgnl_perf (env_mem s e))[k := pf]\<rparr>)\<rparr>) pm))"

text \<open>Termination destroys the mutex in the second phase; nothing of the state is left to change.\<close>

definition lua_sig_hndlr_term :: "sh_ptr \<Rightarrow> int \<Rightarrow> lua_pm \<Rightarrow> int \<times> lua_pm" where
  "lua_sig_hndlr_term p phase pm = (0, pm)"

definition mtx_call :: "sh_ptr mtx_ev \<Rightarrow> lua_pm \<Rightarrow> lua_pm" where
  "mtx_call e pm = upd_w (\<lambda>s. s\<lparr>sh_mtx := sh_mtx s @ [e]\<rparr>) pm"

text \<open>The per-thread Lua state, made on the first signal.\<close>

definition sig_state :: "lua_w hcode \<Rightarrow> sh_ptr \<Rightarrow> lua_pm \<Rightarrow> lua_pm" where
  "sig_state hs p pm =
     (case tls (wld pm) of
        Some _ \<Rightarrow> pm
      | None \<Rightarrow> (case lua_sig_setup hs p pm of (_, reg, pm1) \<Rightarrow> upd_w (\<lambda>s. s\<lparr>tls := Some reg\<rparr>) pm1))"

text \<open>The script in the cache, loaded when it is not there.\<close>

definition sig_preload ::
  "(nat \<Rightarrow> string \<Rightarrow> load_rc \<times> nat) \<Rightarrow> sh_ptr \<Rightarrow> lua_pm \<Rightarrow> int \<times> lua_pm"
where
  "sig_preload loadfile p pm =
     (let nm = sh_id (sh_mem pm p) in
      case mink_sig_cache (the (tls (wld pm))) nm of
        Some _ \<Rightarrow> (0, pm)
      | None \<Rightarrow>
          (case lua_sig_load_script loadfile p pm of (r, chunk, pm1) \<Rightarrow>
             if r \<noteq> 0 then (r, pm1)
             else (0, upd_w (\<lambda>s. s\<lparr>tls := map_option (\<lambda>g. g\<lparr>mink_sig_cache := (mink_sig_cache g)(nm \<mapsto> chunk)\<rparr>) (tls s)\<rparr>) pm1)))"

definition recursion_msg :: "string \<Rightarrow> string" where
  "recursion_msg i = ''ERR ['' @ i @ '']: signal recursion prevented''"

text \<open>
  The handler up to \<^verbatim>\<open>lua_pcall\<close>: the script to run and the state it starts in, or what the handler returns
  without running it.
\<close>

definition lua_sig_enter ::
  "lua_w hcode \<Rightarrow> (nat \<Rightarrow> string \<Rightarrow> load_rc \<times> nat) \<Rightarrow> (nat \<Rightarrow> timespec) \<Rightarrow> sh_ptr \<Rightarrow> sig_io \<Rightarrow> lua_pm \<Rightarrow>
   (int \<times> sig_io \<times> lua_pm) + (nat \<times> umc_lag \<times> lua_pm)"
where
  "lua_sig_enter hs loadfile now p io pm =
     (let pm1 = sig_state hs p pm;
          conserve = le_conserve_mem (env_mem (wld pm1) (sh_env p pm1));
          (pre, pm2) = (if conserve then (0, pm1) else sig_preload loadfile p pm1)
      in if pre \<noteq> 0 then Inl (ret_num UMPLG_RES_SIG_SETUP_FAILED, io, pm2)
         else
           let pm3 = mtx_call (Mtx_lock p) pm2 in
           if sh_running (sh_mem pm3 p) then
             let msg = recursion_msg (sh_id (sh_mem pm3 p));
                 pm4 = mtx_call (Mtx_unlock p) (upd_sh p (\<lambda>h. h\<lparr>sh_running := False\<rparr>) pm3)
             in Inl (ret_num UMPLG_RES_SUCCESS, io\<lparr>io_out := Some msg, io_out_sz := length msg + 1\<rparr>, pm4)
           else
             let (r, chunk, pm4) =
               (if conserve then lua_sig_load_script loadfile p pm3
                else (0, the (mink_sig_cache (the (tls (wld pm3))) (sh_id (sh_mem pm3 p))), pm3))
             in if r \<noteq> 0 then Inl (ret_num UMPLG_RES_SIG_SETUP_FAILED, io, pm4)
                else
                  let pm5 = upd_w (\<lambda>s. s\<lparr>Lref := Lref s + 1,
                        tls := map_option (\<lambda>g. g\<lparr>mink_stdd := (mink_stdd g)(nat (Lref s + 1) \<mapsto> io_in io)\<rparr>) (tls s),
                        tick := Suc (tick s)\<rparr>) pm4;
                      lag = umc_lag_start (now (tick (wld pm4))) \<lparr>lag_ts_start = 0, lag_ts_end = 0, lag_ts_diff = 0\<rparr>
                  in Inr (chunk, lag, upd_sh p (\<lambda>h. h\<lparr>sh_running := True\<rparr>) pm5))"

text \<open>After \<^verbatim>\<open>lua_pcall\<close> returned \<open>r\<close> and left the value \<open>v\<close> on the stack.\<close>

definition lua_sig_leave ::
  "(nat \<Rightarrow> timespec) \<Rightarrow> sh_ptr \<Rightarrow> sig_io \<Rightarrow> umc_lag \<Rightarrow> int \<Rightarrow> lua_cell \<Rightarrow> lua_pm \<Rightarrow> int \<times> sig_io \<times> lua_pm"
where
  "lua_sig_leave now p io lag r v pm =
     (let t = tick (wld pm);
          lag' = umc_lag_end (now t) lag;
          pf = sh_perf p pm;
          pm1 = upd_w (\<lambda>s. s\<lparr>tls := map_option (\<lambda>g. g\<lparr>mink_stdd := (mink_stdd g)(nat (Lref s) := None)\<rparr>) (tls s),
                              Lref := Lref s - 1, tick := t + 3\<rparr>) pm;
          x1 = fst (umc_set (now (t + 1)) (pf_lag pf) (lag_ts_diff lag') (perf (wld pm1)));
          x2 = fst (umc_inc (now (t + 2)) (if r \<noteq> 0 then pf_err pf else pf_cnt pf) 1 x1);
          pm2 = upd_w (\<lambda>s. s\<lparr>perf := x2\<rparr>) pm1;
          done = mtx_call (Mtx_unlock p) (upd_sh p (\<lambda>h. h\<lparr>sh_running := False\<rparr>) pm2)
      in if c_isstring v then
           let str = c_tostring v; sl = length str; n = (if sl < 2 ^ 31 then int sl else - 1) in
           if sl = 0 then (ret_num UMPLG_RES_SUCCESS, io\<lparr>io_out_sz := 0\<rparr>, done)
           else if n \<le> 0 \<or> n \<ge> int sl + 1 then (ret_num UMPLG_RES_BUFFER_OVERFLOW, io\<lparr>io_out_sz := 0\<rparr>, done)
           else (ret_num UMPLG_RES_SUCCESS, io\<lparr>io_out := Some str, io_out_sz := sl + 1\<rparr>, done)
         else (ret_num UMPLG_RES_SUCCESS, io, done))"

definition lua_sig_hndlr_run ::
  "lua_w hcode \<Rightarrow> (nat \<Rightarrow> string \<Rightarrow> load_rc \<times> nat) \<Rightarrow> (nat \<Rightarrow> timespec) \<Rightarrow>
   (nat \<Rightarrow> lua_pm \<Rightarrow> int \<times> lua_cell \<times> lua_pm) \<Rightarrow> sh_ptr \<Rightarrow> sig_io \<Rightarrow> lua_pm \<Rightarrow> int \<times> sig_io \<times> lua_pm"
where
  "lua_sig_hndlr_run hs loadfile now pcall p io pm =
     (case lua_sig_enter hs loadfile now p io pm of
        Inl res \<Rightarrow> res
      | Inr (chunk, lag, pm1) \<Rightarrow>
          (case pcall chunk pm1 of (r, v, pm2) \<Rightarrow> lua_sig_leave now p io lag r v pm2))"

section \<open>Scripts that raise signals\<close>

text \<open>
  What a script does to the program is the sequence of functions of \<^verbatim>\<open>M\<close> it calls, each depending on the results
  of those before: a tree. Of these functions, \<^verbatim>\<open>signal\<close>, \<^verbatim>\<open>get_args\<close> and \<^verbatim>\<open>perf_inc\<close> touch the state
  of the handlers; a script ends with the code and the value \<^verbatim>\<open>lua_pcall\<close> leaves.
\<close>

datatype script =
    Script_end int lua_cell
  | Script_signal string "string option" "string option" "string option \<Rightarrow> int \<Rightarrow> script"
  | Script_get_args "lua_val list \<Rightarrow> script"
  | Script_perf_inc lua_args script

record lua_env_in =
  in_loadfile :: "nat \<Rightarrow> string \<Rightarrow> load_rc \<times> nat"
  in_now :: "nat \<Rightarrow> timespec"
  in_rawlen :: "(nat \<rightharpoonup> umplg_data_std option) \<Rightarrow> nat"
  in_script :: "nat \<Rightarrow> script"
  in_mem :: nat
  in_run_addr :: fptr

primrec exec_script ::
  "lua_env_in \<Rightarrow> (string option \<Rightarrow> string option \<Rightarrow> string option \<Rightarrow> lua_pm \<Rightarrow> string option \<times> int \<times> lua_pm) \<Rightarrow>
   script \<Rightarrow> lua_pm \<Rightarrow> int \<times> lua_cell \<times> lua_pm"
where
  "exec_script I sig (Script_end r v) pm = (r, v, pm)"
| "exec_script I sig (Script_signal nm d auth k) pm =
     (case sig (Some nm) d auth pm of (s_res, res, pm1) \<Rightarrow> exec_script I sig (k s_res res) pm1)"
| "exec_script I sig (Script_get_args k) pm =
     exec_script I sig (k (mink_lua_get_args (in_rawlen I) (map_option mink_stdd (tls (wld pm))))) pm"
| "exec_script I sig (Script_perf_inc L k) pm =
     exec_script I sig k (upd_w (\<lambda>s. s\<lparr>perf := mink_lua_do_perf_inc (in_now I (tick s)) L (perf s), tick := Suc (tick s)\<rparr>) pm)"

text \<open>
  A signal handled by a script, with at most \<open>n\<close> handlers nested in each other; \<open>out_of_fuel\<close> records that
  this was not enough. \<open>lua_hs\<close> are the handlers a script's signals reach: those of the core at its address, the
  others as given.
\<close>

definition with_run :: "lua_w hcode \<Rightarrow> fptr \<Rightarrow> (sh_ptr \<Rightarrow> sig_io \<Rightarrow> lua_pm \<Rightarrow> int \<times> sig_io \<times> lua_pm) \<Rightarrow> lua_w hcode" where
  "with_run hs f run = hs\<lparr>call_sh_run := (\<lambda>g p io pm. if g = f then run p io pm else call_sh_run hs g p io pm)\<rparr>"

fun lua_call ::
  "'j json_api \<Rightarrow> lua_w hcode \<Rightarrow> lua_env_in \<Rightarrow> nat \<Rightarrow> sh_ptr \<Rightarrow> sig_io \<Rightarrow> lua_pm \<Rightarrow> int \<times> sig_io \<times> lua_pm"
where
  "lua_call J hs I 0 p io pm = (ret_num UMPLG_RES_SIG_EXEC_FAILED, io, upd_w (\<lambda>s. s\<lparr>out_of_fuel := True\<rparr>) pm)"
| "lua_call J hs I (Suc n) p io pm =
     (let hs' = with_run hs (in_run_addr I) (lua_call J hs I n)
      in lua_sig_hndlr_run hs' (in_loadfile I) (in_now I)
           (\<lambda>chunk pm. exec_script I (mink_lua_signal hs' J (in_mem I)) (in_script I chunk) pm) p io pm)"

section \<open>What a handler keeps\<close>

text \<open>How often a mutex is held after a sequence of calls; these mutexes are recursive.\<close>

definition held :: "sh_ptr \<Rightarrow> sh_ptr mtx_ev list \<Rightarrow> int" where
  "held m es = int (count_list es (Mtx_lock m)) - int (count_list es (Mtx_unlock m))"

lemma held_append [simp]: "held m (es @ es') = held m es + held m es'"
  by (simp add: held_def)

lemma held_simps [simp]:
  "held m [] = 0" "held m (Mtx_lock q # es) = held m es + (if q = m then 1 else 0)"
  "held m (Mtx_unlock q # es) = held m es - (if q = m then 1 else 0)"
  by (simp_all add: held_def)

text \<open>
  The arguments of the running signals fill the registry's table from 1 to \<^verbatim>\<open>Lref\<close>.
\<close>

definition stdd_of :: "lua_pm \<Rightarrow> (nat \<rightharpoonup> umplg_data_std option)" where
  "stdd_of pm = (case tls (wld pm) of None \<Rightarrow> Map.empty | Some g \<Rightarrow> mink_stdd g)"

definition lua_inv :: "lua_pm \<Rightarrow> bool" where
  "lua_inv pm \<longleftrightarrow> 0 \<le> Lref (wld pm) \<and> dom (stdd_of pm) = {1..nat (Lref (wld pm))}"

text \<open>
  What every handler leaves to the one it was called from: the counter of running signals, the arguments of
  these, and the arrays and identifiers of all signals. Mutexes are held as often as before, or (where \<open>ex\<close> is false)
  more often.
\<close>

definition lua_frame :: "bool \<Rightarrow> lua_pm \<Rightarrow> lua_pm \<Rightarrow> bool" where
  "lua_frame ex pm pm' \<longleftrightarrow> Lref (wld pm') = Lref (wld pm) \<and> stdd_of pm' = stdd_of pm \<and>
     (tls (wld pm) \<noteq> None \<longrightarrow> tls (wld pm') \<noteq> None) \<and> argv_mem (wld pm') = argv_mem (wld pm) \<and>
     (\<forall>q. sh_args (sh_mem pm' q) = sh_args (sh_mem pm q) \<and> sh_id (sh_mem pm' q) = sh_id (sh_mem pm q)) \<and>
     (\<forall>m. held m (sh_mtx (wld pm)) \<le> held m (sh_mtx (wld pm'))) \<and>
     (ex \<longrightarrow> (\<forall>m. held m (sh_mtx (wld pm')) = held m (sh_mtx (wld pm)))) \<and>
     (out_of_fuel (wld pm) \<longrightarrow> out_of_fuel (wld pm'))"

lemma lua_frame_refl [simp]: "lua_frame ex pm pm"
  by (simp add: lua_frame_def)

lemma lua_frame_trans [trans]: "lua_frame ex a b \<Longrightarrow> lua_frame ex b c \<Longrightarrow> lua_frame ex a c"
  unfolding lua_frame_def by (auto intro: order_trans)

lemma lua_frame_inv: "lua_frame ex pm pm' \<Longrightarrow> lua_inv pm' = lua_inv pm"
  by (simp add: lua_frame_def lua_inv_def)

definition hs_frame :: "bool \<Rightarrow> lua_w hcode \<Rightarrow> bool" where
  "hs_frame ex hs \<longleftrightarrow> (\<forall>f p io pm. lua_inv pm \<longrightarrow> lua_frame ex pm (snd (snd (call_sh_run hs f p io pm))))"

lemma proc_signal_frame:
  "hs_frame ex hs \<Longrightarrow> lua_inv pm \<Longrightarrow> lua_frame ex pm (snd (snd (umplg_proc_signal hs pm s io fl)))"
  by (auto simp: umplg_proc_signal_def hs_frame_def split: option.split)

lemma mink_lua_signal_frame:
  assumes "hs_frame ex hs" and "lua_inv pm"
  shows "lua_frame ex pm (snd (snd (mink_lua_signal hs J mem s d auth pm)))"
  using proc_signal_frame [OF assms] by (auto simp: mink_lua_signal_def Let_def split_beta split: option.split)

lemma exec_script_frame:
  assumes "\<And>s d a pm. lua_inv pm \<Longrightarrow> lua_frame ex pm (snd (snd (sig s d a pm)))"
  shows "lua_inv pm \<Longrightarrow> lua_frame ex pm (snd (snd (exec_script I sig t pm)))"
proof (induction t arbitrary: pm)
  case (Script_signal nm d auth k)
  obtain s_res res pm1 where s: "sig (Some nm) d auth pm = (s_res, res, pm1)" by (metis prod_cases3)
  with assms [OF Script_signal.prems, of "Some nm" d auth] have f: "lua_frame ex pm pm1" by simp
  then have "lua_inv pm1" using lua_frame_inv Script_signal.prems by blast
  then have "lua_frame ex pm1 (snd (snd (exec_script I sig (k s_res res) pm1)))"
    by (intro Script_signal.IH [of "k s_res"]) auto
  with f show ?case by (auto simp: s intro: lua_frame_trans)
next
  case (Script_perf_inc L t)
  let ?pm = "upd_w (\<lambda>s. s\<lparr>perf := mink_lua_do_perf_inc (in_now I (tick s)) L (perf s), tick := Suc (tick s)\<rparr>) pm"
  have f: "lua_frame ex pm ?pm" by (simp add: lua_frame_def upd_w_def stdd_of_def)
  then have "lua_inv ?pm" using lua_frame_inv Script_perf_inc.prems by blast
  from Script_perf_inc.IH [OF this] f show ?case by (auto intro: lua_frame_trans)
qed simp_all

lemma sig_state_frame:
  assumes "hs_frame ex hs" and "lua_inv pm"
  shows "lua_frame ex pm (sig_state hs p pm)" "tls (wld (sig_state hs p pm)) \<noteq> None"
proof -
  have "lua_frame ex pm (sig_state hs p pm) \<and> tls (wld (sig_state hs p pm)) \<noteq> None"
  proof (cases "tls (wld pm)")
    case None
    obtain reg pm1 where s: "lua_sig_setup hs p pm = (0, reg, pm1)" "mink_stdd reg = Map.empty"
      "pm1 = snd (snd (umplg_proc_signal hs pm (Some ''@init_lua_sub_modules'')
            \<lparr>io_in = None, io_out = None, io_out_sz = 0, io_args = Some (tick (wld pm))\<rparr> 0))"
      by (simp add: lua_sig_setup_def Let_def split_beta)
    from proc_signal_frame [OF assms] s(3) have "lua_frame ex pm pm1" by simp
    with None s(1,2) show ?thesis by (simp add: sig_state_def lua_frame_def upd_w_def stdd_of_def)
  qed (simp add: sig_state_def)
  then show "lua_frame ex pm (sig_state hs p pm)" "tls (wld (sig_state hs p pm)) \<noteq> None" by simp_all
qed

lemma sig_load_frame:
  "lua_frame ex pm (snd (snd (lua_sig_load_script lf p pm)))"
  "tls (wld (snd (snd (lua_sig_load_script lf p pm)))) = tls (wld pm)"
  by (simp_all add: lua_sig_load_script_def lua_frame_def upd_w_def stdd_of_def split_beta Let_def)

lemma sig_preload_frame:
  assumes "tls (wld pm) \<noteq> None"
  shows "lua_frame ex pm (snd (sig_preload lf p pm)) \<and> tls (wld (snd (sig_preload lf p pm))) \<noteq> None"
  using assms sig_load_frame(1) [of ex pm lf p] sig_load_frame(2) [of lf p pm]
  by (auto simp: sig_preload_def lua_frame_def upd_w_def stdd_of_def split_beta Let_def split: option.split)

text \<open>A script that starts: its arguments are on top of those of the signals it is nested in.\<close>

definition lua_pushed :: "bool \<Rightarrow> sh_ptr \<Rightarrow> umplg_data_std option \<Rightarrow> lua_pm \<Rightarrow> lua_pm \<Rightarrow> bool" where
  "lua_pushed ex p d pm pm' \<longleftrightarrow> Lref (wld pm') = Lref (wld pm) + 1 \<and>
     stdd_of pm' = (stdd_of pm)(nat (Lref (wld pm) + 1) \<mapsto> d) \<and> tls (wld pm') \<noteq> None \<and>
     argv_mem (wld pm') = argv_mem (wld pm) \<and>
     (\<forall>q. sh_args (sh_mem pm' q) = sh_args (sh_mem pm q) \<and> sh_id (sh_mem pm' q) = sh_id (sh_mem pm q)) \<and>
     (\<forall>m. held m (sh_mtx (wld pm)) + (if m = p then 1 else 0) \<le> held m (sh_mtx (wld pm'))) \<and>
     (ex \<longrightarrow> (\<forall>m. held m (sh_mtx (wld pm')) = held m (sh_mtx (wld pm)) + (if m = p then 1 else 0))) \<and>
     (out_of_fuel (wld pm) \<longrightarrow> out_of_fuel (wld pm'))"

definition loads_ok :: "(nat \<Rightarrow> string \<Rightarrow> load_rc \<times> nat) \<Rightarrow> bool" where
  "loads_ok lf \<longleftrightarrow> (\<forall>t path. load_code (fst (lf t path)) = 0)"

definition push_args :: "umplg_data_std option \<Rightarrow> lua_w \<Rightarrow> lua_w" where
  "push_args d s = s\<lparr>Lref := Lref s + 1,
     tls := map_option (\<lambda>g. g\<lparr>mink_stdd := (mink_stdd g)(nat (Lref s + 1) \<mapsto> d)\<rparr>) (tls s), tick := Suc (tick s)\<rparr>"

lemmas lua_frame_defs = lua_frame_def mtx_call_def upd_w_def upd_sh_def stdd_of_def

lemma frame_recursion:
  "lua_frame ex a b \<Longrightarrow>
    lua_frame ex a (mtx_call (Mtx_unlock p) (upd_sh p (\<lambda>h. h\<lparr>sh_running := False\<rparr>) (mtx_call (Mtx_lock p) b)))"
  by (auto simp: lua_frame_defs)

lemma frame_locked:
  assumes "lua_frame ex a b"
  shows "lua_frame False a (mtx_call (Mtx_lock p) b)"
proof -
  have "held m (sh_mtx (wld a)) \<le> held m (sh_mtx (wld b))" for m using assms by (simp add: lua_frame_def)
  then have "held m (sh_mtx (wld a)) \<le> held m (sh_mtx (wld b)) + (if p = m then 1 else 0)" for m
    by (rule order_trans) simp
  with assms show ?thesis by (simp add: lua_frame_defs)
qed

lemma frame_weaken: "lua_frame ex a b \<Longrightarrow> lua_frame False a b"
  by (simp add: lua_frame_def)

lemma frame_pushed:
  assumes "lua_frame ex a b" and "tls (wld b) \<noteq> None" and "lua_frame ex (mtx_call (Mtx_lock p) b) c"
  shows "lua_pushed ex p d a (upd_sh p (\<lambda>h. h\<lparr>sh_running := True\<rparr>) (upd_w (push_args d) c))"
proof -
  have h: "held m (sh_mtx (wld (mtx_call (Mtx_lock p) b))) = held m (sh_mtx (wld b)) + (if m = p then 1 else 0)" for m
    by (simp add: mtx_call_def upd_w_def)
  have c: "tls (wld c) \<noteq> None" "Lref (wld c) = Lref (wld a)" "stdd_of c = stdd_of a" "argv_mem (wld c) = argv_mem (wld a)"
    "\<And>q. sh_args (sh_mem c q) = sh_args (sh_mem a q) \<and> sh_id (sh_mem c q) = sh_id (sh_mem a q)"
    "out_of_fuel (wld a) \<longrightarrow> out_of_fuel (wld c)"
    using assms by (auto simp: lua_frame_defs)
  have "held m (sh_mtx (wld a)) + (if m = p then 1 else 0) \<le> held m (sh_mtx (wld c))" for m
    using assms(1,3) unfolding lua_frame_def h by (metis add_right_mono order_trans)
  moreover have "ex \<longrightarrow> held m (sh_mtx (wld c)) = held m (sh_mtx (wld a)) + (if m = p then 1 else 0)" for m
    using assms(1,3) unfolding lua_frame_def h by simp
  moreover have "stdd_of (upd_w (push_args d) c) = (stdd_of c)(nat (Lref (wld c) + 1) \<mapsto> d)"
    using c(1) by (auto simp: stdd_of_def upd_w_def push_args_def)
  ultimately show ?thesis using c
    by (simp add: lua_pushed_def upd_sh_def upd_w_def push_args_def stdd_of_def)
qed

lemma enter_cases:
  fixes hs lf p pm
  defines "pm1 \<equiv> sig_state hs p pm"
  defines "conserve \<equiv> le_conserve_mem (env_mem (wld pm1) (sh_env p pm1))"
  defines "pre \<equiv> (if conserve then (0, pm1) else sig_preload lf p pm1)"
  defines "pm3 \<equiv> mtx_call (Mtx_lock p) (snd pre)"
  defines "ld \<equiv> (if conserve then lua_sig_load_script lf p pm3
    else (0, the (mink_sig_cache (the (tls (wld pm3))) (sh_id (sh_mem pm3 p))), pm3))"
  shows "lua_sig_enter hs lf now p io pm =
    (if fst pre \<noteq> 0 then Inl (ret_num UMPLG_RES_SIG_SETUP_FAILED, io, snd pre)
     else if sh_running (sh_mem pm3 p) then
       Inl (ret_num UMPLG_RES_SUCCESS,
         io\<lparr>io_out := Some (recursion_msg (sh_id (sh_mem pm3 p))), io_out_sz := length (recursion_msg (sh_id (sh_mem pm3 p))) + 1\<rparr>,
         mtx_call (Mtx_unlock p) (upd_sh p (\<lambda>h. h\<lparr>sh_running := False\<rparr>) pm3))
     else if fst ld \<noteq> 0 then Inl (ret_num UMPLG_RES_SIG_SETUP_FAILED, io, snd (snd ld))
     else Inr (fst (snd ld),
       umc_lag_start (now (tick (wld (snd (snd ld))))) \<lparr>lag_ts_start = 0, lag_ts_end = 0, lag_ts_diff = 0\<rparr>,
       upd_sh p (\<lambda>h. h\<lparr>sh_running := True\<rparr>) (upd_w (push_args (io_in io)) (snd (snd ld)))))"
  unfolding lua_sig_enter_def Let_def pm1_def [symmetric] conserve_def [symmetric] pre_def [symmetric] split_beta
    pm3_def [symmetric] ld_def [symmetric] push_args_def by (rule refl)

lemma enter_frame:
  assumes "hs_frame ex hs" and "lua_inv pm" and "ex \<longrightarrow> loads_ok lf"
  shows "case lua_sig_enter hs lf now p io pm of
      Inl (r, io', pm') \<Rightarrow> lua_frame ex pm pm'
    | Inr (chunk, lag, pm') \<Rightarrow> lua_pushed ex p (io_in io) pm pm'"
proof -
  define pm1 where "pm1 = sig_state hs p pm"
  define conserve where "conserve = le_conserve_mem (env_mem (wld pm1) (sh_env p pm1))"
  define pre where "pre = (if conserve then (0, pm1) else sig_preload lf p pm1)"
  define pm3 where "pm3 = mtx_call (Mtx_lock p) (snd pre)"
  define ld where "ld = (if conserve then lua_sig_load_script lf p pm3
    else (0, the (mink_sig_cache (the (tls (wld pm3))) (sh_id (sh_mem pm3 p))), pm3))"
  note defs = pm1_def conserve_def pre_def pm3_def ld_def
  have f1: "lua_frame ex pm pm1" "tls (wld pm1) \<noteq> None"
    using sig_state_frame [OF assms(1,2)] by (simp_all add: pm1_def)
  have f2: "lua_frame ex pm (snd pre)" "tls (wld (snd pre)) \<noteq> None"
    using f1 sig_preload_frame [OF f1(2), of ex lf p] by (auto simp: pre_def intro: lua_frame_trans)
  have ld: "lua_frame ex pm3 (snd (snd ld))" "ex \<Longrightarrow> fst ld = 0"
    using sig_load_frame(1) [of ex pm3 lf p] assms(3)
    by (simp_all add: ld_def lua_sig_load_script_def loads_ok_def split_beta Let_def)
  have run: "lua_pushed ex p (io_in io) pm (upd_sh p (\<lambda>h. h\<lparr>sh_running := True\<rparr>) (upd_w (push_args (io_in io)) (snd (snd ld))))"
    using frame_pushed [OF f2] ld(1) by (simp add: pm3_def)
  have rec: "lua_frame ex pm (mtx_call (Mtx_unlock p) (upd_sh p (\<lambda>h. h\<lparr>sh_running := False\<rparr>) pm3))"
    using frame_recursion [OF f2(1)] by (simp add: pm3_def)
  have stuck: "lua_frame ex pm (snd (snd ld))" if "fst ld \<noteq> 0"
  proof -
    have "\<not> ex" using ld(2) that by blast
    moreover have "lua_frame False pm (snd (snd ld))"
      using frame_locked [OF f2(1), of p] frame_weaken [OF ld(1)] unfolding pm3_def by (rule lua_frame_trans)
    ultimately show ?thesis by simp
  qed
  note eq = enter_cases [where hs = hs and lf = lf and p = p and pm = pm and now = now and io = io, folded pm1_def,
      folded conserve_def, folded pre_def, folded pm3_def, folded ld_def]
  show ?thesis unfolding eq using f2(1) run rec stuck by simp
qed

lemma leave_frame:
  assumes "lua_inv pm" and "lua_pushed ex p d pm pm1" and "lua_frame ex pm1 pm2"
  shows "lua_frame ex pm (snd (snd (lua_sig_leave now p io lag r v pm2)))"
proof -
  let ?s = "snd (snd (lua_sig_leave now p io lag r v pm2))"
  have n: "nat (Lref (wld pm) + 1) \<notin> dom (stdd_of pm)" using assms(1) by (auto simp: lua_inv_def)
  have L: "Lref (wld pm2) = Lref (wld pm) + 1" "stdd_of pm2 = (stdd_of pm)(nat (Lref (wld pm) + 1) \<mapsto> d)"
    "tls (wld pm2) \<noteq> None" "argv_mem (wld pm2) = argv_mem (wld pm)"
    "\<And>q. sh_args (sh_mem pm2 q) = sh_args (sh_mem pm q) \<and> sh_id (sh_mem pm2 q) = sh_id (sh_mem pm q)"
    "out_of_fuel (wld pm) \<longrightarrow> out_of_fuel (wld pm2)"
    using assms(2,3) by (auto simp: lua_pushed_def lua_frame_def)
  have h1: "held m (sh_mtx (wld pm)) + (if m = p then 1 else 0) \<le> held m (sh_mtx (wld pm2))" for m
    using assms(2,3) unfolding lua_pushed_def lua_frame_def by (metis order_trans)
  have h2: "ex \<longrightarrow> held m (sh_mtx (wld pm2)) = held m (sh_mtx (wld pm)) + (if m = p then 1 else 0)" for m
    using assms(2,3) by (simp add: lua_pushed_def lua_frame_def)
  have s: "Lref (wld ?s) = Lref (wld pm2) - 1" "tls (wld ?s) = map_option (\<lambda>g. g\<lparr>mink_stdd := (mink_stdd g)(nat (Lref (wld pm2)) := None)\<rparr>) (tls (wld pm2))"
    "argv_mem (wld ?s) = argv_mem (wld pm2)" "out_of_fuel (wld ?s) = out_of_fuel (wld pm2)"
    "sh_mtx (wld ?s) = sh_mtx (wld pm2) @ [Mtx_unlock p]"
    "sh_mem ?s = (sh_mem pm2)(p := (sh_mem pm2 p)\<lparr>sh_running := False\<rparr>)"
    by (simp_all add: lua_sig_leave_def Let_def mtx_call_def upd_w_def upd_sh_def)
  have "held m (sh_mtx (wld pm)) \<le> held m (sh_mtx (wld ?s))" for m
    using h1 [of m] by (auto simp: s(5) split: if_splits)
  moreover have "ex \<longrightarrow> held m (sh_mtx (wld ?s)) = held m (sh_mtx (wld pm))" for m
    using h2 [of m] by (auto simp: s(5))
  moreover have "stdd_of ?s = (stdd_of pm2)(nat (Lref (wld pm2)) := None)"
    using L(3) by (auto simp: stdd_of_def s(2))
  then have "stdd_of ?s = stdd_of pm" using n by (simp add: L(1,2) domIff fun_upd_idem)
  moreover have "sh_args (sh_mem ?s q) = sh_args (sh_mem pm q) \<and> sh_id (sh_mem ?s q) = sh_id (sh_mem pm q)" for q
    using L(5) [of q] by (cases "q = p") (simp_all add: s(6))
  ultimately show ?thesis unfolding lua_frame_def using L(1,3,4,6) s(1-4) by simp
qed

lemma lua_pushed_inv:
  assumes "lua_inv pm" and "lua_pushed ex p d pm pm1"
  shows "lua_inv pm1"
proof -
  have "dom (stdd_of pm1) = insert (nat (Lref (wld pm) + 1)) {1..nat (Lref (wld pm))}"
    using assms by (simp add: lua_pushed_def lua_inv_def)
  moreover have "nat (Lref (wld pm) + 1) = Suc (nat (Lref (wld pm)))" using assms(1) by (auto simp: lua_inv_def)
  ultimately show ?thesis using assms by (auto simp: lua_inv_def lua_pushed_def)
qed

lemma handler_frame:
  assumes "hs_frame ex hs" and "lua_inv pm" and "ex \<longrightarrow> loads_ok lf"
    and "\<And>chunk pm. lua_inv pm \<Longrightarrow> lua_frame ex pm (snd (snd (pcall chunk pm)))"
  shows "lua_frame ex pm (snd (snd (lua_sig_hndlr_run hs lf now pcall p io pm)))"
proof (cases "lua_sig_enter hs lf now p io pm")
  case (Inl a)
  then show ?thesis using enter_frame [OF assms(1-3), where now = now and p = p and io = io] by (cases a) (simp add: lua_sig_hndlr_run_def)
next
  case (Inr a)
  obtain chunk lag pm1 where a: "a = (chunk, lag, pm1)" by (metis prod_cases3)
  obtain r v pm2 where pc: "pcall chunk pm1 = (r, v, pm2)" by (metis prod_cases3)
  have push: "lua_pushed ex p (io_in io) pm pm1" using enter_frame [OF assms(1-3), where now = now and p = p and io = io] Inr a by simp
  from assms(4) [OF lua_pushed_inv [OF assms(2) push], of chunk] pc have "lua_frame ex pm1 pm2" by simp
  from leave_frame [OF assms(2) push this] show ?thesis by (simp add: lua_sig_hndlr_run_def Inr a pc)
qed

text \<open>So nested handlers, of any depth, respect it as well.\<close>

lemma lua_call_frame:
  assumes "hs_frame ex hs" and "ex \<longrightarrow> loads_ok (in_loadfile I)"
  shows "lua_inv pm \<Longrightarrow> lua_frame ex pm (snd (snd (lua_call J hs I n p io pm)))"
proof (induction n arbitrary: p io pm)
  case 0
  then show ?case by (simp add: lua_frame_def upd_w_def stdd_of_def)
next
  case (Suc n)
  let ?hs = "with_run hs (in_run_addr I) (lua_call J hs I n)"
  have hs: "hs_frame ex ?hs" using Suc.IH assms(1) by (auto simp: hs_frame_def with_run_def)
  have "lua_frame ex pm (snd (snd (exec_script I (mink_lua_signal ?hs J (in_mem I)) t pm)))" if "lua_inv pm" for t pm
    using that by (intro exec_script_frame) (rule mink_lua_signal_frame [OF hs])
  then show ?case unfolding lua_call.simps Let_def by (rule handler_frame [OF hs Suc.prems assms(2)])
qed

section \<open>A script that raises its own signal\<close>

text \<open>Signal \<open>nm\<close> is handled by the compiled script \<open>chunk\<close>, and its handler is running or not.\<close>

definition sig_ready :: "lua_env_in \<Rightarrow> string \<Rightarrow> sh_ptr \<Rightarrow> nat \<Rightarrow> bool \<Rightarrow> lua_pm \<Rightarrow> bool" where
  "sig_ready I nm p chunk running pm \<longleftrightarrow> HASH_FIND (signals pm) nm = Some p \<and> sh_id (sh_mem pm p) = nm \<and>
     sh_run (sh_mem pm p) = in_run_addr I \<and> sh_min_auth_lvl (sh_mem pm p) = 0 \<and> sh_running (sh_mem pm p) = running \<and>
     \<not> le_conserve_mem (env_mem (wld pm) (sh_env p pm)) \<and>
     (\<exists>g. tls (wld pm) = Some g \<and> mink_sig_cache g nm = Some chunk)"

lemma ready_state: "sig_ready I nm p chunk b pm \<Longrightarrow> sig_state hs p pm = pm"
  by (auto simp: sig_ready_def sig_state_def)

lemma ready_enter:
  assumes "sig_ready I nm p chunk False pm"
  shows "\<exists>lag pm1. lua_sig_enter hs lf now p io pm = Inr (chunk, lag, pm1) \<and> sig_ready I nm p chunk True pm1"
proof -
  let ?pm3 = "mtx_call (Mtx_lock p) pm"
  let ?pm1 = "upd_sh p (\<lambda>h. h\<lparr>sh_running := True\<rparr>) (upd_w (push_args (io_in io)) ?pm3)"
  have "sig_preload lf p pm = (0, pm)" using assms by (auto simp: sig_ready_def sig_preload_def Let_def)
  then have "\<exists>lag. lua_sig_enter hs lf now p io pm = Inr (chunk, lag, ?pm1)"
    using assms unfolding enter_cases ready_state [OF assms]
    by (auto simp: sig_ready_def mtx_call_def upd_w_def)
  moreover have "sig_ready I nm p chunk True ?pm1"
    using assms by (auto simp: sig_ready_def mtx_call_def upd_w_def upd_sh_def push_args_def sh_env_def)
  ultimately show ?thesis by blast
qed

lemma ready_prevented:
  assumes "sig_ready I nm p chunk True pm"
  shows "\<exists>io' pm1. lua_sig_enter hs lf now p io pm = Inl (0, io', pm1) \<and> sig_ready I nm p chunk False pm1"
proof -
  let ?pm1 = "mtx_call (Mtx_unlock p) (upd_sh p (\<lambda>h. h\<lparr>sh_running := False\<rparr>) (mtx_call (Mtx_lock p) pm))"
  have "sig_preload lf p pm = (0, pm)" using assms by (auto simp: sig_ready_def sig_preload_def Let_def)
  then have "\<exists>io'. lua_sig_enter hs lf now p io pm = Inl (0, io', ?pm1)"
    using assms unfolding enter_cases ready_state [OF assms]
    by (auto simp: sig_ready_def mtx_call_def upd_w_def)
  moreover have "sig_ready I nm p chunk False ?pm1"
    using assms by (auto simp: sig_ready_def mtx_call_def upd_w_def upd_sh_def sh_env_def)
  ultimately show ?thesis by blast
qed

lemma ready_signal:
  assumes "sig_ready I nm p chunk b pm"
  shows "\<exists>io. snd (snd (mink_lua_signal (with_run hs (in_run_addr I) run) J mem (Some nm) d None pm)) = snd (snd (run p io pm))"
  using assms by (auto simp: sig_ready_def mink_lua_signal_def umplg_proc_signal_def with_run_def Let_def split_beta)

lemma leave_fuel: "out_of_fuel (wld (snd (snd (lua_sig_leave now p io lag r v pm)))) = out_of_fuel (wld pm)"
  by (simp add: lua_sig_leave_def Let_def mtx_call_def upd_w_def upd_sh_def)

lemma self_twice_runs_out:
  assumes "in_script I chunk = Script_signal nm d1 None (\<lambda>_ _. Script_signal nm d2 None (\<lambda>_ _. Script_end r v))"
  shows "sig_ready I nm p chunk False pm \<Longrightarrow> out_of_fuel (wld (snd (snd (lua_call J hs I n p io pm))))"
proof (induction n arbitrary: io pm)
  case 0
  then show ?case by (simp add: upd_w_def)
next
  case (Suc n)
  let ?run = "lua_call J hs I n"
  let ?hs = "with_run hs (in_run_addr I) ?run"
  let ?sig = "mink_lua_signal ?hs J (in_mem I)"
  obtain lag pm1 where e: "lua_sig_enter ?hs (in_loadfile I) (in_now I) p io pm = Inr (chunk, lag, pm1)"
    "sig_ready I nm p chunk True pm1" using ready_enter [OF Suc.prems] by blast
  obtain io1 where s1: "snd (snd (?sig (Some nm) d1 None pm1)) = snd (snd (?run p io1 pm1))"
    using ready_signal [OF e(2)] by blast
  let ?pm2 = "snd (snd (?run p io1 pm1))"
  have "out_of_fuel (wld (snd (snd (?sig (Some nm) d2 None ?pm2))))"
  proof (cases n)
    case 0
    then have "sig_ready I nm p chunk True ?pm2" using e(2) by (simp add: sig_ready_def upd_w_def sh_env_def)
    from ready_signal [OF this] obtain io2 where
      "snd (snd (?sig (Some nm) d2 None ?pm2)) = snd (snd (?run p io2 ?pm2))" by blast
    with 0 show ?thesis by (simp add: upd_w_def)
  next
    case (Suc m)
    have "sig_ready I nm p chunk False ?pm2"
      using ready_prevented [OF e(2), of "with_run hs (in_run_addr I) (lua_call J hs I m)" "in_loadfile I" "in_now I" io1]
      by (auto simp: Suc Let_def lua_sig_hndlr_run_def)
    then show ?thesis using ready_signal Suc.IH by metis
  qed
  then show ?case
    by (simp add: Let_def lua_sig_hndlr_run_def e(1) assms split_beta s1 leave_fuel)
qed

section \<open>Properties\<close>

text \<open>A manager with one signal, whose script is compiled and not running.\<close>

definition demo_lua_env :: lua_env_d where
  "demo_lua_env = \<lparr>le_name = ''e'', le_interval = 0, le_active = True, le_path = ''/s.lua'',
     le_env_perf = \<lparr>pf_cnt = None, pf_err = None, pf_lag = None\<rparr>, le_sgnl_nr = 1,
     le_sgnl_perf = [\<lparr>pf_cnt = None, pf_err = None, pf_lag = None\<rparr>], le_dbm_mem = None, le_dbm_perm = None,
     le_agressive_gc = False, le_conserve_mem = False\<rparr>"

definition demo_lua_w :: "bool \<Rightarrow> lua_w" where
  "demo_lua_w conserve = \<lparr>envs = [], dbm_perm = None, dbm_mem = None,
     env_mem = (\<lambda>_. demo_lua_env\<lparr>le_conserve_mem := conserve\<rparr>), argv_mem = (\<lambda>_. \<lparr>av_env = 0, av_perf = 0\<rparr>),
     perf = umc_new_ctx, tls = Some \<lparr>mink_dbm_mem = None, mink_dbm_perm = None, mink_stdd = Map.empty,
       mink_sig_cache = [''sig'' \<mapsto> 3]\<rparr>, Lref = 0, sh_mtx = [], tick = 0, out_of_fuel = False,
     brk = 10, lua_evs = []\<rparr>"

definition demo_lua_pm :: "bool \<Rightarrow> lua_pm" where
  "demo_lua_pm conserve = (umplg_new_mngr None
     (\<lambda>_. \<lparr>sh_id = ''sig'', sh_init = None, sh_run = 9, sh_term = None, sh_args = Some 0, sh_running = False,
           sh_min_auth_lvl = 0, sh_terminated = False\<rparr>) (demo_lua_w conserve))\<lparr>signals := [(''sig'', 5)]\<rparr>"

lemma demo_lua_pm_sel [simp]:
  "signals (demo_lua_pm b) = [(''sig'', 5)]" "wld (demo_lua_pm b) = demo_lua_w b"
  "sh_mem (demo_lua_pm b) p = \<lparr>sh_id = ''sig'', sh_init = None, sh_run = 9, sh_term = None, sh_args = Some 0,
     sh_running = False, sh_min_auth_lvl = 0, sh_terminated = False\<rparr>"
  by (simp_all add: demo_lua_pm_def umplg_new_mngr_def add_cmd_id_map_item_def)

definition demo_cell :: lua_cell where
  "demo_cell = \<lparr>c_isstring = True, c_tostring = ''ok'', c_isnumber = False, c_tonumber = 0, c_isboolean = False, c_toboolean = False\<rparr>"

definition demo_lua_in :: "script \<Rightarrow> load_rc \<Rightarrow> lua_env_in" where
  "demo_lua_in t rc = \<lparr>in_loadfile = \<lambda>_ _. (rc, 3), in_now = \<lambda>_. \<lparr>tv_sec = 1, tv_nsec = 0\<rparr>,
     in_rawlen = \<lambda>t. LEAST n. t (Suc n) = None, in_script = \<lambda>_. t, in_mem = 0, in_run_addr = 9\<rparr>"

lemma demo_border: "lua_border (\<lambda>t :: nat \<rightharpoonup> 'd. LEAST n. t (Suc n) = None)"
proof -
  have "t (Suc (LEAST n. t (Suc n) = None)) = None \<and>
      ((LEAST n. t (Suc n) = None) = 0 \<or> t (LEAST n. t (Suc n) = None) \<noteq> None)" if "finite (dom t)" for t :: "nat \<rightharpoonup> 'd"
  proof -
    let ?r = "LEAST n. t (Suc n) = None"
    have "finite (insert 0 (dom t))" using that by simp
    then obtain k where "k \<notin> insert 0 (dom t)" using ex_new_if_finite infinite_UNIV_nat by blast
    then have "k \<notin> dom t" "0 < k" by auto
    then have "t (Suc (k - 1)) = None" by (simp add: domIff)
    then have 1: "t (Suc ?r) = None" by (rule LeastI)
    have "t ?r \<noteq> None" if "?r \<noteq> 0" using not_less_Least [of "?r - 1" "\<lambda>n. t (Suc n) = None"] that by auto
    with 1 show ?thesis by blast
  qed
  then show ?thesis by (simp add: lua_border_def)
qed

lemma demo_lua_inv: "lua_inv (demo_lua_pm b)"
  by (simp add: lua_inv_def stdd_of_def demo_lua_w_def)

lemma demo_hs_frame: "hs_frame ex idle_hcode"
  by (simp add: hs_frame_def idle_hcode_def)

lemma get_args_inv:
  assumes "lua_border (in_rawlen I)" and "lua_inv pm"
  shows "mink_lua_get_args (in_rawlen I) (map_option mink_stdd (tls (wld pm))) =
    (if Lref (wld pm) = 0 then [] else [get_args_table (the (stdd_of pm (nat (Lref (wld pm)))))])"
proof -
  have len: "in_rawlen I (stdd_of pm) = nat (Lref (wld pm))"
    using lua_border_seq [OF assms(1)] assms(2) by (simp add: lua_inv_def)
  have d: "dom (stdd_of pm) = {1..nat (Lref (wld pm))}" and p: "0 \<le> Lref (wld pm)"
    using assms(2) by (auto simp: lua_inv_def)
  show ?thesis
  proof (cases "Lref (wld pm) = 0")
    case True
    with len assms(2) show ?thesis
      by (auto simp: mink_lua_get_args_def stdd_of_def Let_def lua_inv_def split: option.splits)
  next
    case False
    with d p have "nat (Lref (wld pm)) \<in> dom (stdd_of pm)" by simp
    then obtain x where "stdd_of pm (nat (Lref (wld pm))) = Some x" by blast
    with False len assms(2) show ?thesis
      by (auto simp: mink_lua_get_args_def stdd_of_def Let_def lua_inv_def split: option.splits)
  qed
qed

lemma enter_get_args:
  assumes "hs_frame False hs" and "lua_inv pm" and "lua_border (in_rawlen I)"
    and "lua_sig_enter hs (in_loadfile I) (in_now I) p io pm = Inr (chunk, lag, pm1)"
  shows "mink_lua_get_args (in_rawlen I) (map_option mink_stdd (tls (wld pm1))) = [get_args_table (io_in io)]"
proof -
  have "lua_pushed False p (io_in io) pm pm1"
    using enter_frame [OF assms(1,2), of "in_loadfile I", where now = "in_now I" and p = p and io = io] assms(4) by simp
  with lua_pushed_inv [OF assms(2) this] assms(2) show ?thesis
    by (simp add: get_args_inv [OF assms(3)] lua_pushed_def lua_inv_def)
qed

text \<open>
  (C14) A script always finds the arguments of its own signal: when a handler starts its script,
  \<^verbatim>\<open>get_args\<close> returns the data the signal was raised with; and after a nested signal, however deep
  the nesting below it, \<^verbatim>\<open>get_args\<close> returns what it returned before.
\<close>

theorem lua_signal_args:
  assumes "hs_frame False hs" and "lua_inv pm" and "lua_border (in_rawlen I)"
  shows "(\<forall>chunk lag pm1. lua_sig_enter hs (in_loadfile I) (in_now I) p io pm = Inr (chunk, lag, pm1) \<longrightarrow>
      mink_lua_get_args (in_rawlen I) (map_option mink_stdd (tls (wld pm1))) = [get_args_table (io_in io)]) \<and>
    mink_lua_get_args (in_rawlen I) (map_option mink_stdd (tls (wld (snd (snd (lua_call J hs I n p io pm)))))) =
      mink_lua_get_args (in_rawlen I) (map_option mink_stdd (tls (wld pm)))"
proof -
  have f: "lua_frame False pm (snd (snd (lua_call J hs I n p io pm)))"
    using lua_call_frame [OF assms(1)] assms(2) by simp
  then have "lua_inv (snd (snd (lua_call J hs I n p io pm)))" using lua_frame_inv assms(2) by blast
  then show ?thesis using f enter_get_args [OF assms] get_args_inv [OF assms(3)] assms(2) by (auto simp: lua_frame_def)
qed

lemma lua_signal_args_witness:
  "mink_lua_get_args (\<lambda>t. LEAST n. t (Suc n) = None) (map_option mink_stdd (tls (wld (snd (snd
     (lua_call (demo_json (\<lambda>_. None) (\<lambda>_. None)) idle_hcode (demo_lua_in (Script_end 0 demo_cell) LUA_OK) 2 5
       \<lparr>io_in = None, io_out = None, io_out_sz = 0, io_args = None\<rparr> (demo_lua_pm False))))))) = []"
proof -
  let ?I = "demo_lua_in (Script_end 0 demo_cell) LUA_OK"
  have "lua_border (in_rawlen ?I)" using demo_border by (simp add: demo_lua_in_def)
  from lua_signal_args [OF demo_hs_frame demo_lua_inv this, of 5 "\<lparr>io_in = None, io_out = None, io_out_sz = 0, io_args = None\<rparr>" False]
  have "mink_lua_get_args (in_rawlen ?I) (map_option mink_stdd (tls (wld (snd (snd
      (lua_call (demo_json (\<lambda>_. None) (\<lambda>_. None)) idle_hcode ?I 2 5
        \<lparr>io_in = None, io_out = None, io_out_sz = 0, io_args = None\<rparr> (demo_lua_pm False))))))) =
      mink_lua_get_args (in_rawlen ?I) (map_option mink_stdd (tls (wld (demo_lua_pm False))))" by blast
  then show ?thesis by (simp add: demo_lua_in_def demo_lua_w_def mink_lua_get_args_def Let_def Least_equality)
qed

text \<open>
  (C21) The mutexes of the signals, which are recursive: if scripts can be loaded, every handler leaves each of them held
  as often as it found it, whatever it is nested in and nests. If the script of a signal cannot be
  loaded while memory is conserved, its handler reports the failure and keeps the mutex locked.
\<close>

theorem lua_signal_mutexes:
  assumes "hs_frame True hs" and "lua_inv pm"
  shows "(loads_ok (in_loadfile I) \<longrightarrow>
      held m (sh_mtx (wld (snd (snd (lua_call J hs I n p io pm))))) = held m (sh_mtx (wld pm))) \<and>
    (tls (wld pm) \<noteq> None \<and> le_conserve_mem (env_mem (wld pm) (sh_env p pm)) \<and> \<not> sh_running (sh_mem pm p) \<and>
       load_code (fst (in_loadfile I (tick (wld pm)) (le_path (env_mem (wld pm) (sh_env p pm))))) \<noteq> 0 \<longrightarrow>
     fst (lua_call J hs I (Suc n) p io pm) = ret_num UMPLG_RES_SIG_SETUP_FAILED \<and>
     held p (sh_mtx (wld (snd (snd (lua_call J hs I (Suc n) p io pm))))) = held p (sh_mtx (wld pm)) + 1)"
proof -
  have "lua_frame True pm (snd (snd (lua_call J hs I n p io pm)))" if "loads_ok (in_loadfile I)"
    using lua_call_frame [OF assms(1) _ assms(2)] that by blast
  moreover have "lua_sig_enter hs' (in_loadfile I) (in_now I) p io pm =
      Inl (ret_num UMPLG_RES_SIG_SETUP_FAILED, io, snd (snd (lua_sig_load_script (in_loadfile I) p (mtx_call (Mtx_lock p) pm))))"
    if "tls (wld pm) \<noteq> None" "le_conserve_mem (env_mem (wld pm) (sh_env p pm))" "\<not> sh_running (sh_mem pm p)"
      "load_code (fst (in_loadfile I (tick (wld pm)) (le_path (env_mem (wld pm) (sh_env p pm))))) \<noteq> 0" for hs'
  proof -
    have "sig_state hs' p pm = pm" using that(1) by (auto simp: sig_state_def)
    moreover have "fst (lua_sig_load_script (in_loadfile I) p (mtx_call (Mtx_lock p) pm)) \<noteq> 0"
      using that(4) by (simp add: lua_sig_load_script_def mtx_call_def upd_w_def sh_env_def split_beta Let_def)
    moreover have "\<not> sh_running (sh_mem (mtx_call (Mtx_lock p) pm) p)" using that(3) by (simp add: mtx_call_def upd_w_def)
    ultimately show ?thesis using that(2) unfolding enter_cases by simp
  qed
  ultimately show ?thesis
    by (simp add: lua_frame_def Let_def lua_sig_hndlr_run_def lua_sig_load_script_def mtx_call_def upd_w_def split_beta)
qed

lemma lua_signal_mutexes_witness:
  "held 5 (sh_mtx (wld (snd (snd (lua_call (demo_json (\<lambda>_. None) (\<lambda>_. None)) idle_hcode
      (demo_lua_in (Script_end 0 demo_cell) LUA_ERRFILE) (Suc 0) 5
      \<lparr>io_in = None, io_out = None, io_out_sz = 0, io_args = None\<rparr> (demo_lua_pm True)))))) = 1"
  using lua_signal_mutexes [OF demo_hs_frame demo_lua_inv, of "demo_lua_in (Script_end 0 demo_cell) LUA_ERRFILE" 0
      "demo_json (\<lambda>_. None) (\<lambda>_. None)" 0 5 "\<lparr>io_in = None, io_out = None, io_out_sz = 0, io_args = None\<rparr>" True]
  by (simp add: demo_lua_w_def demo_lua_in_def load_code_def held_def del: lua_call.simps)

text \<open>
  (C22) The guard against recursion does not bound it: a script that raises its own signal twice never
  ends. The first nested call is refused, but clears the running flag, so that the second one runs the script
  again; however many handlers may be nested, it is not enough.
\<close>

theorem lua_recursion_unbounded:
  assumes "sig_ready I nm p chunk False pm"
    and "in_script I chunk = Script_signal nm d1 None (\<lambda>_ _. Script_signal nm d2 None (\<lambda>_ _. Script_end r v))"
  shows "out_of_fuel (wld (snd (snd (lua_call J hs I n p io pm))))"
  using self_twice_runs_out [OF assms(2,1)] by blast

lemma lua_recursion_unbounded_witness:
  "out_of_fuel (wld (snd (snd (lua_call (demo_json (\<lambda>_. None) (\<lambda>_. None)) idle_hcode
      (demo_lua_in (Script_signal ''sig'' None None (\<lambda>_ _. Script_signal ''sig'' None None (\<lambda>_ _. Script_end 0 demo_cell))) LUA_OK)
      1000 5 \<lparr>io_in = None, io_out = None, io_out_sz = 0, io_args = None\<rparr> (demo_lua_pm False)))))"
proof (rule lua_recursion_unbounded)
  show "sig_ready (demo_lua_in (Script_signal ''sig'' None None (\<lambda>_ _. Script_signal ''sig'' None None (\<lambda>_ _. Script_end 0 demo_cell))) LUA_OK)
      ''sig'' 5 3 False (demo_lua_pm False)"
    by (simp add: sig_ready_def HASH_FIND_def demo_lua_w_def demo_lua_in_def demo_lua_env_def sh_env_def)
  show "in_script (demo_lua_in (Script_signal ''sig'' None None (\<lambda>_ _. Script_signal ''sig'' None None (\<lambda>_ _. Script_end 0 demo_cell))) LUA_OK) 3 =
      Script_signal ''sig'' None None (\<lambda>_ _. Script_signal ''sig'' None None (\<lambda>_ _. Script_end 0 demo_cell))"
    by (simp add: demo_lua_in_def)
qed

end
