(* ===== verification/Umlua_cfg.thy ===== *)
theory Umlua_cfg
  imports Umlua
begin

text \<open>
  The rest of \<^verbatim>\<open>src/src/services/sysagent/umlua.c\<close>: the configuration of the Lua core, the threads of the
  environments, the command line over a UNIX domain socket, and the core's start and shutdown.

  The configuration is read with the \<open>json_api\<close>, databases are opened with \<open>sqlite3_api\<close>, whose state \<open>w\<close> is
  threaded through. \<open>fsize\<close> is what opening, seeking and \<^verbatim>\<open>ftell\<close> of a script say; \<open>term\<close> says at
  which check the daemon is terminating.
\<close>

section \<open>Configuration\<close>

text \<open>The addresses of the core's handlers.\<close>

record lua_code =
  at_run :: fptr
  at_init :: fptr
  at_term :: fptr
  at_sub_modules :: fptr

definition lua_hs :: "lua_code \<Rightarrow> lua_w hcode \<Rightarrow> lua_w hcode" where
  "lua_hs A hs = hs\<lparr>call_sh_init := (\<lambda>f p pm. if f = at_init A then lua_sig_hndlr_init p pm else call_sh_init hs f p pm)\<rparr>"

definition lenvm_new :: "lua_w \<Rightarrow> lua_w" where
  "lenvm_new s = s\<lparr>envs := [], dbm_mem := None, dbm_perm := None\<rparr>"

text \<open>
  The checks of one element of \<^verbatim>\<open>envs\<close>, in the order of the code; 0 when the environment is accepted.
\<close>

definition env_check :: "'j json_api \<Rightarrow> (string \<Rightarrow> int option option) \<Rightarrow> 'j option \<Rightarrow> int" where
  "env_check J fsize jo =
     (case jo of
        None \<Rightarrow> 4
      | Some v \<Rightarrow>
          if \<not> json_object_is_type J v Json_object then 4
          else
            (case (json_object_object_get J v ''name'', json_object_object_get J v ''auto_start'',
                   json_object_object_get J v ''interval'', json_object_object_get J v ''path'',
                   json_object_object_get J v ''events'') of
               (Some j_n, Some j_as, Some j_int, Some j_p, Some j_ev) \<Rightarrow>
                 if json_object_object_get J v ''min_auth'' \<noteq> None \<and>
                    \<not> json_is_type J (json_object_object_get J v ''min_auth'') Json_int then 6
                 else if \<not> (json_object_is_type J j_n Json_string \<and> json_object_is_type J j_as Json_boolean \<and>
                   json_object_is_type J j_int Json_int \<and> json_object_is_type J j_p Json_string \<and>
                   json_object_is_type J j_ev Json_array) then 6
                 else
                   (case fsize (json_object_get_string J j_p) of
                      None \<Rightarrow> 6
                    | Some None \<Rightarrow> 7
                    | Some (Some n) \<Rightarrow> if c_int n \<le> 0 then 8 else 0)
             | _ \<Rightarrow> 5))"

definition jget :: "'j json_api \<Rightarrow> 'j \<Rightarrow> string \<Rightarrow> 'j" where
  "jget J v k = the (json_object_object_get J v k)"

text \<open>
  The descriptor of an accepted environment. \<^verbatim>\<open>malloc\<close> leaves the counters of its \<open>n\<close> events as they are
  in memory (\<open>pf0\<close>).
\<close>

definition env_desc ::
  "'j json_api \<Rightarrow> perf_d \<Rightarrow> bool \<Rightarrow> bool \<Rightarrow> umdb_mngrd option \<Rightarrow> umdb_mngrd option \<Rightarrow> 'j \<Rightarrow> lua_env_d"
where
  "env_desc J pf0 agr cs dbm dbp v =
     \<lparr>le_name = json_object_get_string J (jget J v ''name''),
      le_interval = word_of_int (json_object_get_int J (Some (jget J v ''interval''))),
      le_active = json_object_get_boolean J (jget J v ''auto_start''),
      le_path = json_object_get_string J (jget J v ''path''),
      le_env_perf = \<lparr>pf_cnt = None, pf_err = None, pf_lag = None\<rparr>,
      le_sgnl_nr = 0,
      le_sgnl_perf = replicate (length (json_elems J (jget J v ''events''))) pf0,
      le_dbm_mem = dbm, le_dbm_perm = dbp, le_agressive_gc = agr, le_conserve_mem = cs\<rparr>"

definition min_auth :: "'j json_api \<Rightarrow> 'j \<Rightarrow> u16" where
  "min_auth J v =
     (case json_object_object_get J v ''min_auth'' of
        None \<Rightarrow> 0
      | Some j \<Rightarrow> word_of_int (json_object_get_int J (Some j)))"

text \<open>A signal for one event of the environment at \<open>e\<close>: the descriptor, its arguments, its counters, and its registration.\<close>

definition new_signal :: "lua_code \<Rightarrow> u16 \<Rightarrow> nat \<Rightarrow> string \<Rightarrow> lua_pm \<Rightarrow> lua_pm" where
  "new_signal A auth e nm pm =
     (let p = brk (wld pm);
          sh = \<lparr>sh_id = nm, sh_init = Some (at_init A), sh_run = at_run A, sh_term = Some (at_term A),
                sh_args = Some (p + 1), sh_running = False, sh_min_auth_lvl = auth, sh_terminated = False\<rparr>;
          k = le_sgnl_nr (env_mem (wld pm) e)
      in upd_w (\<lambda>s. s\<lparr>brk := p + 2, argv_mem := (argv_mem s)(p + 1 := \<lparr>av_env = e, av_perf = k\<rparr>),
                      env_mem := (env_mem s)(e := (env_mem s e)\<lparr>le_sgnl_nr := k + 1\<rparr>)\<rparr>)
           (pm\<lparr>sh_mem := (sh_mem pm)(p := sh)\<rparr>))"

definition reg_event :: "lua_w hcode \<Rightarrow> lua_code \<Rightarrow> u16 \<Rightarrow> nat \<Rightarrow> string \<Rightarrow> lua_pm \<Rightarrow> lua_pm" where
  "reg_event hs A auth e nm pm = snd (umplg_reg_signal (lua_hs A hs) (new_signal A auth e nm pm) (brk (wld pm)))"

text \<open>The names of the events: elements that are not strings are skipped.\<close>

definition event_names :: "'j json_api \<Rightarrow> 'j \<Rightarrow> string list" where
  "event_names J v =
     map (\<lambda>jo. json_object_get_string J (the jo))
       (filter (\<lambda>jo. json_is_type J jo Json_string) (json_elems J (jget J v ''events'')))"

definition cfg_env ::
  "lua_w hcode \<Rightarrow> 'j json_api \<Rightarrow> lua_code \<Rightarrow> perf_d \<Rightarrow> bool \<Rightarrow> bool \<Rightarrow> 'j \<Rightarrow> lua_pm \<Rightarrow> lua_pm"
where
  "cfg_env hs J A pf0 agr cs v pm =
     (let e = brk (wld pm);
          pm1 = upd_w (\<lambda>s. s\<lparr>brk := e + 1,
                  env_mem := (env_mem s)(e := env_desc J pf0 agr cs (dbm_mem s) (dbm_perm s) v)\<rparr>) pm;
          pm2 = fold (reg_event hs A (min_auth J v) e) (event_names J v) pm1
      in upd_w (\<lambda>s. snd (lenvm_new_envd e s)) pm2)"

fun cfg_envs ::
  "lua_w hcode \<Rightarrow> 'j json_api \<Rightarrow> lua_code \<Rightarrow> (string \<Rightarrow> int option option) \<Rightarrow> perf_d \<Rightarrow> bool \<Rightarrow> bool \<Rightarrow>
   'j option list \<Rightarrow> lua_pm \<Rightarrow> int \<times> lua_pm"
where
  "cfg_envs hs J A fsize pf0 agr cs [] pm = (0, pm)"
| "cfg_envs hs J A fsize pf0 agr cs (jo # js) pm =
     (if env_check J fsize jo \<noteq> 0 then (env_check J fsize jo, pm)
      else cfg_envs hs J A fsize pf0 agr cs js (cfg_env hs J A pf0 agr cs (the jo) pm))"

text \<open>An optional boolean setting: its value, or nothing when it has the wrong type.\<close>

definition cfg_bool :: "'j json_api \<Rightarrow> 'j \<Rightarrow> string \<Rightarrow> bool option" where
  "cfg_bool J c k =
     (case json_object_object_get J c k of
        None \<Rightarrow> Some False
      | Some j \<Rightarrow> if json_object_is_type J j Json_boolean then Some (json_object_get_boolean J j) else None)"

definition cfg_dbs :: "('w, 's) sqlite3_api \<Rightarrow> 'j json_api \<Rightarrow> 'j \<Rightarrow> lua_pm \<Rightarrow> 'w \<Rightarrow> lua_pm \<times> 'w" where
  "cfg_dbs sq J c pm w =
     (let (pm1, w1) =
        (case json_object_object_get J c ''db'' of
           Some j \<Rightarrow>
             if json_object_is_type J j Json_string then
               (case run_state (umdb_mngr_new sq (Some (json_object_get_string J j)) False) w of
                  (m, w1) \<Rightarrow> (upd_w (\<lambda>s. s\<lparr>dbm_perm := m\<rparr>) pm, w1))
             else (pm, w)
         | None \<Rightarrow> (pm, w))
      in case run_state (umdb_mngr_new sq None True) w1 of
           (m, w2) \<Rightarrow> (upd_w (\<lambda>s. s\<lparr>dbm_mem := m\<rparr>) pm1, w2))"

definition lua_process_cfg ::
  "lua_w hcode \<Rightarrow> ('w, 's) sqlite3_api \<Rightarrow> 'j json_api \<Rightarrow> lua_code \<Rightarrow> (string \<Rightarrow> int option option) \<Rightarrow> perf_d \<Rightarrow>
   'j option \<Rightarrow> lua_pm \<Rightarrow> 'w \<Rightarrow> int \<times> lua_pm \<times> 'w"
where
  "lua_process_cfg hs sq J A fsize pf0 jcfg pm w =
     (case jcfg of
        None \<Rightarrow> (1, pm, w)
      | Some j \<Rightarrow>
          if \<not> json_object_is_type J j Json_object then (2, pm, w)
          else
            (case List.find (\<lambda>e. fst e = ''umlua'') (json_object_foreach J j) of
               Some (_, Some c) \<Rightarrow>
                 (case cfg_dbs sq J c pm w of (pm1, w1) \<Rightarrow>
                    (case (cfg_bool J c ''aggressive_gc'', cfg_bool J c ''conserve_memory'') of
                       (Some agr, Some cs) \<Rightarrow>
                         (case json_object_object_get J c ''envs'' of
                            Some jobj \<Rightarrow>
                              if json_object_is_type J jobj Json_array then
                                (case cfg_envs hs J A fsize pf0 agr cs (json_elems J jobj) pm1 of
                                   (rc, pm2) \<Rightarrow> (rc, pm2, w1))
                              else (0, pm1, w1)
                          | None \<Rightarrow> (0, pm1, w1))
                     | _ \<Rightarrow> (6, pm1, w1)))
             | _ \<Rightarrow> (3, pm, w)))"

section \<open>Sub-modules and the start of the core\<close>

text \<open>
  The handler of \<^verbatim>\<open>@init_lua_sub_modules\<close> runs those of the plugins' own parts; they get no descriptor (address 0)
  and no data, only the Lua state.
\<close>

definition lua_signal_match_cb :: "lua_w hcode \<Rightarrow> nat option \<Rightarrow> sh_ptr \<Rightarrow> lua_pm \<Rightarrow> lua_pm" where
  "lua_signal_match_cb hs L p pm =
     snd (snd (call_sh_run hs (sh_run (sh_mem pm p)) 0 \<lparr>io_in = None, io_out = None, io_out_sz = 0, io_args = L\<rparr> pm))"

definition create_m_sub_modules ::
  "(string \<Rightarrow> string \<Rightarrow> bool) \<Rightarrow> lua_w hcode \<Rightarrow> sig_io \<Rightarrow> lua_pm \<Rightarrow> int \<times> sig_io \<times> lua_pm"
where
  "create_m_sub_modules fnm hs io pm =
     (0, io, umplg_match_signal fnm pm ''@init_lua_sub_module:*'' (lua_signal_match_cb hs (io_args io)))"

definition umlua_init ::
  "lua_w hcode \<Rightarrow> ('w, 's) sqlite3_api \<Rightarrow> 'j json_api \<Rightarrow> lua_code \<Rightarrow> (string \<Rightarrow> int option option) \<Rightarrow> perf_d \<Rightarrow>
   'j option \<Rightarrow> lua_pm \<Rightarrow> 'w \<Rightarrow> int \<times> lua_pm \<times> 'w"
where
  "umlua_init hs sq J A fsize pf0 jcfg pm w =
     (let p = brk (wld pm);
          sh = \<lparr>sh_id = ''@init_lua_sub_modules'', sh_init = None, sh_run = at_sub_modules A, sh_term = None,
                sh_args = Some (p + 1), sh_running = False, sh_min_auth_lvl = 0, sh_terminated = False\<rparr>;
          pm1 = upd_w (\<lambda>s. s\<lparr>brk := p + 2\<rparr>) (pm\<lparr>sh_mem := (sh_mem pm)(p := sh)\<rparr>);
          pm2 = upd_w lenvm_new (snd (umplg_reg_signal (lua_hs A hs) pm1 p))
      in case lua_process_cfg hs sq J A fsize pf0 jcfg pm2 w of (_, pm3, w1) \<Rightarrow> (0, pm3, w1))"

section \<open>Environment threads\<close>

definition emit :: "lua_ev list \<Rightarrow> lua_w \<Rightarrow> lua_w" where
  "emit es s = s\<lparr>lua_evs := lua_evs s @ es\<rparr>"

text \<open>
  The Lua state of an environment, with the plugins' parts of the module \<^verbatim>\<open>M\<close>. Its registry has the databases, but no
  arguments of signals; a script run in it (\<open>pcall\<close>) may depend on the registry, and need not return (\<open>None\<close>).
\<close>

record env_reg =
  env_dbm_mem :: "umdb_mngrd option"
  env_dbm_perm :: "umdb_mngrd option"

definition lua_env_setup :: "lua_w hcode \<Rightarrow> nat \<Rightarrow> lua_pm \<Rightarrow> int \<times> env_reg \<times> lua_pm" where
  "lua_env_setup hs e pm =
     (let env = env_mem (wld pm) e;
          (_, _, pm1) = umplg_proc_signal hs pm (Some ''@init_lua_sub_modules'')
             \<lparr>io_in = None, io_out = None, io_out_sz = 0, io_args = Some (tick (wld pm))\<rparr> 0
      in (0, \<lparr>env_dbm_mem = le_dbm_mem env, env_dbm_perm = le_dbm_perm env\<rparr>, pm1))"

text \<open>The pause between two executions, in seconds and nanoseconds, computed once when the thread starts.\<close>

definition env_pause :: "u64 \<Rightarrow> u64 \<times> u64" where
  "env_pause interval = (interval div 1000, interval mod 1000 * 1000000)"

definition env_sleep :: "u64 \<times> u64 \<Rightarrow> lua_w \<Rightarrow> lua_w" where
  "env_sleep st s = emit [Nanosleep (fst st) (snd st)] s"

text \<open>One execution of the script: the lag, the result and the counters.\<close>

definition env_run_script ::
  "(nat \<Rightarrow> timespec) \<Rightarrow> (nat \<Rightarrow> lua_pm \<Rightarrow> (int \<times> lua_cell \<times> lua_pm) option) \<Rightarrow> nat \<Rightarrow> nat \<Rightarrow> lua_pm \<Rightarrow> lua_pm option"
where
  "env_run_script now pcall e chunk pm =
     (let t = tick (wld pm);
          lag = umc_lag_start (now t) \<lparr>lag_ts_start = 0, lag_ts_end = 0, lag_ts_diff = 0\<rparr>
      in case pcall chunk (upd_w (\<lambda>s. s\<lparr>tick := Suc t\<rparr>) pm) of
           None \<Rightarrow> None
         | Some (r, v, pm1) \<Rightarrow>
             let t1 = tick (wld pm1);
                 lag' = umc_lag_end (now t1) lag;
                 pf = le_env_perf (env_mem (wld pm1) e);
                 x1 = fst (umc_set (now (t1 + 1)) (pf_lag pf) (lag_ts_diff lag') (perf (wld pm1)));
                 x2 = fst (umc_inc (now (t1 + 2)) (if r \<noteq> 0 then pf_err pf else pf_cnt pf) 1 x1)
             in Some (upd_w (\<lambda>s. s\<lparr>perf := x2, tick := t1 + 3\<rparr>) pm1))"

text \<open>The script an iteration runs, read again each time when memory is conserved.\<close>

definition env_chunk ::
  "(nat \<Rightarrow> string \<Rightarrow> load_rc \<times> nat) \<Rightarrow> nat \<Rightarrow> nat \<Rightarrow> lua_pm \<Rightarrow> nat option \<times> lua_pm"
where
  "env_chunk loadfile e chunk pm =
     (if le_conserve_mem (env_mem (wld pm) e) then
        (case lua_env_load_script loadfile e (wld pm) of
           (r, c, s) \<Rightarrow> (if r \<noteq> 0 then None else Some c, pm\<lparr>wld := s\<rparr>))
      else (Some chunk, pm))"

text \<open>One pass of the loop: whether it goes on, and the state.\<close>

definition env_pass ::
  "(nat \<Rightarrow> string \<Rightarrow> load_rc \<times> nat) \<Rightarrow> (nat \<Rightarrow> timespec) \<Rightarrow> (nat \<Rightarrow> lua_pm \<Rightarrow> (int \<times> lua_cell \<times> lua_pm) option) \<Rightarrow>
   u64 \<times> u64 \<Rightarrow> nat \<Rightarrow> nat \<Rightarrow> lua_pm \<Rightarrow> (bool \<times> lua_pm) option"
where
  "env_pass loadfile now pcall st e chunk pm =
     (case env_chunk loadfile e chunk pm of
        (None, pm1) \<Rightarrow> Some (True, upd_w (env_sleep st) pm1)
      | (Some c, pm1) \<Rightarrow>
          (case env_run_script now pcall e c pm1 of
             None \<Rightarrow> None
           | Some pm2 \<Rightarrow>
               if le_interval (env_mem (wld pm2) e) = 0 then Some (False, pm2)
               else Some (True, upd_w (env_sleep st) pm2)))"

partial_function (option) env_loop ::
  "(nat \<Rightarrow> bool) \<Rightarrow> (lua_pm \<Rightarrow> (bool \<times> lua_pm) option) \<Rightarrow> nat \<Rightarrow> nat \<Rightarrow> lua_pm \<Rightarrow> lua_pm option"
where
  "env_loop term pass e i pm =
     (if term i \<or> \<not> le_active (env_mem (wld pm) e) then Some pm
      else
        (case pass pm of
           None \<Rightarrow> None
         | Some (go_on, pm1) \<Rightarrow> if go_on then env_loop term pass e (Suc i) pm1 else Some pm1))"

definition env_start :: "nat \<Rightarrow> lua_pm \<Rightarrow> lua_pm" where
  "env_start e pm =
     upd_w (\<lambda>s. case init_counters (le_name (env_mem s e)) ''environment'' (perf s) of
        (pf, x) \<Rightarrow> s\<lparr>perf := x, env_mem := (env_mem s)(e := (env_mem s e)\<lparr>le_env_perf := pf\<rparr>)\<rparr>) pm"

definition th_lua_env ::
  "lua_w hcode \<Rightarrow> (nat \<Rightarrow> bool) \<Rightarrow> (nat \<Rightarrow> string \<Rightarrow> load_rc \<times> nat) \<Rightarrow> (nat \<Rightarrow> timespec) \<Rightarrow>
   (env_reg \<Rightarrow> nat \<Rightarrow> lua_pm \<Rightarrow> (int \<times> lua_cell \<times> lua_pm) option) \<Rightarrow> nat \<Rightarrow> lua_pm \<Rightarrow> lua_pm option"
where
  "th_lua_env hs term loadfile now pcall e pm =
     (case lua_env_setup hs e (env_start e pm) of
        (r, reg, pm1) \<Rightarrow>
          if r \<noteq> 0 then Some pm1
          else
            (let st = env_pause (le_interval (env_mem (wld pm1) e));
                 (rc, chunk, pm2) =
               (if le_conserve_mem (env_mem (wld pm1) e) then (0, 0, pm1)
                else (case lua_env_load_script loadfile e (wld pm1) of (rc, c, s) \<Rightarrow> (rc, c, pm1\<lparr>wld := s\<rparr>)))
             in if rc \<noteq> 0 then Some (upd_w (emit [Lua_close]) pm2)
                else map_option (upd_w (emit [Lua_close]))
                       (env_loop term (env_pass loadfile now (pcall reg) st e chunk) e 0 pm2)))"

text \<open>
  \<open>interval >= 0\<close> always holds of the unsigned field. \<open>created\<close> says whether \<^verbatim>\<open>pthread_create\<close> succeeds; when it
  does not, the failure is logged and nothing else.
\<close>

definition process_lua_envs :: "(nat \<Rightarrow> bool) \<Rightarrow> nat \<Rightarrow> lua_w \<Rightarrow> lua_w" where
  "process_lua_envs created e s =
     (if le_interval (env_mem s e) \<ge> 0 \<and> le_active (env_mem s e) \<and> created e
      then emit [Th_create (Some e)] s else s)"

definition stop_lua_envs :: "nat \<Rightarrow> lua_w \<Rightarrow> lua_w" where
  "stop_lua_envs e s = (if le_active (env_mem s e) then emit [Th_join (Some e)] s else s)"

definition shutdown_lua_envs :: "nat \<Rightarrow> lua_w \<Rightarrow> lua_w" where
  "shutdown_lua_envs e s = emit [Env_free e] (snd (lenvm_del_envd (le_name (env_mem s e)) s))"

definition umlua_start :: "(nat \<Rightarrow> bool) \<Rightarrow> lua_pm \<Rightarrow> lua_pm" where
  "umlua_start created pm =
     upd_w (\<lambda>s. emit [Th_create None] (lenvm_process_envs (process_lua_envs created) s)) pm"

definition umlua_shutdown :: "('w, 's) sqlite3_api \<Rightarrow> lua_pm \<Rightarrow> 'w \<Rightarrow> lua_pm \<times> 'w" where
  "umlua_shutdown sq pm w =
     (let s1 = emit [Th_join None] (wld pm);
          s2 = lenvm_process_envs stop_lua_envs s1;
          s3 = lenvm_process_envs shutdown_lua_envs s2;
          (_, w1) = run_state (umdb_mngr_free sq (dbm_mem s3)) w;
          (_, w2) = run_state (umdb_mngr_free sq (dbm_perm s3)) w1
      in (pm\<lparr>wld := s3\<rparr>, w2))"

section \<open>The command line\<close>

text \<open>
  What a client's socket delivers to one iteration of the loop, while the daemon runs: an error, a second
  without data, or the result of \<^verbatim>\<open>recv\<close>.
\<close>

datatype cli_ev = Poll_error | Poll_timeout | Recv_error | Recv_closed | Recv_data string

record cli_state =
  cli_sent :: "string list"
  cli_oob :: bool
  cli_pm :: lua_pm

definition CLI_BUF :: nat where
  "CLI_BUF = 1024"

text \<open>
  One message: the terminating NUL goes to index \<^verbatim>\<open>br\<close>, which is outside of the buffer when the message fills it
  (\<open>cli_oob\<close>). The compiler sees the message up to its first NUL. The result of a script, or its
  error, is sent if it is a string, with a NUL at its end. \<open>loadstring\<close> is \<^verbatim>\<open>luaL_loadstring\<close>.
\<close>

definition cli_message ::
  "(string \<Rightarrow> nat option) \<Rightarrow> (nat \<Rightarrow> lua_pm \<Rightarrow> int \<times> lua_cell \<times> lua_pm) \<Rightarrow> string \<Rightarrow> cli_state \<Rightarrow> bool \<times> cli_state"
where
  "cli_message loadstring pcall msg c =
     (let c1 = c\<lparr>cli_oob := cli_oob c \<or> length msg \<ge> CLI_BUF\<rparr>
      in case loadstring (takeWhile (\<lambda>ch. ch \<noteq> CHR 0x00) msg) of
           None \<Rightarrow> (False, c1)
         | Some chunk \<Rightarrow>
             (case pcall chunk (cli_pm c1) of (r, v, pm1) \<Rightarrow>
                (True, c1\<lparr>cli_sent := cli_sent c1 @ (if c_isstring v then [c_tostring v @ [CHR 0x00]] else []),
                          cli_pm := pm1\<rparr>)))"

fun cli_loop ::
  "(string \<Rightarrow> nat option) \<Rightarrow> (nat \<Rightarrow> lua_pm \<Rightarrow> int \<times> lua_cell \<times> lua_pm) \<Rightarrow> cli_ev list \<Rightarrow> cli_state \<Rightarrow> cli_state"
where
  "cli_loop loadstring pcall [] c = c"
| "cli_loop loadstring pcall (ev # es) c =
     (case ev of
        Poll_timeout \<Rightarrow> cli_loop loadstring pcall es c
      | Recv_data msg \<Rightarrow>
          (case cli_message loadstring pcall msg c of
             (go, c1) \<Rightarrow> if go then cli_loop loadstring pcall es c1 else c1)
      | _ \<Rightarrow> c)"

definition cli_env :: "umdb_mngrd option \<Rightarrow> umdb_mngrd option \<Rightarrow> lua_env_d" where
  "cli_env mem perm =
     \<lparr>le_name = [], le_interval = 0, le_active = True, le_path = [],
      le_env_perf = \<lparr>pf_cnt = None, pf_err = None, pf_lag = None\<rparr>, le_sgnl_nr = 0, le_sgnl_perf = [],
      le_dbm_mem = mem, le_dbm_perm = perm, le_agressive_gc = True, le_conserve_mem = True\<rparr>"

text \<open>
  The thread of a client with the socket \<open>s\<close>. Its environment has no name and is not in the manager; \<open>es\<close> is what
  happens until the daemon terminates.
\<close>

definition th_cli_client ::
  "lua_w hcode \<Rightarrow> (string \<Rightarrow> nat option) \<Rightarrow> (env_reg \<Rightarrow> nat \<Rightarrow> lua_pm \<Rightarrow> int \<times> lua_cell \<times> lua_pm) \<Rightarrow> int \<Rightarrow>
   cli_ev list \<Rightarrow> lua_pm \<Rightarrow> cli_state"
where
  "th_cli_client hs loadstring pcall s es pm =
     (let e = brk (wld pm);
          pm1 = upd_w (\<lambda>s. s\<lparr>brk := e + 1, env_mem := (env_mem s)(e := cli_env (dbm_mem s) (dbm_perm s))\<rparr>) pm;
          (_, reg, pm2) = lua_env_setup hs e pm1;
          c = cli_loop loadstring (pcall reg) es \<lparr>cli_sent = [], cli_oob = False, cli_pm = pm2\<rparr>
      in c\<lparr>cli_pm := upd_w (emit [Lua_close, Sock_close s, Env_free e]) (cli_pm c)\<rparr>)"

datatype srv_ev = Srv_poll_error | Srv_timeout | Accept_error | Peer_error int | Accepted int

fun srv_loop :: "int \<Rightarrow> srv_ev list \<Rightarrow> lua_w \<Rightarrow> lua_w" where
  "srv_loop s [] w = w"
| "srv_loop s (ev # es) w =
     (case ev of
        Srv_poll_error \<Rightarrow> w
      | Srv_timeout \<Rightarrow> srv_loop s es w
      | Accept_error \<Rightarrow> emit [Sock_close (- 1), Sock_close s] w
      | Peer_error c \<Rightarrow> emit [Sock_close c, Sock_close s] w
      | Accepted c \<Rightarrow> srv_loop s es (emit [Client_create c] w))"

text \<open>The results of \<^verbatim>\<open>socket\<close>, \<^verbatim>\<open>bind\<close> and \<^verbatim>\<open>listen\<close> are arguments.\<close>

definition th_cli_server :: "int \<Rightarrow> int \<Rightarrow> int \<Rightarrow> srv_ev list \<Rightarrow> lua_w \<Rightarrow> lua_w" where
  "th_cli_server s_s rb rl es w =
     (if s_s = - 1 then w
      else if rb = - 1 then w
      else if rl = - 1 then w
      else
        let w1 = srv_loop s_s es w
        in if s_s > 0 then emit [Sock_close s_s] w1 else w1)"

section \<open>What the configuration leaves\<close>

text \<open>An environment up to the counters of its signals.\<close>

definition env_core :: "lua_env_d \<Rightarrow> lua_env_d" where
  "env_core E = E\<lparr>le_sgnl_nr := 0, le_sgnl_perf := []\<rparr>"

definition env_like :: "lua_env_d \<Rightarrow> lua_env_d \<Rightarrow> bool" where
  "env_like E E' \<longleftrightarrow> env_core E' = env_core E \<and> length (le_sgnl_perf E') = length (le_sgnl_perf E)"

lemma env_core_upd [simp]:
  "env_core (E\<lparr>le_sgnl_nr := n\<rparr>) = env_core E" "env_core (E\<lparr>le_sgnl_nr := n, le_sgnl_perf := ps\<rparr>) = env_core E"
  by (simp_all add: env_core_def)

lemma env_core_sel:
  "le_name (env_core E) = le_name E" "le_path (env_core E) = le_path E" "le_interval (env_core E) = le_interval E"
  "le_active (env_core E) = le_active E"
  by (simp_all add: env_core_def)

lemma env_like_refl [simp]: "env_like E E"
  by (simp add: env_like_def)

lemma env_like_trans [trans]: "env_like A B \<Longrightarrow> env_like B C \<Longrightarrow> env_like A C"
  by (simp add: env_like_def)

lemma env_like_core:
  "env_like E E' \<Longrightarrow> le_name E' = le_name E" "env_like E E' \<Longrightarrow> le_path E' = le_path E"
  "env_like E E' \<Longrightarrow> le_interval E' = le_interval E" "env_like E E' \<Longrightarrow> le_active E' = le_active E"
  unfolding env_like_def by (metis env_core_sel)+

text \<open>
  What reading the configuration keeps: everything allocated and registered before.
\<close>

definition cfg_ext :: "lua_pm \<Rightarrow> lua_pm \<Rightarrow> bool" where
  "cfg_ext pm pm' \<longleftrightarrow> brk (wld pm) \<le> brk (wld pm') \<and>
     (\<forall>a < brk (wld pm). sh_mem pm' a = sh_mem pm a \<and> argv_mem (wld pm') a = argv_mem (wld pm) a \<and>
        env_like (env_mem (wld pm) a) (env_mem (wld pm') a)) \<and>
     dbm_mem (wld pm') = dbm_mem (wld pm) \<and> dbm_perm (wld pm') = dbm_perm (wld pm)"

lemma cfg_ext_refl [simp]: "cfg_ext pm pm"
  by (simp add: cfg_ext_def)

lemma cfg_extD:
  assumes "cfg_ext pm pm'"
  shows "a < brk (wld pm) \<Longrightarrow> a < brk (wld pm')" "a < brk (wld pm) \<Longrightarrow> sh_mem pm' a = sh_mem pm a"
    "a < brk (wld pm) \<Longrightarrow> argv_mem (wld pm') a = argv_mem (wld pm) a"
    "a < brk (wld pm) \<Longrightarrow> env_like (env_mem (wld pm) a) (env_mem (wld pm') a)"
    "brk (wld pm) \<le> brk (wld pm')" "dbm_mem (wld pm') = dbm_mem (wld pm)" "dbm_perm (wld pm') = dbm_perm (wld pm)"
  using assms by (simp_all add: cfg_ext_def)

lemma cfg_ext_trans [trans]:
  assumes "cfg_ext a b" and "cfg_ext b c"
  shows "cfg_ext a c"
proof -
  have "sh_mem c x = sh_mem a x \<and> argv_mem (wld c) x = argv_mem (wld a) x \<and> env_like (env_mem (wld a) x) (env_mem (wld c) x)"
    if "x < brk (wld a)" for x
    using that cfg_extD(1-4) [OF assms(1) that] cfg_extD(2-4) [OF assms(2), of x] env_like_trans by auto
  moreover have "brk (wld a) \<le> brk (wld c)" using assms cfg_extD(5) order_trans by blast
  ultimately show ?thesis using assms by (simp add: cfg_ext_def)
qed

text \<open>
  A signal descriptor made for an event of the environment \<open>v\<close>: its counters are inside of the array of the environment.
\<close>

definition env_of :: "'j json_api \<Rightarrow> perf_d \<Rightarrow> bool \<Rightarrow> bool \<Rightarrow> 'j \<Rightarrow> nat \<Rightarrow> lua_pm \<Rightarrow> bool" where
  "env_of J pf0 agr cs v e pm \<longleftrightarrow> e < brk (wld pm) \<and>
     env_like (env_desc J pf0 agr cs (dbm_mem (wld pm)) (dbm_perm (wld pm)) v) (env_mem (wld pm) e)"

definition sig_of ::
  "'j json_api \<Rightarrow> lua_code \<Rightarrow> perf_d \<Rightarrow> bool \<Rightarrow> bool \<Rightarrow> 'j \<Rightarrow> string \<Rightarrow> sh_ptr \<Rightarrow> lua_pm \<Rightarrow> bool"
where
  "sig_of J A pf0 agr cs v nm p pm \<longleftrightarrow> p < brk (wld pm) \<and> sh_id (sh_mem pm p) = nm \<and> sh_run (sh_mem pm p) = at_run A \<and>
     sh_min_auth_lvl (sh_mem pm p) = min_auth J v \<and>
     (\<exists>a. sh_args (sh_mem pm p) = Some a \<and> a < brk (wld pm)) \<and> env_of J pf0 agr cs v (sh_env p pm) pm \<and>
     av_perf (argv_mem (wld pm) (the (sh_args (sh_mem pm p)))) < length (le_sgnl_perf (env_mem (wld pm) (sh_env p pm)))"

lemma env_of_ext: "cfg_ext pm pm' \<Longrightarrow> env_of J pf0 agr cs v e pm \<Longrightarrow> env_of J pf0 agr cs v e pm'"
  using cfg_extD(1,4,6,7) env_like_trans by (fastforce simp: env_of_def)

lemma sig_of_ext:
  assumes "cfg_ext pm pm'" and "sig_of J A pf0 agr cs v nm p pm"
  shows "sig_of J A pf0 agr cs v nm p pm'"
proof -
  from assms have sh: "sh_mem pm' p = sh_mem pm p" "p < brk (wld pm')"
    by (auto simp: cfg_ext_def sig_of_def)
  from assms(2) obtain a where a: "sh_args (sh_mem pm p) = Some a" "a < brk (wld pm)" by (auto simp: sig_of_def)
  with assms(1) have av: "argv_mem (wld pm') a = argv_mem (wld pm) a" "a < brk (wld pm')" by (auto simp: cfg_ext_def)
  with sh a have e: "sh_env p pm' = sh_env p pm" by (simp add: sh_env_def)
  have "env_of J pf0 agr cs v (sh_env p pm) pm'" using assms env_of_ext by (auto simp: sig_of_def)
  moreover have "length (le_sgnl_perf (env_mem (wld pm') (sh_env p pm))) = length (le_sgnl_perf (env_mem (wld pm) (sh_env p pm)))"
    using assms by (auto simp: sig_of_def env_of_def cfg_ext_def env_like_def)
  ultimately show ?thesis using assms(2) sh a av e by (simp add: sig_of_def)
qed

text \<open>
  The signals after the events \<open>es\<close>, each with its environment: those there were before, and each new name with the first
  environment that lists it.
\<close>

definition sig_tab ::
  "'j json_api \<Rightarrow> lua_code \<Rightarrow> perf_d \<Rightarrow> bool \<Rightarrow> bool \<Rightarrow> (string, sh_ptr) uthash \<Rightarrow> (string \<times> 'j) list \<Rightarrow> lua_pm \<Rightarrow> bool"
where
  "sig_tab J A pf0 agr cs t0 es pm \<longleftrightarrow> (\<forall>nm.
     (HASH_FIND t0 nm \<noteq> None \<longrightarrow> HASH_FIND (signals pm) nm = HASH_FIND t0 nm) \<and>
     (HASH_FIND t0 nm = None \<longrightarrow>
        (case map_of es nm of
           None \<Rightarrow> HASH_FIND (signals pm) nm = None
         | Some v \<Rightarrow> \<exists>p. HASH_FIND (signals pm) nm = Some p \<and> sig_of J A pf0 agr cs v nm p pm)))"

lemma sig_tab_ext:
  assumes "cfg_ext pm pm'" and "signals pm' = signals pm" and "sig_tab J A pf0 agr cs t0 es pm"
  shows "sig_tab J A pf0 agr cs t0 es pm'"
proof -
  have "case map_of es nm of None \<Rightarrow> HASH_FIND (signals pm') nm = None
      | Some v \<Rightarrow> \<exists>p. HASH_FIND (signals pm') nm = Some p \<and> sig_of J A pf0 agr cs v nm p pm'"
    if "HASH_FIND t0 nm = None" for nm
  proof (cases "map_of es nm")
    case None
    with that assms(3) [unfolded sig_tab_def, THEN spec [of _ nm]] have "HASH_FIND (signals pm) nm = None" by simp
    with None assms(2) show ?thesis by simp
  next
    case (Some v)
    with that assms(3) [unfolded sig_tab_def, THEN spec [of _ nm]]
    obtain p where "HASH_FIND (signals pm) nm = Some p" "sig_of J A pf0 agr cs v nm p pm" by auto
    with Some sig_of_ext [OF assms(1)] assms(2) show ?thesis by auto
  qed
  moreover have "HASH_FIND t0 nm \<noteq> None \<longrightarrow> HASH_FIND (signals pm') nm = HASH_FIND t0 nm" for nm
    using assms(2,3) by (simp add: sig_tab_def)
  ultimately show ?thesis unfolding sig_tab_def by blast
qed

lemma reg_event_step:
  fixes pm :: lua_pm
  assumes "env_of J pf0 agr cs v e pm" and "le_sgnl_nr (env_mem (wld pm) e) < length (le_sgnl_perf (env_mem (wld pm) e))"
    and "reg_event hs A (min_auth J v) e nm pm = pm'"
  shows "cfg_ext pm pm' \<and> envs (wld pm') = envs (wld pm) \<and>
    le_sgnl_nr (env_mem (wld pm') e) = Suc (le_sgnl_nr (env_mem (wld pm) e)) \<and>
    (if HASH_FIND (signals pm) nm \<noteq> None then signals pm' = signals pm
     else signals pm' = HASH_ADD (signals pm) nm (brk (wld pm)) \<and> sig_of J A pf0 agr cs v nm (brk (wld pm)) pm')"
proof (cases "HASH_FIND (signals pm) nm")
  case None
  then have pm': "pm' = reg_event hs A (min_auth J v) e nm pm" using assms(3) by simp
  show ?thesis using None assms(1,2)
    unfolding pm' reg_event_def umplg_reg_signal_def new_signal_def upd_w_def Let_def lua_hs_def lua_sig_hndlr_init_def
        cfg_ext_def env_of_def env_like_def sig_of_def sh_env_def split_beta
    by simp
next
  case (Some q)
  then have pm': "pm' = reg_event hs A (min_auth J v) e nm pm" using assms(3) by simp
  show ?thesis using Some assms(1,2)
    unfolding pm' reg_event_def umplg_reg_signal_def new_signal_def upd_w_def Let_def cfg_ext_def env_of_def env_like_def
    by simp
qed

lemma sig_tab_snoc:
  assumes "sig_tab J A pf0 agr cs t0 es pm" and "cfg_ext pm pm'"
    and "if HASH_FIND (signals pm) nm \<noteq> None then signals pm' = signals pm
      else signals pm' = HASH_ADD (signals pm) nm q \<and> sig_of J A pf0 agr cs v nm q pm'"
  shows "sig_tab J A pf0 agr cs t0 (es @ [(nm, v)]) pm'"
proof -
  have keep: "HASH_FIND (signals pm') n = HASH_FIND (signals pm) n" if "n = nm \<longrightarrow> HASH_FIND (signals pm) nm \<noteq> None" for n
    using assms(3) that by (auto simp: HASH_FIND_ADD split: if_splits)
  have new: "HASH_FIND (signals pm') nm = Some q \<and> sig_of J A pf0 agr cs v nm q pm'" if "HASH_FIND (signals pm) nm = None"
    using assms(3) that by (simp add: HASH_FIND_ADD)
  have tab: "(HASH_FIND t0 n \<noteq> None \<longrightarrow> HASH_FIND (signals pm) n = HASH_FIND t0 n) \<and> (HASH_FIND t0 n = None \<longrightarrow>
      (case map_of es n of None \<Rightarrow> HASH_FIND (signals pm) n = None
       | Some v \<Rightarrow> \<exists>p. HASH_FIND (signals pm) n = Some p \<and> sig_of J A pf0 agr cs v n p pm))" for n
    using assms(1) by (simp add: sig_tab_def)
  have "(HASH_FIND t0 n \<noteq> None \<longrightarrow> HASH_FIND (signals pm') n = HASH_FIND t0 n) \<and> (HASH_FIND t0 n = None \<longrightarrow>
      (case map_of (es @ [(nm, v)]) n of None \<Rightarrow> HASH_FIND (signals pm') n = None
       | Some v \<Rightarrow> \<exists>p. HASH_FIND (signals pm') n = Some p \<and> sig_of J A pf0 agr cs v n p pm'))" for n
  proof (cases "map_of es n")
    case None
    then show ?thesis using tab [of n] keep [of n] new by (cases "n = nm") (auto simp: map_add_def)
  next
    case (Some u)
    then have "HASH_FIND (signals pm) n \<noteq> None" using tab [of n] by (cases "HASH_FIND t0 n") auto
    then have "n = nm \<longrightarrow> HASH_FIND (signals pm) nm \<noteq> None" by auto
    note keep [OF this]
    with Some show ?thesis using tab [of n] sig_of_ext [OF assms(2), of J A pf0 agr cs u n]
      by (cases "HASH_FIND t0 n") (auto simp: map_add_def)
  qed
  then show ?thesis unfolding sig_tab_def by blast
qed

lemma reg_events:
  assumes "env_of J pf0 agr cs v e pm" and "le_sgnl_nr (env_mem (wld pm) e) + length nms \<le> length (le_sgnl_perf (env_mem (wld pm) e))"
    and "sig_tab J A pf0 agr cs t0 es pm"
  shows "let pm' = fold (reg_event hs A (min_auth J v) e) nms pm in
    cfg_ext pm pm' \<and> envs (wld pm') = envs (wld pm) \<and> sig_tab J A pf0 agr cs t0 (es @ map (\<lambda>nm. (nm, v)) nms) pm'"
  using assms
proof (induction nms arbitrary: pm es)
  case (Cons nm nms)
  define pm1 where "pm1 = reg_event hs A (min_auth J v) e nm pm"
  from Cons.prems(2) have "le_sgnl_nr (env_mem (wld pm) e) < length (le_sgnl_perf (env_mem (wld pm) e))" by simp
  from reg_event_step [OF Cons.prems(1) this pm1_def [symmetric]]
  have x: "cfg_ext pm pm1" "envs (wld pm1) = envs (wld pm)"
    and n: "le_sgnl_nr (env_mem (wld pm1) e) = Suc (le_sgnl_nr (env_mem (wld pm) e))"
    and s: "if HASH_FIND (signals pm) nm \<noteq> None then signals pm1 = signals pm
      else signals pm1 = HASH_ADD (signals pm) nm (brk (wld pm)) \<and> sig_of J A pf0 agr cs v nm (brk (wld pm)) pm1" by blast+
  have e: "e < brk (wld pm)" using Cons.prems(1) by (simp add: env_of_def)
  have "length (le_sgnl_perf (env_mem (wld pm1) e)) = length (le_sgnl_perf (env_mem (wld pm) e))"
    using cfg_extD(4) [OF x(1) e] by (simp add: env_like_def)
  with Cons.prems(2) n have "le_sgnl_nr (env_mem (wld pm1) e) + length nms \<le> length (le_sgnl_perf (env_mem (wld pm1) e))" by simp
  from Cons.IH [OF env_of_ext [OF x(1) Cons.prems(1)] this sig_tab_snoc [OF Cons.prems(3) x(1) s]]
  show ?case using x cfg_ext_trans [OF x(1)] by (simp add: pm1_def [symmetric] Let_def)
qed simp

definition env_name :: "'j json_api \<Rightarrow> 'j \<Rightarrow> string" where
  "env_name J v = json_object_get_string J (jget J v ''name'')"

definition env_tab :: "'j json_api \<Rightarrow> perf_d \<Rightarrow> bool \<Rightarrow> bool \<Rightarrow> 'j list \<Rightarrow> lua_pm \<Rightarrow> bool" where
  "env_tab J pf0 agr cs vs pm \<longleftrightarrow> (\<forall>nm.
     (case map_of (map (\<lambda>v. (env_name J v, v)) vs) nm of
        None \<Rightarrow> HASH_FIND (envs (wld pm)) nm = None
      | Some v \<Rightarrow> \<exists>e. HASH_FIND (envs (wld pm)) nm = Some e \<and> env_of J pf0 agr cs v e pm))"

lemma env_tab_snoc:
  assumes "env_tab J pf0 agr cs vs pm" and "cfg_ext pm pm'" and "env_of J pf0 agr cs v e pm'"
    and "envs (wld pm') = (if HASH_FIND (envs (wld pm)) (env_name J v) = None
      then HASH_ADD (envs (wld pm)) (env_name J v) e else envs (wld pm))"
  shows "env_tab J pf0 agr cs (vs @ [v]) pm'"
proof -
  have "case map_of (map (\<lambda>v. (env_name J v, v)) (vs @ [v])) n of None \<Rightarrow> HASH_FIND (envs (wld pm')) n = None
      | Some v \<Rightarrow> \<exists>e. HASH_FIND (envs (wld pm')) n = Some e \<and> env_of J pf0 agr cs v e pm'" for n
  proof (cases "map_of (map (\<lambda>v. (env_name J v, v)) vs) n")
    case None
    with assms(1) [unfolded env_tab_def, THEN spec [of _ n]] have "HASH_FIND (envs (wld pm)) n = None" by simp
    with None assms(3,4) show ?thesis by (auto simp: map_add_def HASH_FIND_ADD)
  next
    case (Some u)
    with assms(1) [unfolded env_tab_def, THEN spec [of _ n]] obtain e' where
      "HASH_FIND (envs (wld pm)) n = Some e'" "env_of J pf0 agr cs u e' pm" by auto
    moreover from this have "HASH_FIND (envs (wld pm')) n = Some e'" using assms(4) by (auto simp: HASH_FIND_ADD)
    ultimately show ?thesis using Some env_of_ext [OF assms(2)] by (auto simp: map_add_def)
  qed
  then show ?thesis unfolding env_tab_def by blast
qed

definition cfg_events :: "'j json_api \<Rightarrow> 'j list \<Rightarrow> (string \<times> 'j) list" where
  "cfg_events J vs = concat (map (\<lambda>v. map (\<lambda>nm. (nm, v)) (event_names J v)) vs)"

lemma cfg_env_step:
  fixes pm :: lua_pm
  assumes "sig_tab J A pf0 agr cs t0 (cfg_events J vs) pm" and "env_tab J pf0 agr cs vs pm"
  shows "sig_tab J A pf0 agr cs t0 (cfg_events J (vs @ [v])) (cfg_env hs J A pf0 agr cs v pm) \<and>
    env_tab J pf0 agr cs (vs @ [v]) (cfg_env hs J A pf0 agr cs v pm) \<and> cfg_ext pm (cfg_env hs J A pf0 agr cs v pm)"
proof -
  define e where "e = brk (wld pm)"
  define pm1 where "pm1 = upd_w (\<lambda>s. s\<lparr>brk := e + 1,
     env_mem := (env_mem s)(e := env_desc J pf0 agr cs (dbm_mem s) (dbm_perm s) v)\<rparr>) pm"
  define pm2 where "pm2 = fold (reg_event hs A (min_auth J v) e) (event_names J v) pm1"
  define pm3 where "pm3 = upd_w (\<lambda>s. snd (lenvm_new_envd e s)) pm2"
  have r: "cfg_env hs J A pf0 agr cs v pm = pm3" by (simp add: cfg_env_def e_def pm1_def pm2_def pm3_def Let_def)
  have x1: "cfg_ext pm pm1" by (simp add: cfg_ext_def pm1_def upd_w_def e_def)
  have s1: "signals pm1 = signals pm" "envs (wld pm1) = envs (wld pm)" by (simp_all add: pm1_def upd_w_def)
  have e1: "env_of J pf0 agr cs v e pm1" by (simp add: env_of_def pm1_def upd_w_def)
  have "le_sgnl_nr (env_mem (wld pm1) e) + length (event_names J v) \<le> length (le_sgnl_perf (env_mem (wld pm1) e))"
    by (simp add: pm1_def upd_w_def env_desc_def event_names_def)
  from reg_events [OF e1 this sig_tab_ext [OF x1 s1(1) assms(1)], of hs]
  have x2: "cfg_ext pm1 pm2" "envs (wld pm2) = envs (wld pm1)"
    and t2: "sig_tab J A pf0 agr cs t0 (cfg_events J vs @ map (\<lambda>nm. (nm, v)) (event_names J v)) pm2"
    by (simp_all add: pm2_def Let_def)
  have x3: "cfg_ext pm2 pm3" "signals pm3 = signals pm2"
    by (simp_all add: pm3_def upd_w_def cfg_ext_def lenvm_new_envd_def split: option.split)
  have e2: "env_of J pf0 agr cs v e pm2" using env_of_ext [OF x2(1) e1] .
  then have nm: "le_name (env_mem (wld pm2) e) = env_name J v"
    using env_like_core(1) by (fastforce simp: env_of_def env_desc_def env_name_def)
  have x: "cfg_ext pm pm3" using x1 x2(1) x3(1) cfg_ext_trans by blast
  have "env_of J pf0 agr cs v e pm3" using env_of_ext [OF x3(1) e2] .
  moreover have "envs (wld pm3) = (if HASH_FIND (envs (wld pm)) (env_name J v) = None
      then HASH_ADD (envs (wld pm)) (env_name J v) e else envs (wld pm))"
    using nm x2(2) s1(2) by (auto simp: pm3_def upd_w_def lenvm_new_envd_def split: option.split)
  ultimately have "env_tab J pf0 agr cs (vs @ [v]) pm3" by (rule env_tab_snoc [OF assms(2) x])
  moreover have "sig_tab J A pf0 agr cs t0 (cfg_events J (vs @ [v])) pm3"
    using sig_tab_ext [OF x3 t2] by (simp add: cfg_events_def)
  ultimately show ?thesis using x r by simp
qed

lemma cfg_envs_tabs:
  assumes "sig_tab J A pf0 agr cs t0 (cfg_events J vs) pm" and "env_tab J pf0 agr cs vs pm"
  shows "let ok = takeWhile (\<lambda>jo. env_check J fsize jo = 0) js; (rc, pm') = cfg_envs hs J A fsize pf0 agr cs js pm in
    rc = (if ok = js then 0 else env_check J fsize (js ! length ok)) \<and>
    sig_tab J A pf0 agr cs t0 (cfg_events J (vs @ map the ok)) pm' \<and> env_tab J pf0 agr cs (vs @ map the ok) pm' \<and> cfg_ext pm pm'"
  using assms
proof (induction js arbitrary: vs pm)
  case (Cons jo js)
  show ?case
  proof (cases "env_check J fsize jo = 0")
    case True
    note st = cfg_env_step [OF Cons.prems, where v = "the jo" and hs = hs]
    from Cons.IH [OF conjunct1 [OF st] conjunct1 [OF conjunct2 [OF st]]] True st show ?thesis
      by (auto simp: Let_def split_beta intro: cfg_ext_trans)
  next
    case False
    with Cons.prems show ?thesis by simp
  qed
qed simp

lemma sig_tab_start: "sig_tab J A pf0 agr cs (signals pm) [] pm"
  by (auto simp: sig_tab_def)

lemma env_tab_start: "envs (wld pm) = [] \<Longrightarrow> env_tab J pf0 agr cs [] pm"
  by (simp add: env_tab_def HASH_FIND_empty)

lemma cfg_dbs_sel [simp]:
  "signals (fst (cfg_dbs sq J c pm w)) = signals pm" "envs (wld (fst (cfg_dbs sq J c pm w))) = envs (wld pm)"
  by (auto simp: cfg_dbs_def upd_w_def Let_def split_beta split: option.split)

text \<open>Raising a signal found in the table.\<close>

lemma sig_of_raise:
  assumes "HASH_FIND (signals pm) nm = Some p" and "sig_of J A pf0 agr cs v nm p pm"
  shows "umplg_proc_signal hs pm (Some nm) io fl =
    (if fl < int (unat (min_auth J v)) then (ret_num UMPLG_RES_AUTH_ERROR, io, pm) else call_sh_run hs (at_run A) p io pm)"
  using assms by (simp add: umplg_proc_signal_def sig_of_def)

section \<open>Threads\<close>

text \<open>
  A loop each pass of which goes on, keeps the descriptor of the environment and does \<open>es\<close>: it ends only when the
  daemon terminates.
\<close>

definition steady :: "(lua_pm \<Rightarrow> (bool \<times> lua_pm) option) \<Rightarrow> nat \<Rightarrow> lua_env_d \<Rightarrow> lua_ev list \<Rightarrow> bool" where
  "steady pass e E es \<longleftrightarrow> (\<forall>pm. env_mem (wld pm) e = E \<longrightarrow> (\<exists>pm'. pass pm = Some (True, pm') \<and>
     env_mem (wld pm') e = E \<and> lua_evs (wld pm') = lua_evs (wld pm) @ es))"

lemma env_loop_steps:
  assumes "steady pass e E es" and "le_active E"
  shows "env_mem (wld pm) e = E \<Longrightarrow> term (i + n) \<Longrightarrow> \<forall>j<n. \<not> term (i + j) \<Longrightarrow>
    \<exists>pm'. env_loop term pass e i pm = Some pm' \<and> lua_evs (wld pm') = lua_evs (wld pm) @ concat (replicate n es)"
proof (induction n arbitrary: i pm)
  case 0
  then show ?case by (subst env_loop.simps) simp
next
  case (Suc n)
  obtain pm1 where 1: "pass pm = Some (True, pm1)" "env_mem (wld pm1) e = E" "lua_evs (wld pm1) = lua_evs (wld pm) @ es"
    using assms(1) Suc.prems(1) unfolding steady_def by blast
  have "\<forall>j<n. \<not> term (Suc i + j)" using Suc.prems(3) by (metis Suc_less_eq add_Suc_shift)
  with Suc.IH [OF 1(2), of "Suc i"] Suc.prems(2) obtain pm' where
    "env_loop term pass e (Suc i) pm1 = Some pm'" "lua_evs (wld pm') = lua_evs (wld pm1) @ concat (replicate n es)" by auto
  moreover have "\<not> term i" using Suc.prems(3) by (metis add.right_neutral zero_less_Suc)
  ultimately show ?case using 1 Suc.prems(1) assms(2) by (subst env_loop.simps) simp
qed

lemma env_loop_forever:
  assumes "steady pass e E es" and "le_active E" and "\<And>i. \<not> term i" and "env_mem (wld pm) e = E"
  shows "env_loop term pass e i pm = None"
proof -
  define P where "P t p e' i pm r \<longleftrightarrow> \<not> (t = term \<and> p = pass \<and> e' = e \<and> env_mem (wld pm) e = E)"
    for t :: "nat \<Rightarrow> bool" and p and e' i :: nat and pm r :: lua_pm
  have "P term pass e i pm r" if "env_loop term pass e i pm = Some r" for r
  proof (rule env_loop.raw_induct [OF _ that, where P = P])
    fix f t p e' i pm r
    assume ih: "\<And>t p e' i pm r. f t p e' i pm = Some r \<Longrightarrow> P t p e' i pm r"
      and eq: "(if t i \<or> \<not> le_active (env_mem (wld pm) e') then Some pm
         else case p pm of None \<Rightarrow> None | Some (go_on, pm1) \<Rightarrow> if go_on then f t p e' (Suc i) pm1 else Some pm1) = Some r"
    show "P t p e' i pm r" unfolding P_def
    proof (intro notI, elim conjE)
      assume d: "t = term" "p = pass" "e' = e" and E: "env_mem (wld pm) e = E"
      obtain pm1 where 1: "pass pm = Some (True, pm1)" "env_mem (wld pm1) e = E"
        using assms(1) E unfolding steady_def by blast
      with eq d E assms(2,3) have "f t p e' (Suc i) pm1 = Some r" by simp
      with ih 1(2) d show False unfolding P_def by blast
    qed
  qed
  with assms(4) show ?thesis unfolding P_def by (cases "env_loop term pass e i pm") auto
qed

text \<open>
  A script that returns each time it is run, does \<open>es\<close> and leaves the descriptor of its environment alone; and one pass
  with such a script, and one in which the script cannot be loaded.
\<close>

definition script_does :: "(nat \<Rightarrow> lua_pm \<Rightarrow> (int \<times> lua_cell \<times> lua_pm) option) \<Rightarrow> nat \<Rightarrow> lua_ev list \<Rightarrow> bool" where
  "script_does pcall e es \<longleftrightarrow> (\<forall>c pm. \<exists>r v pm'. pcall c pm = Some (r, v, pm') \<and>
     env_mem (wld pm') e = env_mem (wld pm) e \<and> lua_evs (wld pm') = lua_evs (wld pm) @ es)"

lemma env_run_script_does:
  assumes "script_does pcall e es"
  shows "\<exists>pm'. env_run_script now pcall e c pm = Some pm' \<and> env_mem (wld pm') e = env_mem (wld pm) e \<and>
    lua_evs (wld pm') = lua_evs (wld pm) @ es"
proof -
  let ?pm = "upd_w (\<lambda>s. s\<lparr>tick := Suc (tick (wld pm))\<rparr>) pm"
  obtain r v pm1 where "pcall c ?pm = Some (r, v, pm1)" "env_mem (wld pm1) e = env_mem (wld ?pm) e"
    "lua_evs (wld pm1) = lua_evs (wld ?pm) @ es" using assms unfolding script_does_def by blast
  then show ?thesis by (simp add: env_run_script_def Let_def upd_w_def)
qed

definition loads :: "(nat \<Rightarrow> string \<Rightarrow> load_rc \<times> nat) \<Rightarrow> lua_env_d \<Rightarrow> bool" where
  "loads loadfile E \<longleftrightarrow> (\<forall>t. load_code (fst (loadfile t (le_path E))) = 0)"

definition never_loads :: "(nat \<Rightarrow> string \<Rightarrow> load_rc \<times> nat) \<Rightarrow> lua_env_d \<Rightarrow> bool" where
  "never_loads loadfile E \<longleftrightarrow> (\<forall>t. load_code (fst (loadfile t (le_path E))) \<noteq> 0)"

lemma env_chunk_loads:
  assumes "loads loadfile (env_mem (wld pm) e)"
  shows "\<exists>c pm1. env_chunk loadfile e chunk pm = (Some c, pm1) \<and> env_mem (wld pm1) = env_mem (wld pm) \<and>
    lua_evs (wld pm1) = lua_evs (wld pm)"
  using assms by (auto simp: env_chunk_def lua_env_load_script_def loads_def split_beta)

lemma env_pass_runs:
  assumes "script_does pcall e es" and "loads loadfile (env_mem (wld pm) e)"
  shows "\<exists>pm'. env_pass loadfile now pcall st e chunk pm = Some (le_interval (env_mem (wld pm) e) \<noteq> 0, pm') \<and>
    env_mem (wld pm') e = env_mem (wld pm) e \<and>
    lua_evs (wld pm') = lua_evs (wld pm) @ es @ (if le_interval (env_mem (wld pm) e) = 0 then [] else [Nanosleep (fst st) (snd st)])"
proof -
  obtain c pm1 where c: "env_chunk loadfile e chunk pm = (Some c, pm1)" "env_mem (wld pm1) = env_mem (wld pm)"
    "lua_evs (wld pm1) = lua_evs (wld pm)" using env_chunk_loads [OF assms(2)] by blast
  obtain pm2 where "env_run_script now pcall e c pm1 = Some pm2" "env_mem (wld pm2) e = env_mem (wld pm1) e"
    "lua_evs (wld pm2) = lua_evs (wld pm1) @ es" using env_run_script_does [OF assms(1)] by blast
  with c show ?thesis by (simp add: env_pass_def upd_w_def env_sleep_def emit_def)
qed

lemma steady_run:
  assumes "script_does pcall e es" and "loads loadfile E" and "le_interval E \<noteq> 0"
  shows "steady (env_pass loadfile now pcall st e chunk) e E (es @ [Nanosleep (fst st) (snd st)])"
  unfolding steady_def
proof (intro allI impI)
  fix pm :: lua_pm assume "env_mem (wld pm) e = E"
  with env_pass_runs [OF assms(1), of loadfile pm now st chunk] assms(2,3)
  show "\<exists>pm'. env_pass loadfile now pcall st e chunk pm = Some (True, pm') \<and> env_mem (wld pm') e = E \<and>
      lua_evs (wld pm') = lua_evs (wld pm) @ es @ [Nanosleep (fst st) (snd st)]" by simp
qed

lemma steady_retry:
  assumes "never_loads loadfile E" and "le_conserve_mem E"
  shows "steady (env_pass loadfile now pcall st e chunk) e E [Nanosleep (fst st) (snd st)]"
  using assms by (auto simp: steady_def never_loads_def env_pass_def env_chunk_def lua_env_load_script_def split_beta
      upd_w_def env_sleep_def emit_def)

text \<open>The thread after its set-up.\<close>

definition env_body ::
  "(nat \<Rightarrow> bool) \<Rightarrow> (nat \<Rightarrow> string \<Rightarrow> load_rc \<times> nat) \<Rightarrow> (nat \<Rightarrow> timespec) \<Rightarrow>
   (nat \<Rightarrow> lua_pm \<Rightarrow> (int \<times> lua_cell \<times> lua_pm) option) \<Rightarrow> nat \<Rightarrow> nat \<Rightarrow> lua_pm \<Rightarrow> lua_pm option"
where
  "env_body term loadfile now pcall e chunk pm =
     map_option (upd_w (emit [Lua_close]))
       (env_loop term (env_pass loadfile now pcall (env_pause (le_interval (env_mem (wld pm) e))) e chunk) e 0 pm)"

lemma th_lua_env_body:
  assumes "lua_env_setup hs e (env_start e pm) = (0, reg, pm1)"
    and "le_conserve_mem (env_mem (wld pm1) e) \<or> loads loadfile (env_mem (wld pm1) e)"
  obtains chunk pm2 where "th_lua_env hs term loadfile now pcall e pm = env_body term loadfile now (pcall reg) e chunk pm2"
    "env_mem (wld pm2) = env_mem (wld pm1)" "lua_evs (wld pm2) = lua_evs (wld pm1)"
proof (cases "le_conserve_mem (env_mem (wld pm1) e)")
  case True
  then show thesis by (intro that [of 0 pm1]) (simp_all add: th_lua_env_def assms(1) env_body_def)
next
  case False
  let ?c = "snd (loadfile (tick (wld pm1)) (le_path (env_mem (wld pm1) e)))"
  have "load_code (fst (loadfile (tick (wld pm1)) (le_path (env_mem (wld pm1) e)))) = 0"
    using assms(2) False by (simp add: loads_def)
  then show thesis
    by (intro that [of ?c "pm1\<lparr>wld := (wld pm1)\<lparr>tick := Suc (tick (wld pm1))\<rparr>\<rparr>"])
      (simp_all add: th_lua_env_def assms(1) False lua_env_load_script_def split_beta env_body_def)
qed

lemma th_lua_env_no_script:
  assumes "lua_env_setup hs e (env_start e pm) = (0, reg, pm1)"
    and "\<not> le_conserve_mem (env_mem (wld pm1) e)" and "never_loads loadfile (env_mem (wld pm1) e)"
  shows "\<exists>pm'. th_lua_env hs term loadfile now pcall e pm = Some pm' \<and> lua_evs (wld pm') = lua_evs (wld pm1) @ [Lua_close]"
  using assms(2,3)
  by (simp add: th_lua_env_def assms(1) lua_env_load_script_def never_loads_def split_beta upd_w_def emit_def)

lemma env_body_once:
  assumes "script_does pcall e es" and "loads loadfile (env_mem (wld pm) e)" and "le_interval (env_mem (wld pm) e) = 0"
    and "le_active (env_mem (wld pm) e)" and "\<not> term 0"
  shows "\<exists>pm'. env_body term loadfile now pcall e chunk pm = Some pm' \<and> lua_evs (wld pm') = lua_evs (wld pm) @ es @ [Lua_close]"
proof -
  let ?st = "env_pause (le_interval (env_mem (wld pm) e))"
  obtain pm1 where "env_pass loadfile now pcall ?st e chunk pm = Some (False, pm1)" "lua_evs (wld pm1) = lua_evs (wld pm) @ es"
    using env_pass_runs [OF assms(1,2), of now ?st chunk] assms(3) by auto
  with assms(4,5) show ?thesis unfolding env_body_def by (subst env_loop.simps) (simp add: upd_w_def emit_def)
qed

lemma env_body_steady:
  assumes "steady (env_pass loadfile now pcall (env_pause (le_interval E)) e chunk) e E es" and "le_active E"
    and "env_mem (wld pm) e = E"
  shows "(\<And>i. \<not> term i) \<Longrightarrow> env_body term loadfile now pcall e chunk pm = None"
    and "term n \<Longrightarrow> \<forall>j<n. \<not> term j \<Longrightarrow>
      \<exists>pm'. env_body term loadfile now pcall e chunk pm = Some pm' \<and>
        lua_evs (wld pm') = lua_evs (wld pm) @ concat (replicate n es) @ [Lua_close]"
proof -
  show "env_body term loadfile now pcall e chunk pm = None" if "\<And>i. \<not> term i"
    using env_loop_forever [OF assms(1,2) that assms(3)] by (simp add: env_body_def assms(3))
  show "\<exists>pm'. env_body term loadfile now pcall e chunk pm = Some pm' \<and>
        lua_evs (wld pm') = lua_evs (wld pm) @ concat (replicate n es) @ [Lua_close]" if "term n" "\<forall>j<n. \<not> term j"
    using env_loop_steps [OF assms(1,2,3), of "term" 0 n] that by (auto simp: env_body_def assms(3) upd_w_def emit_def)
qed

lemma env_body_stuck:
  assumes "\<forall>c pm. pcall c pm = None" and "loads loadfile (env_mem (wld pm) e)" and "le_active (env_mem (wld pm) e)" and "\<not> term 0"
  shows "env_body term loadfile now pcall e chunk pm = None"
proof -
  obtain c pm1 where "env_chunk loadfile e chunk pm = (Some c, pm1)" using env_chunk_loads [OF assms(2)] by blast
  then have "env_pass loadfile now pcall st e chunk pm = None" for st
    using assms(1) by (simp add: env_pass_def env_run_script_def)
  with assms(3,4) show ?thesis unfolding env_body_def by (subst env_loop.simps) simp
qed

text \<open>The pause is a valid time of \<^verbatim>\<open>nanosleep\<close> and as long as configured.\<close>

lemma env_pause_bounds:
  assumes "env_pause interval = (sec, nsec)"
  shows "unat nsec < 10 ^ 9 \<and> 1000 * unat sec + unat nsec div 10 ^ 6 = unat interval"
proof -
  have m: "unat (interval mod 1000) < 1000" by (simp add: unat_mod)
  then have "unat (interval mod 1000) * unat (1000000 :: u64) < 2 ^ LENGTH(64)" by simp
  then have "unat (interval mod 1000 * 1000000) = unat (interval mod 1000) * 1000000"
    by (subst (asm) unat_mult_lem) simp
  with m assms show ?thesis by (auto simp: env_pause_def unat_mod unat_div)
qed

lemma process_envs_emit:
  assumes "\<And>e s. f e s = emit (g e (env_mem s e)) s"
  shows "lenvm_process_envs f s = emit (concat (map (\<lambda>e. g e (env_mem s e)) (HASH_ITER (envs s)))) s"
proof -
  have "fold f es s = emit (concat (map (\<lambda>e. g e (env_mem s e)) es)) s" for es s
    by (induction es arbitrary: s) (simp_all add: assms emit_def)
  then show ?thesis by (simp add: lenvm_process_envs_def)
qed

text \<open>A table of environments in which each is found under its own name.\<close>

definition envs_wf :: "lua_w \<Rightarrow> bool" where
  "envs_wf s \<longleftrightarrow> uthash_wf (envs s) \<and> (\<forall>(nm, e) \<in> set (envs s). le_name (env_mem s e) = nm)"

lemma shutdown_step:
  assumes "envs_wf s" and "envs s = (nm, e) # t"
  shows "shutdown_lua_envs e s = emit [Env_free e] (s\<lparr>envs := t\<rparr>)" "envs_wf (emit es (s\<lparr>envs := t\<rparr>))"
proof -
  have "HASH_FIND (envs s) (le_name (env_mem s e)) = Some e"
    using assms HASH_FIND_wf_iff [of "envs s"] by (auto simp: envs_wf_def)
  moreover have "HASH_DEL (envs s) e = t"
    using assms by (auto simp: HASH_DEL_def envs_wf_def uthash_wf_def intro!: filter_True)
  ultimately show "shutdown_lua_envs e s = emit [Env_free e] (s\<lparr>envs := t\<rparr>)"
    by (simp add: shutdown_lua_envs_def lenvm_del_envd_def)
  show "envs_wf (emit es (s\<lparr>envs := t\<rparr>))" using assms by (auto simp: envs_wf_def emit_def uthash_wf_def)
qed

lemma shutdown_all:
  assumes "envs_wf s"
  shows "lenvm_process_envs shutdown_lua_envs s = emit (map Env_free (HASH_ITER (envs s))) (s\<lparr>envs := []\<rparr>)"
proof -
  have "envs s = t \<Longrightarrow> fold shutdown_lua_envs (map snd t) s = emit (map (\<lambda>x. Env_free (snd x)) t) (s\<lparr>envs := []\<rparr>)" for t
    using assms
  proof (induction t arbitrary: s)
    case (Cons x t)
    obtain nm e where x: "x = (nm, e)" by (cases x)
    from Cons.prems shutdown_step(1) [of s nm e t] shutdown_step(2) [of s nm e t "[Env_free e]"] x
    have st: "shutdown_lua_envs e s = emit [Env_free e] (s\<lparr>envs := t\<rparr>)" "envs_wf (emit [Env_free e] (s\<lparr>envs := t\<rparr>))" by auto
    have "envs (emit [Env_free e] (s\<lparr>envs := t\<rparr>)) = t" by (simp add: emit_def)
    from Cons.IH [OF this st(2)] show ?case by (simp add: x st(1)) (simp add: emit_def)
  qed (simp add: emit_def)
  then show ?thesis by (simp add: lenvm_process_envs_def HASH_ITER_def o_def)
qed

text \<open>What the start and the shutdown of the core do to the threads and the environments.\<close>

lemma emit_sel [simp]:
  "lua_evs (emit es s) = lua_evs s @ es" "envs (emit es s) = envs s" "env_mem (emit es s) = env_mem s"
  "argv_mem (emit es s) = argv_mem s"
  by (simp_all add: emit_def)

lemma concat_if: "concat (map (\<lambda>e. if P e then [h e] else []) es) = map h (filter P es)"
  by (induction es) auto

lemma umlua_start_eq:
  "umlua_start created pm = upd_w (emit (map (\<lambda>e. Th_create (Some e))
     (filter (\<lambda>e. le_active (env_mem (wld pm) e) \<and> created e) (HASH_ITER (envs (wld pm)))) @ [Th_create None])) pm"
proof -
  have "process_lua_envs created e s = emit (if le_active (env_mem s e) \<and> created e then [Th_create (Some e)] else []) s" for e s
    by (simp add: process_lua_envs_def emit_def)
  note p = process_envs_emit [of "process_lua_envs created", OF this]
  show ?thesis unfolding umlua_start_def upd_w_def p concat_if by (simp add: emit_def)
qed

lemma umlua_shutdown_eq:
  assumes "envs_wf (wld pm)"
    and s'_def: "s' = wld (fst (umlua_shutdown sq pm w))"
  shows "lua_evs s' = lua_evs (wld pm) @ [Th_join None] @
      map (\<lambda>e. Th_join (Some e)) (filter (\<lambda>e. le_active (env_mem (wld pm) e)) (HASH_ITER (envs (wld pm)))) @
      map Env_free (HASH_ITER (envs (wld pm)))"
    "envs s' = []"
proof -
  have "stop_lua_envs e s = emit (if le_active (env_mem s e) then [Th_join (Some e)] else []) s" for e s
    by (simp add: stop_lua_envs_def emit_def)
  note j = process_envs_emit [of stop_lua_envs, OF this]
  define s2 where "s2 = lenvm_process_envs stop_lua_envs (emit [Th_join None] (wld pm))"
  have s2: "lua_evs s2 = lua_evs (wld pm) @ [Th_join None] @ map (\<lambda>e. Th_join (Some e))
      (filter (\<lambda>e. le_active (env_mem (wld pm) e)) (HASH_ITER (envs (wld pm))))"
    "envs s2 = envs (wld pm)" "env_mem s2 = env_mem (wld pm)"
    unfolding s2_def j by (simp_all add: concat_if)
  have "envs_wf s2" using assms(1) s2 by (simp add: envs_wf_def)
  from shutdown_all [OF this] s2
  show "lua_evs s' = lua_evs (wld pm) @ [Th_join None] @
      map (\<lambda>e. Th_join (Some e)) (filter (\<lambda>e. le_active (env_mem (wld pm) e)) (HASH_ITER (envs (wld pm)))) @
      map Env_free (HASH_ITER (envs (wld pm)))"
    "envs s' = []"
    by (simp_all add: s'_def umlua_shutdown_def Let_def split_beta s2_def [symmetric])
qed

section \<open>Properties\<close>

text \<open>
  (C15) The configuration of the Lua core: environments are taken in order up to the first one that fails a check,
  whose code is returned. After that, raising an event runs the Lua handler on a descriptor of the
  first environment that lists the event, for callers of at least that environment's level, with counters
  inside of the environment's array; the signals registered before are unchanged; and an environment
  is found under its name, the first one where a name is used twice.
\<close>

theorem lua_cfg_signals:
  assumes "json_object_is_type J j Json_object"
    and "List.find (\<lambda>e. fst e = ''umlua'') (json_object_foreach J j) = Some (''umlua'', Some c)"
    and "cfg_bool J c ''aggressive_gc'' = Some agr" and "cfg_bool J c ''conserve_memory'' = Some cs"
    and "json_object_object_get J c ''envs'' = Some jobj" and "json_object_is_type J jobj Json_array"
    and "js = json_elems J jobj" and "ok = takeWhile (\<lambda>jo. env_check J fsize jo = 0) js"
    and "envs (wld pm) = []" and "lua_process_cfg hs sq J A fsize pf0 (Some j) pm w = (rc, pm', w')"
  shows "rc = (if ok = js then 0 else env_check J fsize (js ! length ok)) \<and>
    (\<forall>nm q. HASH_FIND (signals pm) nm = Some q \<longrightarrow> HASH_FIND (signals pm') nm = Some q) \<and>
    (\<forall>nm v. HASH_FIND (signals pm) nm = None \<and> map_of (cfg_events J (map the ok)) nm = Some v \<longrightarrow>
       (\<exists>p. sig_of J A pf0 agr cs v nm p pm' \<and> (\<forall>hs io fl. umplg_proc_signal hs pm' (Some nm) io fl =
          (if fl < int (unat (min_auth J v)) then (ret_num UMPLG_RES_AUTH_ERROR, io, pm')
           else call_sh_run hs (at_run A) p io pm')))) \<and>
    env_tab J pf0 agr cs (map the ok) pm'"
proof -
  define pm1 where "pm1 = fst (cfg_dbs sq J c pm w)"
  have rc: "cfg_envs hs J A fsize pf0 agr cs js pm1 = (rc, pm')"
    using assms(1-7,10) by (auto simp: lua_process_cfg_def pm1_def split_beta prod_eq_iff)
  have s1: "signals pm1 = signals pm" "envs (wld pm1) = []" using assms(9) by (simp_all add: pm1_def)
  have "sig_tab J A pf0 agr cs (signals pm) (cfg_events J []) pm1"
    using sig_tab_start [of J A pf0 agr cs pm1] s1 by (simp add: cfg_events_def)
  from cfg_envs_tabs [OF this env_tab_start [OF s1(2)], of fsize js hs]
  have r: "rc = (if ok = js then 0 else env_check J fsize (js ! length ok))"
    and t: "sig_tab J A pf0 agr cs (signals pm) (cfg_events J (map the ok)) pm'" "env_tab J pf0 agr cs (map the ok) pm'"
    unfolding rc assms(8) by (simp_all add: Let_def)
  have "\<exists>p. sig_of J A pf0 agr cs v nm p pm' \<and> (\<forall>hs io fl. umplg_proc_signal hs pm' (Some nm) io fl =
      (if fl < int (unat (min_auth J v)) then (ret_num UMPLG_RES_AUTH_ERROR, io, pm') else call_sh_run hs (at_run A) p io pm'))"
    if "HASH_FIND (signals pm) nm = None" "map_of (cfg_events J (map the ok)) nm = Some v" for nm v
  proof -
    from t(1) [unfolded sig_tab_def, THEN spec [of _ nm]] that obtain p where
      "HASH_FIND (signals pm') nm = Some p" "sig_of J A pf0 agr cs v nm p pm'" by auto
    with sig_of_raise [OF this] show ?thesis by blast
  qed
  moreover have "HASH_FIND (signals pm') nm = Some q" if "HASH_FIND (signals pm) nm = Some q" for nm q
    using t(1) that by (simp add: sig_tab_def)
  ultimately show ?thesis using r t(2) by blast
qed

definition demo_lua_cfg :: json where
  "demo_lua_cfg = JObj [(''umlua'', JObj [(''envs'', JArr
     [JObj [(''name'', JStr ''e1''), (''auto_start'', JBool True), (''interval'', JInt 0), (''path'', JStr ''/s.lua''),
            (''events'', JArr [JStr ''ev'', JInt 7]), (''min_auth'', JInt 3)],
      JInt 5])])]"

definition demo_code :: lua_code where
  "demo_code = \<lparr>at_run = 9, at_init = 8, at_term = 7, at_sub_modules = 6\<rparr>"

lemma lua_cfg_signals_witness:
  "\<exists>rc pm' w'. lua_process_cfg idle_hcode demo_sqlite (demo_json (\<lambda>_. None) (\<lambda>_. None)) demo_code (\<lambda>_. Some (Some 100))
      \<lparr>pf_cnt = None, pf_err = None, pf_lag = None\<rparr> (Some demo_lua_cfg) (demo_lua_pm False)
      \<lparr>dq_sql = [], dq_arg = \<lambda>_. None, dq_tbl = \<lambda>_. None\<rparr> = (rc, pm', w') \<and> rc = 4 \<and>
    (\<forall>io. umplg_proc_signal idle_hcode pm' (Some ''ev'') io 2 = (ret_num UMPLG_RES_AUTH_ERROR, io, pm'))"
proof -
  let ?J = "demo_json (\<lambda>_. None) (\<lambda>_. None)" and ?fs = "\<lambda>_ :: string. Some (Some 100) :: int option option"
  let ?v = "JObj [(''name'', JStr ''e1''), (''auto_start'', JBool True), (''interval'', JInt 0), (''path'', JStr ''/s.lua''),
            (''events'', JArr [JStr ''ev'', JInt 7]), (''min_auth'', JInt 3)]"
  let ?c = "JObj [(''envs'', JArr [?v, JInt 5])]"
  obtain rc pm' w' where e: "lua_process_cfg idle_hcode demo_sqlite ?J demo_code ?fs
      \<lparr>pf_cnt = None, pf_err = None, pf_lag = None\<rparr> (Some demo_lua_cfg) (demo_lua_pm False)
      \<lparr>dq_sql = [], dq_arg = \<lambda>_. None, dq_tbl = \<lambda>_. None\<rparr> = (rc, pm', w')" by (metis prod_cases3)
  have c: "json_object_is_type ?J demo_lua_cfg Json_object"
    "List.find (\<lambda>e. fst e = ''umlua'') (json_object_foreach ?J demo_lua_cfg) = Some (''umlua'', Some ?c)"
    "cfg_bool ?J ?c ''aggressive_gc'' = Some False" "cfg_bool ?J ?c ''conserve_memory'' = Some False"
    "json_object_object_get ?J ?c ''envs'' = Some (JArr [?v, JInt 5])" "json_object_is_type ?J (JArr [?v, JInt 5]) Json_array"
    by (simp_all add: demo_json_def demo_lua_cfg_def cfg_bool_def)
  have el: "json_elems ?J (JArr [?v, JInt 5]) = [Some ?v, Some (JInt 5)]" "json_elems ?J (JArr [JStr ''ev'', JInt 7]) = [Some (JStr ''ev''), Some (JInt 7)]"
    by (simp_all add: json_elems_def demo_json_def)
  have chk: "env_check ?J ?fs (Some ?v) = 0" "env_check ?J ?fs (Some (JInt 5)) = 4"
    by (simp_all add: env_check_def demo_json_def json_is_type_def c_int_def)
  have "jget ?J ?v ''events'' = JArr [JStr ''ev'', JInt 7]" by (simp add: jget_def demo_json_def)
  then have ev: "event_names ?J ?v = [''ev'']" by (simp add: event_names_def el) (simp add: demo_json_def json_is_type_def)
  have ma: "min_auth ?J ?v = 3" by (simp add: min_auth_def demo_json_def)
  have n: "HASH_FIND (signals (demo_lua_pm False)) ''ev'' = None" "envs (wld (demo_lua_pm False)) = []"
    by (simp_all add: HASH_FIND_def demo_lua_w_def)
  note T = lua_cfg_signals [OF c refl refl n(2) e]
  have tw: "takeWhile (\<lambda>jo. env_check ?J ?fs jo = 0) (json_elems ?J (JArr [?v, JInt 5])) = [Some ?v]"
    by (simp add: el chk)
  have "map_of (cfg_events ?J (map the [Some ?v])) ''ev'' = Some ?v" by (simp add: cfg_events_def ev)
  with T [THEN conjunct2, THEN conjunct2, THEN conjunct1, THEN spec [of _ "''ev''"], THEN spec [of _ ?v]] n(1) obtain p where
    "\<forall>hs io fl. umplg_proc_signal hs pm' (Some ''ev'') io fl = (if fl < int (unat (min_auth ?J ?v))
      then (ret_num UMPLG_RES_AUTH_ERROR, io, pm') else call_sh_run hs (at_run demo_code) p io pm')"
    unfolding tw by blast
  then have "umplg_proc_signal idle_hcode pm' (Some ''ev'') io 2 = (ret_num UMPLG_RES_AUTH_ERROR, io, pm')" for io
    by (simp add: ma)
  moreover have "rc = 4" using conjunct1 [OF T] unfolding tw by (simp add: el chk)
  ultimately show ?thesis using e by blast
qed

text \<open>
  (C23) The life of an environment's thread, after its set-up. If the script can be loaded and returns whenever it is run, an
  environment with an interval runs it and then pauses for the interval, over and over, until the pass in which the
  daemon is found terminating, and then closes its Lua state and ends; while the daemon runs it does not end. An
  environment that is to run once runs the script once, does not pause, and ends without waiting for the
  daemon. A script that cannot be loaded ends the thread at once; but if memory is conserved it is tried again after
  each pause, for an environment that is to run once with a pause of 0, until the daemon terminates. A script that
  does not return keeps the thread from ever ending, also when the daemon terminates.
\<close>

theorem env_thread_ends:
  assumes "lua_env_setup hs e (env_start e pm) = (0, reg, pm1)" and "E = env_mem (wld pm1) e" and "le_active E"
    and "env_pause (le_interval E) = (sec, nsec)"
  shows "(script_does (pcall reg) e es \<and> loads loadfile E \<and> le_interval E \<noteq> 0 \<longrightarrow>
      ((\<forall>i. \<not> term i) \<longrightarrow> th_lua_env hs term loadfile now pcall e pm = None) \<and>
      (term n \<and> (\<forall>j<n. \<not> term j) \<longrightarrow> (\<exists>pm'. th_lua_env hs term loadfile now pcall e pm = Some pm' \<and>
         lua_evs (wld pm') = lua_evs (wld pm1) @ concat (replicate n (es @ [Nanosleep sec nsec])) @ [Lua_close]))) \<and>
    (script_does (pcall reg) e es \<and> loads loadfile E \<and> le_interval E = 0 \<and> \<not> term 0 \<longrightarrow>
      (\<exists>pm'. th_lua_env hs term loadfile now pcall e pm = Some pm' \<and> lua_evs (wld pm') = lua_evs (wld pm1) @ es @ [Lua_close])) \<and>
    (never_loads loadfile E \<and> \<not> le_conserve_mem E \<longrightarrow>
      (\<exists>pm'. th_lua_env hs term loadfile now pcall e pm = Some pm' \<and> lua_evs (wld pm') = lua_evs (wld pm1) @ [Lua_close])) \<and>
    (never_loads loadfile E \<and> le_conserve_mem E \<longrightarrow>
      ((\<forall>i. \<not> term i) \<longrightarrow> th_lua_env hs term loadfile now pcall e pm = None) \<and>
      (term n \<and> (\<forall>j<n. \<not> term j) \<longrightarrow> (\<exists>pm'. th_lua_env hs term loadfile now pcall e pm = Some pm' \<and>
         lua_evs (wld pm') = lua_evs (wld pm1) @ replicate n (Nanosleep sec nsec) @ [Lua_close]))) \<and>
    ((\<forall>c q. pcall reg c q = None) \<and> loads loadfile E \<and> \<not> term 0 \<longrightarrow> th_lua_env hs term loadfile now pcall e pm = None)"
proof (cases "le_conserve_mem E \<or> loads loadfile E")
  case True
  with assms(2) th_lua_env_body [OF assms(1), of loadfile "term" now pcall] obtain chunk pm2 where
    body: "th_lua_env hs term loadfile now pcall e pm = env_body term loadfile now (pcall reg) e chunk pm2"
    and pm2: "env_mem (wld pm2) e = E" "lua_evs (wld pm2) = lua_evs (wld pm1)" by metis
  let ?st = "env_pause (le_interval E)"
  have st: "fst ?st = sec" "snd ?st = nsec" by (simp_all add: assms(4))
  note run = steady_run [of "pcall reg" e es loadfile E now ?st chunk, unfolded st]
  note retry = steady_retry [of loadfile E now "pcall reg" ?st e chunk, unfolded st]
  note once = env_body_once [of "pcall reg" e es loadfile pm2 "term" now chunk, unfolded pm2]
  note stuck = env_body_stuck [of "pcall reg" loadfile pm2 e "term" now chunk, unfolded pm2]
  have single: "concat (replicate n [x]) = replicate n x" for n and x :: lua_ev by (induction n) simp_all
  have no: "\<not> (never_loads loadfile E \<and> \<not> le_conserve_mem E)" using True by (auto simp: loads_def never_loads_def)
  show ?thesis unfolding body
  proof (intro conjI impI, goal_cases)
    case 1
    then show ?case by (intro env_body_steady(1) [OF run assms(3) pm2(1)]) simp_all
  next
    case 2
    then show ?case unfolding pm2(2) [symmetric] by (intro env_body_steady(2) [OF run assms(3) pm2(1)]) simp_all
  next
    case 3
    then show ?case using once assms(3) by blast
  next
    case 5
    then show ?case by (intro env_body_steady(1) [OF retry assms(3) pm2(1)]) simp_all
  next
    case 6
    then show ?case unfolding pm2(2) [symmetric] single [symmetric]
      by (intro env_body_steady(2) [OF retry assms(3) pm2(1)]) simp_all
  next
    case 7
    then show ?case using stuck assms(3) by blast
  qed (use no in blast)
next
  case False
  then show ?thesis
    using th_lua_env_no_script [OF assms(1), of loadfile "term" now pcall] assms(2) by (intro conjI impI) simp_all
qed

lemma env_start_sel:
  "lua_evs (wld (env_start e pm)) = lua_evs (wld pm)" "signals (env_start e pm) = signals pm"
  "le_active (env_mem (wld (env_start e pm)) e) = le_active (env_mem (wld pm) e)"
  "le_interval (env_mem (wld (env_start e pm)) e) = le_interval (env_mem (wld pm) e)"
  "le_conserve_mem (env_mem (wld (env_start e pm)) e) = le_conserve_mem (env_mem (wld pm) e)"
  by (auto simp: env_start_def upd_w_def split: prod.split)

text \<open>An environment that is to run once, with a script that cannot be loaded, and one that can.\<close>

lemma env_thread_ends_witness:
  "(\<exists>pm'. th_lua_env idle_hcode (\<lambda>i. i = 3) (\<lambda>_ _. (LUA_ERRFILE, 0)) (\<lambda>_. \<lparr>tv_sec = 1, tv_nsec = 0\<rparr>)
      (\<lambda>reg c q. None) 0 (demo_lua_pm True) = Some pm' \<and> lua_evs (wld pm') = replicate 3 (Nanosleep 0 0) @ [Lua_close]) \<and>
   (\<exists>pm'. th_lua_env idle_hcode (\<lambda>i. False) (\<lambda>_ _. (LUA_OK, 0)) (\<lambda>_. \<lparr>tv_sec = 1, tv_nsec = 0\<rparr>)
      (\<lambda>reg c q. Some (0, demo_cell, q)) 0 (demo_lua_pm True) = Some pm' \<and> lua_evs (wld pm') = [Lua_close])"
proof -
  let ?pm1 = "env_start 0 (demo_lua_pm True)" and ?now = "\<lambda>_ :: nat. \<lparr>tv_sec = 1, tv_nsec = 0\<rparr>"
  have "HASH_FIND (signals ?pm1) ''@init_lua_sub_modules'' = None"
    by (simp add: env_start_sel demo_lua_pm_def umplg_new_mngr_def add_cmd_id_map_item_def HASH_FIND_def)
  then obtain reg where su: "lua_env_setup idle_hcode 0 ?pm1 = (0, reg, ?pm1)"
    by (simp add: lua_env_setup_def umplg_proc_signal_def Let_def)
  have E: "le_active (env_mem (wld ?pm1) 0)" "le_interval (env_mem (wld ?pm1) 0) = 0" "le_conserve_mem (env_mem (wld ?pm1) 0)"
    "lua_evs (wld ?pm1) = []"
    by (simp_all add: env_start_sel demo_lua_pm_def demo_lua_w_def demo_lua_env_def umplg_new_mngr_def add_cmd_id_map_item_def)
  then have st: "env_pause (le_interval (env_mem (wld ?pm1) 0)) = (0, 0)" by (simp add: env_pause_def)
  note T = env_thread_ends [OF su refl E(1) st]
  have l: "never_loads (\<lambda>(_ :: nat) _. (LUA_ERRFILE, 0)) (env_mem (wld ?pm1) 0)" "loads (\<lambda>(_ :: nat) _. (LUA_OK, 0)) (env_mem (wld ?pm1) 0)"
    "script_does (\<lambda>c q. Some (0, demo_cell, q)) 0 []"
    by (simp_all add: never_loads_def loads_def load_code_def script_does_def)
  from T [THEN conjunct2, THEN conjunct2, THEN conjunct2, THEN conjunct1, of "\<lambda>_ _. (LUA_ERRFILE, 0)" "\<lambda>i. i = 3" ?now "\<lambda>reg c q. None" 3] l E
  have "\<exists>pm'. th_lua_env idle_hcode (\<lambda>i. i = 3) (\<lambda>_ _. (LUA_ERRFILE, 0)) ?now (\<lambda>reg c q. None) 0 (demo_lua_pm True) = Some pm' \<and>
      lua_evs (wld pm') = replicate 3 (Nanosleep 0 0) @ [Lua_close]" by simp
  moreover from T [THEN conjunct2, THEN conjunct1, of "\<lambda>reg c q. Some (0, demo_cell, q)" "[]" "\<lambda>_ _. (LUA_OK, 0)" "\<lambda>i. False" ?now] l E
  have "\<exists>pm'. th_lua_env idle_hcode (\<lambda>i. False) (\<lambda>_ _. (LUA_OK, 0)) ?now (\<lambda>reg c q. Some (0, demo_cell, q)) 0 (demo_lua_pm True) =
      Some pm' \<and> lua_evs (wld pm') = [Lua_close]" by simp
  ultimately show ?thesis by blast
qed

text \<open>
  (C24) The shutdown of the core joins the server of the command line, then exactly the threads the start created (if
  all of them could be created), and only then frees every environment, each once, leaving none.
\<close>

theorem lua_shutdown_order:
  assumes "envs_wf (wld pm)" and "\<forall>e \<in> set (HASH_ITER (envs (wld pm))). created e"
    and "envs (wld pm2) = envs (wld pm)" and "env_mem (wld pm2) = env_mem (wld pm)"
    and "act = filter (\<lambda>e. le_active (env_mem (wld pm) e)) (HASH_ITER (envs (wld pm)))"
  shows "lua_evs (wld (umlua_start created pm)) = lua_evs (wld pm) @ map (\<lambda>e. Th_create (Some e)) act @ [Th_create None] \<and>
    lua_evs (wld (fst (umlua_shutdown sq pm2 w))) = lua_evs (wld pm2) @
      [Th_join None] @ map (\<lambda>e. Th_join (Some e)) act @ map Env_free (HASH_ITER (envs (wld pm))) \<and>
    envs (wld (fst (umlua_shutdown sq pm2 w))) = []"
proof -
  have start: "filter (\<lambda>e. le_active (env_mem (wld pm) e) \<and> created e) (HASH_ITER (envs (wld pm))) = act"
    unfolding assms(5) using assms(2) by (metis (no_types, lifting) filter_cong)
  have "envs_wf (wld pm2)" using assms(1,3,4) by (simp add: envs_wf_def)
  from umlua_shutdown_eq [OF this refl, of sq w] umlua_start_eq [of created pm] start show ?thesis
    by (simp add: assms(3-5) upd_w_def)
qed

definition demo_started :: lua_pm where
  "demo_started = upd_w (\<lambda>s. s\<lparr>envs := [(''e'', 0)]\<rparr>) (demo_lua_pm False)"

lemma lua_shutdown_order_witness:
  "lua_evs (wld (fst (umlua_shutdown demo_sqlite demo_started \<lparr>dq_sql = [], dq_arg = \<lambda>_. None, dq_tbl = \<lambda>_. None\<rparr>))) =
     [Th_join None, Th_join (Some 0), Env_free 0]"
proof -
  have s: "wld demo_started = (demo_lua_w False)\<lparr>envs := [(''e'', 0)]\<rparr>" by (simp add: demo_started_def upd_w_def)
  have "envs_wf (wld demo_started)"
    by (simp add: envs_wf_def s uthash_wf_def demo_lua_w_def demo_lua_env_def)
  moreover have "\<forall>e \<in> set (HASH_ITER (envs (wld demo_started))). True" by simp
  ultimately show ?thesis
    using lua_shutdown_order [of demo_started "\<lambda>_. True" demo_started _ demo_sqlite "\<lparr>dq_sql = [], dq_arg = \<lambda>_. None, dq_tbl = \<lambda>_. None\<rparr>", OF _ _ refl refl refl]
    by (simp add: s HASH_ITER_def demo_lua_w_def demo_lua_env_def)
qed

section \<open>The command line\<close>

text \<open>A client that keeps its messages below the size of the buffer stays inside of it; one that fills it does not.\<close>

lemma cli_loop_inside:
  assumes "\<forall>msg. Recv_data msg \<in> set es \<longrightarrow> length msg < CLI_BUF" and "\<not> cli_oob c"
  shows "\<not> cli_oob (cli_loop loadstring pcall es c)"
  using assms
proof (induction es arbitrary: c)
  case (Cons ev es)
  then show ?case by (cases ev) (auto simp: cli_message_def Let_def split_beta split: option.split)
qed simp

lemma cli_client_overflow:
  "length msg = CLI_BUF \<Longrightarrow> cli_oob (th_cli_client hs loadstring pcall s [Recv_data msg] pm)"
  by (simp add: th_cli_client_def cli_message_def Let_def split_beta split: option.split)

text \<open>When a client cannot be accepted, the listening socket is closed twice.\<close>

lemma cli_server_double_close:
  assumes "0 < s"
  shows "lua_evs (th_cli_server s 0 0 [Accept_error] w) = lua_evs w @ [Sock_close (- 1), Sock_close s, Sock_close s]"
  using assms by (simp add: th_cli_server_def emit_def)

end
