(* ===== verification/Agent.thy ===== *)
theory Agent
  imports Sysagentd Umlua_cfg
begin

text \<open>
  The whole system agent: the main program of \<open>Sysagentd\<close> with the entry points of the Lua core from \<open>Umlua_cfg\<close>
  in place of its parameters, as \<^verbatim>\<open>src/src/services/sysagent/sysagentd.c\<close> calls them.

  The parsed configuration file is an address in \<^verbatim>\<open>pm->cfg\<close>; \<open>jval\<close> gives the document there. \<open>w0\<close> and \<open>w1\<close> are
  the states of SQLite when the core starts and when it is shut down.
\<close>

definition lua_agent ::
  "('q, 's) sqlite3_api \<Rightarrow> 'j json_api \<Rightarrow> (nat \<Rightarrow> 'j) \<Rightarrow> lua_code \<Rightarrow> (string \<Rightarrow> int option option) \<Rightarrow> perf_d \<Rightarrow>
   (nat \<Rightarrow> bool) \<Rightarrow> 'q \<Rightarrow> 'q \<Rightarrow> lua_w agent_in \<Rightarrow> lua_w agent_in"
where
  "lua_agent sq J jval A fsize pf0 created w0 w1 inp =
     inp\<lparr>in_lua_init := (\<lambda>pm. fst (snd (umlua_init (in_hs inp) sq J A fsize pf0 (map_option jval (cfg pm)) pm w0))),
         in_lua_start := umlua_start created,
         in_lua_shutdown := (\<lambda>pm. fst (umlua_shutdown sq pm w1))\<rparr>"

section \<open>What the plugins leave alone\<close>

text \<open>
  The part of the state that is the Lua core's, and what it relies on in the handlers of plugins: they do not touch
  that part, and a plugin's initialisation may add signals but not replace or change those already registered.
\<close>

definition lua_part :: "lua_w \<Rightarrow> (string, nat) uthash \<times> (nat \<Rightarrow> lua_env_d) \<times> (nat \<Rightarrow> sh_argv) \<times> lua_ev list" where
  "lua_part s = (envs s, env_mem s, argv_mem s, lua_evs s)"

definition sigs_kept :: "lua_pm \<Rightarrow> lua_pm \<Rightarrow> bool" where
  "sigs_kept pm pm' \<longleftrightarrow> lua_part (wld pm') = lua_part (wld pm) \<and>
     (\<forall>nm p. HASH_FIND (signals pm) nm = Some p \<longrightarrow>
        HASH_FIND (signals pm') nm = Some p \<and> sh_mem pm' p = sh_mem pm p)"



lemma sigs_kept_refl [simp]: "sigs_kept pm pm"
  by (simp add: sigs_kept_def)



lemma fold_add_hook_sel [simp]:
  "signals (fold (add_hook p) cs pm) = signals pm" "sh_mem (fold (add_hook p) cs pm) = sh_mem pm"
  "wld (fold (add_hook p) cs pm) = wld pm"
  by (induction cs arbitrary: pm) (simp_all add: add_hook_def)





section \<open>The environments after the configuration\<close>













lemma cfg_dbs_evs [simp]: "lua_evs (wld (fst (cfg_dbs sq J c pm w))) = lua_evs (wld pm)"
  by (auto simp: cfg_dbs_def upd_w_def Let_def split_beta split: option.split)



section \<open>Start-up\<close>




lemma lua_agent_sel [simp]:
  "in_opts (lua_agent sq J jval A fsize pf0 created w0 w1 base) = in_opts base"
  "in_file (lua_agent sq J jval A fsize pf0 created w0 w1 base) = in_file base"
  "in_parse (lua_agent sq J jval A fsize pf0 created w0 w1 base) = in_parse base"
  "in_hs (lua_agent sq J jval A fsize pf0 created w0 w1 base) = in_hs base"
  "in_sigs (lua_agent sq J jval A fsize pf0 created w0 w1 base) = in_sigs base"
  "in_lua_init (lua_agent sq J jval A fsize pf0 created w0 w1 base) =
     (\<lambda>pm. fst (snd (umlua_init (in_hs base) sq J A fsize pf0 (map_option jval (cfg pm)) pm w0)))"
  "in_lua_start (lua_agent sq J jval A fsize pf0 created w0 w1 base) = umlua_start created"
  "in_lua_shutdown (lua_agent sq J jval A fsize pf0 created w0 w1 base) = (\<lambda>pm. fst (umlua_shutdown sq pm w1))"
  by (simp_all add: lua_agent_def)







section \<open>Property\<close>







end
