(* ===== verification/Mosq_auth.thy ===== *)
theory Mosq_auth
  imports Umdb Jsonc Uthash
begin

text \<open>
  The two Mosquitto authentication plugins:
  \<^verbatim>\<open>plg_mosquitto_auth_v5.c\<close> (callbacks for login, access control and messages, with a ban for
  repeated failures and JWT logins) and \<^verbatim>\<open>plg_mosquitto_auth.c\<close> (plugin interface version 4),
  both under \<^verbatim>\<open>src/src/services/sysagent/plugins/mosquitto_auth/\<close>.

  The broker, libjwt, json-c and SQLite are arguments. The static variables of the plugin are
  the record \<open>mosq_st\<close>; the list of users with failed logins is a hash table of addresses into
  \<open>um_mem\<close>. The clocks read during one callback are the record \<open>auth_clk\<close>.
\<close>

section \<open>Data\<close>

datatype mosq_err_t = MOSQ_ERR_SUCCESS | MOSQ_ERR_AUTH | MOSQ_ERR_MALFORMED_PACKET | MOSQ_ERR int

record user_ban =
  max_failed_nr :: u32
  failed_time_span :: u32
  ban_duration :: u32

record umuser_d =
  um_username :: string
  first_failed_ts :: int
  failed_nr :: u32
  banned_until_ts :: int

record mosq_st =
  db_name :: "string option"
  user_ban_cfg :: user_ban
  dbm :: "umdb_mngrd option"
  mosq_pid :: "nat option"
  jwt_public_key :: "string option"
  jwt_private_key :: "string option"
  jwt_exp :: int
  umusers :: "(string, nat) uthash"
  um_mem :: "umuser_d list"

definition mosq_st0 :: mosq_st where
  "mosq_st0 = \<lparr>db_name = None, user_ban_cfg = \<lparr>max_failed_nr = 3, failed_time_span = 60, ban_duration = 300\<rparr>,
     dbm = None, mosq_pid = None, jwt_public_key = None, jwt_private_key = None, jwt_exp = 600, umusers = [], um_mem = []\<rparr>"

text \<open>libjwt: a decoded token is a value of type \<open>'t\<close>.\<close>

record 't jwt_api =
  jwt_valid_new_ok :: bool
  jwt_decode :: "string \<Rightarrow> string \<Rightarrow> 't option"
  jwt_validate :: "'t \<Rightarrow> int \<Rightarrow> int"
  jwt_get_grants_json :: "'t \<Rightarrow> string option"

record auth_clk =
  clk_valid :: int
  clk_now :: int
  clk_mono :: int

section \<open>Login\<close>

definition jwt_parse :: "'j json_api \<Rightarrow> string option \<Rightarrow> umdb_uauth_d \<Rightarrow> int \<times> umdb_uauth_d \<times> int" where
  "jwt_parse J data uauth =
     (case data of
        None \<Rightarrow> (1, uauth, 0)
      | Some d \<Rightarrow>
        (case json_tokener_parse J d of
           None \<Rightarrow> (1, uauth, 0)
         | Some j \<Rightarrow>
           (case (json_object_object_get J j ''usr_id'', json_object_object_get J j ''usr'', json_object_object_get J j ''iat'') of
              (Some j_usr_id, Some j_usr, Some j_iat) \<Rightarrow>
                (0, uauth\<lparr>ua_auth := 1, ua_usr := Some (json_object_get_string J j_usr),
                      ua_id := json_object_get_int J (Some j_usr_id),
                      ua_flags := json_object_get_int J (json_object_object_get J j ''usr_flgs'')\<rparr>,
                 json_object_get_int J (Some j_iat))
            | _ \<Rightarrow> (1, uauth, 0))))"

definition uauth0 :: umdb_uauth_d where
  "uauth0 = \<lparr>ua_auth = 0, ua_id = 0, ua_flags = - 1, ua_usr = None\<rparr>"

text \<open>
  The JWT part of the login: the user descriptor it leaves, and whether the token is accepted. The time the
  token was issued and the configured lifetime are added as two \<^verbatim>\<open>int\<close> values of 32 bits, without a check;
  an overflow is undefined in C and wraps around here, as on the hardware.
\<close>

definition jwt_login ::
  "'j json_api \<Rightarrow> 't jwt_api \<Rightarrow> auth_clk \<Rightarrow> int \<Rightarrow> string \<Rightarrow> string \<Rightarrow> umdb_uauth_d \<times> bool"
where
  "jwt_login J X clk expi key username =
     (case jwt_decode X username key of
        None \<Rightarrow> (uauth0, False)
      | Some t \<Rightarrow>
          if jwt_validate X t (clk_valid clk) = 0 then
            (case jwt_parse J (jwt_get_grants_json X t) uauth0 of
               (r, ua, iat) \<Rightarrow>
                 if r = 0 then
                   if c_int (iat + expi) > clk_now clk then (ua, True) else (ua\<lparr>ua_auth := 0\<rparr>, False)
                 else (uauth0, False))
          else (uauth0, False))"

text \<open>The ban check, the failure counters and the final reset, for the user's list entry.\<close>

definition umuser_check :: "user_ban \<Rightarrow> int \<Rightarrow> bool \<Rightarrow> umuser_d \<Rightarrow> mosq_err_t \<times> umuser_d" where
  "umuser_check cfg now authed um =
     (if banned_until_ts um > 0 then
        if now \<le> banned_until_ts um then (MOSQ_ERR_AUTH, um)
        else (MOSQ_ERR_SUCCESS, um\<lparr>banned_until_ts := 0, failed_nr := 0, first_failed_ts := 0\<rparr>)
      else if \<not> authed then
        let um1 = um\<lparr>failed_nr := failed_nr um + 1\<rparr>;
            um2 = (if failed_nr um1 = 1 then um1\<lparr>first_failed_ts := now\<rparr> else um1);
            um3 = (if now - first_failed_ts um2 > int (unat (failed_time_span cfg))
                   then um2\<lparr>failed_nr := 1, first_failed_ts := now\<rparr> else um2);
            um4 = (if failed_nr um3 \<ge> max_failed_nr cfg
                   then um3\<lparr>banned_until_ts := now + int (unat (ban_duration cfg))\<rparr> else um3)
        in (MOSQ_ERR_AUTH, um4)
      else (MOSQ_ERR_SUCCESS, um\<lparr>banned_until_ts := 0, failed_nr := 0, first_failed_ts := 0\<rparr>))"

text \<open>A new list entry, from \<^verbatim>\<open>calloc\<close>.\<close>

definition new_umuser :: "string \<Rightarrow> umuser_d" where
  "new_umuser u = \<lparr>um_username = u, first_failed_ts = 0, failed_nr = 0, banned_until_ts = 0\<rparr>"

definition get_umuser :: "string \<Rightarrow> mosq_st \<Rightarrow> nat \<times> mosq_st" where
  "get_umuser u st =
     (case HASH_FIND (umusers st) u of
        Some a \<Rightarrow> (a, st)
      | None \<Rightarrow> (length (um_mem st), st\<lparr>umusers := HASH_ADD (umusers st) u (length (um_mem st)),
                                        um_mem := um_mem st @ [new_umuser u]\<rparr>))"

text \<open>
  \<open>file\<close> gives the contents of the public key file, of which at most 2048 bytes are read. The
  result is the return code, the username the broker is told to use, the plugin state and the
  engine state.
\<close>

definition cb_basic_auth ::
  "('w, 's) sqlite3_api \<Rightarrow> 'j json_api \<Rightarrow> 't jwt_api \<Rightarrow> (string option \<Rightarrow> string option) \<Rightarrow> auth_clk \<Rightarrow>
     mosq_st \<Rightarrow> string option \<Rightarrow> string option \<Rightarrow> 'w \<Rightarrow> mosq_err_t \<times> string option \<times> mosq_st \<times> 'w"
where
  "cb_basic_auth sq J X file clk st username password w =
     (case username of
        None \<Rightarrow> (MOSQ_ERR_AUTH, None, st, w)
      | Some u \<Rightarrow>
        (case file (jwt_public_key st) of
           None \<Rightarrow> (MOSQ_ERR_AUTH, None, st, w)
         | Some key \<Rightarrow>
             if \<not> jwt_valid_new_ok X then (MOSQ_ERR_AUTH, None, st, w)
             else
               let (ua, use_jwt) = jwt_login J X clk (jwt_exp st) (take 2048 key) u;
                   usr = (if use_jwt then the (ua_usr ua) else u);
                   setname = (if use_jwt then Some usr else None);
                   ((rc, res), w1) = run_state (umdb_mngr_uauth sq (dbm st) (Some ua) (Some usr) password) w
               in if rc \<noteq> 0 then (MOSQ_ERR_AUTH, setname, st, w1)
                  else if ua_id (the res) < 1 then (MOSQ_ERR_AUTH, setname, st, w1)
                  else let (a, st1) = get_umuser usr st;
                           (r, um) = umuser_check (user_ban_cfg st) (clk_mono clk) (ua_auth (the res) = 1) (um_mem st1 ! a)
                       in (r, setname, st1\<lparr>um_mem := (um_mem st1)[a := um]\<rparr>, w1)))"

section \<open>Access control and messages\<close>

text \<open>\<open>g\<close> is the content of the uninitialised descriptor on the stack.\<close>

definition cb_acl_check ::
  "('w, 's) sqlite3_api \<Rightarrow> umdb_uauth_d \<Rightarrow> mosq_st \<Rightarrow> string option \<Rightarrow> string \<Rightarrow> 'w \<Rightarrow> mosq_err_t \<times> 'w"
where
  "cb_acl_check sq g st username topic w =
     (case username of
        None \<Rightarrow> (MOSQ_ERR_AUTH, w)
      | Some u \<Rightarrow>
          let ((rc, res), w1) = run_state (umdb_mngr_uget sq (dbm st) (Some g) (Some u)) w
          in if rc = 0 then
               if ua_id (the res) < 1 then (MOSQ_ERR_AUTH, w1)
               else if strncmp_eq topic ''mink/admin/'' 11 \<and> ua_flags (the res) \<noteq> 1 then (MOSQ_ERR_AUTH, w1)
               else (MOSQ_ERR_SUCCESS, w1)
             else (MOSQ_ERR_AUTH, w1))"

text \<open>The user header of a message: whether the sender asks to skip it, and the payload without it.\<close>

definition strip_musr :: "'j json_api \<Rightarrow> 'j \<Rightarrow> bool \<times> 'j" where
  "strip_musr J j =
     (case json_object_object_get J j ''mink_usr'' of
        None \<Rightarrow> (False, j)
      | Some j_musr \<Rightarrow>
          ((case json_object_object_get J j_musr ''skip'' of
              None \<Rightarrow> False
            | Some sk \<Rightarrow> json_object_is_type J sk Json_boolean \<and> json_object_get_boolean J sk),
           json_object_object_del J j ''mink_usr''))"

definition wrap_musr :: "'j json_api \<Rightarrow> umdb_uauth_d \<Rightarrow> 'j \<Rightarrow> 'j" where
  "wrap_musr J ua j =
     (let j_musr = json_object_object_add J (json_object_object_add J (json_object_new_object J)
                     ''uid'' (json_object_new_int J (ua_id ua))) ''flags'' (json_object_new_int J (ua_flags ua))
      in json_object_object_add J (json_object_object_add J (json_object_new_object J) ''mink_usr'' j_musr) ''mink_pld'' j)"

text \<open>
  The result carries the payload the broker goes on with. The JSON parser gets the payload as a C
  string, up to its first NUL.
\<close>

definition cb_pld_mod ::
  "('w, 's) sqlite3_api \<Rightarrow> 'j json_api \<Rightarrow> umdb_uauth_d \<Rightarrow> mosq_st \<Rightarrow> string option \<Rightarrow> string \<Rightarrow> string \<Rightarrow> 'w \<Rightarrow>
     mosq_err_t \<times> string \<times> 'w"
where
  "cb_pld_mod sq J g st username topic payload w =
     (if \<not> strncmp_eq topic ''mink/'' 5 then (MOSQ_ERR_SUCCESS, payload, w)
      else
        let ((rc, res), w1) = run_state (umdb_mngr_uget sq (dbm st) (Some g) username) w
        in if rc \<noteq> 0 then (MOSQ_ERR_AUTH, payload, w1)
           else (case json_tokener_parse J (c_str payload) of
                   None \<Rightarrow> (MOSQ_ERR_SUCCESS, payload, w1)
                 | Some j \<Rightarrow>
                     let (skip, j1) = strip_musr J j;
                         j2 = (if skip then j1 else wrap_musr J (the res) j1)
                     in (case json_object_to_json_string_ext J j2 of
                           None \<Rightarrow> (MOSQ_ERR_MALFORMED_PACKET, payload, w1)
                         | Some npld \<Rightarrow> (MOSQ_ERR_SUCCESS, npld, w1))))"

section \<open>Plugin set-up\<close>

definition mosquitto_plugin_version :: "int list \<Rightarrow> int" where
  "mosquitto_plugin_version supported = (if 5 \<in> set supported then 5 else - 1)"

definition opt_word :: "string \<Rightarrow> u32" where
  "opt_word v = of_int (c_atoi v)"

definition plugin_opt :: "string \<times> string \<Rightarrow> mosq_st \<Rightarrow> mosq_st" where
  "plugin_opt kv st =
     (let (k, v) = kv; cfg = user_ban_cfg st
      in if strncmp_eq k ''db_name'' 7 then st\<lparr>db_name := Some v\<rparr>
         else if strncmp_eq k ''max_failed_logins'' 17 then st\<lparr>user_ban_cfg := cfg\<lparr>max_failed_nr := opt_word v\<rparr>\<rparr>
         else if strncmp_eq k ''failed_login_time_span'' 22 then st\<lparr>user_ban_cfg := cfg\<lparr>failed_time_span := opt_word v\<rparr>\<rparr>
         else if strncmp_eq k ''failed_login_ban_duration'' 26 then st\<lparr>user_ban_cfg := cfg\<lparr>ban_duration := opt_word v\<rparr>\<rparr>
         else if strncmp_eq k ''jwt_public_key'' 14 then st\<lparr>jwt_public_key := Some v\<rparr>
         else if strncmp_eq k ''jwt_private_key'' 15 then st\<lparr>jwt_private_key := Some v\<rparr>
         else if strncmp_eq k ''jwt_expiration'' 14 then st\<lparr>jwt_exp := c_atoi v\<rparr>
         else st)"

text \<open>\<open>reg\<close> is the broker's answer to the registration of the three callbacks, in this order.\<close>

definition mosquitto_plugin_init ::
  "('w, 's) sqlite3_api \<Rightarrow> (nat \<Rightarrow> mosq_err_t) \<Rightarrow> nat \<Rightarrow> (string \<times> string) list \<Rightarrow> mosq_st \<Rightarrow> 'w \<Rightarrow> mosq_err_t \<times> mosq_st \<times> 'w"
where
  "mosquitto_plugin_init sq reg ident opts st w =
     (let st1 = fold plugin_opt opts st
      in case db_name st1 of
           None \<Rightarrow> (MOSQ_ERR_AUTH, st1, w)
         | Some n \<Rightarrow>
             let (m, w1) = run_state (umdb_mngr_new sq (Some n) False) w; st2 = st1\<lparr>dbm := m\<rparr>
             in if m = None then (MOSQ_ERR_AUTH, st2, w1)
                else if reg 0 \<noteq> MOSQ_ERR_SUCCESS then (reg 0, st2, w1)
                else if reg 1 \<noteq> MOSQ_ERR_SUCCESS then (reg 1, st2, w1)
                else if reg 2 \<noteq> MOSQ_ERR_SUCCESS then (reg 2, st2, w1)
                else (MOSQ_ERR_SUCCESS, st2\<lparr>mosq_pid := Some ident\<rparr>, w1))"

definition mosquitto_plugin_cleanup :: "('w, 's) sqlite3_api \<Rightarrow> mosq_st \<Rightarrow> 'w \<Rightarrow> mosq_err_t \<times> mosq_st \<times> 'w" where
  "mosquitto_plugin_cleanup sq st w =
     (if mosq_pid st \<noteq> None then
        (MOSQ_ERR_SUCCESS, st\<lparr>umusers := uth.drain (umusers st)\<rparr>, snd (run_state (umdb_mngr_free sq (dbm st)) w))
      else (MOSQ_ERR_SUCCESS, st, w))"

section \<open>The version 4 plugin\<close>

definition mosquitto_auth_plugin_init ::
  "('w, 's) sqlite3_api \<Rightarrow> (string \<times> string) list \<Rightarrow> mosq_st \<Rightarrow> 'w \<Rightarrow> mosq_err_t \<times> mosq_st \<times> 'w"
where
  "mosquitto_auth_plugin_init sq opts st w =
     (let st1 = fold (\<lambda>(k, v) s. if strncmp_eq k ''db_name'' 7 then s\<lparr>db_name := Some v\<rparr> else s) opts st
      in case db_name st1 of
           None \<Rightarrow> (MOSQ_ERR_AUTH, st1, w)
         | Some n \<Rightarrow>
             let (m, w1) = run_state (umdb_mngr_new sq (Some n) False) w; st2 = st1\<lparr>dbm := m\<rparr>
             in if m = None then (MOSQ_ERR_AUTH, st2, w1) else (MOSQ_ERR_SUCCESS, st2, w1))"

definition mosquitto_auth_unpwd_check ::
  "('w, 's) sqlite3_api \<Rightarrow> umdb_uauth_d \<Rightarrow> mosq_st \<Rightarrow> string option \<Rightarrow> string option \<Rightarrow> 'w \<Rightarrow> mosq_err_t \<times> 'w"
where
  "mosquitto_auth_unpwd_check sq g st username password w =
     (case username of
        None \<Rightarrow> (MOSQ_ERR_AUTH, w)
      | Some u \<Rightarrow>
          let ((rc, res), w1) = run_state (umdb_mngr_uauth sq (dbm st) (Some g) (Some u) password) w
          in if rc = 0 then (if ua_auth (the res) \<noteq> 1 then MOSQ_ERR_AUTH else MOSQ_ERR_SUCCESS, w1)
             else (MOSQ_ERR_AUTH, w1))"

text \<open>The version 4 access check has the same body as the version 5 callback.\<close>

definition mosquitto_auth_acl_check ::
  "('w, 's) sqlite3_api \<Rightarrow> umdb_uauth_d \<Rightarrow> mosq_st \<Rightarrow> string option \<Rightarrow> string \<Rightarrow> 'w \<Rightarrow> mosq_err_t \<times> 'w"
where
  "mosquitto_auth_acl_check sq g st username topic w =
     (case username of
        None \<Rightarrow> (MOSQ_ERR_AUTH, w)
      | Some u \<Rightarrow>
          let ((rc, res), w1) = run_state (umdb_mngr_uget sq (dbm st) (Some g) (Some u)) w
          in if rc = 0 then
               if ua_id (the res) < 1 then (MOSQ_ERR_AUTH, w1)
               else if strncmp_eq topic ''mink/admin/'' 11 \<and> ua_flags (the res) \<noteq> 1 then (MOSQ_ERR_AUTH, w1)
               else (MOSQ_ERR_SUCCESS, w1)
             else (MOSQ_ERR_AUTH, w1))"

section \<open>Lemmas\<close>

lemma jwt_login_cases:
  assumes "jwt_login J X clk e key u = (ua, use_jwt)"
  shows "use_jwt \<Longrightarrow> ua_auth ua = 1 \<and> ua_usr ua \<noteq> None" "\<not> use_jwt \<Longrightarrow> ua_auth ua \<noteq> 1"
  using assms by (auto simp: jwt_login_def jwt_parse_def uauth0_def split: option.splits if_splits)

lemma uauth_jwt:
  "ua_auth ua = 1 \<Longrightarrow> run_state (umdb_mngr_uauth sq m (Some ua) u p) w = ((0, Some ua), w)"
  by (simp add: umdb_mngr_uauth_def)

lemma uauth_no_password:
  "ua_auth ua \<noteq> 1 \<Longrightarrow> run_state (umdb_mngr_uauth sq m (Some ua) u None) w = ((1, Some ua), w)"
  by (simp add: umdb_mngr_uauth_def split: option.split)

text \<open>A successful password login through the database.\<close>

lemma uauth_password:
  assumes "stmt_laws sq V" and "auth_law sq V users" and "ua_auth ua \<noteq> 1"
    and "run_state (umdb_mngr_uauth sq (Some \<lparr>mngr_db = Some h\<rparr>) (Some ua) (Some u) p) w = ((0, res), w')"
    and "1 \<le> ua_id (the res)"
  obtains pw i f pwd where "p = Some pw" "users (v_db V w) u = Some (i, f, pwd)" "1 \<le> i"
    "ua_auth (the res) = 1 \<longleftrightarrow> pwd = pw"
proof (cases p)
  case None
  with uauth_no_password [OF assms(3), of sq "Some \<lparr>mngr_db = Some h\<rparr>" "Some u" w] assms(4) show thesis by simp
next
  case (Some pw)
  from umdb_uauth_effect [OF assms(1-3)] assms(4) Some
  have "the res = (case users (v_db V w) u of
      None \<Rightarrow> ua\<lparr>ua_auth := - 1, ua_id := - 1, ua_flags := 0\<rparr>
    | Some (i, f, pwd) \<Rightarrow> ua\<lparr>ua_auth := (if pwd = pw then 1 else 0), ua_id := i, ua_flags := f\<rparr>)"
    by fastforce
  with assms(5) show thesis
    by (cases "users (v_db V w) u") (auto intro: that [OF Some] split: if_splits)
qed

text \<open>\<open>uname_of\<close>: the name a login is about.\<close>

definition uname_of :: "'j json_api \<Rightarrow> 't jwt_api \<Rightarrow> auth_clk \<Rightarrow> mosq_st \<Rightarrow> string \<Rightarrow> string \<Rightarrow> string" where
  "uname_of J X clk st key u =
     (case jwt_login J X clk (jwt_exp st) (take 2048 key) u of (ua, use_jwt) \<Rightarrow> if use_jwt then the (ua_usr ua) else u)"

text \<open>
  What a token has to be, whatever the plugin computes: its signature is that of the key, its claims are valid at
  the time of the login, they name the user \<open>usr\<close> with the id \<open>i\<close>, and it was issued less than the configured
  time ago.
\<close>

definition token_names ::
  "'j json_api \<Rightarrow> 't jwt_api \<Rightarrow> auth_clk \<Rightarrow> int \<Rightarrow> string \<Rightarrow> string \<Rightarrow> string \<Rightarrow> int \<Rightarrow> bool"
where
  "token_names J X clk expi key u usr i \<longleftrightarrow> (\<exists>t d j j_id j_usr j_iat.
     jwt_decode X u key = Some t \<and> jwt_validate X t (clk_valid clk) = 0 \<and>
     jwt_get_grants_json X t = Some d \<and> json_tokener_parse J d = Some j \<and>
     json_object_object_get J j ''usr_id'' = Some j_id \<and> json_object_get_int J (Some j_id) = i \<and>
     json_object_object_get J j ''usr'' = Some j_usr \<and> json_object_get_string J j_usr = usr \<and>
     json_object_object_get J j ''iat'' = Some j_iat \<and>
     clk_now clk < c_int (json_object_get_int J (Some j_iat) + expi))"

lemma jwt_login_token:
  "jwt_login J X clk expi key u = (ua, True) \<Longrightarrow> token_names J X clk expi key u (the (ua_usr ua)) (ua_id ua)"
  by (fastforce simp: jwt_login_def jwt_parse_def token_names_def split: option.splits if_splits)

lemma token_jwt_login:
  "token_names J X clk expi key u usr i \<Longrightarrow>
    \<exists>ua. jwt_login J X clk expi key u = (ua, True) \<and> ua_usr ua = Some usr \<and> ua_id ua = i \<and> ua_auth ua = 1"
  by (auto simp: jwt_login_def jwt_parse_def token_names_def)

text \<open>The login past its preliminaries.\<close>

lemma cb_basic_auth_eq:
  assumes "file (jwt_public_key st) = Some key" and "jwt_valid_new_ok X"
    and "jwt_login J X clk (jwt_exp st) (take 2048 key) u = (ua, use_jwt)" and "usr = uname_of J X clk st key u"
    and "run_state (umdb_mngr_uauth sq (dbm st) (Some ua) (Some usr) password) w = ((rc, res), w1)"
    and "get_umuser usr st = (a, st1)"
    and "umuser_check (user_ban_cfg st) (clk_mono clk) (ua_auth (the res) = 1) (um_mem st1 ! a) = (r, um)"
  shows "cb_basic_auth sq J X file clk st (Some u) password w =
    (if rc \<noteq> 0 \<or> ua_id (the res) < 1 then (MOSQ_ERR_AUTH, if use_jwt then Some usr else None, st, w1)
     else (r, if use_jwt then Some usr else None, st1\<lparr>um_mem := (um_mem st1)[a := um]\<rparr>, w1))"
proof -
  have usr: "use_jwt \<Longrightarrow> the (ua_usr ua) = usr" "\<not> use_jwt \<Longrightarrow> usr = u"
    by (simp_all add: assms(3,4) uname_of_def)
  show ?thesis
    using usr assms(5-7) by (cases use_jwt) (simp_all add: cb_basic_auth_def assms(1,2,3) Let_def)
qed

lemma cb_basic_auth_SuccessE:
  assumes "cb_basic_auth sq J X file clk st username password w = (MOSQ_ERR_SUCCESS, sn, st', w')"
  obtains u key ua use_jwt res a st1 um where "username = Some u" "file (jwt_public_key st) = Some key"
    "jwt_login J X clk (jwt_exp st) (take 2048 key) u = (ua, use_jwt)"
    "run_state (umdb_mngr_uauth sq (dbm st) (Some ua) (Some (uname_of J X clk st key u)) password) w = ((0, res), w')"
    "1 \<le> ua_id (the res)" "get_umuser (uname_of J X clk st key u) st = (a, st1)"
    "umuser_check (user_ban_cfg st) (clk_mono clk) (ua_auth (the res) = 1) (um_mem st1 ! a) = (MOSQ_ERR_SUCCESS, um)"
    "sn = (if use_jwt then Some (uname_of J X clk st key u) else None)"
proof -
  from assms obtain u key where 1: "username = Some u" "file (jwt_public_key st) = Some key" "jwt_valid_new_ok X"
    by (auto simp: cb_basic_auth_def split: option.splits if_splits)
  obtain ua use_jwt where 2: "jwt_login J X clk (jwt_exp st) (take 2048 key) u = (ua, use_jwt)" by fastforce
  let ?usr = "uname_of J X clk st key u"
  obtain rc res w1 where 3: "run_state (umdb_mngr_uauth sq (dbm st) (Some ua) (Some ?usr) password) w = ((rc, res), w1)"
    by (metis prod.exhaust)
  obtain a st1 where 4: "get_umuser ?usr st = (a, st1)" by fastforce
  obtain r um where 5: "umuser_check (user_ban_cfg st) (clk_mono clk) (ua_auth (the res) = 1) (um_mem st1 ! a) = (r, um)"
    by fastforce
  from cb_basic_auth_eq [of "file", OF 1(2,3) 2 refl 3 4 5] assms 1(1) have "rc = 0" "1 \<le> ua_id (the res)" "r = MOSQ_ERR_SUCCESS" "w1 = w'"
    "sn = (if use_jwt then Some ?usr else None)"
    by (auto split: if_splits)
  with 1 2 3 4 5 that show thesis by blast
qed

lemma umuser_check_Success:
  assumes "umuser_check cfg now authed um = (MOSQ_ERR_SUCCESS, um')"
  shows "authed \<or> (0 < banned_until_ts um \<and> banned_until_ts um < now)"
    "um' = um\<lparr>banned_until_ts := 0, failed_nr := 0, first_failed_ts := 0\<rparr>"
  using assms by (auto simp: umuser_check_def Let_def split: if_splits)

section \<open>Failed logins\<close>

text \<open>The failed attempts of one user, at the given times.\<close>

primrec fails :: "user_ban \<Rightarrow> int list \<Rightarrow> umuser_d \<Rightarrow> umuser_d" where
  "fails cfg [] um = um"
| "fails cfg (t # ts) um = fails cfg ts (snd (umuser_check cfg t False um))"

lemma fails_append: "fails cfg (ts @ [t]) um = snd (umuser_check cfg t False (fails cfg ts um))"
  by (induction ts arbitrary: um) simp_all

text \<open>Below the limit the entry counts, and remembers the first failure.\<close>

lemma fails_below:
  assumes "length ts < unat (max_failed_nr cfg)"
    and "\<forall>t \<in> set ts. t - hd ts \<le> int (unat (failed_time_span cfg))"
  shows "fails cfg ts (new_umuser u) = (new_umuser u)
    \<lparr>failed_nr := of_nat (length ts), first_failed_ts := (if ts = [] then 0 else hd ts)\<rparr>"
  using assms
proof (induction ts rule: rev_induct)
  case Nil
  then show ?case by (simp add: new_umuser_def)
next
  case (snoc t ts)
  have IH: "fails cfg ts (new_umuser u) = (new_umuser u)
      \<lparr>failed_nr := of_nat (length ts), first_failed_ts := (if ts = [] then 0 else hd ts)\<rparr>"
    using snoc by (cases ts) auto
  have m: "unat (max_failed_nr cfg) < 2 ^ 32" using unsigned_less [of "max_failed_nr cfg", where ?'a = nat] by simp
  have n: "unat (of_nat (length ts) + 1 :: u32) = Suc (length ts)"
    using snoc.prems(1) m by (intro unat_of_nat_plus1) simp
  have lt: "(of_nat (length ts) + 1 :: u32) < max_failed_nr cfg"
    using snoc.prems(1) n by (simp add: word_less_nat_alt)
  show ?case
  proof (cases "ts = []")
    case True
    with IH lt show ?thesis
      by (auto simp: fails_append umuser_check_def new_umuser_def Let_def dest: leD)
  next
    case False
    then have "(of_nat (length ts) + 1 :: u32) \<noteq> 1" using n
      by (metis Suc_eq_plus1 add_cancel_left_left length_0_conv unat_1)
    moreover have "t - hd ts \<le> int (unat (failed_time_span cfg))" using snoc.prems(2) False by simp
    ultimately show ?thesis
      using IH lt False by (auto simp: fails_append umuser_check_def new_umuser_def Let_def add.commute dest: leD)
  qed
qed

text \<open>The failure that reaches the limit bans the user.\<close>

lemma fails_reach:
  assumes "length ts = unat (max_failed_nr cfg)" and "ts \<noteq> []"
    and "\<forall>t \<in> set ts. t - hd ts \<le> int (unat (failed_time_span cfg))"
  shows "banned_until_ts (fails cfg ts (new_umuser u)) = last ts + int (unat (ban_duration cfg))"
proof -
  obtain ts' t where ts: "ts = ts' @ [t]" using assms(2) by (metis rev_exhaust)
  have IH: "fails cfg ts' (new_umuser u) = (new_umuser u)
      \<lparr>failed_nr := of_nat (length ts'), first_failed_ts := (if ts' = [] then 0 else hd ts')\<rparr>"
    using assms by (intro fails_below) (cases ts'; auto simp: ts)+
  have m: "unat (max_failed_nr cfg) < 2 ^ 32" using unsigned_less [of "max_failed_nr cfg", where ?'a = nat] by simp
  have "unat (of_nat (length ts') + 1 :: u32) = Suc (length ts')"
    using assms(1) m by (intro unat_of_nat_plus1) (simp add: ts)
  then have n: "of_nat (length ts') + 1 = max_failed_nr cfg"
    using assms(1) by (simp add: ts word_unat_eq_iff)
  show ?thesis
  proof (cases "ts' = []")
    case True
    with IH n show ?thesis by (simp add: ts fails_append umuser_check_def new_umuser_def Let_def)
  next
    case False
    then have "(of_nat (length ts') + 1 :: u32) \<noteq> 1"
      using n assms(1) by (metis One_nat_def Suc_eq_plus1 add_cancel_left_left length_0_conv length_append_singleton ts unat_1)
    moreover have "t - hd ts' \<le> int (unat (failed_time_span cfg))" using assms(3) False by (simp add: ts)
    ultimately show ?thesis
      using IH n False by (simp add: ts fails_append umuser_check_def new_umuser_def Let_def)
  qed
qed

section \<open>Properties\<close>

text \<open>The broker as the instances below have it: no tokens, a readable key, a user \<open>admin\<close>.\<close>

definition demo_jwt :: "unit jwt_api" where
  "demo_jwt = \<lparr>jwt_valid_new_ok = True, jwt_decode = \<lambda>u k. None, jwt_validate = \<lambda>t n. 1, jwt_get_grants_json = \<lambda>t. None\<rparr>"

definition demo_js :: "json json_api" where
  "demo_js = demo_json (\<lambda>s. if s = ''{}'' then Some (JObj [(''mink_usr'', JInt 7), (''cmd'', JInt 1)]) else None) (\<lambda>j. Some ''out'')"

definition demo_clk :: "int \<Rightarrow> auth_clk" where
  "demo_clk t = \<lparr>clk_valid = 1000, clk_now = 1000, clk_mono = t\<rparr>"

definition demo_mst :: mosq_st where
  "demo_mst = mosq_st0\<lparr>dbm := Some \<lparr>mngr_db = Some 1\<rparr>\<rparr>"

text \<open>The user \<open>admin\<close> banned until second 500.\<close>

definition demo_banned :: mosq_st where
  "demo_banned = demo_mst\<lparr>umusers := [(''admin'', 0)],
     um_mem := [(new_umuser ''admin'')\<lparr>failed_nr := 3, first_failed_ts := 150, banned_until_ts := 500\<rparr>]\<rparr>"

lemma demo_jwt_login: "jwt_login J demo_jwt clk e key u = (uauth0, False)"
  by (simp add: jwt_login_def demo_jwt_def)

lemma demo_uauth:
  "\<exists>res w'. run_state (umdb_mngr_uauth demo_sqlite (Some \<lparr>mngr_db = Some 1\<rparr>) (Some uauth0) (Some u) (Some p)) demo_sq0 = ((0, res), w')"
  by (simp add: umdb_mngr_uauth_def umdb_bind_def umdb_cleanup_def demo_sqlite_def uauth0_def SQLITE_OK_def split_beta)

text \<open>Why a login succeeded, and that a valid token is enough for one.\<close>

lemma login_success_cause:
  assumes "stmt_laws sq V" and "auth_law sq V users" and "dbm st = Some \<lparr>mngr_db = Some h\<rparr>"
    and "cb_basic_auth sq J X file clk st username password w = (MOSQ_ERR_SUCCESS, sn, st', w')"
  shows "\<exists>u key. username = Some u \<and> file (jwt_public_key st) = Some key \<and>
      ((\<exists>usr i. token_names J X clk (jwt_exp st) (take 2048 key) u usr i \<and> 1 \<le> i \<and> sn = Some usr) \<or>
       (\<exists>pw i f. password = Some pw \<and> users (v_db V w) u = Some (i, f, pw) \<and> 1 \<le> i \<and> sn = None) \<or>
       (\<exists>a i f pw. users (v_db V w) u = Some (i, f, pw) \<and> 1 \<le> i \<and> HASH_FIND (umusers st) u = Some a \<and>
          0 < banned_until_ts (um_mem st ! a) \<and> banned_until_ts (um_mem st ! a) < clk_mono clk \<and> sn = None))"
proof -
  from cb_basic_auth_SuccessE [OF assms(4)] obtain u key ua use_jwt res a st1 um where
    d: "username = Some u" "file (jwt_public_key st) = Some key"
      "jwt_login J X clk (jwt_exp st) (take 2048 key) u = (ua, use_jwt)"
      "run_state (umdb_mngr_uauth sq (dbm st) (Some ua) (Some (uname_of J X clk st key u)) password) w = ((0, res), w')"
      "1 \<le> ua_id (the res)" "get_umuser (uname_of J X clk st key u) st = (a, st1)"
      "umuser_check (user_ban_cfg st) (clk_mono clk) (ua_auth (the res) = 1) (um_mem st1 ! a) = (MOSQ_ERR_SUCCESS, um)"
      "sn = (if use_jwt then Some (uname_of J X clk st key u) else None)"
    by metis
  let ?usr = "uname_of J X clk st key u"
  show ?thesis
  proof (cases use_jwt)
    case True
    then have "the res = ua" using d(4) jwt_login_cases(1) [OF d(3)] by (auto simp: uauth_jwt)
    moreover have "the (ua_usr ua) = ?usr" using True by (simp add: uname_of_def d(3))
    ultimately show ?thesis using True d jwt_login_token [of J X clk "jwt_exp st" "take 2048 key" u ua] by auto
  next
    case False
    then have u: "?usr = u" by (simp add: uname_of_def d(3))
    have "ua_auth ua \<noteq> 1" using jwt_login_cases(2) [OF d(3)] False by blast
    from uauth_password [OF assms(1,2) this d(4) [unfolded assms(3)] d(5)] obtain pw i f pwd where
      p: "password = Some pw" "users (v_db V w) u = Some (i, f, pwd)" "1 \<le> i" "ua_auth (the res) = 1 \<longleftrightarrow> pwd = pw"
      unfolding u by metis
    have "\<exists>a. HASH_FIND (umusers st) u = Some a \<and> 0 < banned_until_ts (um_mem st ! a) \<and>
        banned_until_ts (um_mem st ! a) < clk_mono clk" if "pwd \<noteq> pw"
      using umuser_check_Success(1) [OF d(7)] p(4) that d(6) [unfolded u]
      by (auto simp: get_umuser_def new_umuser_def split: option.splits)
    with p d(1,2,8) False show ?thesis by (cases "pwd = pw") auto
  qed
qed

lemma login_with_token:
  assumes "username = Some u" and "file (jwt_public_key st) = Some key" and "jwt_valid_new_ok X"
    and "token_names J X clk (jwt_exp st) (take 2048 key) u usr i" and "1 \<le> i"
    and "\<forall>a. HASH_FIND (umusers st) usr = Some a \<longrightarrow>
          \<not> (0 < banned_until_ts (um_mem st ! a) \<and> clk_mono clk \<le> banned_until_ts (um_mem st ! a))"
    and "cb_basic_auth sq J X file clk st username password w = (r, sn, st', w')"
  shows "r = MOSQ_ERR_SUCCESS \<and> sn = Some usr"
proof -
  from assms(4) obtain ua where ua: "jwt_login J X clk (jwt_exp st) (take 2048 key) u = (ua, True)"
    "ua_usr ua = Some usr" "ua_id ua = i" "ua_auth ua = 1" using token_jwt_login [of J X clk "jwt_exp st" "take 2048 key" u usr i] by blast
  have usr: "usr = uname_of J X clk st key u" by (simp add: uname_of_def ua)
  obtain a st1 where g: "get_umuser usr st = (a, st1)" by fastforce
  have "\<not> (0 < banned_until_ts (um_mem st1 ! a) \<and> clk_mono clk \<le> banned_until_ts (um_mem st1 ! a))"
    using assms(6) g by (auto simp: get_umuser_def new_umuser_def split: option.splits)
  then obtain um where c: "umuser_check (user_ban_cfg st) (clk_mono clk) (ua_auth (the (Some ua)) = 1) (um_mem st1 ! a) = (MOSQ_ERR_SUCCESS, um)"
    using ua(4) by (auto simp: umuser_check_def)
  from cb_basic_auth_eq [of "file", OF assms(2,3) ua(1) usr uauth_jwt [OF ua(4)] g c, of sq password w] assms(1,5,7) ua(3)
  show ?thesis by auto
qed

text \<open>
  (C25) Who gets in. A login succeeds only for a named user, and only with a JWT that was signed for the key,
  is valid, has not expired and names a user id of at least 1; or with the very password the database holds
  for a user with such an id; or if that user had been banned and the ban has just run out. (The last
  case needs no right password: see below.) A user with such a token who is not banned does get in, under the name in the
  token.
\<close>

theorem basic_auth_success_only:
  assumes "stmt_laws sq V" and "auth_law sq V users" and "dbm st = Some \<lparr>mngr_db = Some h\<rparr>"
    and "cb_basic_auth sq J X file clk st username password w = (r, sn, st', w')"
  shows "(r = MOSQ_ERR_SUCCESS \<longrightarrow> (\<exists>u key. username = Some u \<and> file (jwt_public_key st) = Some key \<and>
      ((\<exists>usr i. token_names J X clk (jwt_exp st) (take 2048 key) u usr i \<and> 1 \<le> i \<and> sn = Some usr) \<or>
       (\<exists>pw i f. password = Some pw \<and> users (v_db V w) u = Some (i, f, pw) \<and> 1 \<le> i \<and> sn = None) \<or>
       (\<exists>a i f pw. users (v_db V w) u = Some (i, f, pw) \<and> 1 \<le> i \<and> HASH_FIND (umusers st) u = Some a \<and>
          0 < banned_until_ts (um_mem st ! a) \<and> banned_until_ts (um_mem st ! a) < clk_mono clk \<and> sn = None)))) \<and>
    (\<forall>u key usr i. username = Some u \<and> file (jwt_public_key st) = Some key \<and> jwt_valid_new_ok X \<and>
       token_names J X clk (jwt_exp st) (take 2048 key) u usr i \<and> 1 \<le> i \<and>
       (\<forall>a. HASH_FIND (umusers st) usr = Some a \<longrightarrow>
          \<not> (0 < banned_until_ts (um_mem st ! a) \<and> clk_mono clk \<le> banned_until_ts (um_mem st ! a))) \<longrightarrow>
       r = MOSQ_ERR_SUCCESS \<and> sn = Some usr)"
  apply (rule conjI)
   apply (rule impI, rule login_success_cause [OF assms(1-3)], simp add: assms(4))
  apply (intro allI impI, elim conjE)
  apply (rule login_with_token [OF _ _ _ _ _ _ assms(4)]; assumption)
  done

text \<open>A token of a user \<open>bob\<close>, issued 500 seconds before.\<close>

definition demo_jwt_bob :: "unit jwt_api" where
  "demo_jwt_bob = \<lparr>jwt_valid_new_ok = True, jwt_decode = \<lambda>u k. if u = ''token'' then Some () else None,
     jwt_validate = \<lambda>t n. 0, jwt_get_grants_json = \<lambda>t. Some ''claims''\<rparr>"

definition demo_js_bob :: "json json_api" where
  "demo_js_bob = demo_json (\<lambda>s. if s = ''claims''
     then Some (JObj [(''usr_id'', JInt 4), (''usr'', JStr ''bob''), (''iat'', JInt 500)]) else None) (\<lambda>j. None)"

lemma demo_token_bob: "token_names demo_js_bob demo_jwt_bob (demo_clk t) 600 key ''token'' ''bob'' 4"
  by (simp add: token_names_def demo_js_bob_def demo_jwt_bob_def demo_json_def demo_clk_def c_int_def)

lemma basic_auth_success_only_witness:
  "(\<exists>pw. demo_users ''admin'' = Some (1, 5, pw) \<and> pw = ''pwd'') \<and>
   (let r = cb_basic_auth demo_sqlite demo_js_bob demo_jwt_bob (\<lambda>_. Some ''key'') (demo_clk 10) demo_mst (Some ''token'') None demo_sq0
    in fst r = MOSQ_ERR_SUCCESS \<and> fst (snd r) = Some ''bob'')"
proof -
  let ?call = "\<lambda>J X u p. cb_basic_auth demo_sqlite J X (\<lambda>_. Some ''key'') (demo_clk 10) demo_mst (Some u) p demo_sq0"
  let ?r = "?call demo_js demo_jwt ''admin'' (Some ''pwd'')" and ?t = "?call demo_js_bob demo_jwt_bob ''token'' None"
  have db: "dbm demo_mst = Some \<lparr>mngr_db = Some 1\<rparr>" by (simp add: demo_mst_def)
  have ok: "fst ?r = MOSQ_ERR_SUCCESS" by code_simp
  have "?r = (fst ?r, fst (snd ?r), fst (snd (snd ?r)), snd (snd (snd ?r)))" by simp
  from conjunct1 [OF basic_auth_success_only [OF demo_stmt_laws demo_auth_law db this]] ok
  have "\<exists>pw i f. Some ''pwd'' = Some pw \<and> demo_users ''admin'' = Some (i, f, pw)"
    by (auto simp: token_names_def demo_jwt_def demo_mst_def mosq_st0_def HASH_FIND_empty)
  moreover have "?t = (fst ?t, fst (snd ?t), fst (snd (snd ?t)), snd (snd (snd ?t)))" by simp
  from conjunct2 [OF basic_auth_success_only [OF demo_stmt_laws demo_auth_law db this]]
  have "fst ?t = MOSQ_ERR_SUCCESS \<and> fst (snd ?t) = Some ''bob''"
    using demo_token_bob [of 10 "take 2048 ''key''"]
    by (elim allE [of _ "''token''"] allE [of _ "''key''"] allE [of _ "''bob''"] allE [of _ 4])
      (auto simp: demo_jwt_bob_def demo_mst_def mosq_st0_def HASH_FIND_empty)
  ultimately show ?thesis by (simp add: Let_def demo_users_def)
qed

text \<open>
  (C26) Lock-out: after as many consecutive failures as configured (at least one), all within the
  configured span of the first, the user is banned, and until the configured number of
  seconds after the last failure every login is refused, with the right password or a JWT too,
  and changes nothing. With fewer failures a right password is accepted and clears the record.
\<close>

theorem umuser_lockout:
  assumes "ts \<noteq> []" and "\<forall>t \<in> set ts. 0 < t \<and> t - hd ts \<le> int (unat (failed_time_span cfg))"
  shows "(length ts = unat (max_failed_nr cfg) \<longrightarrow> (\<forall>now. now \<le> last ts + int (unat (ban_duration cfg)) \<longrightarrow>
      umuser_check cfg now authed (fails cfg ts (new_umuser u)) = (MOSQ_ERR_AUTH, fails cfg ts (new_umuser u)))) \<and>
    (length ts < unat (max_failed_nr cfg) \<longrightarrow>
      umuser_check cfg now' True (fails cfg ts (new_umuser u)) = (MOSQ_ERR_SUCCESS, new_umuser u))"
proof (intro conjI impI allI)
  fix now assume "length ts = unat (max_failed_nr cfg)" and le: "now \<le> last ts + int (unat (ban_duration cfg))"
  then have b: "banned_until_ts (fails cfg ts (new_umuser u)) = last ts + int (unat (ban_duration cfg))"
    using assms by (intro fails_reach) auto
  moreover have "0 < last ts" using assms by simp
  then have "0 < last ts + int (unat (ban_duration cfg))" by linarith
  ultimately show "umuser_check cfg now authed (fails cfg ts (new_umuser u)) = (MOSQ_ERR_AUTH, fails cfg ts (new_umuser u))"
    using le by (simp only: umuser_check_def if_True)
next
  assume "length ts < unat (max_failed_nr cfg)"
  then have "fails cfg ts (new_umuser u) = (new_umuser u)\<lparr>failed_nr := of_nat (length ts), first_failed_ts := (if ts = [] then 0 else hd ts)\<rparr>"
    using assms by (intro fails_below) auto
  then show "umuser_check cfg now' True (fails cfg ts (new_umuser u)) = (MOSQ_ERR_SUCCESS, new_umuser u)"
    by (simp add: umuser_check_def new_umuser_def)
qed

lemma umuser_lockout_witness:
  "umuser_check (user_ban_cfg mosq_st0) 400 True (fails (user_ban_cfg mosq_st0) [100, 120, 150] (new_umuser ''joe'')) =
     (MOSQ_ERR_AUTH, fails (user_ban_cfg mosq_st0) [100, 120, 150] (new_umuser ''joe''))"
  using umuser_lockout [of "[100, 120, 150]" "user_ban_cfg mosq_st0" True "''joe''" 0] by (simp add: mosq_st0_def)

text \<open>
  (C27) While a ban lasts no login of that user succeeds: whatever the password or token, the
  callback refuses it and the user's record is unchanged.
\<close>

theorem banned_user_refused:
  assumes "file (jwt_public_key st) = Some key"
    and "HASH_FIND (umusers st) (uname_of J X clk st key u) = Some a" and "a < length (um_mem st)"
    and "0 < banned_until_ts (um_mem st ! a)" and "clk_mono clk \<le> banned_until_ts (um_mem st ! a)"
    and "cb_basic_auth sq J X file clk st (Some u) password w = (r, sn, st', w')"
  shows "r = MOSQ_ERR_AUTH \<and> st' = st"
proof (cases "jwt_valid_new_ok X")
  case False
  with assms(1,6) show ?thesis by (simp add: cb_basic_auth_def)
next
  case True
  let ?usr = "uname_of J X clk st key u"
  obtain ua use_jwt where j: "jwt_login J X clk (jwt_exp st) (take 2048 key) u = (ua, use_jwt)" by fastforce
  obtain rc res w1 where q: "run_state (umdb_mngr_uauth sq (dbm st) (Some ua) (Some ?usr) password) w = ((rc, res), w1)"
    by (metis prod.exhaust)
  have g: "get_umuser ?usr st = (a, st)" using assms(2) by (simp add: get_umuser_def)
  have c: "umuser_check (user_ban_cfg st) (clk_mono clk) (ua_auth (the res) = 1) (um_mem st ! a) = (MOSQ_ERR_AUTH, um_mem st ! a)"
    using assms(4,5) by (simp add: umuser_check_def)
  have "cb_basic_auth sq J X file clk st (Some u) password w =
    (if rc \<noteq> 0 \<or> ua_id (the res) < 1 then (MOSQ_ERR_AUTH, if use_jwt then Some ?usr else None, st, w1)
     else (MOSQ_ERR_AUTH, if use_jwt then Some ?usr else None, st\<lparr>um_mem := (um_mem st)[a := um_mem st ! a]\<rparr>, w1))"
    by (rule cb_basic_auth_eq [of "file", OF assms(1) True j refl q g c])
  with assms(6) show ?thesis by (auto split: if_splits)
qed

lemma banned_user_refused_witness:
  "fst (cb_basic_auth demo_sqlite demo_js demo_jwt (\<lambda>_. Some ''key'') (demo_clk 400) demo_banned
     (Some ''admin'') (Some ''pwd'') demo_sq0) = MOSQ_ERR_AUTH"
proof -
  let ?r = "cb_basic_auth demo_sqlite demo_js demo_jwt (\<lambda>_. Some ''key'') (demo_clk 400) demo_banned (Some ''admin'') (Some ''pwd'') demo_sq0"
  have r: "?r = (fst ?r, fst (snd ?r), fst (snd (snd ?r)), snd (snd (snd ?r)))" by simp
  have "HASH_FIND (umusers demo_banned) (uname_of demo_js demo_jwt (demo_clk 400) demo_banned ''key'' ''admin'') = Some 0"
    by (simp add: uname_of_def demo_jwt_login demo_banned_def HASH_FIND_def)
  from banned_user_refused [of "\<lambda>_. Some ''key''", OF refl this _ _ _ r] show ?thesis
    by (simp add: demo_banned_def demo_clk_def new_umuser_def)
qed

text \<open>
  (C28) When a ban has run out, the next login of that user is accepted without looking at the
  password: a wrong password gets in, provided only that the database query works.
\<close>

theorem expired_ban_skips_password:
  assumes "stmt_laws sq V" and "auth_law sq V users" and "dbm st = Some \<lparr>mngr_db = Some h\<rparr>"
    and "file (jwt_public_key st) = Some key" and "jwt_valid_new_ok X" and "jwt_decode X u (take 2048 key) = None"
    and "HASH_FIND (umusers st) u = Some a" and "0 < banned_until_ts (um_mem st ! a)" and "banned_until_ts (um_mem st ! a) < clk_mono clk"
    and "users (v_db V w) u = Some (i, f, pwd)" and "1 \<le> i" and "pw \<noteq> pwd"
    and "run_state (umdb_mngr_uauth sq (dbm st) (Some uauth0) (Some u) (Some pw)) w = ((0, res), w1)"
  shows "fst (cb_basic_auth sq J X file clk st (Some u) (Some pw) w) = MOSQ_ERR_SUCCESS"
proof -
  have j: "jwt_login J X clk (jwt_exp st) (take 2048 key) u = (uauth0, False)"
    by (simp add: jwt_login_def assms(6))
  then have un: "uname_of J X clk st key u = u" by (simp add: uname_of_def)
  have "ua_auth uauth0 \<noteq> 1" by (simp add: uauth0_def)
  from umdb_uauth_effect [OF assms(1,2) this assms(13) [unfolded assms(3)]] assms(10,11)
  have id: "\<not> ua_id (the res) < 1" by simp
  have g: "get_umuser u st = (a, st)" using assms(7) by (simp add: get_umuser_def)
  obtain um where c: "umuser_check (user_ban_cfg st) (clk_mono clk) (ua_auth (the res) = 1) (um_mem st ! a) = (MOSQ_ERR_SUCCESS, um)"
    using assms(8,9) by (simp add: umuser_check_def)
  show ?thesis
    using cb_basic_auth_eq [of "file", OF assms(4,5) j un [symmetric] assms(13) g c] id by simp
qed

lemma expired_ban_skips_password_witness:
  "fst (cb_basic_auth demo_sqlite demo_js demo_jwt (\<lambda>_. Some ''key'') (demo_clk 501) demo_banned
     (Some ''admin'') (Some ''wrong'') demo_sq0) = MOSQ_ERR_SUCCESS"
proof -
  obtain res w1 where q: "run_state (umdb_mngr_uauth demo_sqlite (dbm demo_banned) (Some uauth0) (Some ''admin'') (Some ''wrong'')) demo_sq0 = ((0, res), w1)"
    using demo_uauth [of "''admin''" "''wrong''"] by (auto simp: demo_banned_def demo_mst_def)
  show ?thesis
    by (rule expired_ban_skips_password [OF demo_stmt_laws demo_auth_law, where a = 0 and h = 1 and key = "''key''" and i = 1 and f = 5 and pwd = "''pwd''",
          OF _ _ _ _ _ _ _ _ _ _ q])
      (simp_all add: demo_banned_def demo_mst_def demo_jwt_def demo_clk_def new_umuser_def HASH_FIND_def demo_users_def)
qed

text \<open>
  (C29) Access control, in both plugins: access is granted exactly when the query of the database works and
  the database knows the named user under an id of at least 1, and on topics under \<^verbatim>\<open>mink/admin/\<close> only
  if the user's flags are exactly 1. In every other case, a failure of the query and a client
  without a name included, it is refused.
\<close>

theorem acl_check_iff:
  assumes "stmt_laws sq V" and "uget_law sq V users" and "dbm st = Some \<lparr>mngr_db = Some h\<rparr>"
  shows "fst (cb_acl_check sq g st username topic w) =
      (if \<exists>u i f pw. username = Some u \<and> fst (fst (run_state (umdb_mngr_uget sq (dbm st) (Some g) (Some u)) w)) = 0 \<and>
          users (v_db V w) u = Some (i, f, pw) \<and> 1 \<le> i \<and> ((\<exists>s. topic = ''mink/admin/'' @ s) \<longrightarrow> f = 1)
       then MOSQ_ERR_SUCCESS else MOSQ_ERR_AUTH) \<and>
    mosquitto_auth_acl_check sq g st username topic w = cb_acl_check sq g st username topic w"
proof (cases username)
  case None
  then show ?thesis by (simp add: mosquitto_auth_acl_check_def cb_acl_check_def)
next
  case (Some u)
  obtain rc res w1 where q: "run_state (umdb_mngr_uget sq (dbm st) (Some g) (Some u)) w = ((rc, res), w1)"
    by (metis prod.exhaust)
  have res: "the res = (case users (v_db V w) u of
        None \<Rightarrow> g\<lparr>ua_id := - 1, ua_flags := 0, ua_usr := Some u\<rparr>
      | Some (i, f, pw) \<Rightarrow> g\<lparr>ua_id := i, ua_flags := f, ua_usr := Some u\<rparr>)" if "rc = 0"
    using umdb_uget_effect(3) [OF assms(1,2) q [unfolded assms(3)] that] by simp
  have pre: "strncmp_eq topic ''mink/admin/'' 11 \<longleftrightarrow> (\<exists>s. topic = ''mink/admin/'' @ s)"
    by (rule strncmp_eq_iff_prefix) simp
  have "fst (cb_acl_check sq g st (Some u) topic w) =
      (if rc = 0 \<and> (\<exists>i f pw. users (v_db V w) u = Some (i, f, pw) \<and> 1 \<le> i \<and> ((\<exists>s. topic = ''mink/admin/'' @ s) \<longrightarrow> f = 1))
       then MOSQ_ERR_SUCCESS else MOSQ_ERR_AUTH)"
    unfolding pre [symmetric]
    by (cases "users (v_db V w) u") (auto simp: cb_acl_check_def q res Let_def)
  with Some q show ?thesis by (auto simp: mosquitto_auth_acl_check_def cb_acl_check_def)
qed

lemma acl_check_iff_witness:
  "fst (cb_acl_check demo_sqlite uauth0 demo_mst (Some ''admin'') ''mink/dev/req'' demo_sq0) = MOSQ_ERR_SUCCESS \<and>
   fst (cb_acl_check demo_sqlite uauth0 demo_mst (Some ''admin'') ''mink/admin/x'' demo_sq0) = MOSQ_ERR_AUTH"
proof -
  have db: "dbm demo_mst = Some \<lparr>mngr_db = Some 1\<rparr>" by (simp add: demo_mst_def)
  have q: "fst (fst (run_state (umdb_mngr_uget demo_sqlite (dbm demo_mst) (Some uauth0) (Some ''admin'')) demo_sq0)) = 0"
    by code_simp
  note t = acl_check_iff [OF demo_stmt_laws demo_uget_law db, of uauth0 "Some ''admin''"]
  from t [of "''mink/dev/req''" demo_sq0] t [of "''mink/admin/x''" demo_sq0] q show ?thesis by (simp add: demo_users_def)
qed

text \<open>
  (C39) The version 4 password check starts from an uninitialised descriptor: if the stack happens
  to hold 1 where \<^verbatim>\<open>auth\<close> is, every user name is accepted, with any password or none, and without a
  query. Otherwise exactly the users whose password the database holds are, and only if the query works; a client
  without a name is refused in any case.
\<close>

theorem unpwd_check_uninitialised:
  assumes "stmt_laws sq V" and "auth_law sq V users" and "dbm st = Some \<lparr>mngr_db = Some h\<rparr>"
  shows "mosquitto_auth_unpwd_check sq g st None p w = (MOSQ_ERR_AUTH, w) \<and>
    (ua_auth g = 1 \<longrightarrow> mosquitto_auth_unpwd_check sq g st (Some u) p w = (MOSQ_ERR_SUCCESS, w)) \<and>
    (ua_auth g \<noteq> 1 \<longrightarrow> fst (mosquitto_auth_unpwd_check sq g st (Some u) p w) =
      (if \<exists>pw i f. p = Some pw \<and> users (v_db V w) u = Some (i, f, pw) \<and>
          fst (fst (run_state (umdb_mngr_uauth sq (dbm st) (Some g) (Some u) p) w)) = 0
       then MOSQ_ERR_SUCCESS else MOSQ_ERR_AUTH))"
proof (intro conjI impI)
  show "mosquitto_auth_unpwd_check sq g st None p w = (MOSQ_ERR_AUTH, w)"
    by (simp add: mosquitto_auth_unpwd_check_def)
  show "mosquitto_auth_unpwd_check sq g st (Some u) p w = (MOSQ_ERR_SUCCESS, w)" if "ua_auth g = 1"
    using that by (simp add: mosquitto_auth_unpwd_check_def uauth_jwt)
next
  assume a: "ua_auth g \<noteq> 1"
  obtain rc res w1 where q: "run_state (umdb_mngr_uauth sq (dbm st) (Some g) (Some u) p) w = ((rc, res), w1)"
    by (metis prod.exhaust)
  show "fst (mosquitto_auth_unpwd_check sq g st (Some u) p w) =
      (if \<exists>pw i f. p = Some pw \<and> users (v_db V w) u = Some (i, f, pw) \<and>
          fst (fst (run_state (umdb_mngr_uauth sq (dbm st) (Some g) (Some u) p) w)) = 0
       then MOSQ_ERR_SUCCESS else MOSQ_ERR_AUTH)"
  proof (cases p)
    case None
    then show ?thesis by (simp add: mosquitto_auth_unpwd_check_def uauth_no_password [OF a])
  next
    case (Some pw)
    from umdb_uauth_effect [OF assms(1,2) a q [unfolded assms(3) Some]] Some q show ?thesis
      by (cases "users (v_db V w) u") (auto simp: mosquitto_auth_unpwd_check_def split: if_splits)
  qed
qed

lemma unpwd_check_uninitialised_witness:
  "fst (mosquitto_auth_unpwd_check demo_sqlite (uauth0\<lparr>ua_auth := 1\<rparr>) demo_mst (Some ''nobody'') None demo_sq0) = MOSQ_ERR_SUCCESS \<and>
   fst (mosquitto_auth_unpwd_check demo_sqlite uauth0 demo_mst (Some ''admin'') (Some ''wrong'') demo_sq0) = MOSQ_ERR_AUTH"
proof -
  have "dbm demo_mst = Some \<lparr>mngr_db = Some 1\<rparr>" by (simp add: demo_mst_def)
  note t = unpwd_check_uninitialised [OF demo_stmt_laws demo_auth_law this]
  from t [of "uauth0\<lparr>ua_auth := 1\<rparr>" None demo_sq0 "''nobody''"] t [of uauth0 "Some ''wrong''" demo_sq0 "''admin''"]
  show ?thesis by (simp add: uauth0_def demo_users_def)
qed

text \<open>The sender asks for a message without a header.\<close>

definition asks_skip :: "'j json_api \<Rightarrow> 'j \<Rightarrow> bool" where
  "asks_skip J j \<longleftrightarrow> (\<exists>m sk. json_object_object_get J j ''mink_usr'' = Some m \<and>
     json_object_object_get J m ''skip'' = Some sk \<and> json_object_is_type J sk Json_boolean \<and> json_object_get_boolean J sk)"

lemma strip_musr_parts:
  assumes "json_obj_laws J" and "strip_musr J j = (sk, j1)"
  shows "sk \<longleftrightarrow> asks_skip J j" "json_object_object_get J j1 ''mink_usr'' = None"
    "k \<noteq> ''mink_usr'' \<Longrightarrow> json_object_object_get J j1 k = json_object_object_get J j k"
  using assms(2) json_obj_lawsD(5,6) [OF assms(1)]
  by (auto simp: strip_musr_def asks_skip_def split: option.splits)

text \<open>
  (C30) What a message on a \<^verbatim>\<open>mink/\<close> topic carries: a user header sent by the client never
  survives. If the payload (up to its first NUL) is no JSON it is passed on unchanged. If its
  \<^verbatim>\<open>mink_usr\<close> member asks, with a boolean \<^verbatim>\<open>skip\<close> that is true, to leave the header out, the forwarded object is the
  original one without \<^verbatim>\<open>mink_usr\<close>. In every other case the forwarded object carries in \<^verbatim>\<open>mink_usr\<close>
  the id and flags the database holds for the sender, and in \<^verbatim>\<open>mink_pld\<close> the original object without
  its \<^verbatim>\<open>mink_usr\<close>.
\<close>

theorem pld_mod_header:
  assumes "json_obj_laws J" and "stmt_laws sq V" and "uget_law sq V users" and "dbm st = Some \<lparr>mngr_db = Some h\<rparr>"
    and "users (v_db V w) u = Some (i, f, pw)" and "- (2 ^ 31) \<le> i" and "i < 2 ^ 31" and "- (2 ^ 31) \<le> f" and "f < 2 ^ 31"
    and "cb_pld_mod sq J g st (Some u) (''mink/'' @ rest) pld w = (MOSQ_ERR_SUCCESS, pld', w')"
  shows "case json_tokener_parse J (c_str pld) of
      None \<Rightarrow> pld' = pld
    | Some j \<Rightarrow> \<exists>out. json_object_to_json_string_ext J out = Some pld' \<and>
        (if asks_skip J j
         then json_object_object_get J out ''mink_usr'' = None \<and>
           (\<forall>k. k \<noteq> ''mink_usr'' \<longrightarrow> json_object_object_get J out k = json_object_object_get J j k)
         else \<exists>hd body. json_object_object_get J out ''mink_usr'' = Some hd \<and> json_object_object_get J out ''mink_pld'' = Some body \<and>
           json_object_get_int J (json_object_object_get J hd ''uid'') = i \<and>
           json_object_get_int J (json_object_object_get J hd ''flags'') = f \<and>
           json_object_object_get J body ''mink_usr'' = None \<and>
           (\<forall>k. k \<noteq> ''mink_usr'' \<longrightarrow> json_object_object_get J body k = json_object_object_get J j k))"
proof -
  note L = json_obj_lawsD [OF assms(1)]
  have pre: "strncmp_eq (''mink/'' @ rest) ''mink/'' 5" by (rule strncmp_eq_prefix) simp
  obtain rc res w1 where q: "run_state (umdb_mngr_uget sq (dbm st) (Some g) (Some u)) w = ((rc, res), w1)" by (metis prod.exhaust)
  with assms(10) pre have rc: "rc = 0" by (auto simp: cb_pld_mod_def split: if_splits)
  with umdb_uget_effect(3) [OF assms(2,3) q [unfolded assms(4)]] assms(5)
  have res: "ua_id (the res) = i" "ua_flags (the res) = f" by simp_all
  show ?thesis
  proof (cases "json_tokener_parse J (c_str pld)")
    case None
    with assms(10) pre q rc show ?thesis by (simp add: cb_pld_mod_def)
  next
    case (Some j)
    obtain sk j1 where s: "strip_musr J j = (sk, j1)" by fastforce
    note j1 = strip_musr_parts [OF assms(1) s]
    let ?out = "if sk then j1 else wrap_musr J (the res) j1"
    have "json_object_to_json_string_ext J ?out = Some pld'"
      using assms(10) pre q rc Some s by (auto simp: cb_pld_mod_def split: option.splits)
    moreover have "\<exists>hd body. json_object_object_get J ?out ''mink_usr'' = Some hd \<and> json_object_object_get J ?out ''mink_pld'' = Some body \<and>
          json_object_get_int J (json_object_object_get J hd ''uid'') = i \<and>
          json_object_get_int J (json_object_object_get J hd ''flags'') = f \<and>
          json_object_object_get J body ''mink_usr'' = None \<and>
          (\<forall>k. k \<noteq> ''mink_usr'' \<longrightarrow> json_object_object_get J body k = json_object_object_get J j k)" if "\<not> sk"
      using that j1(2,3) res assms(6-9) L(1-4,7) by (simp add: wrap_musr_def)
    ultimately show ?thesis using Some j1 by (cases sk) auto
  qed
qed

lemma pld_mod_header_witness:
  "\<exists>out hd. json_object_to_json_string_ext demo_js out = Some ''out'' \<and> json_object_object_get demo_js out ''mink_usr'' = Some hd \<and>
     json_object_get_int demo_js (json_object_object_get demo_js hd ''uid'') = 1"
proof -
  let ?r = "cb_pld_mod demo_sqlite demo_js uauth0 demo_mst (Some ''admin'') (''mink/'' @ ''x'') ''{}'' demo_sq0"
  have "fst ?r = MOSQ_ERR_SUCCESS \<and> fst (snd ?r) = ''out''" by code_simp
  then have r: "?r = (MOSQ_ERR_SUCCESS, ''out'', snd (snd ?r))" by (simp add: prod_eq_iff)
  have db: "dbm demo_mst = Some \<lparr>mngr_db = Some 1\<rparr>" by (simp add: demo_mst_def)
  have laws: "json_obj_laws demo_js" by (simp add: demo_js_def demo_json_laws)
  have usr: "demo_users ''admin'' = Some (1, 5, ''pwd'')" by (simp add: demo_users_def)
  have parse: "json_tokener_parse demo_js (c_str ''{}'') = Some (JObj [(''mink_usr'', JInt 7), (''cmd'', JInt 1)])"
    "\<not> asks_skip demo_js (JObj [(''mink_usr'', JInt 7), (''cmd'', JInt 1)])"
    by (simp_all add: demo_js_def demo_json_def c_str_def asks_skip_def)
  from pld_mod_header [OF laws demo_stmt_laws demo_uget_law db usr _ _ _ _ r] parse show ?thesis by auto
qed

end
