(* ===== verification/Mqtt.thy ===== *)
theory Mqtt
  imports Umplg Spscq Jsonc Lua_api
begin

text \<open>
  The MQTT plugin: \<^verbatim>\<open>src/src/services/sysagent/plugins/mqtt/plg_sysagent_mqtt.c\<close> and the Lua
  function of \<^verbatim>\<open>mqtt_umlua.c\<close>.

  \<open>mqtt_st\<close> holds the plugin's globals, the structures they point to, and what the plugin changes
  outside: the file system and the calls into the MQTT client library, in order. The client library and
  the system calls that may fail are parameters (\<open>paho\<close>, \<open>os_api\<close>): their answers. The address
  \<^verbatim>\<open>malloc\<close> returns, the generated UUID and the time are arguments. \<open>None\<close> as the result
  of an operation is undefined behaviour (a NULL or out-of-bounds access) or, for loops, no return.

  An operation is one atomic step here: its mutex calls are left out. The receive queue between the
  library's thread and the signal thread is interleaved access by access in \<open>Spscq\<close>.
\<close>

section \<open>Data\<close>

record mqtt_conn_d =
  cn_name :: string
  cn_client :: "nat option"
  cn_topics :: "string list"
  cn_sig_th :: bool
  cn_sig_q :: "umplg_data_std spsc_qd"
  cn_sig_qsz :: int
  cn_bin_upl_path :: "string option"
  cn_sig_sem :: nat

record mqtt_file_d =
  fd_uuid :: string
  fd_path :: string
  fd_size :: u64
  fd_ts :: int

record mqtt_conn_opts =
  keepAliveInterval :: int
  cleansession :: bool
  automaticReconnect :: bool
  opt_username :: "string option"
  opt_password :: "string option"

datatype mqtt_call =
    MQTTAsync_create "string option" "string option"
  | MQTTAsync_setCallbacks "nat option" nat
  | MQTTAsync_setConnected "nat option" nat
  | MQTTAsync_connect "nat option" mqtt_conn_opts
  | MQTTAsync_sendMessage "nat option" string string int bool
  | MQTTAsync_subscribe "nat option" string int
  | MQTTAsync_destroy "nat option"

text \<open>
  The client library: the code it returns for a call after the calls made so far, and the handle a
  successful \<^verbatim>\<open>MQTTAsync_create\<close> stores.
\<close>

record paho =
  paho_rc :: "mqtt_call list \<Rightarrow> mqtt_call \<Rightarrow> int"
  paho_handle :: "mqtt_call list \<Rightarrow> nat"

text \<open>
  System calls: whether \<^verbatim>\<open>open\<close>, \<^verbatim>\<open>rename\<close>, \<^verbatim>\<open>unlink\<close> succeed; how many of the bytes
  given to \<^verbatim>\<open>write\<close> reach the file (as a function of its contents); whether \<^verbatim>\<open>mkdir\<close> succeeds or
  fails with \<^verbatim>\<open>EEXIST\<close>.
\<close>

record os_api =
  os_open :: "string \<Rightarrow> bool"
  os_write :: "string \<Rightarrow> string \<Rightarrow> nat"
  os_rename :: "string \<Rightarrow> string \<Rightarrow> bool"
  os_unlink :: "string \<Rightarrow> bool"
  os_mkdir :: "string \<Rightarrow> bool"

record mqtt_st =
  mqtt_mngr :: "(string, nat) uthash option"
  mngr_freed :: bool
  conn_mem :: "nat \<Rightarrow> mqtt_conn_d"
  bin_uploads :: "(string, nat) uthash"
  file_mem :: "nat \<Rightarrow> mqtt_file_d"
  fs :: "string \<rightharpoonup> string"
  calls :: "mqtt_call list"

definition SIG_SEM_TIMEOUT :: int where "SIG_SEM_TIMEOUT = 5"
definition PLG_ID :: string where "PLG_ID = ''plg_sysagent_mqtt.so''"

definition COMMANDS :: "int list" where
  "COMMANDS = [cmd_num CMD_MQTT_PUBLISH, cmd_num CMD_MQTT_BINARY_UPLOAD, - 1]"

definition upd_conn :: "nat \<Rightarrow> (mqtt_conn_d \<Rightarrow> mqtt_conn_d) \<Rightarrow> mqtt_st \<Rightarrow> mqtt_st" where
  "upd_conn p g s = s\<lparr>conn_mem := (conn_mem s)(p := g (conn_mem s p))\<rparr>"

definition paho_call :: "paho \<Rightarrow> mqtt_call \<Rightarrow> mqtt_st \<Rightarrow> int \<times> mqtt_st" where
  "paho_call P c s = (paho_rc P (calls s) c, s\<lparr>calls := calls s @ [c]\<rparr>)"

definition MQTTASYNC_SUCCESS :: int where "MQTTASYNC_SUCCESS = 0"

section \<open>Binary uploads\<close>

text \<open>
  \<^verbatim>\<open>strcpy\<close> writes into an array of 128 bytes. A time that is too large for \<^verbatim>\<open>time_t\<close> does not arise.
\<close>

definition mqtt_bin_upl_add ::
  "nat \<Rightarrow> string \<Rightarrow> int \<Rightarrow> string \<Rightarrow> u64 \<Rightarrow> mqtt_st \<Rightarrow> (nat option \<times> mqtt_st) option"
where
  "mqtt_bin_upl_add addr uuid now path fsz s =
     (if fsz = 0 then Some (None, s)
      else (case HASH_FIND (bin_uploads s) uuid of
              Some _ \<Rightarrow> Some (None, s)
            | None \<Rightarrow>
                if length path < 128 then
                  Some (Some addr,
                    s\<lparr>file_mem := (file_mem s)(addr := \<lparr>fd_uuid = uuid, fd_path = path, fd_size = fsz, fd_ts = now\<rparr>),
                      bin_uploads := HASH_ADD (bin_uploads s) uuid addr\<rparr>)
                else None))"

definition mqtt_bin_upl_del :: "string \<Rightarrow> mqtt_st \<Rightarrow> int \<times> mqtt_st" where
  "mqtt_bin_upl_del uuid s =
     (case HASH_FIND (bin_uploads s) uuid of
        None \<Rightarrow> (1, s)
      | Some p \<Rightarrow> (0, s\<lparr>bin_uploads := HASH_DEL (bin_uploads s) p\<rparr>))"

definition gen_temp_fname :: "mqtt_file_d \<Rightarrow> string" where
  "gen_temp_fname f = fd_path f @ ''/'' @ fd_uuid f @ ''.tmp''"

lemma length_dropWhile_hd: "t \<noteq> [] \<Longrightarrow> P (hd t) \<Longrightarrow> length (dropWhile P t) < length t"
  by (cases t) (auto simp: length_dropWhile_le le_imp_less_Suc)

lemma dropWhile_hd: "dropWhile P t \<noteq> [] \<Longrightarrow> \<not> P (hd (dropWhile P t))"
  by (rule hd_dropWhile)

text \<open>The tokens \<^verbatim>\<open>strtok_r\<close> returns for a single delimiter.\<close>

function strtok_all :: "char \<Rightarrow> string \<Rightarrow> string list" where
  "strtok_all c s =
     (let t = dropWhile (\<lambda>x. x = c) s in
      if t = [] then [] else takeWhile (\<lambda>x. x \<noteq> c) t # strtok_all c (dropWhile (\<lambda>x. x \<noteq> c) t))"
  by pat_completeness auto

termination
proof (relation "measure (\<lambda>(c, s). length s)")
  fix c s and t :: string
  assume t: "t = dropWhile (\<lambda>x. x = c) s" "t \<noteq> []"
  then have "hd t \<noteq> c" using dropWhile_hd [of "\<lambda>x. x = c" s] by simp
  with t(2) have "length (dropWhile (\<lambda>x. x \<noteq> c) t) < length t" by (intro length_dropWhile_hd)
  also have "length t \<le> length s" using t(1) by (simp add: length_dropWhile_le)
  finally show "((c, dropWhile (\<lambda>x. x \<noteq> c) t), c, s) \<in> measure (\<lambda>(c, s). length s)" by simp
qed simp

declare strtok_all.simps [simp del]

definition tok :: "string list \<Rightarrow> nat \<Rightarrow> string option" where
  "tok ts i = (if i \<le> length ts then Some (ts ! (i - 1)) else None)"

text \<open>
  The loop that writes the payload: \<open>fsz\<close>, \<open>chunk\<close> and \<open>pld\<close> are its variables (\<^verbatim>\<open>sz\<close> is the length of
  \<open>pld\<close>), \<open>content\<close> the file.
\<close>

partial_function (option) upl_chunks ::
  "(string \<Rightarrow> string \<Rightarrow> nat) \<Rightarrow> u64 \<Rightarrow> u64 \<Rightarrow> nat \<Rightarrow> string \<Rightarrow> string \<Rightarrow> string option"
where
  "upl_chunks wr fsize fsz chunk pld content =
     (if pld = [] then Some content
      else if fsz + of_nat chunk > fsize then Some content
      else upl_chunks wr fsize (fsz + of_nat chunk)
             (if length (drop chunk pld) < chunk then length (drop chunk pld) else chunk)
             (drop chunk pld)
             (content @ take (wr content (take chunk pld)) (take chunk pld)))"

definition CHUNK :: nat where "CHUNK = 2097152"

definition upl_finish :: "os_api \<Rightarrow> int \<Rightarrow> nat \<Rightarrow> string \<Rightarrow> string \<Rightarrow> mqtt_st \<Rightarrow> mqtt_st" where
  "upl_finish os now p fp content s =
     (let f = file_mem s p;
          s1 = s\<lparr>fs := (fs s)(fp \<mapsto> content), file_mem := (file_mem s)(p := f\<lparr>fd_ts := now\<rparr>)\<rparr>
      in if fd_size f = of_nat (length content) then
           let s2 = snd (mqtt_bin_upl_del (fd_uuid f) s1); fp2 = take (length fp - 4) fp
           in if os_rename os fp fp2 then s2\<lparr>fs := (fs s2)(fp := None, fp2 := fs s2 fp)\<rparr> else s2
         else s1)"

definition mqtt_handle_bin :: "os_api \<Rightarrow> int \<Rightarrow> string \<Rightarrow> string \<Rightarrow> mqtt_st \<Rightarrow> (int \<times> mqtt_st) option" where
  "mqtt_handle_bin os now tpc pld s =
     (let ts = strtok_all (CHR ''/'') tpc in
      case (tok ts 2, tok ts 3, tok ts 4) of
        (Some dev_uuid, Some file_uuid, Some file_op) \<Rightarrow>
          (case HASH_FIND (bin_uploads s) file_uuid of
             None \<Rightarrow> Some (2, s)
           | Some p \<Rightarrow>
               if file_op = ''upload'' then
                 let f = file_mem s p; fp = gen_temp_fname f in
                 if \<not> os_open os fp then Some (3, s)
                 else
                   let content = (case fs s fp of None \<Rightarrow> [] | Some c \<Rightarrow> c);
                       s1 = s\<lparr>fs := (fs s)(fp \<mapsto> content)\<rparr>;
                       fsz = of_nat (length content) in
                   if fsz \<ge> fd_size f then Some (4, s1)
                   else
                     (case upl_chunks (os_write os) (fd_size f) fsz
                             (if length pld < CHUNK then length pld else CHUNK) pld content of
                        None \<Rightarrow> None
                      | Some content' \<Rightarrow> Some (0, upl_finish os now p fp content' s1))
               else Some (0, s))
      | _ \<Rightarrow> Some (1, s))"

definition cleanup_file :: "os_api \<Rightarrow> int \<Rightarrow> nat \<Rightarrow> mqtt_st \<Rightarrow> mqtt_st" where
  "cleanup_file os now p s =
     (if now - fd_ts (file_mem s p) > SIG_SEM_TIMEOUT then
        let s1 = s\<lparr>bin_uploads := HASH_DEL (bin_uploads s) p\<rparr>; fp = gen_temp_fname (file_mem s p)
        in if os_unlink os fp then s1\<lparr>fs := (fs s1)(fp := None)\<rparr> else s1
      else s)"

definition mqtt_bin_cleanup :: "os_api \<Rightarrow> int \<Rightarrow> mqtt_st \<Rightarrow> mqtt_st" where
  "mqtt_bin_cleanup os now s = fold (cleanup_file os now) (HASH_ITER (bin_uploads s)) s"

section \<open>Receiving\<close>

text \<open>A C string ends at the first NUL of the payload (\<open>c_str\<close>). \<open>mem\<close> is the address of the new array's buffer.\<close>

definition rx_items :: "string \<Rightarrow> string \<Rightarrow> string \<Rightarrow> umplg_data_std_items option" where
  "rx_items t pld nm =
     (let i0 = Some [];
          i1 = snd (umplg_stdd_item_add i0 (Some \<lparr>it_name = ''mqtt_topic'', it_value = t\<rparr>));
          i2 = snd (umplg_stdd_item_add i1 (Some \<lparr>it_name = ''mqtt_payload'', it_value = c_str pld\<rparr>))
      in snd (umplg_stdd_item_add i2 (Some \<lparr>it_name = ''mqtt_connection'', it_value = nm\<rparr>)))"

definition rx_data :: "nat \<Rightarrow> string \<Rightarrow> string \<Rightarrow> string \<Rightarrow> umplg_data_std" where
  "rx_data mem t pld nm =
     the (snd (umplg_stdd_items_add mem (umplg_stdd_init (Some \<lparr>items = None\<rparr>)) (rx_items t pld nm)))"

definition mqtt_on_rx ::
  "os_api \<Rightarrow> int \<Rightarrow> int \<Rightarrow> nat \<Rightarrow> nat \<Rightarrow> string \<Rightarrow> string \<Rightarrow> mqtt_st \<Rightarrow> (int \<times> mqtt_st) option"
where
  "mqtt_on_rx os now1 now2 mem ctx t pld s =
     (if strncmp_eq t ''mink.bin/'' 9 then
        (case mqtt_handle_bin os now1 t pld s of
           None \<Rightarrow> None
         | Some (_, s1) \<Rightarrow> Some (1, mqtt_bin_cleanup os now2 s1))
      else
        let conn = conn_mem s ctx;
            (rc, q) = spscq_push (cn_sig_q conn) True (rx_data mem t pld (cn_name conn))
        in if rc \<noteq> 0 then Some (1, upd_conn ctx (\<lambda>c. c\<lparr>cn_sig_q := q\<rparr>) s)
           else Some (1, upd_conn ctx (\<lambda>c. c\<lparr>cn_sig_q := q, cn_sig_sem := Suc (cn_sig_sem c)\<rparr>) s))"










section \<open>Connections\<close>

definition mqtt_conn_sub :: "paho \<Rightarrow> nat \<Rightarrow> string \<Rightarrow> mqtt_st \<Rightarrow> int \<times> mqtt_st" where
  "mqtt_conn_sub P cp t s =
     (case cn_client (conn_mem s cp) of
        None \<Rightarrow> (1, s)
      | Some h \<Rightarrow>
          let (rc, s1) = paho_call P (MQTTAsync_subscribe (Some h) t 1) s
          in (if rc \<noteq> MQTTASYNC_SUCCESS then 1 else 0, s1))"

definition mqtt_on_connect :: "paho \<Rightarrow> nat \<Rightarrow> mqtt_st \<Rightarrow> mqtt_st" where
  "mqtt_on_connect P cp s = fold (\<lambda>t s. snd (mqtt_conn_sub P cp t s)) (cn_topics (conn_mem s cp)) s"

definition mqtt_conn_pub :: "paho \<Rightarrow> nat \<Rightarrow> string \<Rightarrow> string \<Rightarrow> bool \<Rightarrow> mqtt_st \<Rightarrow> int \<times> mqtt_st" where
  "mqtt_conn_pub P cp d t retain s =
     (case cn_client (conn_mem s cp) of
        None \<Rightarrow> (1, s)
      | Some h \<Rightarrow>
          let (rc, s1) = paho_call P (MQTTAsync_sendMessage (Some h) t d 1 retain) s
          in (if rc \<noteq> MQTTASYNC_SUCCESS then 1 else 0, s1))"

definition mqtt_conn_connect :: "'j json_api \<Rightarrow> paho \<Rightarrow> nat \<Rightarrow> 'j \<Rightarrow> mqtt_st \<Rightarrow> int \<times> mqtt_st" where
  "mqtt_conn_connect J P cp j_conn s =
     (let str = (\<lambda>k. map_option (json_object_get_string J) (json_object_object_get J j_conn k));
          j_ka = json_object_object_get J j_conn ''keep_alive'';
          ka = (if j_ka \<noteq> None \<and> json_is_type J j_ka Json_int then json_object_get_int J j_ka else 20);
          (rc, s1) = paho_call P (MQTTAsync_create (str ''address'') (str ''client_id'')) s
      in if rc \<noteq> MQTTASYNC_SUCCESS then (1, s1)
         else
           let client = Some (paho_handle P (calls s));
               s2 = upd_conn cp (\<lambda>c. c\<lparr>cn_client := client\<rparr>) s1;
               (rc2, s3) = paho_call P (MQTTAsync_setCallbacks client cp) s2
           in if rc2 \<noteq> MQTTASYNC_SUCCESS then (2, s3)
              else
                let opts = \<lparr>keepAliveInterval = ka, cleansession = True, automaticReconnect = True,
                            opt_username = str ''username'', opt_password = str ''password''\<rparr>;
                    (_, s4) = paho_call P (MQTTAsync_setConnected client cp) s3;
                    (rc3, s5) = paho_call P (MQTTAsync_connect client opts) s4
                in if rc3 \<noteq> MQTTASYNC_SUCCESS then (3, s5) else (0, s5))"

definition mqtt_conn_add_topic :: "nat \<Rightarrow> string \<Rightarrow> mqtt_st \<Rightarrow> mqtt_st" where
  "mqtt_conn_add_topic cp t s = upd_conn cp (\<lambda>c. c\<lparr>cn_topics := cn_topics c @ [t]\<rparr>) s"

definition mqtt_mngr_new :: "mqtt_st \<Rightarrow> mqtt_st" where
  "mqtt_mngr_new s = s\<lparr>mqtt_mngr := Some [], mngr_freed := False\<rparr>"

definition conns :: "mqtt_st \<Rightarrow> (string, nat) uthash" where
  "conns s = (case mqtt_mngr s of None \<Rightarrow> [] | Some t \<Rightarrow> t)"

text \<open>\<open>alloc\<close> gives the address of the new descriptor, \<open>lg\<close> the queue's logarithm.\<close>

definition mqtt_mngr_add_conn ::
  "'j json_api \<Rightarrow> os_api \<Rightarrow> (nat \<Rightarrow> nat) \<Rightarrow> ((string, nat) uthash \<Rightarrow> nat) \<Rightarrow> 'j \<Rightarrow> mqtt_st \<Rightarrow> nat option \<times> mqtt_st"
where
  "mqtt_mngr_add_conn J os lg alloc j_conn s =
     (case (json_object_object_get J j_conn ''address'', json_object_object_get J j_conn ''name'') of
        (Some _, Some j_name) \<Rightarrow>
          let nm = json_object_get_string J j_name in
          (case HASH_FIND (conns s) nm of
             Some _ \<Rightarrow> (None, s)
           | None \<Rightarrow>
               let p = alloc (conns s);
                   q0 = json_object_get_int J (json_object_object_get J j_conn ''proc_thread_qsize'');
                   qsz = (if q0 < 256 then 256 else q0);
                   path = (case json_object_object_get J j_conn ''bin_upload_path'' of
                             None \<Rightarrow> None
                           | Some j \<Rightarrow> if os_mkdir os (json_object_get_string J j)
                                      then Some (json_object_get_string J j) else None);
                   c = \<lparr>cn_name = nm, cn_client = None, cn_topics = [], cn_sig_th = True,
                        cn_sig_q = spscq_new lg qsz, cn_sig_qsz = qsz,
                        cn_bin_upl_path = (if path = None then Some ''/tmp'' else path), cn_sig_sem = 0\<rparr>
               in (Some p, s\<lparr>conn_mem := (conn_mem s)(p := c),
                             mqtt_mngr := Some (HASH_ADD (conns s) nm p)\<rparr>))
      | _ \<Rightarrow> (None, s))"

definition mqtt_mngr_process_conns :: "(nat \<Rightarrow> mqtt_st \<Rightarrow> mqtt_st) \<Rightarrow> mqtt_st \<Rightarrow> mqtt_st" where
  "mqtt_mngr_process_conns f s = fold f (HASH_ITER (conns s)) s"

definition mqtt_mngr_del_conn :: "paho \<Rightarrow> string \<Rightarrow> mqtt_st \<Rightarrow> mqtt_st" where
  "mqtt_mngr_del_conn P name s =
     (case HASH_FIND (conns s) name of
        None \<Rightarrow> s
      | Some p \<Rightarrow>
          let s1 = upd_conn p (\<lambda>c. c\<lparr>cn_sig_th := False\<rparr>) s;
              s2 = s1\<lparr>mqtt_mngr := Some (HASH_DEL (conns s1) p)\<rparr>
          in snd (paho_call P (MQTTAsync_destroy (cn_client (conn_mem s2 p))) s2))"

definition mqtt_term :: "paho \<Rightarrow> nat \<Rightarrow> mqtt_st \<Rightarrow> mqtt_st" where
  "mqtt_term P cp s = mqtt_mngr_del_conn P (cn_name (conn_mem s cp)) s"

text \<open>The manager and the topic are never NULL where the program calls this function.\<close>

definition mqtt_mngr_send ::
  "paho \<Rightarrow> nat option \<Rightarrow> string \<Rightarrow> bool \<Rightarrow> string option \<Rightarrow> nat \<Rightarrow> mqtt_st \<Rightarrow> int \<times> mqtt_st"
where
  "mqtt_mngr_send P c t retain d dsz s =
     (case (mqtt_mngr s, c, d) of
        (Some _, Some cp, Some b) \<Rightarrow>
          if dsz > 0
          then paho_call P (MQTTAsync_sendMessage (cn_client (conn_mem s cp)) t (take dsz b) 1 retain) s
          else (- 100, s)
      | _ \<Rightarrow> (- 100, s))"

definition mqtt_mngr_get_conn :: "string \<Rightarrow> mqtt_st \<Rightarrow> nat option" where
  "mqtt_mngr_get_conn name s = (case mqtt_mngr s of None \<Rightarrow> None | Some t \<Rightarrow> HASH_FIND t name)"

section \<open>Configuration, start and stop\<close>

text \<open>The checks on one connection object: 0, or the code the function returns.\<close>

definition conn_check :: "'j json_api \<Rightarrow> 'j option \<Rightarrow> int" where
  "conn_check J jo =
     (if \<not> json_is_type J jo Json_object then 4
      else
        let get = (\<lambda>k. Option.bind jo (\<lambda>j. json_object_object_get J j k));
            keys = [''name'', ''address'', ''client_id'', ''username'', ''password'']
        in if \<exists>k \<in> set keys. get k = None then 5
           else if \<exists>k \<in> set keys. \<not> json_is_type J (get k) Json_string then 6
           else if get ''proc_thread_qsize'' \<noteq> None \<and> \<not> json_is_type J (get ''proc_thread_qsize'') Json_int then 6
           else if get ''bin_upload_path'' \<noteq> None \<and> \<not> json_is_type J (get ''bin_upload_path'') Json_string then 6
           else 0)"


fun add_topics :: "'j json_api \<Rightarrow> nat \<Rightarrow> 'j option list \<Rightarrow> mqtt_st \<Rightarrow> mqtt_st" where
  "add_topics J cp [] s = s"
| "add_topics J cp (v # vs) s =
     (case v of
        None \<Rightarrow> add_topics J cp vs s
      | Some j \<Rightarrow> if json_object_is_type J j Json_string
                 then add_topics J cp vs (mqtt_conn_add_topic cp (json_object_get_string J j) s)
                 else add_topics J cp vs s)"

definition cfg_conn ::
  "'j json_api \<Rightarrow> os_api \<Rightarrow> paho \<Rightarrow> (nat \<Rightarrow> nat) \<Rightarrow> ((string, nat) uthash \<Rightarrow> nat) \<Rightarrow> 'j \<Rightarrow> mqtt_st \<Rightarrow> mqtt_st"
where
  "cfg_conn J os P lg alloc j_conn s =
     (case mqtt_mngr_add_conn J os lg alloc j_conn s of
        (None, s1) \<Rightarrow> s1
      | (Some cp, s1) \<Rightarrow>
          let s2 = (case json_object_object_get J j_conn ''subscriptions'' of
                      Some j_sub \<Rightarrow> if json_object_is_type J j_sub Json_array
                                   then add_topics J cp (json_elems J j_sub) s1 else s1
                    | None \<Rightarrow> s1)
          in snd (mqtt_conn_connect J P cp j_conn s2))"

fun cfg_conns ::
  "'j json_api \<Rightarrow> os_api \<Rightarrow> paho \<Rightarrow> (nat \<Rightarrow> nat) \<Rightarrow> ((string, nat) uthash \<Rightarrow> nat) \<Rightarrow> 'j option list \<Rightarrow> mqtt_st \<Rightarrow> int \<times> mqtt_st"
where
  "cfg_conns J os P lg alloc [] s = (0, s)"
| "cfg_conns J os P lg alloc (jo # js) s =
     (if conn_check J jo \<noteq> 0 then (conn_check J jo, s)
      else cfg_conns J os P lg alloc js (cfg_conn J os P lg alloc (the jo) s))"

definition process_cfg ::
  "'j json_api \<Rightarrow> os_api \<Rightarrow> paho \<Rightarrow> (nat \<Rightarrow> nat) \<Rightarrow> ((string, nat) uthash \<Rightarrow> nat) \<Rightarrow> 'j option \<Rightarrow> mqtt_st \<Rightarrow> int \<times> mqtt_st"
where
  "process_cfg J os P lg alloc jcfg s =
     (case jcfg of
        None \<Rightarrow> (1, s)
      | Some j \<Rightarrow>
          if \<not> json_object_is_type J j Json_object then (2, s)
          else
            (case List.find (\<lambda>e. fst e = PLG_ID) (json_object_foreach J j) of
               Some (_, Some plg_cfg) \<Rightarrow>
                 (case json_object_object_get J plg_cfg ''connections'' of
                    Some jobj \<Rightarrow>
                      if json_object_is_type J jobj Json_array
                      then cfg_conns J os P lg alloc (json_elems J jobj) s
                      else (0, s)
                  | None \<Rightarrow> (0, s))
             | _ \<Rightarrow> (3, s)))"

text \<open>
  \<open>shp\<close> is the address of the new signal descriptor and \<open>run_f\<close> that of \<^verbatim>\<open>mqtt_module_sig_run\<close>, which adds
  a table to the Lua state and touches nothing else.
\<close>

definition mqtt_init ::
  "mqtt_st hcode \<Rightarrow> 'j json_api \<Rightarrow> os_api \<Rightarrow> paho \<Rightarrow> (nat \<Rightarrow> nat) \<Rightarrow> ((string, nat) uthash \<Rightarrow> nat) \<Rightarrow>
   sh_ptr \<Rightarrow> fptr \<Rightarrow> 'j option \<Rightarrow> mqtt_st umplg_mngr \<Rightarrow> int \<times> mqtt_st umplg_mngr"
where
  "mqtt_init hs J os P lg alloc shp run_f jcfg pm =
     (let s1 = snd (process_cfg J os P lg alloc jcfg (mqtt_mngr_new (wld pm)));
          sh = \<lparr>sh_id = ''@init_lua_sub_module:mqtt'', sh_init = None, sh_run = run_f, sh_term = None,
                sh_args = None, sh_running = False, sh_min_auth_lvl = 0, sh_terminated = False\<rparr>;
          pm1 = pm\<lparr>wld := s1, sh_mem := (sh_mem pm)(shp := sh)\<rparr>
      in (0, snd (umplg_reg_signal hs pm1 shp)))"

definition term_phase_0 :: "paho \<Rightarrow> mqtt_st \<Rightarrow> mqtt_st" where
  "term_phase_0 P s = mqtt_mngr_process_conns (mqtt_term P) s"

definition term_phase_1 :: "os_api \<Rightarrow> int \<Rightarrow> mqtt_st \<Rightarrow> mqtt_st" where
  "term_phase_1 os now s = mqtt_bin_cleanup os now (s\<lparr>mngr_freed := True\<rparr>)"

definition mqtt_terminate :: "paho \<Rightarrow> os_api \<Rightarrow> int \<Rightarrow> int \<Rightarrow> mqtt_st \<Rightarrow> int \<times> mqtt_st" where
  "mqtt_terminate P os now phase s =
     (if phase = 0 then (0, term_phase_0 P s)
      else if phase = 1 then (0, term_phase_1 os now s)
      else (0, s))"

section \<open>Commands\<close>

text \<open>The table pointer of a row is its first column.\<close>

definition first_col :: "umplg_data_std_items \<Rightarrow> umplg_data_std_item option" where
  "first_col t = (case t of [] \<Rightarrow> None | e # _ \<Rightarrow> Some (snd e))"

definition impl_mqtt_publish :: "paho \<Rightarrow> umplg_data_std option \<Rightarrow> mqtt_st \<Rightarrow> mqtt_st option" where
  "impl_mqtt_publish P data s =
     (case data of
        None \<Rightarrow> Some s
      | Some d \<Rightarrow>
        (case items d of
           None \<Rightarrow> None
         | Some a \<Rightarrow>
             if utarray_len a < 3 then Some s
             else
               (case first_col (arr_elts a ! 0) of
                  None \<Rightarrow> Some s
                | Some column \<Rightarrow>
                  (case mqtt_mngr_get_conn (it_value column) s of
                     None \<Rightarrow> Some s
                   | Some c \<Rightarrow>
                       let retain = (if utarray_len a \<ge> 4
                                     then map_option (\<lambda>i. c_atoi (it_value i) \<noteq> 0) (first_col (arr_elts a ! 3))
                                     else Some False)
                       in (case (retain, first_col (arr_elts a ! 2), first_col (arr_elts a ! 1)) of
                             (Some r, Some mqtt_data, Some mqtt_topic) \<Rightarrow>
                               Some (snd (mqtt_conn_pub P c (it_value mqtt_data) (it_value mqtt_topic) r s))
                           | _ \<Rightarrow> None)))))"

text \<open>\<^verbatim>\<open>atoi\<close> returns an \<^verbatim>\<open>int\<close>, the file size is a \<^verbatim>\<open>size_t\<close>.\<close>

definition impl_mqtt_bin_upload ::
  "nat \<Rightarrow> nat \<Rightarrow> string \<Rightarrow> int \<Rightarrow> umplg_data_std option \<Rightarrow> mqtt_st \<Rightarrow> (umplg_data_std option \<times> mqtt_st) option"
where
  "impl_mqtt_bin_upload mem addr uuid now data s =
     (case data of
        None \<Rightarrow> Some (data, s)
      | Some d \<Rightarrow>
        (case items d of
           None \<Rightarrow> None
         | Some a \<Rightarrow>
             if utarray_len a < 2 then Some (data, s)
             else
               (case (first_col (arr_elts a ! 0), first_col (arr_elts a ! 1)) of
                  (Some cname, Some fsz) \<Rightarrow>
                    (case mqtt_mngr_get_conn (it_value cname) s of
                       None \<Rightarrow> Some (data, s)
                     | Some c \<Rightarrow>
                       (case mqtt_bin_upl_add addr uuid now (the (cn_bin_upl_path (conn_mem s c)))
                               (of_int (c_atoi (it_value fsz))) s of
                          None \<Rightarrow> None
                        | Some (None, s1) \<Rightarrow> Some (data, s1)
                        | Some (Some fd, s1) \<Rightarrow>
                            let its = snd (umplg_stdd_item_add (Some [])
                                        (Some \<lparr>it_name = ''file_uuid'', it_value = fd_uuid (file_mem s1 fd)\<rparr>))
                            in Some (snd (umplg_stdd_items_add mem data its), s1)))
                | _ \<Rightarrow> Some (data, s))))"

definition mqtt_run_local ::
  "paho \<Rightarrow> nat \<Rightarrow> nat \<Rightarrow> string \<Rightarrow> int \<Rightarrow> int \<Rightarrow> umplg_idata option \<Rightarrow> mqtt_st \<Rightarrow>
   (int \<times> umplg_idata option \<times> mqtt_st) option"
where
  "mqtt_run_local P mem addr uuid now cmd_id data s =
     (case data of
        None \<Rightarrow> Some (- 1, data, s)
      | Some d \<Rightarrow>
          if id_type d = UMPLG_DT_STANDARD then
            if cmd_id = cmd_num CMD_MQTT_PUBLISH then
              map_option (\<lambda>s'. (0, data, s')) (impl_mqtt_publish P (id_data d) s)
            else if cmd_id = cmd_num CMD_MQTT_BINARY_UPLOAD then
              map_option (\<lambda>(x, s'). (0, Some (d\<lparr>id_data := x\<rparr>), s'))
                (impl_mqtt_bin_upload mem addr uuid now (id_data d) s)
            else Some (0, data, s)
          else Some (- 2, data, s))"

definition mqtt_run :: "int \<Rightarrow> umplg_idata option \<Rightarrow> mqtt_st \<Rightarrow> int \<times> umplg_idata option \<times> mqtt_st" where
  "mqtt_run cmd_id data s = (0, data, s)"

definition mink_lua_mqtt_pub :: "paho \<Rightarrow> lua_args \<Rightarrow> mqtt_st \<Rightarrow> bool \<times> mqtt_st" where
  "mink_lua_mqtt_pub P L s =
     (if lua_gettop L < 3 then (False, s)
      else
        let retain = (if lua_gettop L > 3 \<and> lua_isboolean L 4 then lua_toboolean L 4 else False) in
        if \<not> (lua_isstring L 1 \<and> lua_isstring L 2 \<and> lua_isstring L 3) then (False, s)
        else
          let c = lua_tostring L 1; t = lua_tostring L 2; d = lua_tostring L 3 in
          (case mqtt_mngr_get_conn c s of
             None \<Rightarrow> (False, s)
           | Some conn \<Rightarrow>
               let (r, s1) = mqtt_mngr_send P (Some conn) t retain (Some d) (length d) s
               in (r = MQTTASYNC_SUCCESS, s1)))"

section \<open>Topics\<close>

lemma strtok_all_Nil [simp]: "strtok_all c [] = []"
  by (simp add: strtok_all.simps)

lemma strtok_all_last:
  assumes "x \<noteq> []" and "c \<notin> set x"
  shows "strtok_all c x = [x]"
proof -
  have d: "dropWhile (\<lambda>y. y = c) x = x" using assms by (cases x) auto
  have t: "takeWhile (\<lambda>y. y \<noteq> c) x = x" "dropWhile (\<lambda>y. y \<noteq> c) x = []" using assms(2)
    by (auto simp: takeWhile_eq_all_conv dropWhile_eq_Nil_conv)
  show ?thesis using assms(1) by (subst strtok_all.simps) (simp add: d t Let_def)
qed

lemma strtok_all_delim: "strtok_all c (c # s) = strtok_all c s"
  by (subst (1 2) strtok_all.simps) simp

lemma strtok_all_token:
  assumes "x \<noteq> []" and "c \<notin> set x"
  shows "strtok_all c (x @ c # s) = x # strtok_all c s"
proof -
  have d: "dropWhile (\<lambda>y. y = c) (x @ c # s) = x @ c # s" using assms by (cases x) auto
  have t: "takeWhile (\<lambda>y. y \<noteq> c) (x @ c # s) = x" "dropWhile (\<lambda>y. y \<noteq> c) (x @ c # s) = c # s"
    using assms(2) by (subst takeWhile_append2 dropWhile_append2; auto)+
  show ?thesis by (subst strtok_all.simps) (simp add: d t strtok_all_delim Let_def)
qed

text \<open>\<^verbatim>\<open>mink.bin/<device_uuid>/<file_uuid>/<op>\<close>\<close>

definition bin_topic :: "string \<Rightarrow> string \<Rightarrow> string \<Rightarrow> string" where
  "bin_topic dev uuid oper = ''mink.bin/'' @ dev @ ''/'' @ uuid @ ''/'' @ oper"

definition tok_ok :: "string \<Rightarrow> bool" where
  "tok_ok x \<longleftrightarrow> x \<noteq> [] \<and> CHR ''/'' \<notin> set x"

lemma strtok_bin_topic:
  assumes "tok_ok dev" and "tok_ok uuid" and "tok_ok oper"
  shows "strtok_all (CHR ''/'') (bin_topic dev uuid oper) = [''mink.bin'', dev, uuid, oper]"
proof -
  have "bin_topic dev uuid oper =
      ''mink.bin'' @ CHR ''/'' # (dev @ CHR ''/'' # (uuid @ CHR ''/'' # oper))"
    by (simp add: bin_topic_def)
  then show ?thesis
    using assms by (simp add: strtok_all_token strtok_all_last tok_ok_def del: append.simps append_Cons)
qed

section \<open>The upload loop\<close>

text \<open>How much of a payload of \<open>len\<close> bytes a file of \<open>l\<close> bytes takes whose final size is \<open>n\<close>.\<close>

definition upl_accept :: "nat \<Rightarrow> nat \<Rightarrow> nat \<Rightarrow> nat \<Rightarrow> nat" where
  "upl_accept B l n len = (if l + len \<le> n then len else (n - l) div B * B)"

lemma unat_add_len:
  fixes fsz :: u64
  assumes "unat fsz + k < 2 ^ 64"
  shows "unat (fsz + of_nat k) = unat fsz + k"
  using assms by (simp add: unat_word_ariths unat_of_nat take_bit_eq_mod unsigned_of_nat)

lemma word_le_of_nat_size:
  fixes fsize fsz :: u64
  assumes "unat fsz + k < 2 ^ 64"
  shows "fsz + of_nat k > fsize \<longleftrightarrow> unat fsz + k > unat fsize"
  using unat_add_len [OF assms] by (simp add: word_less_nat_alt)

lemma upl_chunks_bounded:
  assumes "0 < B" and "chunk = min B (length pld)" and "unat fsz + length pld < 2 ^ 64"
    and "length content \<le> unat fsz" and "length content \<le> unat fsize"
  shows "\<exists>d. upl_chunks wr fsize fsz chunk pld content = Some (content @ d) \<and>
    length (content @ d) \<le> unat fsize"
  using assms(2-)
proof (induction "length pld" arbitrary: pld fsz chunk content rule: less_induct)
  case less
  have small: "unat fsz + chunk < 2 ^ 64" using less.prems(1,2) by simp
  note le = word_le_of_nat_size [OF small, of fsize]
  show ?case
  proof (cases "pld = [] \<or> fsz + of_nat chunk > fsize")
    case True
    then have "upl_chunks wr fsize fsz chunk pld content = Some (content @ [])"
      by (subst upl_chunks.simps) auto
    with less.prems(4) show ?thesis by (intro exI [of _ "[]"]) simp
  next
    case False
    let ?d = "take (wr content (take chunk pld)) (take chunk pld)"
    let ?pld = "drop chunk pld"
    have ch: "0 < chunk" using False less.prems(1) assms(1) by simp
    have "\<exists>d. upl_chunks wr fsize (fsz + of_nat chunk) (if length ?pld < chunk then length ?pld else chunk) ?pld
        (content @ ?d) = Some ((content @ ?d) @ d) \<and> length ((content @ ?d) @ d) \<le> unat fsize"
    proof (rule less.hyps)
      show "length ?pld < length pld" using False ch by simp
      show "(if length ?pld < chunk then length ?pld else chunk) = min B (length ?pld)"
        using less.prems(1) by auto
      show "unat (fsz + of_nat chunk) + length ?pld < 2 ^ 64"
        using unat_add_len [OF small] less.prems(1,2) by simp
      show "length (content @ ?d) \<le> unat (fsz + of_nat chunk)"
        using unat_add_len [OF small] less.prems(3) by simp
      then show "length (content @ ?d) \<le> unat fsize"
        using False le unat_add_len [OF small] by simp
    qed
    then obtain d where "upl_chunks wr fsize (fsz + of_nat chunk)
        (if length ?pld < chunk then length ?pld else chunk) ?pld (content @ ?d) = Some (content @ (?d @ d))"
      "length (content @ (?d @ d)) \<le> unat fsize" by auto
    moreover from this(1) False
    have "upl_chunks wr fsize fsz chunk pld content = Some (content @ (?d @ d))"
      by (subst upl_chunks.simps) (simp only: if_False de_Morgan_disj)
    ultimately show ?thesis by (intro exI [of _ "?d @ d"]) simp
  qed
qed

lemma upl_accept_step:
  assumes "0 < B" and "B < len" and "l + B \<le> n"
  shows "upl_accept B l n len = B + upl_accept B (l + B) n (len - B)"
proof (cases "l + len \<le> n")
  case False
  have "n - l = B + (n - (l + B))" using assms(3) by simp
  then have "(n - l) div B = (B + (n - (l + B))) div B" by (rule arg_cong)
  also have "\<dots> = Suc ((n - (l + B)) div B)" using assms(1) by simp
  finally have "(n - l) div B * B = B + (n - (l + B)) div B * B" by (simp only: mult_Suc)
  with False assms show ?thesis by (simp add: upl_accept_def)
qed (use assms in \<open>simp add: upl_accept_def\<close>)

lemma upl_chunks_complete:
  assumes "0 < B" and "\<And>c x. wr c x = length x"
    and "chunk = min B (length pld)" and "unat fsz + length pld < 2 ^ 64"
    and "unat fsz = length content" and "length content \<le> unat fsize"
  shows "upl_chunks wr fsize fsz chunk pld content =
    Some (content @ take (upl_accept B (length content) (unat fsize) (length pld)) pld)"
  using assms(3-)
proof (induction "length pld" arbitrary: pld fsz chunk content rule: less_induct)
  case less
  have small: "unat fsz + chunk < 2 ^ 64" using less.prems(1,2) by simp
  note le = word_le_of_nat_size [OF small, of fsize]
  let ?l = "length content" and ?n = "unat fsize" and ?len = "length pld"
  consider "pld = []" | "pld \<noteq> []" "?n < ?l + chunk" | "pld \<noteq> []" "?l + chunk \<le> ?n" by linarith
  then show ?case
  proof cases
    case 1
    then show ?thesis by (simp add: upl_chunks.simps)
  next
    case 2
    have "?n - ?l < B" using 2 less.prems(1,4) by linarith
    then have "(?n - ?l) div B = 0" by simp
    with 2 less.prems(1,3) have "upl_accept B ?l ?n ?len = 0" by (simp add: upl_accept_def)
    with 2 le less.prems(3) show ?thesis by (subst upl_chunks.simps) simp
  next
    case 3
    let ?pld = "drop chunk pld" and ?c = "content @ take chunk pld"
    have ch: "0 < chunk" "chunk \<le> ?len" using 3 less.prems(1) assms(1) by simp_all
    have "upl_chunks wr fsize (fsz + of_nat chunk) (if length ?pld < chunk then length ?pld else chunk) ?pld ?c =
        Some (?c @ take (upl_accept B (length ?c) ?n (length ?pld)) ?pld)"
    proof (rule less.hyps)
      show "length ?pld < length pld" using 3 ch by simp
      show "(if length ?pld < chunk then length ?pld else chunk) = min B (length ?pld)"
        using less.prems(1) by auto
      show "unat (fsz + of_nat chunk) + length ?pld < 2 ^ 64"
        using unat_add_len [OF small] less.prems(1,2) by simp
      show "unat (fsz + of_nat chunk) = length ?c"
        using unat_add_len [OF small] less.prems(3) ch(2) by simp
      show "length ?c \<le> ?n" using 3 ch(2) by simp
    qed
    moreover have "chunk + upl_accept B (length ?c) ?n (length ?pld) = upl_accept B ?l ?n ?len"
    proof (cases "B < ?len")
      case True
      with less.prems(1) 3 upl_accept_step [OF assms(1) True, of ?l ?n] show ?thesis by (simp add: min_def)
    next
      case False
      with less.prems(1) 3 show ?thesis by (simp add: upl_accept_def)
    qed
    ultimately show ?thesis using 3 le less.prems(3) assms(2)
      by (subst upl_chunks.simps) (auto simp: take_add [symmetric] less_imp_le not_less min_absorb2 [OF ch(2)])
  qed
qed

section \<open>Pending uploads\<close>

text \<open>What \<^verbatim>\<open>uuid_unparse_lower\<close> prints.\<close>

definition uuid_ok :: "string \<Rightarrow> bool" where
  "uuid_ok u \<longleftrightarrow> length u = 36 \<and> set u \<subseteq> set ''0123456789abcdef-''"

lemma uuid_ok_tok: "uuid_ok u \<Longrightarrow> tok_ok u"
  by (auto simp: uuid_ok_def tok_ok_def)

text \<open>
  The table of pending uploads is well-formed, every descriptor carries its key, and no temporary
  file is larger than the size declared for it.
\<close>

definition upload_ok :: "(string \<rightharpoonup> string) \<Rightarrow> string \<Rightarrow> mqtt_file_d \<Rightarrow> bool" where
  "upload_ok files u f \<longleftrightarrow> fd_uuid f = u \<and> uuid_ok u \<and>
     (\<forall>c. files (gen_temp_fname f) = Some c \<longrightarrow> length c \<le> unat (fd_size f))"

definition uploads_ok :: "mqtt_st \<Rightarrow> bool" where
  "uploads_ok s \<longleftrightarrow> uthash_wf (bin_uploads s) \<and>
     (\<forall>(u, p) \<in> set (bin_uploads s). upload_ok (fs s) u (file_mem s p))"

lemma uploads_okD:
  assumes "uploads_ok s" and "HASH_FIND (bin_uploads s) u = Some p"
  shows "upload_ok (fs s) u (file_mem s p)" "uthash_wf (bin_uploads s)"
  using assms by (auto simp: uploads_ok_def dest: HASH_FIND_SomeD)

definition final_fname :: "mqtt_file_d \<Rightarrow> string" where
  "final_fname f = fd_path f @ ''/'' @ fd_uuid f"

lemma take_temp_fname [simp]:
  "take (length (gen_temp_fname f) - 4) (gen_temp_fname f) = final_fname f"
  by (simp add: gen_temp_fname_def final_fname_def)

lemma temp_fname_inj:
  assumes "gen_temp_fname f = gen_temp_fname g" and "length (fd_uuid f) = length (fd_uuid g)"
  shows "fd_uuid f = fd_uuid g"
proof -
  have "(fd_path f @ ''/'') @ fd_uuid f = (fd_path g @ ''/'') @ fd_uuid g"
    using assms(1) by (simp add: gen_temp_fname_def)
  with assms(2) show ?thesis by (simp add: append_eq_append_conv)
qed

lemma final_neq_temp:
  assumes "uuid_ok (fd_uuid f)"
  shows "final_fname f \<noteq> gen_temp_fname g"
proof
  assume "final_fname f = gen_temp_fname g"
  then have "(fd_path f @ ''/'' @ take 32 (fd_uuid f)) @ drop 32 (fd_uuid f) =
      (fd_path g @ ''/'' @ fd_uuid g) @ ''.tmp''"
    by (simp add: final_fname_def gen_temp_fname_def)
  moreover have "length (drop 32 (fd_uuid f)) = length ''.tmp''" using assms by (simp add: uuid_ok_def)
  ultimately have "drop 32 (fd_uuid f) = ''.tmp''" using append_eq_append_conv by blast
  then have "CHR ''.'' \<in> set (fd_uuid f)" using set_drop_subset [of 32 "fd_uuid f"] by auto
  with assms show False by (auto simp: uuid_ok_def)
qed

text \<open>Changing a file that is no upload's temporary file, or one of them within its size.\<close>

lemma uploads_ok_fs:
  assumes "uploads_ok s"
    and "\<And>u p c. (u, p) \<in> set (bin_uploads s) \<Longrightarrow> files (gen_temp_fname (file_mem s p)) = Some c \<Longrightarrow>
      length c \<le> unat (fd_size (file_mem s p))"
  shows "uploads_ok (s\<lparr>fs := files\<rparr>)"
  using assms by (fastforce simp: uploads_ok_def upload_ok_def)

lemma uploads_ok_temp:
  assumes "uploads_ok s" and "(u, p) \<in> set (bin_uploads s)" and "length c \<le> unat (fd_size (file_mem s p))"
  shows "uploads_ok (s\<lparr>fs := (fs s)(gen_temp_fname (file_mem s p) \<mapsto> c)\<rparr>)"
proof (rule uploads_ok_fs [OF assms(1)])
  fix u' p' c'
  assume p': "(u', p') \<in> set (bin_uploads s)"
    and c': "((fs s)(gen_temp_fname (file_mem s p) \<mapsto> c)) (gen_temp_fname (file_mem s p')) = Some c'"
  show "length c' \<le> unat (fd_size (file_mem s p'))"
  proof (cases "gen_temp_fname (file_mem s p') = gen_temp_fname (file_mem s p)")
    case True
    from assms(1,2) p' have ok: "upload_ok (fs s) u (file_mem s p)" "upload_ok (fs s) u' (file_mem s p')"
      by (auto simp: uploads_ok_def)
    then have "u' = u" using temp_fname_inj [OF True] by (simp add: upload_ok_def uuid_ok_def)
    moreover have "uthash_wf (bin_uploads s)" using assms(1) by (simp add: uploads_ok_def)
    ultimately have "p' = p" using assms(2) p' by (metis HASH_FIND_wf_iff option.inject)
    with True c' assms(3) show ?thesis by simp
  next
    case False
    with c' p' assms(1) show ?thesis by (auto simp: uploads_ok_def upload_ok_def)
  qed
qed

lemma uploads_ok_drop:
  assumes "uploads_ok s"
  shows "uploads_ok (s\<lparr>bin_uploads := HASH_DEL (bin_uploads s) p\<rparr>)"
  using assms uth.wf_del [of "bin_uploads s" p] by (auto simp: uploads_ok_def HASH_DEL_def)

lemma uploads_ok_touch:
  assumes "uploads_ok s"
  shows "uploads_ok (s\<lparr>file_mem := (file_mem s)(p := (file_mem s p)\<lparr>fd_ts := t\<rparr>)\<rparr>)"
  using assms by (fastforce simp: uploads_ok_def upload_ok_def gen_temp_fname_def)

lemma uploads_ok_unlink:
  "uploads_ok s \<Longrightarrow> uploads_ok (s\<lparr>fs := (fs s)(x := None)\<rparr>)"
  by (rule uploads_ok_fs) (auto simp: uploads_ok_def upload_ok_def split: if_splits)

lemma uploads_ok_final:
  assumes "uploads_ok s" and "uuid_ok (fd_uuid f)"
  shows "uploads_ok (s\<lparr>fs := (fs s)(final_fname f := x)\<rparr>)"
proof (rule uploads_ok_fs [OF assms(1)])
  fix u p c
  assume p: "(u, p) \<in> set (bin_uploads s)"
    and "((fs s)(final_fname f := x)) (gen_temp_fname (file_mem s p)) = Some c"
  then have "fs s (gen_temp_fname (file_mem s p)) = Some c"
    using final_neq_temp [OF assms(2), of "file_mem s p"] by (simp split: if_splits)
  with p assms(1) show "length c \<le> unat (fd_size (file_mem s p))" by (auto simp: uploads_ok_def upload_ok_def)
qed

lemma upl_finish_ok:
  assumes "uploads_ok s" and "(u, p) \<in> set (bin_uploads s)"
    and "length c \<le> unat (fd_size (file_mem s p))"
  shows "uploads_ok (upl_finish os now p (gen_temp_fname (file_mem s p)) c s)"
proof -
  let ?f = "file_mem s p"
  let ?fp = "gen_temp_fname ?f"
  define s1 where "s1 = s\<lparr>fs := (fs s)(?fp \<mapsto> c), file_mem := (file_mem s)(p := ?f\<lparr>fd_ts := now\<rparr>)\<rparr>"
  define s2 where "s2 = snd (mqtt_bin_upl_del (fd_uuid ?f) s1)"
  define s3 where "s3 = s2\<lparr>fs := (fs s2)(?fp := None, final_fname ?f := fs s2 ?fp)\<rparr>"
  have u: "uuid_ok (fd_uuid ?f)" using assms(1,2) by (auto simp: uploads_ok_def upload_ok_def)
  have "uploads_ok ((s\<lparr>fs := (fs s)(?fp \<mapsto> c)\<rparr>)\<lparr>file_mem := (file_mem s)(p := ?f\<lparr>fd_ts := now\<rparr>)\<rparr>)"
    using uploads_ok_touch [OF uploads_ok_temp [OF assms], of p now] by simp
  then have ok1: "uploads_ok s1" unfolding s1_def by simp
  then have ok2: "uploads_ok s2"
    unfolding s2_def mqtt_bin_upl_del_def by (auto split: option.split intro: uploads_ok_drop)
  have "uploads_ok ((s2\<lparr>fs := (fs s2)(?fp := None)\<rparr>)\<lparr>fs := ((fs s2)(?fp := None))(final_fname ?f := fs s2 ?fp)\<rparr>)"
    using uploads_ok_final [OF uploads_ok_unlink [OF ok2] u] by simp
  then have ok3: "uploads_ok s3" unfolding s3_def by simp
  show ?thesis using ok1 ok2 ok3
    by (simp add: upl_finish_def Let_def s3_def [symmetric] s2_def [symmetric] s1_def [symmetric])
qed

text \<open>Files on disk are shorter than \<^verbatim>\<open>off_t\<close> can express, and a payload's length is an \<^verbatim>\<open>int\<close>.\<close>

definition files_small :: "(string \<rightharpoonup> string) \<Rightarrow> bool" where
  "files_small files \<longleftrightarrow> (\<forall>x c. files x = Some c \<longrightarrow> length c < 2 ^ 63)"

lemma mqtt_handle_bin_ok:
  assumes "uploads_ok s" and "files_small (fs s)" and "length pld < 2 ^ 31"
  shows "\<exists>rc s'. mqtt_handle_bin os now tpc pld s = Some (rc, s') \<and> uploads_ok s'"
proof -
  let ?ts = "strtok_all (CHR ''/'') tpc"
  show ?thesis
  proof (cases "\<exists>dev fu p. tok ?ts 2 = Some dev \<and> tok ?ts 3 = Some fu \<and> tok ?ts 4 = Some ''upload'' \<and>
      HASH_FIND (bin_uploads s) fu = Some p \<and> os_open os (gen_temp_fname (file_mem s p))")
    case False
    then show ?thesis using assms(1)
      by (auto simp: mqtt_handle_bin_def Let_def split: option.split)
  next
    case True
    then obtain dev fu p where t: "tok ?ts 2 = Some dev" "tok ?ts 3 = Some fu" "tok ?ts 4 = Some ''upload''"
      and p: "HASH_FIND (bin_uploads s) fu = Some p" and op: "os_open os (gen_temp_fname (file_mem s p))" by blast
    let ?f = "file_mem s p"
    let ?fp = "gen_temp_fname ?f"
    define c where "c = (case fs s ?fp of None \<Rightarrow> [] | Some c \<Rightarrow> c)"
    define s1 where "s1 = s\<lparr>fs := (fs s)(?fp \<mapsto> c)\<rparr>"
    have in_s: "(fu, p) \<in> set (bin_uploads s)" using p by (rule HASH_FIND_SomeD)
    have c: "length c < 2 ^ 63" "length c \<le> unat (fd_size ?f)"
      using assms(2) uploads_okD(1) [OF assms(1) p]
      by (auto simp: c_def files_small_def upload_ok_def split: option.split)
    have fsz: "unat (of_nat (length c) :: u64) = length c" using c(1) by (intro unat_of_nat_small) simp
    have s1: "uploads_ok s1" "file_mem s1 = file_mem s" "(fu, p) \<in> set (bin_uploads s1)"
      using uploads_ok_temp [OF assms(1) in_s c(2)] in_s by (simp_all add: s1_def)
    show ?thesis
    proof (cases "of_nat (length c) \<ge> fd_size ?f")
      case True
      with t p op s1(1) show ?thesis
        by (simp add: mqtt_handle_bin_def Let_def c_def [symmetric] s1_def [symmetric])
    next
      case False
      let ?chunk = "if length pld < CHUNK then length pld else CHUNK"
      have "\<exists>d. upl_chunks (os_write os) (fd_size ?f) (of_nat (length c)) ?chunk pld c = Some (c @ d) \<and>
          length (c @ d) \<le> unat (fd_size ?f)"
        using c assms(3) fsz by (intro upl_chunks_bounded [of CHUNK]) (simp_all add: CHUNK_def)
      then obtain d where d: "upl_chunks (os_write os) (fd_size ?f) (of_nat (length c)) ?chunk pld c = Some (c @ d)"
        "length (c @ d) \<le> unat (fd_size ?f)" by blast
      have "uploads_ok (upl_finish os now p ?fp (c @ d) s1)"
        using upl_finish_ok [OF s1(1,3), of "c @ d"] d(2) s1(2) by simp
      with False t p op d(1) show ?thesis
        by (simp add: mqtt_handle_bin_def Let_def c_def [symmetric] s1_def [symmetric])
    qed
  qed
qed

text \<open>Which uploads the cleanup drops, and which files it removes.\<close>

definition stale :: "int \<Rightarrow> mqtt_st \<Rightarrow> nat \<Rightarrow> bool" where
  "stale now s p \<longleftrightarrow> now - fd_ts (file_mem s p) > SIG_SEM_TIMEOUT"

lemma cleanup_fold:
  "uploads_ok s \<Longrightarrow>
    let s' = fold (cleanup_file os now) ps s in
    uploads_ok s' \<and> file_mem s' = file_mem s \<and> conn_mem s' = conn_mem s \<and> mqtt_mngr s' = mqtt_mngr s \<and>
    bin_uploads s' = filter (\<lambda>e. \<not> (snd e \<in> set ps \<and> stale now s (snd e))) (bin_uploads s) \<and>
    fs s' = (\<lambda>x. if \<exists>p \<in> set ps. stale now s p \<and> x = gen_temp_fname (file_mem s p) \<and> os_unlink os x
                 then None else fs s x)"
proof (induction ps arbitrary: s)
  case (Cons p ps)
  define s1 where "s1 = cleanup_file os now p s"
  have ok1: "uploads_ok s1"
    using uploads_ok_drop [OF Cons.prems, of p]
      uploads_ok_unlink [OF uploads_ok_drop [OF Cons.prems, of p], of "gen_temp_fname (file_mem s p)"] Cons.prems
    by (simp add: s1_def cleanup_file_def Let_def)
  have eq1: "file_mem s1 = file_mem s" "conn_mem s1 = conn_mem s" "mqtt_mngr s1 = mqtt_mngr s"
    "bin_uploads s1 = filter (\<lambda>e. \<not> (snd e = p \<and> stale now s p)) (bin_uploads s)"
    "fs s1 = (\<lambda>x. if stale now s p \<and> x = gen_temp_fname (file_mem s p) \<and> os_unlink os x then None else fs s x)"
    by (auto simp: s1_def cleanup_file_def HASH_DEL_def Let_def stale_def)
  have st: "stale now s1 = stale now s" by (auto simp: stale_def eq1(1))
  from Cons.IH [OF ok1] show ?case
    by (auto simp: Let_def s1_def [symmetric] eq1 st fun_eq_iff intro!: filter_cong)
qed (simp add: Let_def)

lemma mqtt_bin_cleanup_exact:
  assumes "uploads_ok s"
  shows "uploads_ok (mqtt_bin_cleanup os now s)"
    and "file_mem (mqtt_bin_cleanup os now s) = file_mem s"
    and "conn_mem (mqtt_bin_cleanup os now s) = conn_mem s"
    and "bin_uploads (mqtt_bin_cleanup os now s) = filter (\<lambda>e. \<not> stale now s (snd e)) (bin_uploads s)"
    and "fs (mqtt_bin_cleanup os now s) =
      (\<lambda>x. if \<exists>p \<in> set (HASH_ITER (bin_uploads s)). stale now s p \<and> x = gen_temp_fname (file_mem s p) \<and> os_unlink os x
           then None else fs s x)"
  using cleanup_fold [OF assms, of os now "HASH_ITER (bin_uploads s)"]
  by (auto simp: mqtt_bin_cleanup_def Let_def HASH_ITER_def intro!: filter_cong)

lemma uploads_ok_upd_conn: "uploads_ok s \<Longrightarrow> uploads_ok (upd_conn cp g s)"
  by (simp add: uploads_ok_def upd_conn_def)

lemma mqtt_on_rx_ok:
  assumes "uploads_ok s" and "files_small (fs s)" and "length pld < 2 ^ 31"
  shows "\<exists>s'. mqtt_on_rx os now1 now2 mem ctx t pld s = Some (1, s') \<and> uploads_ok s'"
  using mqtt_handle_bin_ok [OF assms, of os now1 t] assms(1)
  by (auto simp: mqtt_on_rx_def split_beta Let_def intro: mqtt_bin_cleanup_exact(1) uploads_ok_upd_conn)

lemma uploads_ok_paho: "uploads_ok (snd (paho_call P c s)) = uploads_ok s"
  by (simp add: paho_call_def uploads_ok_def)

lemma impl_mqtt_publish_ok: "impl_mqtt_publish P data s = Some s' \<Longrightarrow> uploads_ok s \<Longrightarrow> uploads_ok s'"
  by (auto simp: impl_mqtt_publish_def mqtt_conn_pub_def Let_def split_beta uploads_ok_paho
      split: option.splits if_splits)

lemma mqtt_bin_upl_add_ok:
  assumes "mqtt_bin_upl_add addr uuid now path fsz s = Some (r, s')" and "uploads_ok s"
    and "uuid_ok uuid" and "addr \<notin> set (HASH_ITER (bin_uploads s))"
    and "\<And>path. fs s (path @ ''/'' @ uuid @ ''.tmp'') = None"
  shows "uploads_ok s'"
proof (cases "s' = s")
  case False
  define f where "f = \<lparr>fd_uuid = uuid, fd_path = path, fd_size = fsz, fd_ts = now\<rparr>"
  from False assms(1) have new: "HASH_FIND (bin_uploads s) uuid = None"
    and s': "s' = s\<lparr>file_mem := (file_mem s)(addr := f), bin_uploads := HASH_ADD (bin_uploads s) uuid addr\<rparr>"
    by (auto simp: mqtt_bin_upl_add_def f_def split: if_splits option.splits)
  have "uthash_wf (bin_uploads s')"
    using uth.wf_add [OF _ new assms(4)] assms(2) by (simp add: uploads_ok_def s')
  moreover have "upload_ok (fs s') u (file_mem s' p)" if "(u, p) \<in> set (bin_uploads s')" for u p
  proof (cases "(u, p) = (uuid, addr)")
    case True
    with assms(3,5) show ?thesis by (simp add: s' upload_ok_def f_def gen_temp_fname_def)
  next
    case False
    with that have in_s: "(u, p) \<in> set (bin_uploads s)" by (auto simp: s' HASH_ADD_def)
    then have "p \<noteq> addr" using assms(4) by (force simp: HASH_ITER_def)
    with in_s assms(2) show ?thesis by (auto simp: s' uploads_ok_def)
  qed
  ultimately show ?thesis by (auto simp: uploads_ok_def)
qed (simp add: assms)

lemma mqtt_run_local_ok:
  assumes "mqtt_run_local P mem addr uuid now cmd data s = Some (rc, data', s')" and "uploads_ok s"
    and "uuid_ok uuid" and "addr \<notin> set (HASH_ITER (bin_uploads s))"
    and "\<And>path. fs s (path @ ''/'' @ uuid @ ''.tmp'') = None"
  shows "uploads_ok s'"
proof -
  have up: "uploads_ok s2" if "impl_mqtt_bin_upload mem addr uuid now d s = Some (x, s2)" for d x s2
    using that mqtt_bin_upl_add_ok [OF _ assms(2-5)] assms(2)
    by (auto simp: impl_mqtt_bin_upload_def Let_def split: option.splits if_splits)
  with assms(1,2) show ?thesis
    by (auto simp: mqtt_run_local_def dest: impl_mqtt_publish_ok split: option.splits if_splits)
qed

text \<open>
  The states the plugin's entry points lead to, from one without pending uploads: a command (with
  a UUID that names no file yet and a fresh address), a received message, a phase-1 termination.
\<close>

inductive upl_reach :: "paho \<Rightarrow> os_api \<Rightarrow> mqtt_st \<Rightarrow> bool" for P os where
  upl_init: "bin_uploads s = [] \<Longrightarrow> upl_reach P os s"
| upl_cmd: "upl_reach P os s \<Longrightarrow> mqtt_run_local P mem addr uuid now cmd data s = Some (rc, data', s') \<Longrightarrow>
    uuid_ok uuid \<Longrightarrow> addr \<notin> set (HASH_ITER (bin_uploads s)) \<Longrightarrow>
    (\<And>path. fs s (path @ ''/'' @ uuid @ ''.tmp'') = None) \<Longrightarrow> upl_reach P os s'"
| upl_rx: "upl_reach P os s \<Longrightarrow> mqtt_on_rx os now1 now2 mem ctx t pld s = Some (rc, s') \<Longrightarrow>
    files_small (fs s) \<Longrightarrow> length pld < 2 ^ 31 \<Longrightarrow> upl_reach P os s'"
| upl_term: "upl_reach P os s \<Longrightarrow> upl_reach P os (term_phase_1 os now s)"

lemma upl_reach_ok: "upl_reach P os s \<Longrightarrow> uploads_ok s"
proof (induction rule: upl_reach.induct)
  case (upl_init s)
  then show ?case by (simp add: uploads_ok_def uthash_wf_def)
next
  case (upl_cmd s mem addr uuid now cmd data rc data' s')
  then show ?case by (intro mqtt_run_local_ok [OF upl_cmd.hyps(2)])
next
  case (upl_rx s now1 now2 mem ctx t pld rc s')
  with mqtt_on_rx_ok [OF upl_rx.IH upl_rx.hyps(3,4), of os now1 now2 mem ctx t] show ?case by auto
next
  case (upl_term s now)
  then have "uploads_ok (s\<lparr>mngr_freed := True\<rparr>)" by (simp add: uploads_ok_def)
  then show ?case unfolding term_phase_1_def by (rule mqtt_bin_cleanup_exact(1))
qed

text \<open>One upload message, on a file that is not yet complete.\<close>

lemma mqtt_handle_bin_upload:
  assumes "tok_ok dev" and "uuid_ok uuid" and "HASH_FIND (bin_uploads s) uuid = Some p"
    and "fp = gen_temp_fname (file_mem s p)" and "os_open os fp" and "\<And>c x. os_write os c x = length x"
    and "c = (case fs s fp of None \<Rightarrow> [] | Some c \<Rightarrow> c)" and "length c < unat (fd_size (file_mem s p))"
    and "length c < 2 ^ 63" and "length pld < 2 ^ 31"
  shows "mqtt_handle_bin os now (bin_topic dev uuid ''upload'') pld s =
    Some (0, upl_finish os now p fp
      (c @ take (upl_accept CHUNK (length c) (unat (fd_size (file_mem s p))) (length pld)) pld)
      (s\<lparr>fs := (fs s)(fp \<mapsto> c)\<rparr>))"
proof -
  have "tok_ok ''upload''" by (simp add: tok_ok_def)
  then have t: "strtok_all (CHR ''/'') (bin_topic dev uuid ''upload'') = [''mink.bin'', dev, uuid, ''upload'']"
    using strtok_bin_topic assms(1,2) uuid_ok_tok by blast
  have fsz: "unat (of_nat (length c) :: u64) = length c" using assms(9) by (intro unat_of_nat_small) simp
  have "upl_chunks (os_write os) (fd_size (file_mem s p)) (of_nat (length c))
      (if length pld < CHUNK then length pld else CHUNK) pld c =
      Some (c @ take (upl_accept CHUNK (length c) (unat (fd_size (file_mem s p))) (length pld)) pld)"
    using assms fsz by (intro upl_chunks_complete) (simp_all add: CHUNK_def)
  moreover have "\<not> of_nat (length c) \<ge> fd_size (file_mem s p)"
    using assms(8) fsz by (simp add: word_le_nat_alt not_le)
  ultimately show ?thesis
    using assms(3,5) by (simp add: mqtt_handle_bin_def Let_def t tok_def assms(4) [symmetric] assms(7) [symmetric])
qed

lemma upl_finish_cases:
  assumes "uploads_ok s" and "HASH_FIND (bin_uploads s) uuid = Some p"
    and "fp = gen_temp_fname (file_mem s p)" and "f = final_fname (file_mem s p)" and "os_rename os fp f"
    and "length new < 2 ^ 64" and "s' = upl_finish os now p fp new (s\<lparr>fs := (fs s)(fp \<mapsto> c)\<rparr>)"
  shows "length new = unat (fd_size (file_mem s p)) \<Longrightarrow>
      HASH_FIND (bin_uploads s') uuid = None \<and> fs s' = (fs s)(fp := None, f \<mapsto> new)"
    and "length new \<noteq> unat (fd_size (file_mem s p)) \<Longrightarrow>
      HASH_FIND (bin_uploads s') uuid = Some p \<and> fs s' = (fs s)(fp \<mapsto> new) \<and>
      file_mem s' p = (file_mem s p)\<lparr>fd_ts := now\<rparr>"
    and "u \<noteq> uuid \<Longrightarrow> HASH_FIND (bin_uploads s') u = HASH_FIND (bin_uploads s) u"
proof -
  have u: "fd_uuid (file_mem s p) = uuid" "uthash_wf (bin_uploads s)"
    using uploads_okD [OF assms(1,2)] by (auto simp: upload_ok_def)
  have sz: "fd_size (file_mem s p) = of_nat (length new) \<longleftrightarrow> length new = unat (fd_size (file_mem s p))"
    using unat_of_nat_small [of "length new", where 'a = 64] assms(6)
    by (auto simp: word_unat_eq_iff)
  have fin: "take (length fp - 4) fp = f" using take_temp_fname assms(3,4) by simp
  note d = HASH_FIND_DEL [OF u(2) assms(2)]
  show "length new = unat (fd_size (file_mem s p)) \<Longrightarrow>
      HASH_FIND (bin_uploads s') uuid = None \<and> fs s' = (fs s)(fp := None, f \<mapsto> new)"
    using assms(2,5) by (simp add: assms(7) upl_finish_def Let_def sz mqtt_bin_upl_del_def u fin d)
  show "length new \<noteq> unat (fd_size (file_mem s p)) \<Longrightarrow>
      HASH_FIND (bin_uploads s') uuid = Some p \<and> fs s' = (fs s)(fp \<mapsto> new) \<and>
      file_mem s' p = (file_mem s p)\<lparr>fd_ts := now\<rparr>"
    using assms(2) by (simp add: assms(7) upl_finish_def Let_def sz)
  show "u \<noteq> uuid \<Longrightarrow> HASH_FIND (bin_uploads s') u = HASH_FIND (bin_uploads s) u"
    using assms(2,5) by (simp add: assms(7) upl_finish_def Let_def sz mqtt_bin_upl_del_def u fin d)
qed

section \<open>The signal thread\<close>






text \<open>The thread raises the signal with flags 0, so a handler with a minimum level is refused.\<close>

definition noted ::
  "umplg_sh \<Rightarrow> (umplg_data_std option \<Rightarrow> 'x \<Rightarrow> 'x) \<Rightarrow> umplg_data_std list \<Rightarrow> 'x \<Rightarrow> 'x"
where
  "noted H note xs v = (if sh_min_auth_lvl H = 0 then fold note (map Some xs) v else v)"


lemma noted_Nil [simp]: "noted H note [] v = v"
  by (simp add: noted_def)












section \<open>Configured connections\<close>

definition conn_name :: "'j json_api \<Rightarrow> 'j option \<Rightarrow> string" where
  "conn_name J jo = json_object_get_string J (the (json_object_object_get J (the jo) ''name''))"

text \<open>The strings among the subscriptions of a connection object.\<close>

definition json_strs :: "'j json_api \<Rightarrow> 'j option list \<Rightarrow> string list" where
  "json_strs J vs = map (\<lambda>v. json_object_get_string J (the v))
     (filter (\<lambda>v. v \<noteq> None \<and> json_is_type J v Json_string) vs)"

definition conn_subs :: "'j json_api \<Rightarrow> 'j option \<Rightarrow> string list" where
  "conn_subs J jo =
     (case json_object_object_get J (the jo) ''subscriptions'' of
        Some j \<Rightarrow> if json_object_is_type J j Json_array then json_strs J (json_elems J j) else []
      | None \<Rightarrow> [])"

text \<open>The descriptor made from a connection object.\<close>

definition conn_desc :: "'j json_api \<Rightarrow> (nat \<Rightarrow> nat) \<Rightarrow> 'j option \<Rightarrow> mqtt_conn_d \<Rightarrow> bool" where
  "conn_desc J lg jo c \<longleftrightarrow> cn_name c = conn_name J jo \<and> cn_topics c = conn_subs J jo \<and> 256 \<le> cn_sig_qsz c \<and>
     cn_sig_q c = spscq_new lg (cn_sig_qsz c) \<and> cn_bin_upl_path c \<noteq> None"

definition cfg_inv :: "'j json_api \<Rightarrow> (nat \<Rightarrow> nat) \<Rightarrow> 'j option list \<Rightarrow> mqtt_st \<Rightarrow> bool" where
  "cfg_inv J lg js s \<longleftrightarrow> uthash_wf (conns s) \<and> map fst (conns s) = rev (remdups (rev (map (conn_name J) js))) \<and>
     (\<forall>nm p jo. (nm, p) \<in> set (conns s) \<longrightarrow> List.find (\<lambda>j. conn_name J j = nm) js = Some jo \<longrightarrow>
        conn_desc J lg jo (conn_mem s p))"

lemma add_topics_eq:
  "add_topics J cp vs s = upd_conn cp (\<lambda>c. c\<lparr>cn_topics := cn_topics c @ json_strs J vs\<rparr>) s"
proof (induction vs arbitrary: s)
  case Nil
  show ?case by (simp add: upd_conn_def json_strs_def)
next
  case (Cons v vs)
  then show ?case
    by (cases v) (simp_all add: json_strs_def json_is_type_def mqtt_conn_add_topic_def upd_conn_def)
qed

lemma mqtt_conn_connect_frame:
  "\<exists>cl. mqtt_mngr (snd (mqtt_conn_connect J P cp j s)) = mqtt_mngr s \<and>
    conn_mem (snd (mqtt_conn_connect J P cp j s)) = conn_mem (upd_conn cp (\<lambda>c. c\<lparr>cn_client := cl\<rparr>) s)"
proof -
  let ?str = "\<lambda>k. map_option (json_object_get_string J) (json_object_object_get J j k)"
  let ?created = "paho_rc P (calls s) (MQTTAsync_create (?str ''address'') (?str ''client_id'')) = MQTTASYNC_SUCCESS"
  show ?thesis
    by (rule exI [of _ "if ?created then Some (paho_handle P (calls s)) else cn_client (conn_mem s cp)"])
      (simp add: mqtt_conn_connect_def paho_call_def upd_conn_def Let_def)
qed

lemma find_append: "List.find P (xs @ ys) = (case List.find P xs of None \<Rightarrow> List.find P ys | Some x \<Rightarrow> Some x)"
  by (induction xs) auto

lemma conn_check_0:
  assumes "conn_check J jo = 0"
  obtains j ja jn where "jo = Some j" "json_object_object_get J j ''address'' = Some ja"
    "json_object_object_get J j ''name'' = Some jn"
  using assms by (cases jo) (auto simp: conn_check_def json_is_type_def Let_def split: if_splits)

text \<open>What adding a connection of a new name leaves.\<close>

lemma cfg_conn_new:
  assumes "conn_check J jo = 0" and "HASH_FIND (conns s) (conn_name J jo) = None"
  shows "\<exists>c. conn_desc J lg jo c \<and>
    conns (cfg_conn J os P lg alloc (the jo) s) = HASH_ADD (conns s) (conn_name J jo) (alloc (conns s)) \<and>
    conn_mem (cfg_conn J os P lg alloc (the jo) s) = (conn_mem s)(alloc (conns s) := c)"
proof -
  obtain j ja jn where j: "jo = Some j" "json_object_object_get J j ''address'' = Some ja"
    "json_object_object_get J j ''name'' = Some jn" using assms(1) by (rule conn_check_0)
  let ?p = "alloc (conns s)" and ?nm = "conn_name J jo"
  obtain s1 where add: "mqtt_mngr_add_conn J os lg alloc j s = (Some ?p, s1)" by
    (use assms(2) j in \<open>simp add: mqtt_mngr_add_conn_def conn_name_def Let_def\<close>)
  have s1: "conns s1 = HASH_ADD (conns s) ?nm ?p" "\<exists>c1. conn_mem s1 = (conn_mem s)(?p := c1) \<and> cn_topics c1 = [] \<and>
      cn_name c1 = ?nm \<and> 256 \<le> cn_sig_qsz c1 \<and> cn_sig_q c1 = spscq_new lg (cn_sig_qsz c1) \<and> cn_bin_upl_path c1 \<noteq> None"
    using add assms(2) j by (auto simp: mqtt_mngr_add_conn_def conn_name_def Let_def conns_def fun_upd_def)
  then obtain c1 where c1: "conn_mem s1 = (conn_mem s)(?p := c1)" "cn_topics c1 = []" "cn_name c1 = ?nm"
    "256 \<le> cn_sig_qsz c1" "cn_sig_q c1 = spscq_new lg (cn_sig_qsz c1)" "cn_bin_upl_path c1 \<noteq> None" by blast
  define s2 where "s2 = upd_conn ?p (\<lambda>c. c\<lparr>cn_topics := cn_topics c @ conn_subs J jo\<rparr>) s1"
  have "(case json_object_object_get J j ''subscriptions'' of
      Some j_sub \<Rightarrow> if json_object_is_type J j_sub Json_array then add_topics J ?p (json_elems J j_sub) s1 else s1
    | None \<Rightarrow> s1) = s2"
    by (auto simp: s2_def add_topics_eq conn_subs_def j(1) upd_conn_def split: option.split)
  then have eq: "cfg_conn J os P lg alloc (the jo) s = snd (mqtt_conn_connect J P ?p j s2)"
    by (simp add: cfg_conn_def add j(1) Let_def)
  obtain cl where "mqtt_mngr (cfg_conn J os P lg alloc (the jo) s) = mqtt_mngr s2"
    "conn_mem (cfg_conn J os P lg alloc (the jo) s) = conn_mem (upd_conn ?p (\<lambda>c. c\<lparr>cn_client := cl\<rparr>) s2)"
    unfolding eq using mqtt_conn_connect_frame [of J P ?p j s2] by blast
  moreover have "conns s2 = conns s1" by (simp add: s2_def conns_def upd_conn_def)
  ultimately show ?thesis using s1(1) c1
    by (intro exI [of _ "c1\<lparr>cn_topics := conn_subs J jo, cn_client := cl\<rparr>"])
      (simp add: conn_desc_def conns_def s2_def upd_conn_def)
qed

lemma cfg_conn_known:
  assumes "conn_check J jo = 0" and "HASH_FIND (conns s) (conn_name J jo) = Some p"
  shows "cfg_conn J os P lg alloc (the jo) s = s"
proof -
  obtain j ja jn where "jo = Some j" "json_object_object_get J j ''address'' = Some ja"
    "json_object_object_get J j ''name'' = Some jn" using assms(1) by (rule conn_check_0)
  with assms(2) show ?thesis by (simp add: cfg_conn_def mqtt_mngr_add_conn_def conn_name_def Let_def)
qed

lemma cfg_conn_inv:
  assumes "cfg_inv J lg js s" and "conn_check J jo = 0" and "\<And>t. alloc t \<notin> set (HASH_ITER t)"
  shows "cfg_inv J lg (js @ [jo]) (cfg_conn J os P lg alloc (the jo) s)"
proof -
  let ?nm = "conn_name J jo" and ?p = "alloc (conns s)"
  have wf: "uthash_wf (conns s)" and keys: "map fst (conns s) = rev (remdups (rev (map (conn_name J) js)))"
    and old: "\<And>nm p jo'. (nm, p) \<in> set (conns s) \<Longrightarrow> List.find (\<lambda>j. conn_name J j = nm) js = Some jo' \<Longrightarrow>
      conn_desc J lg jo' (conn_mem s p)" using assms(1) by (auto simp: cfg_inv_def)
  have "fst ` set (conns s) = set (map (conn_name J) js)" using arg_cong [OF keys, of set] by simp
  then have known: "HASH_FIND (conns s) nm = None \<longleftrightarrow> nm \<notin> conn_name J ` set js" for nm
    by (simp add: HASH_FIND_None_iff)
  show ?thesis
  proof (cases "HASH_FIND (conns s) ?nm")
    case (Some p)
    then have "?nm \<in> conn_name J ` set js" using known [of ?nm] by simp
    moreover have "List.find (\<lambda>j. conn_name J j = nm) (js @ [jo]) = List.find (\<lambda>j. conn_name J j = nm) js" for nm
      using calculation by (auto simp: find_append find_None_iff find_None_iff2 split: option.split)
    ultimately show ?thesis
      using cfg_conn_known [OF assms(2) Some] wf keys old by (simp add: cfg_inv_def)
  next
    case None
    let ?s = "cfg_conn J os P lg alloc (the jo) s"
    obtain c where c: "conn_desc J lg jo c" "conns ?s = HASH_ADD (conns s) ?nm ?p"
      "conn_mem ?s = (conn_mem s)(?p := c)" using cfg_conn_new [OF assms(2) None] by blast
    have new: "?nm \<notin> conn_name J ` set js" using known None by simp
    have "uthash_wf (conns ?s)" using uth.wf_add [OF wf None assms(3)] c(2) by simp
    moreover have "map fst (conns ?s) = rev (remdups (rev (map (conn_name J) (js @ [jo]))))"
      using keys new by (simp add: c(2) HASH_ADD_def)
    moreover have "conn_desc J lg jo' (conn_mem ?s p)"
      if "(nm, p) \<in> set (conns ?s)" "List.find (\<lambda>j. conn_name J j = nm) (js @ [jo]) = Some jo'" for nm p jo'
    proof (cases "(nm, p) = (?nm, ?p)")
      case True
      then have "List.find (\<lambda>j. conn_name J j = nm) js = None"
        using new by (simp add: find_None_iff image_iff) metis
      with True that(2) c(1,3) show ?thesis by (simp add: find_append)
    next
      case False
      with that(1) have in_s: "(nm, p) \<in> set (conns s)" by (auto simp: c(2) HASH_ADD_def)
      then have "p \<noteq> ?p" using assms(3) [of "conns s"] by (force simp: HASH_ITER_def)
      moreover have "nm \<in> conn_name J ` set js" using in_s known [of nm] by (force simp: HASH_FIND_None_iff)
      then have "List.find (\<lambda>j. conn_name J j = nm) js = Some jo'"
        using that(2) by (auto simp: find_append find_None_iff split: option.splits)
      ultimately show ?thesis using old [OF in_s] c(3) by simp
    qed
    ultimately show ?thesis by (simp add: cfg_inv_def)
  qed
qed

lemma cfg_conns_inv:
  assumes "\<And>t. alloc t \<notin> set (HASH_ITER t)"
  shows "cfg_inv J lg ds s \<Longrightarrow>
    let ok = takeWhile (\<lambda>jo. conn_check J jo = 0) js; (rc, s') = cfg_conns J os P lg alloc js s in
    rc = (if ok = js then 0 else conn_check J (js ! length ok)) \<and> cfg_inv J lg (ds @ ok) s'"
proof (induction js arbitrary: ds s)
  case (Cons jo js)
  show ?case
  proof (cases "conn_check J jo = 0")
    case True
    from Cons.IH [OF cfg_conn_inv [OF Cons.prems True assms, of os P]] True show ?thesis
      by (auto simp: Let_def split_beta)
  qed (use Cons.prems in simp)
qed simp

section \<open>Properties\<close>

text \<open>A file system on which everything works, and an empty plugin.\<close>

definition demo_os :: os_api where
  "demo_os = \<lparr>os_open = \<lambda>_. True, os_write = \<lambda>_ x. length x, os_rename = \<lambda>_ _. True,
              os_unlink = \<lambda>_. True, os_mkdir = \<lambda>_. True\<rparr>"

definition demo_uuid :: string where
  "demo_uuid = ''01234567-89ab-cdef-0123-456789abcdef''"

definition demo_conn :: mqtt_conn_d where
  "demo_conn = \<lparr>cn_name = ''c'', cn_client = Some 1, cn_topics = [], cn_sig_th = True,
     cn_sig_q = spscq_new ceillog2 600, cn_sig_qsz = 600, cn_bin_upl_path = Some ''/tmp'', cn_sig_sem = 0\<rparr>"

definition demo_file :: mqtt_file_d where
  "demo_file = \<lparr>fd_uuid = demo_uuid, fd_path = ''/tmp'', fd_size = 3, fd_ts = 100\<rparr>"

definition demo_mqtt :: "(string, nat) uthash \<Rightarrow> (string \<rightharpoonup> string) \<Rightarrow> mqtt_st" where
  "demo_mqtt ups files = \<lparr>mqtt_mngr = Some [(''c'', 7)], mngr_freed = False, conn_mem = (\<lambda>_. demo_conn),
     bin_uploads = ups, file_mem = (\<lambda>_. demo_file), fs = files, calls = []\<rparr>"

definition demo_paho :: paho where
  "demo_paho = \<lparr>paho_rc = \<lambda>_ _. 0, paho_handle = length\<rparr>"

lemma demo_uuid_ok: "uuid_ok demo_uuid"
  by (simp add: uuid_ok_def demo_uuid_def)

text \<open>
  (C10) However messages, commands and partial or failing writes are combined, no pending upload's
  temporary file ever grows beyond the size declared for the upload, the table of uploads keeps one
  entry per UUID, and the handler of every further message returns.
\<close>

theorem upload_never_exceeds_size:
  assumes "upl_reach P os s"
  shows "distinct (map fst (bin_uploads s)) \<and>
    (\<forall>uuid p c. HASH_FIND (bin_uploads s) uuid = Some p \<longrightarrow> fs s (gen_temp_fname (file_mem s p)) = Some c \<longrightarrow>
       length c \<le> unat (fd_size (file_mem s p))) \<and>
    (\<forall>pld now1 now2 mem ctx t. files_small (fs s) \<longrightarrow> length pld < 2 ^ 31 \<longrightarrow>
       (\<exists>s'. mqtt_on_rx os now1 now2 mem ctx t pld s = Some (1, s')))"
proof -
  have ok: "uploads_ok s" using assms by (rule upl_reach_ok)
  then have "distinct (map fst (bin_uploads s))" by (simp add: uploads_ok_def uthash_wf_def)
  moreover have "length c \<le> unat (fd_size (file_mem s p))"
    if "HASH_FIND (bin_uploads s) uuid = Some p" "fs s (gen_temp_fname (file_mem s p)) = Some c" for uuid p c
    using uploads_okD(1) [OF ok that(1)] that(2) by (simp add: upload_ok_def)
  ultimately show ?thesis using mqtt_on_rx_ok [OF ok] by blast
qed

definition demo_upl_cmd :: umplg_idata where
  "demo_upl_cmd = \<lparr>id_type = UMPLG_DT_STANDARD, id_data = Some \<lparr>items = Some \<lparr>arr_n = 8, arr_d = 1, arr_elts =
     [[(''conn'', \<lparr>it_name = ''conn'', it_value = ''c''\<rparr>)], [(''size'', \<lparr>it_name = ''size'', it_value = ''3''\<rparr>)]]\<rparr>\<rparr>\<rparr>"

lemma demo_upload_cmd:
  "mqtt_run_local demo_paho 0 5 demo_uuid 100 37 (Some demo_upl_cmd) (demo_mqtt [] Map.empty) =
     Some (0, Some (demo_upl_cmd\<lparr>id_data := snd (umplg_stdd_items_add 0 (id_data demo_upl_cmd)
       (Some [(''file_uuid'', \<lparr>it_name = ''file_uuid'', it_value = demo_uuid\<rparr>)]))\<rparr>),
       demo_mqtt [(demo_uuid, 5)] Map.empty)"
  by (simp add: mqtt_run_local_def impl_mqtt_bin_upload_def demo_upl_cmd_def demo_mqtt_def mqtt_mngr_get_conn_def
      mqtt_bin_upl_add_def first_col_def utarray_len_def HASH_FIND_def HASH_ADD_def demo_conn_def demo_file_def
      c_atoi_def c_strtol_def c_isspace_def c_digit_def Let_def umplg_stdd_item_add_def fun_upd_idem)

lemma demo_upload_reach: "upl_reach demo_paho demo_os (demo_mqtt [(demo_uuid, 5)] Map.empty)"
proof (rule upl_reach.upl_cmd [OF _ demo_upload_cmd])
  show "upl_reach demo_paho demo_os (demo_mqtt [] Map.empty)"
    by (rule upl_reach.upl_init) (simp add: demo_mqtt_def)
qed (simp_all add: demo_uuid_ok demo_mqtt_def HASH_ITER_def)

lemma demo_uploads_ok: "uploads_ok (demo_mqtt [(demo_uuid, 5)] Map.empty)"
  by (rule upl_reach_ok [OF demo_upload_reach])

lemma demo_temp: "gen_temp_fname demo_file = ''/tmp/01234567-89ab-cdef-0123-456789abcdef.tmp''"
  by (simp add: gen_temp_fname_def demo_file_def demo_uuid_def)

lemma demo_upload_rx:
  "\<exists>s'. mqtt_on_rx demo_os 100 100 0 7 (bin_topic ''d'' demo_uuid ''upload'') ''ab'' (demo_mqtt [(demo_uuid, 5)] Map.empty) =
     Some (1, s') \<and> HASH_FIND (bin_uploads s') demo_uuid = Some 5 \<and>
     fs s' (gen_temp_fname (file_mem s' 5)) = Some ''ab''"
proof -
  let ?s = "demo_mqtt [(demo_uuid, 5)] Map.empty"
  let ?fp = "gen_temp_fname (file_mem ?s 5)"
  define s1 where "s1 = upl_finish demo_os 100 5 ?fp ([] @ take (upl_accept CHUNK 0 3 (length ''ab'')) ''ab'') (?s\<lparr>fs := (fs ?s)(?fp \<mapsto> [])\<rparr>)"
  have sz: "unat (fd_size (file_mem ?s 5)) = 3" by (simp add: demo_mqtt_def demo_file_def)
  have f: "HASH_FIND (bin_uploads ?s) demo_uuid = Some 5" by (simp add: demo_mqtt_def HASH_FIND_def)
  have h: "mqtt_handle_bin demo_os 100 (bin_topic ''d'' demo_uuid ''upload'') ''ab'' ?s = Some (0, s1)"
    using mqtt_handle_bin_upload [of "''d''" demo_uuid ?s 5 ?fp demo_os "[]" "''ab''" 100] f sz
    by (simp add: tok_ok_def demo_uuid_ok demo_os_def s1_def) (simp add: demo_mqtt_def)
  have acc: "upl_accept CHUNK 0 3 (length ''ab'') = 2" by (simp add: upl_accept_def)
  have s1: "s1 = ?s\<lparr>fs := (fs ?s)(?fp \<mapsto> ''ab'')\<rparr>"
    unfolding s1_def acc by (rule mqtt_st.equality) (simp_all add: upl_finish_def Let_def demo_mqtt_def demo_file_def fun_upd_idem)
  have "bin_uploads s1 = [(demo_uuid, 5)]" "file_mem s1 = (\<lambda>_. demo_file)" "fs s1 = [gen_temp_fname demo_file \<mapsto> ''ab'']"
    by (simp_all add: s1 demo_mqtt_def)
  moreover from this have "mqtt_bin_cleanup demo_os 100 s1 = s1"
    by (simp add: mqtt_bin_cleanup_def HASH_ITER_def cleanup_file_def SIG_SEM_TIMEOUT_def demo_file_def)
  moreover have "strncmp_eq (bin_topic ''d'' demo_uuid ''upload'') ''mink.bin/'' 9"
    by (simp add: bin_topic_def strncmp_eq_def)
  ultimately show ?thesis using h by (simp add: mqtt_on_rx_def HASH_FIND_def)
qed

lemma upload_never_exceeds_size_witness:
  "\<exists>s p. upl_reach demo_paho demo_os s \<and> HASH_FIND (bin_uploads s) demo_uuid = Some p \<and>
     fs s (gen_temp_fname (file_mem s p)) = Some ''ab'' \<and> length ''ab'' \<le> unat (fd_size (file_mem s p))"
proof -
  obtain s' where s': "mqtt_on_rx demo_os 100 100 0 7 (bin_topic ''d'' demo_uuid ''upload'') ''ab''
      (demo_mqtt [(demo_uuid, 5)] Map.empty) = Some (1, s')"
    "HASH_FIND (bin_uploads s') demo_uuid = Some 5" "fs s' (gen_temp_fname (file_mem s' 5)) = Some ''ab''"
    using demo_upload_rx by blast
  have "files_small (fs (demo_mqtt [(demo_uuid, 5)] Map.empty))" by (simp add: files_small_def demo_mqtt_def)
  with s'(1) have r: "upl_reach demo_paho demo_os s'"
    by (intro upl_reach.upl_rx [OF demo_upload_reach s'(1)]) simp_all
  from upload_never_exceeds_size [OF r] r s' show ?thesis by blast
qed

text \<open>
  (C12) A message of an upload that is not yet complete, when writing works: it is appended whole if it fits
  into the declared size, and otherwise as many whole chunks of 2 MiB as fit; when the file reaches the
  declared size, the upload is forgotten and the file loses its temporary name, otherwise its time stamp
  is renewed. No other upload and no other file changes.
\<close>

theorem upload_message_result:
  assumes "uploads_ok s" and "files_small (fs s)" and "length pld < 2 ^ 31" and "tok_ok dev"
    and "HASH_FIND (bin_uploads s) uuid = Some p" and "fp = gen_temp_fname (file_mem s p)"
    and "f = final_fname (file_mem s p)" and "os_open os fp" and "os_rename os fp f"
    and "\<forall>c x. os_write os c x = length x"
    and "c = (case fs s fp of None \<Rightarrow> [] | Some c \<Rightarrow> c)" and "n = unat (fd_size (file_mem s p))"
    and "length c < n" and "new = c @ take (upl_accept 2097152 (length c) n (length pld)) pld"
  shows "\<exists>s'. mqtt_handle_bin os now (bin_topic dev uuid ''upload'') pld s = Some (0, s') \<and>
    (if length new = n
     then HASH_FIND (bin_uploads s') uuid = None \<and> fs s' = (fs s)(fp := None, f \<mapsto> new)
     else HASH_FIND (bin_uploads s') uuid = Some p \<and> fs s' = (fs s)(fp \<mapsto> new) \<and>
       file_mem s' p = (file_mem s p)\<lparr>fd_ts := now\<rparr>) \<and>
    (\<forall>u. u \<noteq> uuid \<longrightarrow> HASH_FIND (bin_uploads s') u = HASH_FIND (bin_uploads s) u)"
proof -
  let ?s' = "upl_finish os now p fp new (s\<lparr>fs := (fs s)(fp \<mapsto> c)\<rparr>)"
  have c: "length c < 2 ^ 63" using assms(2,11) by (auto simp: files_small_def split: option.splits)
  have "uuid_ok uuid" using uploads_okD(1) [OF assms(1,5)] by (simp add: upload_ok_def)
  then have "mqtt_handle_bin os now (bin_topic dev uuid ''upload'') pld s = Some (0, ?s')"
    using mqtt_handle_bin_upload [of dev uuid s p fp os c pld now] assms c by (simp add: CHUNK_def)
  moreover have "length new < 2 ^ 64" using assms(3,14) c by simp
  note fin = upl_finish_cases [OF assms(1,5,6,7,9) this refl, where c = c and now = now]
  ultimately show ?thesis using fin assms(12) by simp
qed

lemma upload_message_result_witness:
  "\<exists>s'. mqtt_handle_bin demo_os 100 (bin_topic ''d'' demo_uuid ''upload'') ''abc'' (demo_mqtt [(demo_uuid, 5)] Map.empty) = Some (0, s') \<and>
    HASH_FIND (bin_uploads s') demo_uuid = None \<and> fs s' (final_fname demo_file) = Some ''abc''"
proof -
  let ?s = "demo_mqtt [(demo_uuid, 5)] Map.empty"
  have "files_small (fs ?s)" "length ''abc'' < 2 ^ 31" "tok_ok ''d''" "HASH_FIND (bin_uploads ?s) demo_uuid = Some 5"
    by (simp_all add: files_small_def demo_mqtt_def tok_ok_def HASH_FIND_def)
  note r = upload_message_result [OF demo_uploads_ok this refl refl, of demo_os "[]" 3 "''abc''" 100]
  then show ?thesis by (simp add: demo_os_def demo_mqtt_def upl_accept_def) (auto simp: demo_file_def)
qed









text \<open>
  (C13) Reading the configuration registers the connection objects up to the first one that is
  malformed, whose code is returned; of several with one name the first is used. Every
  registered connection carries the name and the string subscriptions of its object, an empty queue
  for at least 256 messages, and an upload path.
\<close>

theorem process_cfg_conns:
  assumes "\<forall>t. alloc t \<notin> set (HASH_ITER t)"
    and "json_object_is_type J jcfg Json_object"
    and "List.find (\<lambda>e. fst e = PLG_ID) (json_object_foreach J jcfg) = Some (PLG_ID, Some plg_cfg)"
    and "json_object_object_get J plg_cfg ''connections'' = Some jobj" and "json_object_is_type J jobj Json_array"
    and "js = json_elems J jobj" and "ok = takeWhile (\<lambda>jo. conn_check J jo = 0) js"
    and "process_cfg J os P lg alloc (Some jcfg) (mqtt_mngr_new s) = (rc, s')"
  shows "rc = (if ok = js then 0 else conn_check J (js ! length ok)) \<and>
    map fst (conns s') = rev (remdups (rev (map (conn_name J) ok))) \<and>
    (\<forall>nm p jo. HASH_FIND (conns s') nm = Some p \<longrightarrow> List.find (\<lambda>j. conn_name J j = nm) ok = Some jo \<longrightarrow>
       conn_desc J lg jo (conn_mem s' p))"
proof -
  have "cfg_inv J lg [] (mqtt_mngr_new s)"
    by (simp add: cfg_inv_def mqtt_mngr_new_def conns_def uthash_wf_def)
  moreover have "cfg_conns J os P lg alloc js (mqtt_mngr_new s) = (rc, s')"
    using assms(2-6,8) by (simp add: process_cfg_def)
  ultimately have "rc = (if ok = js then 0 else conn_check J (js ! length ok)) \<and> cfg_inv J lg ok s'"
    using cfg_conns_inv [of alloc J lg "[]" "mqtt_mngr_new s" js os P] assms(1,7) by (simp add: Let_def)
  then show ?thesis by (auto simp: cfg_inv_def dest: HASH_FIND_SomeD)
qed

definition demo_cfg :: json where
  "demo_cfg = JObj [(PLG_ID, JObj [(''connections'', JArr
     [JObj [(''name'', JStr ''c''), (''address'', JStr ''tcp://h''), (''client_id'', JStr ''i''),
            (''username'', JStr ''u''), (''password'', JStr ''p''), (''subscriptions'', JArr [JStr ''t'', JInt 1])],
      JInt 5])])]"

lemma process_cfg_conns_witness:
  "\<exists>rc s'. process_cfg (demo_json (\<lambda>_. None) (\<lambda>_. None)) demo_os demo_paho ceillog2 (\<lambda>t. Suc (sum_list (HASH_ITER t)))
      (Some demo_cfg) (mqtt_mngr_new (demo_mqtt [] Map.empty)) = (rc, s') \<and> rc = 4 \<and> map fst (conns s') = [''c'']"
proof -
  let ?J = "demo_json (\<lambda>_. None) (\<lambda>_. None)" and ?alloc = "\<lambda>t :: (string, nat) uthash. Suc (sum_list (HASH_ITER t))"
  obtain rc s' where e: "process_cfg ?J demo_os demo_paho ceillog2 ?alloc
      (Some demo_cfg) (mqtt_mngr_new (demo_mqtt [] Map.empty)) = (rc, s')" by (rule prod.exhaust)
  have al: "\<forall>t. ?alloc t \<notin> set (HASH_ITER t)"
    using member_le_sum_list [where 'a = nat] by fastforce
  let ?c = "JObj [(''name'', JStr ''c''), (''address'', JStr ''tcp://h''), (''client_id'', JStr ''i''),
      (''username'', JStr ''u''), (''password'', JStr ''p''), (''subscriptions'', JArr [JStr ''t'', JInt 1])]"
  have chk: "conn_check ?J (Some ?c) = 0" "conn_check ?J (Some (JInt 5)) = 4"
    by (simp_all add: conn_check_def demo_json_def json_is_type_def)
  have el: "json_elems ?J (JArr [?c, JInt 5]) = [Some ?c, Some (JInt 5)]"
    by (simp add: json_elems_def demo_json_def)
  have "json_object_is_type ?J demo_cfg Json_object"
    "List.find (\<lambda>e. fst e = PLG_ID) (json_object_foreach ?J demo_cfg) =
       Some (PLG_ID, Some (JObj [(''connections'', JArr [?c, JInt 5])]))"
    "json_object_object_get ?J (JObj [(''connections'', JArr [?c, JInt 5])]) ''connections'' = Some (JArr [?c, JInt 5])"
    "json_object_is_type ?J (JArr [?c, JInt 5]) Json_array"
    by (simp_all add: demo_json_def demo_cfg_def)
  from process_cfg_conns [OF al this refl refl e] e show ?thesis
    by (simp add: el chk) (simp add: conn_name_def demo_json_def)
qed

end
