(* ===== verification/Lua_modules.thy ===== *)
theory Lua_modules
  imports Lua_api
begin

text \<open>
  The modules a script finds: \<^verbatim>\<open>luaL_setfuncs\<close>, \<^verbatim>\<open>mink_lualib\<close> and \<^verbatim>\<open>init_mink_lua_module\<close> of
  \<^verbatim>\<open>src/src/services/sysagent/umlua.c\<close>, \<^verbatim>\<open>mqtt_lualib\<close> and \<^verbatim>\<open>mqtt_module_sig_run\<close> of \<^verbatim>\<open>plugins/mqtt/plg_sysagent_mqtt.c\<close>.
  Lua's stack interface is a parameter: the record \<open>lua_stk\<close> of its functions on an unknown state, what can be seen of
  that state, and the documented effect of each function as a hypothesis (\<open>lua_stk_laws\<close>).
\<close>

section \<open>The stack interface\<close>

text \<open>C functions are named by their symbols; tables are references.\<close>

datatype lv = V_nil | V_str string | V_tab nat | V_fun string "lv list" | V_ptr nat

record 's lua_stk =
  lua_createtable :: "'s \<Rightarrow> 's"
  luaL_checkstack :: "nat \<Rightarrow> 's \<Rightarrow> 's"
  lua_pushstring :: "string \<Rightarrow> 's \<Rightarrow> 's"
  lua_pushvalue :: "int \<Rightarrow> 's \<Rightarrow> 's"
  lua_pushcclosure :: "string \<Rightarrow> nat \<Rightarrow> 's \<Rightarrow> 's"
  lua_settable :: "int \<Rightarrow> 's \<Rightarrow> 's"
  lua_pop :: "nat \<Rightarrow> 's \<Rightarrow> 's"
  lua_setglobal :: "string \<Rightarrow> 's \<Rightarrow> 's"
  lua_getglobal :: "string \<Rightarrow> 's \<Rightarrow> 's"

text \<open>What can be seen of a state: the stack with its top first, the tables, the globals.\<close>

record lua_view =
  lv_stack :: "lv list"
  lv_tab :: "nat \<rightharpoonup> string \<rightharpoonup> lv"
  lv_glob :: "string \<rightharpoonup> lv"

text \<open>The slot a negative index means.\<close>

definition slot :: "int \<Rightarrow> nat" where
  "slot i = nat (- i - 1)"

definition to_lv :: "lv option \<Rightarrow> lv" where
  "to_lv x = (case x of None \<Rightarrow> V_nil | Some v \<Rightarrow> v)"

definition lua_stk_laws :: "'s lua_stk \<Rightarrow> ('s \<Rightarrow> lua_view) \<Rightarrow> bool" where
  "lua_stk_laws L v \<longleftrightarrow>
     (\<forall>s. \<exists>t. t \<notin> dom (lv_tab (v s)) \<and>
        v (lua_createtable L s) = (v s)\<lparr>lv_stack := V_tab t # lv_stack (v s), lv_tab := (lv_tab (v s))(t \<mapsto> Map.empty)\<rparr>) \<and>
     (\<forall>n s. v (luaL_checkstack L n s) = v s) \<and>
     (\<forall>x s. v (lua_pushstring L x s) = (v s)\<lparr>lv_stack := V_str x # lv_stack (v s)\<rparr>) \<and>
     (\<forall>i s. i < 0 \<and> slot i < length (lv_stack (v s)) \<longrightarrow>
        v (lua_pushvalue L i s) = (v s)\<lparr>lv_stack := lv_stack (v s) ! slot i # lv_stack (v s)\<rparr>) \<and>
     (\<forall>f n s. n \<le> length (lv_stack (v s)) \<longrightarrow>
        v (lua_pushcclosure L f n s) = (v s)\<lparr>lv_stack := V_fun f (rev (take n (lv_stack (v s)))) # drop n (lv_stack (v s))\<rparr>) \<and>
     (\<forall>i s x k rest t fs. i < 0 \<and> lv_stack (v s) = x # V_str k # rest \<and> slot i < length (lv_stack (v s)) \<and>
        lv_stack (v s) ! slot i = V_tab t \<and> lv_tab (v s) t = Some fs \<and> x \<noteq> V_nil \<longrightarrow>
        v (lua_settable L i s) = (v s)\<lparr>lv_stack := rest, lv_tab := (lv_tab (v s))(t \<mapsto> fs(k \<mapsto> x))\<rparr>) \<and>
     (\<forall>n s. n \<le> length (lv_stack (v s)) \<longrightarrow> v (lua_pop L n s) = (v s)\<lparr>lv_stack := drop n (lv_stack (v s))\<rparr>) \<and>
     (\<forall>g s x rest. lv_stack (v s) = x # rest \<and> x \<noteq> V_nil \<longrightarrow>
        v (lua_setglobal L g s) = (v s)\<lparr>lv_stack := rest, lv_glob := (lv_glob (v s))(g \<mapsto> x)\<rparr>) \<and>
     (\<forall>g s. v (lua_getglobal L g s) = (v s)\<lparr>lv_stack := to_lv (lv_glob (v s) g) # lv_stack (v s)\<rparr>)"

section \<open>Registration\<close>

text \<open>The loop over the upvalues, the loop over the functions, \<^verbatim>\<open>luaL_setfuncs\<close> and \<^verbatim>\<open>luaL_newlib\<close>.\<close>

fun push_upvalues :: "'s lua_stk \<Rightarrow> nat \<Rightarrow> nat \<Rightarrow> 's \<Rightarrow> 's" where
  "push_upvalues L nup 0 s = s"
| "push_upvalues L nup (Suc n) s = push_upvalues L nup n (lua_pushvalue L (- (int nup + 1)) s)"

fun set_regs :: "'s lua_stk \<Rightarrow> (string \<times> string) list \<Rightarrow> nat \<Rightarrow> 's \<Rightarrow> 's" where
  "set_regs L [] nup s = s"
| "set_regs L ((name, func) # l) nup s =
     (let s1 = lua_pushstring L name s;
          s2 = push_upvalues L nup nup s1;
          s3 = lua_pushcclosure L func nup s2
      in set_regs L l nup (lua_settable L (- (int nup + 3)) s3))"

definition luaL_setfuncs :: "'s lua_stk \<Rightarrow> (string \<times> string) list \<Rightarrow> nat \<Rightarrow> 's \<Rightarrow> 's" where
  "luaL_setfuncs L l nup s = lua_pop L nup (set_regs L l nup (luaL_checkstack L (nup + 1) s))"

definition luaL_newlib :: "'s lua_stk \<Rightarrow> (string \<times> string) list \<Rightarrow> 's \<Rightarrow> 's" where
  "luaL_newlib L l s = luaL_setfuncs L l 0 (lua_createtable L s)"

definition mink_lualib :: "(string \<times> string) list" where
  "mink_lualib = [(''get_args'', ''mink_lua_get_args''), (''signal'', ''mink_lua_do_signal''),
     (''cmd_call'', ''mink_lua_do_cmd_call''), (''perf_inc'', ''mink_lua_do_perf_inc''),
     (''perf_set'', ''mink_lua_do_perf_set''), (''perf_match'', ''mink_lua_do_perf_match''),
     (''db_set'', ''mink_lua_do_db_set''), (''db_get'', ''mink_lua_do_db_get'')]"

definition init_mink_lua_module :: "'s lua_stk \<Rightarrow> 's \<Rightarrow> 's" where
  "init_mink_lua_module L s = lua_setglobal L ''M'' (luaL_newlib L mink_lualib s)"

definition mqtt_lualib :: "(string \<times> string) list" where
  "mqtt_lualib = [(''publish'', ''mink_lua_mqtt_pub'')]"

definition init_mqtt_lua_module :: "'s lua_stk \<Rightarrow> 's \<Rightarrow> 's" where
  "init_mqtt_lua_module L s = luaL_newlib L mqtt_lualib s"

text \<open>The handler of the signal \<^verbatim>\<open>@init_lua_sub_module:mqtt\<close>; the state is its last argument.\<close>

definition mqtt_module_sig_run :: "'s lua_stk \<Rightarrow> 's \<Rightarrow> int \<times> 's" where
  "mqtt_module_sig_run L s =
     (let s1 = lua_getglobal L ''M'' s;
          s2 = lua_pushstring L ''mqtt'' s1;
          s3 = init_mqtt_lua_module L s2;
          s4 = lua_settable L (- 3) s3
      in (0, lua_pop L 1 s4))"

section \<open>What they leave in the state\<close>

lemma lua_stk_lawsD:
  assumes "lua_stk_laws L v"
  shows "\<exists>t. t \<notin> dom (lv_tab (v s)) \<and>
        v (lua_createtable L s) = (v s)\<lparr>lv_stack := V_tab t # lv_stack (v s), lv_tab := (lv_tab (v s))(t \<mapsto> Map.empty)\<rparr>"
    and "v (luaL_checkstack L n s) = v s"
    and "v (lua_pushstring L k s) = (v s)\<lparr>lv_stack := V_str k # lv_stack (v s)\<rparr>"
    and "i < 0 \<Longrightarrow> slot i < length (lv_stack (v s)) \<Longrightarrow>
        v (lua_pushvalue L i s) = (v s)\<lparr>lv_stack := lv_stack (v s) ! slot i # lv_stack (v s)\<rparr>"
    and "n \<le> length (lv_stack (v s)) \<Longrightarrow>
        v (lua_pushcclosure L f n s) = (v s)\<lparr>lv_stack := V_fun f (rev (take n (lv_stack (v s)))) # drop n (lv_stack (v s))\<rparr>"
    and "i < 0 \<Longrightarrow> lv_stack (v s) = x # V_str k # rest \<Longrightarrow> slot i < length (lv_stack (v s)) \<Longrightarrow>
        lv_stack (v s) ! slot i = V_tab t \<Longrightarrow> lv_tab (v s) t = Some fs \<Longrightarrow> x \<noteq> V_nil \<Longrightarrow>
        v (lua_settable L i s) = (v s)\<lparr>lv_stack := rest, lv_tab := (lv_tab (v s))(t \<mapsto> fs(k \<mapsto> x))\<rparr>"
    and "n \<le> length (lv_stack (v s)) \<Longrightarrow> v (lua_pop L n s) = (v s)\<lparr>lv_stack := drop n (lv_stack (v s))\<rparr>"
    and "lv_stack (v s) = x # rest \<Longrightarrow> x \<noteq> V_nil \<Longrightarrow>
        v (lua_setglobal L g s) = (v s)\<lparr>lv_stack := rest, lv_glob := (lv_glob (v s))(g \<mapsto> x)\<rparr>"
    and "v (lua_getglobal L g s) = (v s)\<lparr>lv_stack := to_lv (lv_glob (v s) g) # lv_stack (v s)\<rparr>"
  using assms unfolding lua_stk_laws_def by (elim conjE, simp)+

lemma same_stack: "lv_stack w = st \<Longrightarrow> w\<lparr>lv_stack := st, lv_tab := T\<rparr> = w\<lparr>lv_tab := T\<rparr>"
  by (cases w) simp

text \<open>Copying the upvalues: the loop has moved \<open>n\<close> of them when the rest is still below what it pushed.\<close>

lemma push_upvalues_view:
  assumes L: "lua_stk_laws L v" and "lv_stack (v s) = rev (take j ups) @ k # rev ups @ rest" and "j + n = length ups"
  shows "v (push_upvalues L (length ups) n s) = (v s)\<lparr>lv_stack := rev ups @ k # rev ups @ rest\<rparr>"
  using assms(2,3)
proof (induction n arbitrary: s j)
  case 0
  then show ?case by simp
next
  case (Suc n)
  let ?i = "- (int (length ups) + 1)"
  have j: "j < length ups" using Suc.prems(2) by simp
  have sl: "slot ?i = length ups" by (simp add: slot_def)
  have "lv_stack (v s) ! length ups = (rev ups @ rest) ! (length ups - Suc j)" using j Suc.prems(1) by (simp add: nth_append nth_Cons')
  also have "\<dots> = rev ups ! (length ups - Suc j)" using j by (intro nth_append_left) simp
  also have "\<dots> = ups ! j" using j by (simp add: rev_nth)
  finally have top: "lv_stack (v s) ! slot ?i = ups ! j" using sl by simp
  have "v (lua_pushvalue L ?i s) = (v s)\<lparr>lv_stack := ups ! j # lv_stack (v s)\<rparr>"
    using lua_stk_lawsD(4) [OF L, of ?i s] top sl Suc.prems j by simp
  moreover have "ups ! j # rev (take j ups) = rev (take (Suc j) ups)" using j by (simp add: take_Suc_conv_app_nth)
  ultimately have v1: "v (lua_pushvalue L ?i s) = (v s)\<lparr>lv_stack := rev (take (Suc j) ups) @ k # rev ups @ rest\<rparr>"
    using Suc.prems(1) by simp
  have "v (push_upvalues L (length ups) n (lua_pushvalue L ?i s)) =
      (v (lua_pushvalue L ?i s))\<lparr>lv_stack := rev ups @ k # rev ups @ rest\<rparr>"
    by (rule Suc.IH [of _ "Suc j"]) (use v1 Suc.prems(2) in simp_all)
  then show ?case using v1 by simp
qed

text \<open>Every function of the list ends up in the table, as a closure over the upvalues.\<close>

lemma set_regs_view:
  assumes L: "lua_stk_laws L v"
    and "lv_stack (v s) = rev ups @ V_tab t # rest" and "lv_tab (v s) t = Some fs"
  shows "v (set_regs L l (length ups) s) =
    (v s)\<lparr>lv_tab := (lv_tab (v s))(t \<mapsto> fs ++ map_of (rev (map (\<lambda>(name, func). (name, V_fun func ups)) l)))\<rparr>"
  using assms(2,3)
proof (induction l arbitrary: s fs)
  case Nil
  then show ?case by (simp add: fun_upd_idem)
next
  case (Cons r l)
  obtain name func where r: "r = (name, func)" by (metis prod.exhaust)
  let ?n = "length ups"
  define s1 where "s1 = lua_pushstring L name s"
  define s2 where "s2 = push_upvalues L ?n ?n s1"
  define s3 where "s3 = lua_pushcclosure L func ?n s2"
  define s4 where "s4 = lua_settable L (- (int ?n + 3)) s3"
  have v1: "v s1 = (v s)\<lparr>lv_stack := V_str name # rev ups @ V_tab t # rest\<rparr>"
    using lua_stk_lawsD(3) [OF L] Cons.prems(1) by (simp add: s1_def)
  have v2: "v s2 = (v s1)\<lparr>lv_stack := rev ups @ V_str name # rev ups @ V_tab t # rest\<rparr>"
    unfolding s2_def by (rule push_upvalues_view [OF L, where j = 0]) (simp_all add: v1)
  have v3: "v s3 = (v s2)\<lparr>lv_stack := V_fun func ups # V_str name # rev ups @ V_tab t # rest\<rparr>"
    unfolding s3_def using lua_stk_lawsD(5) [OF L, of ?n s2 func] v2 by simp
  have sl: "slot (- (int ?n + 3)) = ?n + 2" by (simp add: slot_def)
  have v4: "v s4 = (v s3)\<lparr>lv_stack := rev ups @ V_tab t # rest, lv_tab := (lv_tab (v s3))(t \<mapsto> fs(name \<mapsto> V_fun func ups))\<rparr>"
    unfolding s4_def
    by (rule lua_stk_lawsD(6) [OF L]) (use v3 v2 v1 sl Cons.prems in \<open>simp_all add: nth_append\<close>)
  have v4': "v s4 = (v s)\<lparr>lv_tab := (lv_tab (v s))(t \<mapsto> fs(name \<mapsto> V_fun func ups))\<rparr>"
    using same_stack [OF Cons.prems(1)] by (simp add: v4 v3 v2 v1)
  have "v (set_regs L (r # l) ?n s) = v (set_regs L l ?n s4)"
    by (simp add: r s4_def s3_def s2_def s1_def Let_def)
  also have "\<dots> = (v s4)\<lparr>lv_tab := (lv_tab (v s4))(t \<mapsto> fs(name \<mapsto> V_fun func ups) ++
      map_of (rev (map (\<lambda>(name, func). (name, V_fun func ups)) l)))\<rparr>"
    by (rule Cons.IH) (use v4' Cons.prems in \<open>simp_all add: fun_eq_iff\<close>)
  also have "\<dots> = (v s)\<lparr>lv_tab := (lv_tab (v s))(t \<mapsto> fs(name \<mapsto> V_fun func ups) ++
      map_of (rev (map (\<lambda>(name, func). (name, V_fun func ups)) l)))\<rparr>"
    unfolding v4' by simp
  also have "fs(name \<mapsto> V_fun func ups) ++ map_of (rev (map (\<lambda>(name, func). (name, V_fun func ups)) l)) =
      fs ++ map_of (rev (map (\<lambda>(name, func). (name, V_fun func ups)) (r # l)))"
    by (simp add: r)
  finally show ?case .
qed

lemma luaL_setfuncs_view:
  assumes L: "lua_stk_laws L v"
    and "lv_stack (v s) = rev ups @ V_tab t # rest" and "lv_tab (v s) t = Some fs"
  shows "v (luaL_setfuncs L l (length ups) s) = (v s)\<lparr>lv_stack := V_tab t # rest,
    lv_tab := (lv_tab (v s))(t \<mapsto> fs ++ map_of (rev (map (\<lambda>(name, func). (name, V_fun func ups)) l)))\<rparr>"
proof -
  define s1 where "s1 = luaL_checkstack L (length ups + 1) s"
  have v1: "v s1 = v s" unfolding s1_def by (rule lua_stk_lawsD(2) [OF L])
  note v2 = set_regs_view [OF L, where s = s1, unfolded v1, OF assms(2,3), of l]
  show ?thesis
    unfolding luaL_setfuncs_def s1_def [symmetric]
    using lua_stk_lawsD(7) [OF L, of "length ups" "set_regs L l (length ups) s1"] assms(2) by (simp add: v2)
qed

lemma luaL_newlib_view:
  assumes L: "lua_stk_laws L v" and "distinct (map fst l)"
  shows "\<exists>t. t \<notin> dom (lv_tab (v s)) \<and> v (luaL_newlib L l s) = (v s)\<lparr>lv_stack := V_tab t # lv_stack (v s),
    lv_tab := (lv_tab (v s))(t \<mapsto> map_of (map (\<lambda>(name, func). (name, V_fun func [])) l))\<rparr>"
proof -
  obtain t where t: "t \<notin> dom (lv_tab (v s))" "v (lua_createtable L s) =
      (v s)\<lparr>lv_stack := V_tab t # lv_stack (v s), lv_tab := (lv_tab (v s))(t \<mapsto> Map.empty)\<rparr>"
    using lua_stk_lawsD(1) [OF L] by blast
  have "distinct (map fst (map (\<lambda>(name, func). (name, V_fun func [])) l))" using assms(2) by (simp add: o_def split_def)
  note rev = map_of_rev_distinct [OF this]
  have "v (luaL_setfuncs L l (length []) (lua_createtable L s)) = (v s)\<lparr>lv_stack := V_tab t # lv_stack (v s),
      lv_tab := (lv_tab (v s))(t \<mapsto> Map.empty ++ map_of (rev (map (\<lambda>(name, func). (name, V_fun func [])) l)))\<rparr>"
    using luaL_setfuncs_view [OF L, where ups = "[]" and t = t and fs = Map.empty and s = "lua_createtable L s" and l = l] by (simp add: t(2))
  then show ?thesis using t(1) by (auto simp: luaL_newlib_def rev)
qed

text \<open>
  (C33) The module a script finds after the set-up of an interpreter: \<^verbatim>\<open>M\<close> is a table with the eight functions of the
  core and, when the MQTT plugin answers the signal for sub-modules, with a table \<^verbatim>\<open>mqtt\<close> that has \<^verbatim>\<open>publish\<close>;
  nothing else of the state changes, and the stack is as it was.
\<close>

theorem lua_modules_registered:
  assumes L: "lua_stk_laws L v" and s1: "s1 = init_mink_lua_module L s" and s2: "mqtt_module_sig_run L s1 = (rc, s2)"
  shows "\<exists>t u. t \<notin> dom (lv_tab (v s)) \<and> u \<notin> dom (lv_tab (v s)) \<and> u \<noteq> t \<and> rc = 0 \<and>
    v s1 = (v s)\<lparr>lv_tab := (lv_tab (v s))(t \<mapsto> map_of (map (\<lambda>(name, func). (name, V_fun func [])) mink_lualib)),
      lv_glob := (lv_glob (v s))(''M'' \<mapsto> V_tab t)\<rparr> \<and>
    v s2 = (v s1)\<lparr>lv_tab := (lv_tab (v s))(u \<mapsto> [''publish'' \<mapsto> V_fun ''mink_lua_mqtt_pub'' []],
      t \<mapsto> (map_of (map (\<lambda>(name, func). (name, V_fun func [])) mink_lualib))(''mqtt'' \<mapsto> V_tab u))\<rparr>"
proof -
  let ?F = "map_of (map (\<lambda>(name, func). (name, V_fun func [])) mink_lualib)"
  have "distinct (map fst mink_lualib)" by (simp add: mink_lualib_def)
  from luaL_newlib_view [OF L this, of s] obtain t where t: "t \<notin> dom (lv_tab (v s))"
    "v (luaL_newlib L mink_lualib s) = (v s)\<lparr>lv_stack := V_tab t # lv_stack (v s), lv_tab := (lv_tab (v s))(t \<mapsto> ?F)\<rparr>" by blast
  have v1: "v s1 = (v s)\<lparr>lv_tab := (lv_tab (v s))(t \<mapsto> ?F), lv_glob := (lv_glob (v s))(''M'' \<mapsto> V_tab t)\<rparr>"
    unfolding s1 init_mink_lua_module_def
    using lua_stk_lawsD(8) [OF L, of "luaL_newlib L mink_lualib s" "V_tab t" "lv_stack (v s)" "''M''"] t(2) by simp
  define a where "a = lua_pushstring L ''mqtt'' (lua_getglobal L ''M'' s1)"
  have va: "v a = (v s1)\<lparr>lv_stack := V_str ''mqtt'' # V_tab t # lv_stack (v s)\<rparr>"
    unfolding a_def using v1 by (simp add: lua_stk_lawsD(3,9) [OF L] to_lv_def)
  have "distinct (map fst mqtt_lualib)" by (simp add: mqtt_lualib_def)
  from luaL_newlib_view [OF L this, of a] obtain u where u: "u \<notin> dom (lv_tab (v a))"
    "v (luaL_newlib L mqtt_lualib a) = (v a)\<lparr>lv_stack := V_tab u # lv_stack (v a),
       lv_tab := (lv_tab (v a))(u \<mapsto> [''publish'' \<mapsto> V_fun ''mink_lua_mqtt_pub'' []])\<rparr>"
    by (auto simp: mqtt_lualib_def)
  define b where "b = lua_settable L (- 3) (luaL_newlib L mqtt_lualib a)"
  have ut: "u \<noteq> t" "u \<notin> dom (lv_tab (v s))" using u(1) va v1 by auto
  have vb: "v b = (v (luaL_newlib L mqtt_lualib a))\<lparr>lv_stack := V_tab t # lv_stack (v s),
      lv_tab := (lv_tab (v (luaL_newlib L mqtt_lualib a)))(t \<mapsto> ?F(''mqtt'' \<mapsto> V_tab u))\<rparr>"
    unfolding b_def by (rule lua_stk_lawsD(6) [OF L]) (use u(2) va v1 ut in \<open>simp_all add: slot_def\<close>)
  have r: "rc = 0" "s2 = lua_pop L 1 b"
    using s2 by (simp_all add: mqtt_module_sig_run_def init_mqtt_lua_module_def a_def b_def Let_def)
  have "v s2 = (v b)\<lparr>lv_stack := lv_stack (v s)\<rparr>"
    unfolding r(2) using lua_stk_lawsD(7) [OF L, of 1 b] vb by simp
  then have "v s2 = (v s1)\<lparr>lv_stack := lv_stack (v s), lv_tab := (lv_tab (v s))(u \<mapsto> [''publish'' \<mapsto> V_fun ''mink_lua_mqtt_pub'' []],
      t \<mapsto> ?F(''mqtt'' \<mapsto> V_tab u))\<rparr>"
    using vb u(2) va v1 ut(1) by (simp add: fun_upd_twist)
  moreover have "lv_stack (v s1) = lv_stack (v s)" using v1 by simp
  ultimately have "v s2 = (v s1)\<lparr>lv_tab := (lv_tab (v s))(u \<mapsto> [''publish'' \<mapsto> V_fun ''mink_lua_mqtt_pub'' []],
      t \<mapsto> ?F(''mqtt'' \<mapsto> V_tab u))\<rparr>" using same_stack by metis
  with t(1) ut r(1) v1 show ?thesis by blast
qed

text \<open>An interpreter whose tables are numbered in the order of their creation has the effects the modules rely on.\<close>

type_synonym demo_L = "lv list \<times> (string \<rightharpoonup> lv) list \<times> (string \<rightharpoonup> lv)"

definition demo_settable :: "int \<Rightarrow> demo_L \<Rightarrow> demo_L" where
  "demo_settable i s = (case s of
     (x # V_str k # rest, tabs, g) \<Rightarrow>
       (case (x # V_str k # rest) ! slot i of V_tab t \<Rightarrow> (rest, tabs[t := (tabs ! t)(k \<mapsto> x)], g) | _ \<Rightarrow> s)
   | _ \<Rightarrow> s)"

definition demo_stk :: "demo_L lua_stk" where
  "demo_stk = \<lparr>lua_createtable = (\<lambda>(st, tabs, g). (V_tab (length tabs) # st, tabs @ [Map.empty], g)),
     luaL_checkstack = (\<lambda>n s. s),
     lua_pushstring = (\<lambda>x (st, r). (V_str x # st, r)),
     lua_pushvalue = (\<lambda>i (st, r). (st ! slot i # st, r)),
     lua_pushcclosure = (\<lambda>f n (st, r). (V_fun f (rev (take n st)) # drop n st, r)),
     lua_settable = demo_settable,
     lua_pop = (\<lambda>n (st, r). (drop n st, r)),
     lua_setglobal = (\<lambda>x (st, tabs, g). (tl st, tabs, g(x \<mapsto> hd st))),
     lua_getglobal = (\<lambda>x (st, tabs, g). (to_lv (g x) # st, tabs, g))\<rparr>"

definition demo_lua_view :: "demo_L \<Rightarrow> lua_view" where
  "demo_lua_view s = (case s of (st, tabs, g) \<Rightarrow>
     \<lparr>lv_stack = st, lv_tab = (\<lambda>t. if t < length tabs then Some (tabs ! t) else None), lv_glob = g\<rparr>)"

lemma demo_stk_laws: "lua_stk_laws demo_stk demo_lua_view"
  unfolding lua_stk_laws_def
proof (intro conjI allI impI)
  fix s :: demo_L
  show "\<exists>t. t \<notin> dom (lv_tab (demo_lua_view s)) \<and> demo_lua_view (lua_createtable demo_stk s) =
      (demo_lua_view s)\<lparr>lv_stack := V_tab t # lv_stack (demo_lua_view s), lv_tab := (lv_tab (demo_lua_view s))(t \<mapsto> Map.empty)\<rparr>"
    by (intro exI [of _ "length (fst (snd s))"])
      (auto simp: demo_stk_def demo_lua_view_def dom_def fun_eq_iff nth_append split: prod.splits)
next
  fix i s x k rest t fs
  assume a: "i < 0 \<and> lv_stack (demo_lua_view s) = x # V_str k # rest \<and> slot i < length (lv_stack (demo_lua_view s)) \<and>
    lv_stack (demo_lua_view s) ! slot i = V_tab t \<and> lv_tab (demo_lua_view s) t = Some fs \<and> x \<noteq> V_nil"
  obtain st tabs g where s: "s = (st, tabs, g)" by (metis prod_cases3)
  have t: "t < length tabs" "fs = tabs ! t" using a by (simp_all add: demo_lua_view_def s split: if_splits)
  have "demo_settable i s = (rest, tabs[t := (tabs ! t)(k \<mapsto> x)], g)"
  proof -
    have "st = x # V_str k # rest" "(x # V_str k # rest) ! slot i = V_tab t" using a by (auto simp: demo_lua_view_def s)
    then show ?thesis by (simp add: demo_settable_def s)
  qed
  then show "demo_lua_view (lua_settable demo_stk i s) =
      (demo_lua_view s)\<lparr>lv_stack := rest, lv_tab := (lv_tab (demo_lua_view s))(t \<mapsto> fs(k \<mapsto> x))\<rparr>"
    using t by (auto simp: demo_stk_def demo_lua_view_def s fun_eq_iff)
qed (auto simp: demo_stk_def demo_lua_view_def split: prod.splits)

theorem lua_modules_registered_witness:
  "\<exists>t u. t \<noteq> u \<and> (let s1 = init_mink_lua_module demo_stk ([], [], Map.empty); s2 = snd (mqtt_module_sig_run demo_stk s1) in
     lv_glob (demo_lua_view s2) ''M'' = Some (V_tab t) \<and> lv_stack (demo_lua_view s2) = [] \<and>
     map_option (\<lambda>fs. (fs ''signal'', fs ''mqtt'', fs ''publish'')) (lv_tab (demo_lua_view s2) t) =
       Some (Some (V_fun ''mink_lua_do_signal'' []), Some (V_tab u), None) \<and>
     lv_tab (demo_lua_view s2) u = Some [''publish'' \<mapsto> V_fun ''mink_lua_mqtt_pub'' []])"
proof -
  define s1 where "s1 = init_mink_lua_module demo_stk ([], [], Map.empty)"
  define s2 where "s2 = snd (mqtt_module_sig_run demo_stk s1)"
  have "mqtt_module_sig_run demo_stk s1 = (fst (mqtt_module_sig_run demo_stk s1), s2)" by (simp add: s2_def)
  from lua_modules_registered [OF demo_stk_laws s1_def this] obtain t u where
    "u \<noteq> t" "demo_lua_view s1 = (demo_lua_view ([], [], Map.empty))\<lparr>lv_tab := (lv_tab (demo_lua_view ([], [], Map.empty)))
       (t \<mapsto> map_of (map (\<lambda>(name, func). (name, V_fun func [])) mink_lualib)),
      lv_glob := (lv_glob (demo_lua_view ([], [], Map.empty)))(''M'' \<mapsto> V_tab t)\<rparr>"
    "demo_lua_view s2 = (demo_lua_view s1)\<lparr>lv_tab := (lv_tab (demo_lua_view ([], [], Map.empty)))(u \<mapsto> [''publish'' \<mapsto> V_fun ''mink_lua_mqtt_pub'' []],
      t \<mapsto> (map_of (map (\<lambda>(name, func). (name, V_fun func [])) mink_lualib))(''mqtt'' \<mapsto> V_tab u))\<rparr>"
    by blast
  then show ?thesis
    unfolding s1_def [symmetric] Let_def s2_def [symmetric]
    by (intro exI [of _ t] exI [of _ u]) (simp add: demo_lua_view_def mink_lualib_def)
qed

end
