(* ===== verification/Openwrt.thy ===== *)
theory Openwrt
  imports Umlua_cfg
begin

text \<open>
  The OpenWrt plugin, \<^verbatim>\<open>src/src/services/sysagent/plugins/openwrt/plg_sysagent_openwrt.c\<close>: signals listed and
  raised over ubus.

  libubus and libubox are not part of the program. A message buffer is the sequence of calls that built it since
  \<^verbatim>\<open>blob_buf_init\<close>; \<open>json_ok\<close> says for which strings \<^verbatim>\<open>blobmsg_add_json_from_string\<close> succeeds. A request comes
  with the attributes \<^verbatim>\<open>blobmsg_parse\<close> finds. The plugin has its own state \<open>ow_st\<close> beside the plugin manager;
  \<open>ow_fault\<close> records that the code followed a NULL pointer.
\<close>

section \<open>Data\<close>

datatype blob =
    Blob_open_array string
  | Blob_open_table
  | Blob_string string string
  | Blob_u32 string "32 word"
  | Blob_u8 string bool
  | Blob_json string
  | Blob_close

datatype ow_ev = Ubus_reply "blob list" | Ubus_free | Ubus_th_create | Ubus_th_join

record ow_st =
  ow_uctx :: "nat option"
  ow_b :: "blob list"
  ow_evs :: "ow_ev list"
  ow_fault :: bool

definition blob_add :: "blob list \<Rightarrow> ow_st \<Rightarrow> ow_st" where
  "blob_add bs s = s\<lparr>ow_b := ow_b s @ bs\<rparr>"

definition ow_emit :: "ow_ev \<Rightarrow> ow_st \<Rightarrow> ow_st" where
  "ow_emit ev s = s\<lparr>ow_evs := ow_evs s @ [ev]\<rparr>"

text \<open>The plugin manager with another state of the surrounding program.\<close>

definition with_w :: "('w \<Rightarrow> 'v) \<Rightarrow> 'w umplg_mngr \<Rightarrow> 'v umplg_mngr" where
  "with_w f pm = \<lparr>plgs = plgs pm, hooks = hooks pm, signals = signals pm, cmd_map = cmd_map pm, cfg = cfg pm,
     sh_mem = sh_mem pm, evs = evs pm, wld = f (wld pm)\<rparr>"

lemma with_w_sel [simp]:
  "signals (with_w f pm) = signals pm" "sh_mem (with_w f pm) = sh_mem pm" "wld (with_w f pm) = f (wld pm)"
  by (simp_all add: with_w_def)

section \<open>Listing signals\<close>

text \<open>
  The entry of one signal. Names that begin with \<open>@\<close> are skipped; the others are taken for signals of the Lua
  core, the second element of their arguments for an environment. The interval is cut to 32 bits.
\<close>

definition signal_entry :: "string \<Rightarrow> lua_env_d \<Rightarrow> blob list" where
  "signal_entry nm E =
     [Blob_open_table, Blob_string ''name'' nm, Blob_string ''path'' (le_path E),
      Blob_u32 ''interval'' (ucast (le_interval E)), Blob_u8 ''auto_start'' (le_active E), Blob_close]"

definition signal_match_cb :: "sh_ptr \<Rightarrow> (lua_w \<times> ow_st) umplg_mngr \<Rightarrow> (lua_w \<times> ow_st) umplg_mngr" where
  "signal_match_cb p m =
     (let sh = sh_mem m p in
      if take 1 (sh_id sh) = ''@'' then m
      else
        with_w (\<lambda>(w, s). (w,
          case sh_args sh of
            None \<Rightarrow> s\<lparr>ow_fault := True\<rparr>
          | Some a \<Rightarrow> blob_add (signal_entry (sh_id sh) (env_mem w (av_env (argv_mem w a)))) s)) m)"

definition list_signals :: "(string \<Rightarrow> string \<Rightarrow> bool) \<Rightarrow> lua_pm \<Rightarrow> ow_st \<Rightarrow> ow_st" where
  "list_signals fnm pm s =
     (let s1 = blob_add [Blob_open_array ''signals''] (s\<lparr>ow_b := []\<rparr>);
          s2 = snd (wld (umplg_match_signal fnm (with_w (\<lambda>w. (w, s1)) pm) ''*'' signal_match_cb));
          s3 = blob_add [Blob_close] s2
      in ow_emit (Ubus_reply (ow_b s3)) s3)"

section \<open>Raising a signal\<close>

record run_msg =
  rm_id :: "string option"
  rm_args :: "string option"
  rm_auth :: "string option"

definition run_flags :: "'j json_api \<Rightarrow> string option \<Rightarrow> int" where
  "run_flags J auth =
     (case auth of
        None \<Rightarrow> 0
      | Some a \<Rightarrow>
          (case json_tokener_parse J a of
             None \<Rightarrow> 0
           | Some j \<Rightarrow> json_object_get_int J (json_object_object_get J j ''flags'')))"

definition run_reply :: "(string \<Rightarrow> bool) \<Rightarrow> int \<Rightarrow> string option \<Rightarrow> blob list" where
  "run_reply json_ok r buff =
     (if r = ret_num UMPLG_RES_SUCCESS then
        (case buff of
           None \<Rightarrow> []
         | Some x \<Rightarrow> if json_ok x then [Blob_json x] else [Blob_string ''result'' x])
      else if r = ret_num UMPLG_RES_AUTH_ERROR then [Blob_string ''result'' ''authentication error'']
      else if r = ret_num UMPLG_RES_UNKNOWN_SIGNAL then [Blob_string ''result'' ''unknown signal'']
      else [Blob_string ''result'' ''unknown error''])"

definition run_signal ::
  "lua_w hcode \<Rightarrow> 'j json_api \<Rightarrow> (string \<Rightarrow> bool) \<Rightarrow> nat \<Rightarrow> run_msg \<Rightarrow> lua_pm \<times> ow_st \<Rightarrow> lua_pm \<times> ow_st"
where
  "run_signal hs J json_ok mem msg s =
     (let (pm, o1) = s;
          o2 = o1\<lparr>ow_b := []\<rparr>
      in case rm_id msg of
           None \<Rightarrow>
             let o3 = blob_add [Blob_string ''result'' ''missing arguments''] o2
             in (pm, ow_emit (Ubus_reply (ow_b o3)) o3)
         | Some i \<Rightarrow>
             let args = (case rm_args msg of None \<Rightarrow> '''' | Some x \<Rightarrow> x);
                 auth = (case rm_auth msg of None \<Rightarrow> '''' | Some x \<Rightarrow> x);
                 uflags = run_flags J (rm_auth msg);
                 e_d = umplg_stdd_init (Some \<lparr>items = None\<rparr>);
                 its = snd (umplg_stdd_item_add (Some []) (Some \<lparr>it_name = '''', it_value = args\<rparr>));
                 its = snd (umplg_stdd_item_add its (Some \<lparr>it_name = '''', it_value = auth\<rparr>));
                 e_d = snd (umplg_stdd_items_add mem e_d its);
                 (r, io, pm1) = umplg_proc_signal hs pm (Some i)
                   \<lparr>io_in = e_d, io_out = None, io_out_sz = 0, io_args = None\<rparr> uflags;
                 o3 = blob_add (run_reply json_ok r (io_out io)) o2
             in (pm1, ow_emit (Ubus_reply (ow_b o3)) o3))"

section \<open>The ubus thread\<close>

text \<open>
  The requests libubus dispatches when data is pending, and what \<^verbatim>\<open>poll\<close> says in one iteration.
\<close>

datatype ubus_req = Req_list_signals | Req_run_signal run_msg

datatype ubus_poll = Ubus_poll_error | Ubus_idle | Ubus_pollin "ubus_req list" | Ubus_hup

definition ubus_handle ::
  "lua_w hcode \<Rightarrow> 'j json_api \<Rightarrow> (string \<Rightarrow> bool) \<Rightarrow> (string \<Rightarrow> string \<Rightarrow> bool) \<Rightarrow> nat \<Rightarrow> ubus_req \<Rightarrow> lua_pm \<times> ow_st \<Rightarrow> lua_pm \<times> ow_st"
where
  "ubus_handle hs J json_ok fnm mem r s =
     (case r of
        Req_list_signals \<Rightarrow> (fst s, list_signals fnm (fst s) (snd s))
      | Req_run_signal msg \<Rightarrow> run_signal hs J json_ok mem msg s)"

text \<open>The loop, over what happens until the daemon terminates.\<close>

fun thread_ubus ::
  "lua_w hcode \<Rightarrow> 'j json_api \<Rightarrow> (string \<Rightarrow> bool) \<Rightarrow> (string \<Rightarrow> string \<Rightarrow> bool) \<Rightarrow> nat \<Rightarrow> ubus_poll list \<Rightarrow>
   lua_pm \<times> ow_st \<Rightarrow> lua_pm \<times> ow_st"
where
  "thread_ubus hs J json_ok fnm mem [] s = s"
| "thread_ubus hs J json_ok fnm mem (ev # es) s =
     (case ev of
        Ubus_poll_error \<Rightarrow> s
      | Ubus_idle \<Rightarrow> thread_ubus hs J json_ok fnm mem es s
      | Ubus_pollin rs \<Rightarrow> thread_ubus hs J json_ok fnm mem es (fold (ubus_handle hs J json_ok fnm mem) rs s)
      | Ubus_hup \<Rightarrow> s)"

text \<open>\<open>conn\<close> is the result of \<^verbatim>\<open>ubus_connect\<close>, \<open>add\<close> that of \<^verbatim>\<open>ubus_add_object\<close>.\<close>

definition ow_init :: "nat option \<Rightarrow> int \<Rightarrow> ow_st \<Rightarrow> int \<times> ow_st" where
  "ow_init conn add s =
     (let s1 = s\<lparr>ow_uctx := conn\<rparr> in
      if conn = None then (1, s1)
      else if add \<noteq> 0 then (1, (ow_emit Ubus_free s1)\<lparr>ow_uctx := None\<rparr>)
      else (0, ow_emit Ubus_th_create s1))"

definition ow_term_phase_0 :: "ow_st \<Rightarrow> ow_st" where
  "ow_term_phase_0 s = (if ow_uctx s \<noteq> None then ow_emit Ubus_th_join s else s)"

definition ow_term_phase_1 :: "ow_st \<Rightarrow> ow_st" where
  "ow_term_phase_1 s = (if ow_uctx s \<noteq> None then ow_emit Ubus_free s else s)\<lparr>ow_b := []\<rparr>"

definition ow_terminate :: "int \<Rightarrow> ow_st \<Rightarrow> int \<times> ow_st" where
  "ow_terminate phase s =
     (if phase = 0 then (0, ow_term_phase_0 s)
      else if phase = 1 then (0, ow_term_phase_1 s)
      else (0, s))"

text \<open>The plugin has no commands; both command handlers do nothing.\<close>

definition ow_run_local :: "int \<Rightarrow> umplg_idata \<Rightarrow> int \<times> umplg_idata" where
  "ow_run_local cmd_id data = (0, data)"

definition ow_run :: "int \<Rightarrow> umplg_idata \<Rightarrow> int \<times> umplg_idata" where
  "ow_run cmd_id data = (0, data)"

section \<open>The interface to signals\<close>

text \<open>
  What the two ways to raise a signal from outside, Lua and ubus, rely on: a signal that is not there or not allowed is
  refused by the plugin manager with its own code, and then nothing happens.
\<close>

locale signal_service =
  fixes raise :: "'m \<Rightarrow> string \<Rightarrow> 'io \<Rightarrow> int \<Rightarrow> int \<times> 'io \<times> 'm" and level :: "'m \<Rightarrow> string \<Rightarrow> int option"
  assumes unknown: "level m s = None \<Longrightarrow> raise m s io fl = (ret_num UMPLG_RES_UNKNOWN_SIGNAL, io, m)"
    and denied: "level m s = Some l \<Longrightarrow> fl < l \<Longrightarrow> raise m s io fl = (ret_num UMPLG_RES_AUTH_ERROR, io, m)"
begin

definition refusal :: "'m \<Rightarrow> string \<Rightarrow> int \<Rightarrow> int option" where
  "refusal m s fl =
     (case level m s of
        None \<Rightarrow> Some (ret_num UMPLG_RES_UNKNOWN_SIGNAL)
      | Some l \<Rightarrow> if fl < l then Some (ret_num UMPLG_RES_AUTH_ERROR) else None)"

lemma refused: "refusal m s fl = Some r \<Longrightarrow> raise m s io fl = (r, io, m)"
  by (auto simp: refusal_def unknown denied split: option.splits if_splits)

lemma refused_code: "refusal m s fl = Some r \<Longrightarrow> r \<noteq> ret_num UMPLG_RES_SUCCESS"
  by (auto simp: refusal_def split: option.splits if_splits)

end

definition signal_level :: "'w umplg_mngr \<Rightarrow> string \<Rightarrow> int option" where
  "signal_level pm s = map_option (\<lambda>p. int (unat (sh_min_auth_lvl (sh_mem pm p)))) (HASH_FIND (signals pm) s)"

interpretation sigs: signal_service "\<lambda>pm s. umplg_proc_signal hs pm (Some s)" signal_level
  for hs :: "'w hcode"
  by unfold_locales (auto simp: umplg_proc_signal_def signal_level_def)

section \<open>Properties\<close>

lemma run_flags_lua:
  "json_object_get_int J None = 0 \<Longrightarrow> run_flags J auth = (case auth of None \<Rightarrow> 0 | Some a \<Rightarrow> auth_flags J a)"
  by (auto simp: run_flags_def auth_flags_def split: option.split)

lemma run_signal_raise:
  assumes "json_object_get_int J None = 0" and "rm_id msg = Some i"
    and "mink_lua_signal hs J mem (Some i) (rm_args msg) (rm_auth msg) pm = (s_res, r, pm')"
    and "b = run_reply json_ok r s_res"
  shows "run_signal hs J json_ok mem msg (pm, s) = (pm', ow_emit (Ubus_reply b) (s\<lparr>ow_b := b\<rparr>))"
proof -
  have "run_reply json_ok r (if r = ret_num UMPLG_RES_SUCCESS then x else Some '''') = run_reply json_ok r x" for r x
    by (simp add: run_reply_def)
  then show ?thesis using assms
    by (auto simp: run_signal_def mink_lua_signal_def signal_data_def run_flags_lua blob_add_def Let_def split_beta)
qed

text \<open>
  (C19) A signal raised over ubus is raised as by the function \<^verbatim>\<open>signal\<close> of a Lua script: with the same data, the same
  rights, the same effect on the program; and the reply is made of the same result.
\<close>

theorem run_signal_like_lua:
  assumes "json_object_get_int J None = 0" and "rm_id msg = Some i"
  shows "run_signal hs J json_ok mem msg (pm, s) =
    (case mink_lua_signal hs J mem (Some i) (rm_args msg) (rm_auth msg) pm of (s_res, r, pm') \<Rightarrow>
       (pm', ow_emit (Ubus_reply (run_reply json_ok r s_res)) (s\<lparr>ow_b := run_reply json_ok r s_res\<rparr>)))"
  using run_signal_raise [OF assms _ refl] by (auto split: prod.split)

definition demo_ow :: ow_st where
  "demo_ow = \<lparr>ow_uctx = Some 1, ow_b = [], ow_evs = [], ow_fault = False\<rparr>"

lemma run_signal_like_lua_witness:
  "run_signal idle_hcode (demo_json (\<lambda>_. None) (\<lambda>_. None)) (\<lambda>_. False) 0 \<lparr>rm_id = Some ''nosuch'', rm_args = None, rm_auth = Some ''x''\<rparr>
     (demo_lua_pm False, demo_ow) =
   (demo_lua_pm False, ow_emit (Ubus_reply [Blob_string ''result'' ''unknown signal'']) (demo_ow\<lparr>ow_b := [Blob_string ''result'' ''unknown signal'']\<rparr>))"
proof -
  let ?J = "demo_json (\<lambda>_. None) (\<lambda>_. None)"
  have z: "json_object_get_int ?J None = 0" by (simp add: demo_json_def)
  have m: "mink_lua_signal idle_hcode ?J 0 (Some ''nosuch'') None (Some ''x'') (demo_lua_pm False) =
      (Some '''', ret_num UMPLG_RES_UNKNOWN_SIGNAL, demo_lua_pm False)"
    by (simp add: mink_lua_signal_def umplg_proc_signal_def HASH_FIND_def)
  from run_signal_like_lua [OF z, of "\<lparr>rm_id = Some ''nosuch'', rm_args = None, rm_auth = Some ''x''\<rparr>" "''nosuch''"]
  show ?thesis by (simp add: m run_reply_def)
qed

text \<open>
  (C20) Neither Lua nor ubus gets past the rights of a signal: if it is not registered, or its minimum level is above the
  caller's flags, nothing of the program changes, a script gets an empty result and the code, and a ubus
  client the message that says why.
\<close>

theorem refused_signal_harmless:
  assumes "json_object_get_int J None = 0"
    and "case signal_level pm i of None \<Rightarrow> True | Some l \<Rightarrow> (case auth of None \<Rightarrow> 0 | Some a \<Rightarrow> auth_flags J a) < l"
    and "why = (if signal_level pm i = None then ''unknown signal'' else ''authentication error'')"
  shows "mink_lua_signal hs J mem (Some i) d auth pm =
      (Some '''', ret_num (if signal_level pm i = None then UMPLG_RES_UNKNOWN_SIGNAL else UMPLG_RES_AUTH_ERROR), pm) \<and>
    run_signal hs J json_ok mem \<lparr>rm_id = Some i, rm_args = d, rm_auth = auth\<rparr> (pm, s) =
      (pm, ow_emit (Ubus_reply [Blob_string ''result'' why]) (s\<lparr>ow_b := [Blob_string ''result'' why]\<rparr>))"
proof -
  define c where "c = (if signal_level pm i = None then UMPLG_RES_UNKNOWN_SIGNAL else UMPLG_RES_AUTH_ERROR)"
  let ?fl = "case auth of None \<Rightarrow> 0 | Some a \<Rightarrow> auth_flags J a"
  have r: "sigs.refusal pm i ?fl = Some (ret_num c)"
    using assms(2) by (auto simp: sigs.refusal_def c_def split: option.splits)
  from sigs.refused [OF r, where hs = hs] sigs.refused_code [OF r]
  have m: "mink_lua_signal hs J mem (Some i) d auth pm = (Some '''', ret_num c, pm)"
    by (simp add: mink_lua_signal_def Let_def)
  have "run_reply json_ok (ret_num c) (Some '''') = [Blob_string ''result'' why]"
    by (simp add: run_reply_def c_def assms(3))
  with run_signal_raise [OF assms(1), of "\<lparr>rm_id = Some i, rm_args = d, rm_auth = auth\<rparr>" i hs mem pm] m show ?thesis
    by (simp add: c_def)
qed

definition demo_guarded :: lua_pm where
  "demo_guarded = upd_sh 5 (\<lambda>h. h\<lparr>sh_min_auth_lvl := 3\<rparr>) (demo_lua_pm False)"

lemma refused_signal_harmless_witness:
  "run_signal idle_hcode (demo_json (\<lambda>_. None) (\<lambda>_. None)) (\<lambda>_. False) 0 \<lparr>rm_id = Some ''sig'', rm_args = None, rm_auth = None\<rparr>
     (demo_guarded, demo_ow) =
   (demo_guarded, ow_emit (Ubus_reply [Blob_string ''result'' ''authentication error''])
      (demo_ow\<lparr>ow_b := [Blob_string ''result'' ''authentication error'']\<rparr>))"
proof -
  have z: "json_object_get_int (demo_json (\<lambda>_. None) (\<lambda>_. None)) None = 0" by (simp add: demo_json_def)
  have l: "signal_level demo_guarded ''sig'' = Some 3"
    by (simp add: signal_level_def demo_guarded_def upd_sh_def HASH_FIND_def)
  have "case signal_level demo_guarded ''sig'' of None \<Rightarrow> True | Some l \<Rightarrow>
      (case None of None \<Rightarrow> 0 | Some a \<Rightarrow> auth_flags (demo_json (\<lambda>_. None) (\<lambda>_. None)) a) < l" by (simp add: l)
  from refused_signal_harmless [OF z this refl, where hs = idle_hcode and d = None] show ?thesis by (simp add: l)
qed

lemma match_cb_fold:
  assumes "\<forall>p \<in> set ps. take 1 (sh_id (sh_mem m p)) \<noteq> ''@'' \<longrightarrow> sh_args (sh_mem m p) \<noteq> None" and "\<And>s. fnm ptrn s"
  shows "fold (\<lambda>p m. if fnm ptrn (sh_id (sh_mem m p)) then signal_match_cb p m else m) ps m =
    with_w (\<lambda>(w, s). (w, blob_add (concat (map (\<lambda>p. signal_entry (sh_id (sh_mem m p))
      (env_mem (fst (wld m)) (av_env (argv_mem (fst (wld m)) (the (sh_args (sh_mem m p)))))))
      (filter (\<lambda>p. take 1 (sh_id (sh_mem m p)) \<noteq> ''@'') ps))) s)) m"
  using assms(1)
proof (induction ps arbitrary: m)
  case Nil
  show ?case by (cases "wld m") (simp add: with_w_def blob_add_def)
next
  case (Cons p ps)
  show ?case
  proof (cases "take 1 (sh_id (sh_mem m p)) = ''@''")
    case True
    with Cons assms(2) show ?thesis by (simp add: signal_match_cb_def)
  next
    case False
    with Cons.prems obtain a where a: "sh_args (sh_mem m p) = Some a" by auto
    define m1 where "m1 = signal_match_cb p m"
    have m1: "m1 = with_w (\<lambda>(w, s). (w, blob_add (signal_entry (sh_id (sh_mem m p)) (env_mem w (av_env (argv_mem w a)))) s)) m"
      using False a by (simp add: m1_def signal_match_cb_def)
    then have "fst (wld m1) = fst (wld m)" "sh_mem m1 = sh_mem m" by (simp_all add: split_beta)
    with Cons.IH [of m1] Cons.prems False assms(2) a show ?thesis
      by (simp add: m1_def [symmetric]) (simp add: m1 with_w_def split_beta blob_add_def)
  qed
qed

text \<open>
  Listing the signals: every signal whose name does not begin with \<open>@\<close> is reported with the script, the interval and
  the start flag of its environment, in the order of registration, and none of the others. This needs
  every such signal to have arguments; the code reads those of a signal that has none through a NULL pointer.
\<close>

theorem list_signals_result:
  assumes "\<forall>x. fnm ''*'' x" and "vis = filter (\<lambda>p. take 1 (sh_id (sh_mem pm p)) \<noteq> ''@'') (HASH_ITER (signals pm))"
    and "\<forall>p \<in> set vis. sh_args (sh_mem pm p) \<noteq> None"
    and "b = [Blob_open_array ''signals''] @
      concat (map (\<lambda>p. signal_entry (sh_id (sh_mem pm p)) (env_mem (wld pm) (sh_env p pm))) vis) @ [Blob_close]"
  shows "list_signals fnm pm s = ow_emit (Ubus_reply b) (s\<lparr>ow_b := b\<rparr>)"
proof -
  let ?m = "with_w (\<lambda>w. (w, blob_add [Blob_open_array ''signals''] (s\<lparr>ow_b := []\<rparr>))) pm"
  have "\<forall>p \<in> set (HASH_ITER (signals pm)). take 1 (sh_id (sh_mem ?m p)) \<noteq> ''@'' \<longrightarrow> sh_args (sh_mem ?m p) \<noteq> None"
    using assms(2,3) by auto
  note f = match_cb_fold [where m = ?m and fnm = fnm and ptrn = "''*''", OF this assms(1) [THEN spec]]
  show ?thesis unfolding list_signals_def umplg_match_signal_def Let_def with_w_sel(1) f
    by (simp add: assms(2,4) sh_env_def blob_add_def)
qed

lemma list_signals_result_witness:
  "list_signals (\<lambda>_ _. True) (demo_lua_pm False) demo_ow =
     ow_emit (Ubus_reply ([Blob_open_array ''signals''] @ signal_entry ''sig'' (demo_lua_env\<lparr>le_conserve_mem := False\<rparr>) @ [Blob_close]))
       (demo_ow\<lparr>ow_b := [Blob_open_array ''signals''] @ signal_entry ''sig'' (demo_lua_env\<lparr>le_conserve_mem := False\<rparr>) @ [Blob_close]\<rparr>)"
  using list_signals_result [of "\<lambda>_ _. True", OF _ refl _ refl, of "demo_lua_pm False" demo_ow]
  by (simp add: HASH_ITER_def demo_lua_w_def sh_env_def)

text \<open>The context of ubus is freed exactly once, whether the plugin could be initialised or not.\<close>

lemma ow_life:
  assumes "ow_init conn add s = (rc, s1)"
  shows "rc = (if conn \<noteq> None \<and> add = 0 then 0 else 1) \<and>
    ow_evs (snd (ow_terminate 1 (snd (ow_terminate 0 s1)))) = ow_evs s @
      (if conn = None then [] else if add \<noteq> 0 then [Ubus_free] else [Ubus_th_create, Ubus_th_join, Ubus_free])"
  using assms by (auto simp: ow_init_def ow_terminate_def ow_term_phase_0_def ow_term_phase_1_def ow_emit_def Let_def split: if_splits)

end
