(* ===== verification/Spec2Isabelle.thy ===== *)
theory Spec2Isabelle
  imports Uthash_opt Utarray_ops Umcounters_conc Spscq Umrpc Agent Mosq_auth Mqtt Lua_modules Openwrt
begin

text \<open>
  Verification of umink-core, the umINK system agent: a daemon that loads plugins, runs Lua scripts on timers and on
  signals, talks MQTT and ubus, and brings plugins for the authentication of the Mosquitto broker.

  \<^bold>\<open>The program and how its parts interact.\<close> The main program (\<^verbatim>\<open>sysagentd.c\<close>) reads the command line
  and a JSON configuration, initialises the Lua core, loads every shared object of the plugin directory
  into the plugin manager (\<^verbatim>\<open>umink_plugin.c\<close>), starts the Lua environments and waits in the loop of
  the daemon frame (\<^verbatim>\<open>umdaemon.c\<close>) for SIGTERM. A plugin registers the commands it implements, which
  others run by number, and signals, which others raise by name with a level of rights. The Lua core
  (\<^verbatim>\<open>umlua.c\<close>) registers a signal for every event of its configuration; its handler runs a script, which calls
  back through the module \<^verbatim>\<open>M\<close> (\<^verbatim>\<open>umlua_m.c\<close>): signals, commands, counters (\<^verbatim>\<open>umcounters.c\<close>) and
  databases (\<^verbatim>\<open>umdb.c\<close>). The MQTT plugin queues received messages (\<^verbatim>\<open>spscq.h\<close>) and raises a signal for
  each; the OpenWrt plugin raises signals on behalf of ubus clients. Tables and arrays are those of
  \<^verbatim>\<open>uthash.h\<close> and \<^verbatim>\<open>utarray.h\<close>. All these files are under \<^verbatim>\<open>src/src\<close>.

  \<^bold>\<open>Theories.\<close> Each one has the data of its component as records and datatypes, an executable definition per
  function (named as in the source; a helper where a loop or a branch is a unit of its own), and the
  lemmas about them.
  \<^item> \<open>Prelude\<close>: widths of machine integers, the C library routines whose result matters, mutex traces.
  \<^item> \<open>Jsonc\<close>, \<open>Lua_api\<close>: the interfaces of json-c and Lua, as records of functions with their documented
    laws as named hypotheses, and a concrete instance of the former.
  \<^item> \<open>Uthash\<close>: tables as lists of entries in application order, and the locale \<open>keyed_table\<close> of what clients rely on;
    \<open>Uthash_impl\<close>: the buckets and their expansion, a second interpretation of that locale, and the refinement;
    \<open>Uthash_jen\<close>: the hash function of the program, whose mixing step is a permutation; \<open>Uthash_srt\<close>: the merge sort
    on linked handles; \<open>Uthash_ptr\<close>: tables in memory, with their two doubly linked lists, and the refinement of
    the buckets by each operation; \<open>Uthash_run\<close>: sequences of operations in memory refine lists of entries;
    \<open>Uthash_select\<close>: selection into a second table, and what an insertion after it loses; \<open>Uthash_oom\<close>: an insertion
    that lacks memory is undone; \<open>Uthash_opt\<close>: the other hash functions, Bloom filters that never hide an entry, string
    and integer keys.
  \<^item> \<open>Utarray\<close>: arrays with the address of their buffer, which changes when they grow, and the 32-bit growing loop with when
    it ends; \<open>Utarray_ops\<close>: the rest of the
    header, with constructors and destructors, and who owns the strings of an array.
  \<^item> \<open>Umcounters\<close>: counters, with the mutex calls of every operation; uniqueness of names, sums, rates, locking;
    \<open>Umcounters_conc\<close>: several threads on one context; their calls linearise, end, and lose no increment.
  \<^item> \<open>Spscq\<close>: the ring at word level and as interleaved steps of a producer and a consumer; order and bounds under
    every interleaving; the locale \<open>spsc_channel\<close> for its users.
  \<^item> \<open>Umplg\<close>: the plugin manager; dispatch, loading, signals, standard data, the events of a shutdown.
  \<^item> \<open>Umatomic\<close>: atomic operations as single steps on a cell; distinct tickets, flags that are set once.
  \<^item> \<open>Umdaemon\<close>, \<open>Sysagentd\<close>: naming, signals, the loop, the main program; it ends exactly on SIGTERM.
    \<open>Agent\<close>: the main program with the Lua core as its Lua part.
  \<^item> \<open>Umrpc\<close>: the CoAP client, which nothing calls yet.
  \<^item> \<open>Umdb\<close>: the SQL statements and every return code over the SQLite interface, in the state monad.
  \<^item> \<open>Mosq_auth\<close>: login, bans, access control, payload headers of the two broker plugins.
  \<^item> \<open>Mqtt\<close>: connections, configuration, uploads, receive queue and signal thread, commands; uploads stay
    within their declared size in every reachable state, the handler of the receive signal is run on the messages in order.
  \<^item> \<open>Umlua_m\<close>, \<open>Umlua\<close>, \<open>Umlua_cfg\<close>: the module functions; environment manager and signal handler; configuration,
    environment threads, command line, start and shutdown. Handlers nest: what a handler gives back to the one
    that is running (arguments, mutexes) is proved for scripts of any nesting depth.
  \<^item> \<open>Lua_modules\<close>: the registration of C functions, over Lua's stack interface as a parameter; which functions a script finds.
  \<^item> \<open>Openwrt\<close>: signals over ubus; the locale \<open>signal_service\<close> states what raising a signal promises to
    Lua and ubus alike.
  \<^item> This theory: properties across components, from an MQTT message to a script and from a script to an upload.

  \<^bold>\<open>State and effects.\<close> State is passed explicitly. The plugin manager has a type parameter for the state of the
  surrounding program (\<open>wld\<close>), and handlers are addresses whose code is a parameter (\<open>hcode\<close>) that may change
  the whole manager; properties state what they need of it. Return codes are numbers as in the source;
  where the code would follow an invalid pointer or write out of bounds, the result is \<open>None\<close> or a
  flag. Memory is a function from addresses where descriptors are shared.

  \<^bold>\<open>Bounds and fuel.\<close> Arrays grow to at most \<open>2 ^ 31\<close> slots; a request for more never returns (\<open>utarray_reserve_diverges\<close>), and
  the operations are \<open>None\<close> there. The components that only append to an array use \<open>utarray_push_back\<close>, which computes over
  unbounded numbers what the operation does up to that length (\<open>utarray_push_back_plain\<close>). The counters of a hash table are natural
  numbers, which agree with the source for fewer than \<open>2 ^ 32\<close> items and buckets. Signed sums that may overflow in the source
  (the expiry of a token) wrap around at 32 bits. The ring holds for sizes below \<open>2 ^ 28\<close>, with the logarithm computed in floating point
  as a parameter that rounds up. Dispatch is sound for up to eight plugins, the first capacity of the array; beyond
  that it is not (\<open>umplg_load_moves_array\<close>). Counter names are shorter than 256 characters where
  a property says so. Loops that wait for something outside (the daemon loop, the thread of an environment,
  the loop that writes an upload, the flush of a queue) are partial functions into \<open>option\<close>, and when they return is proved. The
  script of an environment need not return; scripts of signal handlers and of the command line are taken to.
  \<open>lua_call\<close> bounds how deep handlers nest, as nothing in the code does; \<open>out_of_fuel\<close> records that the bound
  was reached, and the properties of handlers hold for every bound. Lua's own limit on nested C calls is not modelled.

  \<^bold>\<open>Not modelled.\<close> Libraries (SQLite, json-c, Lua, libjwt, Paho, libubus, libcoap, the broker) are parameters. Left out are
  the emission of keys for debugging in \<^verbatim>\<open>uthash.h\<close>; functions that only free memory or print a Lua stack; the text of most
  log messages; and the unit tests. Threads are interleaved for the ring and the counters; elsewhere
  a property is about one thread, with what others do to shared state as an argument where it matters.
\<close>

section \<open>From MQTT to Lua\<close>

lemma rows_items_add:
  assumes "items d = Some a" and "umplg_stdd_items_add mem (Some d) (Some t) = (rc, Some d')"
  shows "rows d' = rows d @ [std_items_copy t]"
  using assms by (auto simp: umplg_stdd_items_add_def rows_def)

lemma rx_data_rows:
  "rows (rx_data mem t pld nm) = [[(''mqtt_topic'', \<lparr>it_name = ''mqtt_topic'', it_value = t\<rparr>),
     (''mqtt_payload'', \<lparr>it_name = ''mqtt_payload'', it_value = c_str pld\<rparr>),
     (''mqtt_connection'', \<lparr>it_name = ''mqtt_connection'', it_value = nm\<rparr>)]]"
  by (simp add: rx_data_def rx_items_def rows_def umplg_stdd_items_add_def umplg_stdd_init_def umplg_stdd_item_add_def
      std_items_copy_def HASH_ADD_def HASH_ITER_def utarray_new_def Let_def)

lemma rx_data_table:
  assumes tab_def: "tab = get_args_table (Some (rx_data mem t pld nm))"
  shows "lua_index (lua_index tab (LInt 1)) (LStr ''mqtt_topic'') = LStr t"
    and "lua_index (lua_index tab (LInt 1)) (LStr ''mqtt_payload'') = LStr (c_str pld)"
    and "lua_index (lua_index tab (LInt 1)) (LStr ''mqtt_connection'') = LStr nm"
  by (simp_all add: tab_def get_args_table_rows rx_data_rows lua_index_def item_key_def upt_rec)

text \<open>
  (C16) A message received over MQTT reaches a Lua script unchanged: when the handler of the receive signal starts its
  script with the data the plugin made of the message, \<^verbatim>\<open>get_args\<close> gives the topic, the payload (up to its
  first NUL) and the name of the connection, each under its own key of the first row.
\<close>

theorem mqtt_message_in_lua:
  assumes "hs_frame False hs" and "lua_inv pm" and "lua_border (in_rawlen I)"
    and "io_in io = Some (rx_data mem t pld nm)"
    and "lua_sig_enter hs (in_loadfile I) (in_now I) p io pm = Inr (chunk, lag, pm1)"
  shows "\<exists>tab. mink_lua_get_args (in_rawlen I) (map_option mink_stdd (tls (wld pm1))) = [tab] \<and>
    lua_index (lua_index tab (LInt 1)) (LStr ''mqtt_topic'') = LStr t \<and>
    lua_index (lua_index tab (LInt 1)) (LStr ''mqtt_payload'') = LStr (c_str pld) \<and>
    lua_index (lua_index tab (LInt 1)) (LStr ''mqtt_connection'') = LStr nm"
  using enter_get_args [OF assms(1-3,5)] assms(4) rx_data_table [OF refl] by auto

lemma mqtt_message_in_lua_witness:
  "\<exists>chunk lag pm1 tab. lua_sig_enter idle_hcode (\<lambda>_ _. (LUA_OK, 3)) (\<lambda>_. \<lparr>tv_sec = 1, tv_nsec = 0\<rparr>) 5
      \<lparr>io_in = Some (rx_data 0 ''t/1'' ''hello'' ''c''), io_out = None, io_out_sz = 0, io_args = None\<rparr> (demo_lua_pm False) =
        Inr (chunk, lag, pm1) \<and>
    mink_lua_get_args (\<lambda>t. LEAST n. t (Suc n) = None) (map_option mink_stdd (tls (wld pm1))) = [tab] \<and>
    lua_index (lua_index tab (LInt 1)) (LStr ''mqtt_topic'') = LStr ''t/1''"
proof -
  let ?I = "demo_lua_in (Script_end 0 demo_cell) LUA_OK"
    and ?io = "\<lparr>io_in = Some (rx_data 0 ''t/1'' ''hello'' ''c''), io_out = None, io_out_sz = 0, io_args = None\<rparr>"
  have "\<exists>x. lua_sig_enter idle_hcode (in_loadfile ?I) (in_now ?I) 5 ?io (demo_lua_pm False) = Inr x"
    by (simp add: enter_cases sig_state_def sig_preload_def mtx_call_def upd_w_def demo_lua_w_def demo_lua_env_def sh_env_def Let_def)
  then obtain chunk lag pm1 where e: "lua_sig_enter idle_hcode (in_loadfile ?I) (in_now ?I) 5 ?io (demo_lua_pm False) = Inr (chunk, lag, pm1)"
    by (metis prod_cases3)
  have b: "lua_border (in_rawlen ?I)" using demo_border by (simp add: demo_lua_in_def)
  have io: "io_in ?io = Some (rx_data 0 ''t/1'' ''hello'' ''c'')" by simp
  from mqtt_message_in_lua [OF demo_hs_frame demo_lua_inv b io e] e show ?thesis
    by (simp add: demo_lua_in_def) blast
qed

section \<open>From Lua to MQTT\<close>

text \<open>The local command handler at address \<open>f\<close> is that of the MQTT plugin.\<close>

definition mqtt_cmd_at :: "mqtt_st hcode \<Rightarrow> fptr \<Rightarrow> paho \<Rightarrow> nat \<Rightarrow> nat \<Rightarrow> string \<Rightarrow> int \<Rightarrow> bool" where
  "mqtt_cmd_at hs f P mem addr uuid now \<longleftrightarrow> (\<forall>p cmd d pm rc d' s'.
     mqtt_run_local P mem addr uuid now cmd (Some d) (wld pm) = Some (rc, Some d', s') \<longrightarrow>
     call_cmd hs f p cmd d pm = (rc, d', pm\<lparr>wld := s'\<rparr>))"

lemma upload_args_rows:
  assumes "d = add_arg_rows mem 1 [a, b] (umplg_stdd_init (Some \<lparr>items = None\<rparr>))"
  shows "\<exists>x arr. d = Some x \<and> items x = Some arr \<and>
    arr_elts arr = [[('''', \<lparr>it_name = '''', it_value = a\<rparr>)], [('''', \<lparr>it_name = '''', it_value = b\<rparr>)]]"
  by (simp add: assms umplg_stdd_init_def umplg_stdd_item_add_def umplg_stdd_items_add_def std_items_copy_def
      HASH_ADD_def HASH_ITER_def utarray_new_def Let_def)

lemma bin_upload_rows:
  assumes "items x = Some arr" and "arr_elts arr = [[('''', \<lparr>it_name = '''', it_value = cn\<rparr>)], [('''', \<lparr>it_name = '''', it_value = sz\<rparr>)]]"
    and "mqtt_mngr_get_conn cn s = Some c" and "cn_bin_upl_path (conn_mem s c) = Some path" and "length path < 128"
    and "0 < c_atoi sz" and "HASH_FIND (bin_uploads s) uuid = None"
  shows "\<exists>x' s'. impl_mqtt_bin_upload mem addr uuid now (Some x) s = Some (Some x', s') \<and>
    rows x' = rows x @ [[(''file_uuid'', \<lparr>it_name = ''file_uuid'', it_value = uuid\<rparr>)]] \<and>
    HASH_FIND (bin_uploads s') uuid = Some addr \<and>
    file_mem s' addr = \<lparr>fd_uuid = uuid, fd_path = path, fd_size = of_int (c_atoi sz), fd_ts = now\<rparr>"
proof -
  have "(of_int (c_atoi sz) :: u64) \<noteq> 0"
  proof -
    have "uint (of_int (c_atoi sz) :: u64) = c_atoi sz"
      using assms(6) c_int_range(2) [of "c_strtol sz"] by (simp add: unsigned_of_int take_bit_int_eq_self c_atoi_def)
    then show ?thesis using assms(6) by auto
  qed
  then show ?thesis using assms
    by (auto simp: impl_mqtt_bin_upload_def utarray_len_def first_col_def mqtt_bin_upl_add_def umplg_stdd_item_add_def
        umplg_stdd_items_add_def rows_def std_items_copy_def HASH_ADD_def HASH_ITER_def HASH_FIND_def Let_def)
qed

text \<open>
  (C17) A script starts a binary upload: calling the upload command with the name of a connection and a positive size runs
  the MQTT plugin through the plugin manager, registers an upload of that size in the directory
  of the connection, and gives the script a table whose third row (after its two arguments) holds the identifier
  under which the upload was registered.
\<close>

theorem lua_starts_upload:
  assumes "lua_istable L" and "lua_objlen L = 3" and "cmd_arg (lua_elem L 1) = ''CMD_MQTT_BINARY_UPLOAD''"
    and "cmd_arg (lua_elem L 2) = cn" and "cmd_arg (lua_elem L 3) = sz"
    and "umplg_get_cmd_id pm ''CMD_MQTT_BINARY_UPLOAD'' = cmd_num CMD_MQTT_BINARY_UPLOAD"
    and "HASH_FIND (hooks pm) (cmd_num CMD_MQTT_BINARY_UPLOAD) = Some hook"
    and "elt_deref (plgs pm) (hk_plgp hook) = Some pd" and "pd_cmdh_l pd = Some f"
    and "mqtt_cmd_at hs f P mem' addr uuid now"
    and "mqtt_mngr_get_conn cn (wld pm) = Some c" and "cn_bin_upl_path (conn_mem (wld pm) c) = Some path"
    and "length path < 128" and "0 < c_atoi sz"
    and "HASH_FIND (bin_uploads (wld pm)) uuid = None"
  shows "\<exists>tab pm'. mink_lua_do_cmd_call hs mem L pm = Some ([tab], pm') \<and>
    lua_index (lua_index tab (LInt 3)) (LStr ''file_uuid'') = LStr uuid \<and>
    HASH_FIND (bin_uploads (wld pm')) uuid = Some addr \<and>
    file_mem (wld pm') addr = \<lparr>fd_uuid = uuid, fd_path = path, fd_size = of_int (c_atoi sz), fd_ts = now\<rparr>"
proof -
  define d where "d = add_arg_rows mem 1 [cn, sz] (umplg_stdd_init (Some \<lparr>items = None\<rparr>))"
  obtain x arr where x: "d = Some x" "items x = Some arr"
    "arr_elts arr = [[('''', \<lparr>it_name = '''', it_value = cn\<rparr>)], [('''', \<lparr>it_name = '''', it_value = sz\<rparr>)]]"
    using upload_args_rows [OF d_def] by blast
  from bin_upload_rows [OF x(2,3) assms(11-15), of mem' addr now] obtain x' s' where
    u: "impl_mqtt_bin_upload mem' addr uuid now (Some x) (wld pm) = Some (Some x', s')"
    and r: "rows x' = rows x @ [[(''file_uuid'', \<lparr>it_name = ''file_uuid'', it_value = uuid\<rparr>)]]"
    and s': "HASH_FIND (bin_uploads s') uuid = Some addr"
      "file_mem s' addr = \<lparr>fd_uuid = uuid, fd_path = path, fd_size = of_int (c_atoi sz), fd_ts = now\<rparr>" by blast
  let ?i = "\<lparr>id_type = UMPLG_DT_STANDARD, id_data = Some x\<rparr>"
  have "mqtt_run_local P mem' addr uuid now (cmd_num CMD_MQTT_BINARY_UPLOAD) (Some ?i) (wld pm) = Some (0, Some (?i\<lparr>id_data := Some x'\<rparr>), s')"
    using u by (simp add: mqtt_run_local_def)
  with assms(10) have "call_cmd hs f (hk_plgp hook) (cmd_num CMD_MQTT_BINARY_UPLOAD) ?i pm = (0, ?i\<lparr>id_data := Some x'\<rparr>, pm\<lparr>wld := s'\<rparr>)"
    unfolding mqtt_cmd_at_def by blast
  then have "umplg_run hs pm (cmd_num CMD_MQTT_BINARY_UPLOAD) ?i True = Some (0, ?i\<lparr>id_data := Some x'\<rparr>, pm\<lparr>wld := s'\<rparr>)"
    using assms(7-9) by (simp add: umplg_run_def)
  then have "mink_lua_cmd_call hs mem pm [''CMD_MQTT_BINARY_UPLOAD'', cn, sz] (umplg_stdd_init (Some \<lparr>items = None\<rparr>)) =
      Some (0, Some x', pm\<lparr>wld := s'\<rparr>)"
    using assms(6) x(1) unfolding mink_lua_cmd_call_def d_def by (simp add: umplg_stdd_init_def)
  then have c: "mink_lua_do_cmd_call hs mem L pm = Some ([cmd_call_table (Some x')], pm\<lparr>wld := s'\<rparr>)"
    using assms(1-5) by (simp add: mink_lua_do_cmd_call_def upt_rec numeral_eq_Suc)
  have "rows x' = [[('''', \<lparr>it_name = '''', it_value = cn\<rparr>)], [('''', \<lparr>it_name = '''', it_value = sz\<rparr>)],
      [(''file_uuid'', \<lparr>it_name = ''file_uuid'', it_value = uuid\<rparr>)]]"
    using r x(2,3) by (simp add: rows_def)
  then have "lua_index (lua_index (cmd_call_table (Some x')) (LInt 3)) (LStr ''file_uuid'') = LStr uuid"
    by (simp add: cmd_call_table_rows lua_index_def item_key_def upt_rec numeral_eq_Suc)
  with c s' show ?thesis by simp
qed

definition demo_upl_hs :: "mqtt_st hcode" where
  "demo_upl_hs = idle_hcode\<lparr>call_cmd := (\<lambda>f p cmd d pm.
     case mqtt_run_local demo_paho 0 5 demo_uuid 100 cmd (Some d) (wld pm) of
       Some (rc, Some d', s') \<Rightarrow> (rc, d', pm\<lparr>wld := s'\<rparr>) | _ \<Rightarrow> (- 1, d, pm))\<rparr>"

definition demo_upl_pm :: "mqtt_st umplg_mngr" where
  "demo_upl_pm = (umplg_new_mngr None (\<lambda>_. demo_sh) (demo_mqtt [] Map.empty))\<lparr>
     hooks := [(37, \<lparr>hk_id = 37, hk_plgp = (1, 0)\<rparr>)],
     plgs := \<lparr>arr_n = 8, arr_d = 1, arr_elts = [\<lparr>pd_handle = 1, pd_name = ''mqtt'', pd_type = 0, pd_cmdh = 2,
       pd_cmdh_l = Some 3, pd_termh = 4, pd_data = None, pd_terminated = False\<rparr>]\<rparr>\<rparr>"

definition demo_str_cell :: "string \<Rightarrow> lua_cell" where
  "demo_str_cell x = demo_cell\<lparr>c_tostring := x\<rparr>"

definition demo_upl_call :: lua_args where
  "demo_upl_call = \<lparr>lua_gettop = 1, lua_at = (\<lambda>_. demo_cell), lua_istable = True, lua_objlen = 3,
     lua_elem = (\<lambda>i. demo_str_cell (if i = 1 then ''CMD_MQTT_BINARY_UPLOAD'' else if i = 2 then ''c'' else ''3''))\<rparr>"

lemma lua_starts_upload_witness:
  "\<exists>tab pm'. mink_lua_do_cmd_call demo_upl_hs (\<lambda>_. 0) demo_upl_call demo_upl_pm = Some ([tab], pm') \<and>
    lua_index (lua_index tab (LInt 3)) (LStr ''file_uuid'') = LStr demo_uuid \<and>
    HASH_FIND (bin_uploads (wld pm')) demo_uuid = Some 5"
proof -
  have w: "wld demo_upl_pm = demo_mqtt [] Map.empty"
    by (simp add: demo_upl_pm_def umplg_new_mngr_def add_cmd_id_map_item_def)
  have L: "lua_istable demo_upl_call" "lua_objlen demo_upl_call = 3"
    "cmd_arg (lua_elem demo_upl_call 1) = ''CMD_MQTT_BINARY_UPLOAD''"
    "cmd_arg (lua_elem demo_upl_call 2) = ''c''" "cmd_arg (lua_elem demo_upl_call 3) = ''3''"
    by (simp_all add: demo_upl_call_def cmd_arg_def demo_str_cell_def demo_cell_def)
  have i: "umplg_get_cmd_id demo_upl_pm ''CMD_MQTT_BINARY_UPLOAD'' = cmd_num CMD_MQTT_BINARY_UPLOAD"
    by (simp add: umplg_get_cmd_id_def demo_upl_pm_def umplg_new_mngr_def add_cmd_id_map_item_def HASH_FIND_ADD)
  have h: "HASH_FIND (hooks demo_upl_pm) (cmd_num CMD_MQTT_BINARY_UPLOAD) = Some \<lparr>hk_id = 37, hk_plgp = (1, 0)\<rparr>"
    "elt_deref (plgs demo_upl_pm) (hk_plgp \<lparr>hk_id = 37, hk_plgp = (1, 0)\<rparr>) = Some \<lparr>pd_handle = 1, pd_name = ''mqtt'', pd_type = 0,
       pd_cmdh = 2, pd_cmdh_l = Some 3, pd_termh = 4, pd_data = None, pd_terminated = False\<rparr>"
    by (simp_all add: demo_upl_pm_def HASH_FIND_def elt_deref_def utarray_len_def)
  have a: "mqtt_cmd_at demo_upl_hs 3 demo_paho 0 5 demo_uuid 100"
    by (simp add: mqtt_cmd_at_def demo_upl_hs_def)
  have m: "mqtt_mngr_get_conn ''c'' (wld demo_upl_pm) = Some 7" "cn_bin_upl_path (conn_mem (wld demo_upl_pm) 7) = Some ''/tmp''"
    "length ''/tmp'' < 128" "0 < c_atoi ''3''" "HASH_FIND (bin_uploads (wld demo_upl_pm)) demo_uuid = None"
    by (simp_all add: w demo_mqtt_def mqtt_mngr_get_conn_def HASH_FIND_def demo_conn_def c_atoi_def c_strtol_def c_isspace_def c_digit_def)
  from lua_starts_upload [OF L i h _ a m] show ?thesis by (simp add: umplgd.simps) blast
qed

section \<open>From Lua to the database\<close>






end
